(* ===== verification/Prelude.thy ===== *)
theory Prelude
  imports Main "HOL-Library.Word"
begin

text \<open>
  Shared vocabulary of the StoneleafDB development.  Machine integers keep
  their width (\<open>u8\<close> to \<open>u64\<close>), a \<open>std::vector<char>\<close> is a list of bytes, and
  a C++ function that may throw returns \<open>exn + 'a\<close>.  The generic lemmas
  on lists and words used by several components live here as well.
\<close>

unbundle bit_operations_syntax

type_synonym u8 = "8 word"
type_synonym u16 = "16 word"
type_synonym u32 = "32 word"
type_synonym u64 = "64 word"
type_synonym bytes = "8 word list"

text \<open>The exception classes of the C++ sources; the message is dropped.\<close>

datatype exn =
    Runtime_error
  | Invalid_argument
  | Out_of_range
  | Logic_error
  | Length_error
  | System_error

type_synonym 'a res = "exn + 'a"

text \<open>Sequencing of two fallible computations: the first error wins.\<close>

fun res_bind :: "'e + 'a \<Rightarrow> ('a \<Rightarrow> 'e + 'b) \<Rightarrow> 'e + 'b" where
  "res_bind (Inl e) f = Inl e"
| "res_bind (Inr x) f = f x"

named_theorems codec_simps \<open>reading back what an encoder has written\<close>
named_theorems width_simps \<open>lengths of encoded fields\<close>

lemma res_bind_Inr_iff [simp]:
  "(res_bind r f = Inr y) = (\<exists>x. r = Inr x \<and> f x = Inr y)"
  by (cases r) auto

section \<open>Lists\<close>

lemma take_length_append [simp]: "n = length xs \<Longrightarrow> take n (xs @ ys) = xs"
  by simp

lemma drop_length_append [simp]: "n = length xs \<Longrightarrow> drop n (xs @ ys) = ys"
  by simp

lemma nth_append_offset:
  "n = length xs \<Longrightarrow> i < length ys \<Longrightarrow> (xs @ ys @ zs) ! (n + i) = ys ! i"
  by (simp add: nth_append)

text \<open>Overwriting a stretch of a buffer by consecutive assignments.\<close>

fun write_at :: "'a list \<Rightarrow> nat \<Rightarrow> 'a list \<Rightarrow> 'a list" where
  "write_at buf off [] = buf"
| "write_at buf off (b # bs) = write_at (buf[off := b]) (Suc off) bs"

lemma length_write_at [simp, width_simps]: "length (write_at buf off bs) = length buf"
  by (induction buf off bs rule: write_at.induct) auto

lemma write_at_append:
  "off = length pre \<Longrightarrow> length mid = length bs \<Longrightarrow>
   write_at (pre @ mid @ post) off bs = pre @ bs @ post"
proof (induction bs arbitrary: pre mid off)
  case Nil
  then show ?case by simp
next
  case (Cons b bs)
  then obtain m mid' where mid: "mid = m # mid'" by (cases mid) auto
  have "write_at ((pre @ [b]) @ mid' @ post) (Suc off) bs = (pre @ [b]) @ bs @ post"
    using Cons.prems mid by (intro Cons.IH) auto
  then show ?case using Cons.prems mid by simp
qed

lemma write_at_take_drop:
  assumes "off + length bs \<le> length buf"
  shows "write_at buf off bs = take off buf @ bs @ drop (off + length bs) buf"
proof -
  have "buf = take off buf @ take (length bs) (drop off buf) @ drop (off + length bs) buf"
    by (metis add.commute append_take_drop_id drop_drop)
  moreover have "write_at (take off buf @ take (length bs) (drop off buf) @ drop (off + length bs) buf)
      off bs = take off buf @ bs @ drop (off + length bs) buf"
    using assms by (intro write_at_append) auto
  ultimately show ?thesis by simp
qed

section \<open>Words\<close>

lemma of_nat_unat_id [simp]: "of_nat (unat (w :: 'a::len word)) = w"
  by simp

lemma unat_of_nat_lt:
  "n < 2 ^ LENGTH('a) \<Longrightarrow> unat (of_nat n :: 'a::len word) = n"
  by (simp add: unat_of_nat take_bit_nat_eq_self)

lemma unat_bound: "unat (w :: 'a::len word) < 2 ^ LENGTH('a)"
  by simp

end
