(* ===== verification/Endian.thy ===== *)
theory Endian
  imports Prelude
begin

text \<open>
  Big-endian integer fields, after \<open>src/src/encoding/Endian.cpp\<close>.  A
  \<open>char *\<close> into a buffer is the buffer together with an offset; the
  \<open>put\<close> functions assign the bytes one by one, the \<open>get\<close> functions
  combine them by shift and or.  The laws at the end (\<open>get\<close> after \<open>put\<close>, and
  \<open>get\<close> elsewhere) are what every record and page codec relies on.
\<close>

unbundle bit_operations_syntax

definition put_u32_be :: "bytes \<Rightarrow> nat \<Rightarrow> u32 \<Rightarrow> bytes" where
  "put_u32_be out p value = out
     [p := ucast (drop_bit 24 value AND 0xFF),
      p + 1 := ucast (drop_bit 16 value AND 0xFF),
      p + 2 := ucast (drop_bit 8 value AND 0xFF),
      p + 3 := ucast (value AND 0xFF)]"

definition get_u32_be :: "bytes \<Rightarrow> nat \<Rightarrow> u32" where
  "get_u32_be inp p =
     push_bit 24 (ucast (inp ! p)) OR
     push_bit 16 (ucast (inp ! (p + 1))) OR
     push_bit 8 (ucast (inp ! (p + 2))) OR
     ucast (inp ! (p + 3))"

definition put_u64_be :: "bytes \<Rightarrow> nat \<Rightarrow> u64 \<Rightarrow> bytes" where
  "put_u64_be out p value = out
     [p := ucast (drop_bit 56 value AND 0xFF),
      p + 1 := ucast (drop_bit 48 value AND 0xFF),
      p + 2 := ucast (drop_bit 40 value AND 0xFF),
      p + 3 := ucast (drop_bit 32 value AND 0xFF),
      p + 4 := ucast (drop_bit 24 value AND 0xFF),
      p + 5 := ucast (drop_bit 16 value AND 0xFF),
      p + 6 := ucast (drop_bit 8 value AND 0xFF),
      p + 7 := ucast (value AND 0xFF)]"

definition get_u64_be :: "bytes \<Rightarrow> nat \<Rightarrow> u64" where
  "get_u64_be inp p =
     push_bit 56 (ucast (inp ! p)) OR
     push_bit 48 (ucast (inp ! (p + 1))) OR
     push_bit 40 (ucast (inp ! (p + 2))) OR
     push_bit 32 (ucast (inp ! (p + 3))) OR
     push_bit 24 (ucast (inp ! (p + 4))) OR
     push_bit 16 (ucast (inp ! (p + 5))) OR
     push_bit 8 (ucast (inp ! (p + 6))) OR
     ucast (inp ! (p + 7))"

definition put_u16_be :: "bytes \<Rightarrow> nat \<Rightarrow> u16 \<Rightarrow> bytes" where
  "put_u16_be out p value = out
     [p := ucast (drop_bit 8 value AND 0xFF),
      p + 1 := ucast (value AND 0xFF)]"

definition get_u16_be :: "bytes \<Rightarrow> nat \<Rightarrow> u16" where
  "get_u16_be inp p =
     ucast (push_bit 8 (ucast (inp ! p) :: u32) OR (ucast (inp ! (p + 1)) :: u32))"

definition put_u8_be :: "bytes \<Rightarrow> nat \<Rightarrow> u8 \<Rightarrow> bytes" where
  "put_u8_be out p value = out[p := value AND 0xFF]"

definition get_u8_be :: "bytes \<Rightarrow> nat \<Rightarrow> u8" where
  "get_u8_be inp p = inp ! p"

section \<open>The field contract\<close>

text \<open>
  What a record or page codec relies on when it lays fields out in a
  buffer: a write keeps the buffer's length and everything outside its own
  window, a read depends on its window only, and reading back gives the value
  written.
\<close>

locale byte_field =
  fixes put :: "bytes \<Rightarrow> nat \<Rightarrow> 'a \<Rightarrow> bytes"
    and get :: "bytes \<Rightarrow> nat \<Rightarrow> 'a"
    and width :: nat
  assumes put_length: "length (put b p v) = length b"
    and put_frame: "i < p \<or> p + width \<le> i \<Longrightarrow> put b p v ! i = b ! i"
    and get_local: "(\<And>i. i < width \<Longrightarrow> b ! (p + i) = c ! (q + i)) \<Longrightarrow> get b p = get c q"
    and get_put: "p + width \<le> length b \<Longrightarrow> get (put b p v) p = v"
begin

lemma get_unaffected:
  assumes "\<And>i. p \<le> i \<Longrightarrow> i < p + width \<Longrightarrow> c ! i = b ! i"
  shows "get c p = get b p"
  using assms by (intro get_local) simp

lemma get_append1:
  "p + width \<le> length b \<Longrightarrow> get (b @ c) p = get b p"
  by (rule get_unaffected) (simp add: nth_append)

lemma get_append2:
  "p = length b + q \<Longrightarrow> get (b @ c) p = get c q"
  by (rule get_local) (simp add: nth_append)

lemma get_drop:
  "p + q + width \<le> length b \<Longrightarrow> get (drop p b) q = get b (p + q)"
  by (rule get_local) (simp add: add.assoc)

lemma get_take:
  "p + width \<le> n \<Longrightarrow> get (take n b) p = get b p"
  by (rule get_unaffected) simp

lemma put_take_before:
  "n \<le> p \<Longrightarrow> take n (put b p v) = take n b"
  by (rule nth_equalityI) (auto simp: put_length put_frame)

lemma put_drop_after:
  "p + width \<le> n \<Longrightarrow> drop n (put b p v) = drop n b"
  by (rule nth_equalityI) (auto simp: put_length put_frame)

end

lemma byte_and: "(ucast (w AND 0xFF) :: u8) = ucast (w :: 'a::len word)"
proof -
  have "w AND 0xFF = take_bit 8 w" by (simp add: take_bit_eq_mask mask_eq_exp_minus_1)
  then show ?thesis
    by (intro bit_word_eqI) (auto simp: bit_simps dest: bit_imp_le_length)
qed

lemma byte_ucast: "ucast (ucast (v :: 'a::len word) :: u8) = take_bit 8 v"
  by (rule bit_word_eqI) (auto simp: bit_simps)

lemma byte_join:
  "push_bit k (take_bit 8 (drop_bit k v)) OR take_bit k v = take_bit (k + 8) (v :: 'a::len word)"
  by (rule bit_word_eqI) (auto simp: bit_simps)

lemma join_u16:
  "(ucast (push_bit 8 (ucast (ucast (drop_bit 8 v) :: u8) :: u32)
    OR (ucast (ucast v :: u8) :: u32)) :: u16) = v"
  by (rule bit_word_eqI) (auto simp: bit_simps)

lemmas be_defs = put_u8_be_def put_u16_be_def put_u32_be_def put_u64_be_def
  get_u8_be_def get_u16_be_def get_u32_be_def get_u64_be_def

lemma byte_and_self: "(v :: u8) AND 0xFF = v"
  using byte_and[of v] by simp

interpretation f8: byte_field put_u8_be get_u8_be 1
  by unfold_locales (auto simp: be_defs byte_and_self)

interpretation f16: byte_field put_u16_be get_u16_be 2
  apply unfold_locales
  subgoal by (simp add: be_defs)
  subgoal by (auto simp: be_defs)
  subgoal premises prems for b p c q
    using prems[of 0] prems[of 1] by (simp add: be_defs)
  subgoal by (simp add: be_defs byte_and join_u16)
  done

interpretation f32: byte_field put_u32_be get_u32_be 4
  apply unfold_locales
  subgoal by (simp add: be_defs)
  subgoal by (auto simp: be_defs)
  subgoal premises prems for b p c q
    using prems[of 0] prems[of 1] prems[of 2] prems[of 3] by (simp add: be_defs)
  subgoal for p b v
    using take_bit_word_eq_self[of 32 v]
    by (simp add: be_defs byte_and byte_ucast byte_join)
  done

interpretation f64: byte_field put_u64_be get_u64_be 8
  apply unfold_locales
  subgoal by (simp add: be_defs)
  subgoal by (auto simp: be_defs)
  subgoal premises prems for b p c q
    using prems[of 0] prems[of 1] prems[of 2] prems[of 3] prems[of 4] prems[of 5] prems[of 6]
      prems[of 7] by (simp add: be_defs)
  subgoal for p b v
    using take_bit_word_eq_self[of 64 v]
    by (simp add: be_defs byte_and byte_ucast byte_join)
  done

section \<open>Disjoint fields\<close>

lemmas put_length [simp, width_simps] =
  f8.put_length f16.put_length f32.put_length f64.put_length

lemmas put_frames = f8.put_frame f16.put_frame f32.put_frame f64.put_frame

lemmas get_put [codec_simps] = f8.get_put f16.get_put f32.get_put f64.get_put

lemma write_at_frame:
  "i < p \<or> p + length bs \<le> i \<Longrightarrow> write_at b p bs ! i = b ! i"
  by (induction b p bs rule: write_at.induct) auto

lemma get_u8_frame [codec_simps]:
  "p + 1 \<le> q \<or> q + 1 \<le> p \<Longrightarrow> get_u8_be (put_u8_be b q v8) p = get_u8_be b p"
  "p + 1 \<le> q \<or> q + 2 \<le> p \<Longrightarrow> get_u8_be (put_u16_be b q v16) p = get_u8_be b p"
  "p + 1 \<le> q \<or> q + 4 \<le> p \<Longrightarrow> get_u8_be (put_u32_be b q v32) p = get_u8_be b p"
  "p + 1 \<le> q \<or> q + 8 \<le> p \<Longrightarrow> get_u8_be (put_u64_be b q v64) p = get_u8_be b p"
  "p + 1 \<le> q \<or> q + length bs \<le> p \<Longrightarrow> get_u8_be (write_at b q bs) p = get_u8_be b p"
  by (rule f8.get_unaffected; auto intro!: put_frames write_at_frame)+

lemma get_u16_frame [codec_simps]:
  "p + 2 \<le> q \<or> q + 1 \<le> p \<Longrightarrow> get_u16_be (put_u8_be b q v8) p = get_u16_be b p"
  "p + 2 \<le> q \<or> q + 2 \<le> p \<Longrightarrow> get_u16_be (put_u16_be b q v16) p = get_u16_be b p"
  "p + 2 \<le> q \<or> q + 4 \<le> p \<Longrightarrow> get_u16_be (put_u32_be b q v32) p = get_u16_be b p"
  "p + 2 \<le> q \<or> q + 8 \<le> p \<Longrightarrow> get_u16_be (put_u64_be b q v64) p = get_u16_be b p"
  "p + 2 \<le> q \<or> q + length bs \<le> p \<Longrightarrow> get_u16_be (write_at b q bs) p = get_u16_be b p"
  by (rule f16.get_unaffected; auto intro!: put_frames write_at_frame)+

lemma get_u32_frame [codec_simps]:
  "p + 4 \<le> q \<or> q + 1 \<le> p \<Longrightarrow> get_u32_be (put_u8_be b q v8) p = get_u32_be b p"
  "p + 4 \<le> q \<or> q + 2 \<le> p \<Longrightarrow> get_u32_be (put_u16_be b q v16) p = get_u32_be b p"
  "p + 4 \<le> q \<or> q + 4 \<le> p \<Longrightarrow> get_u32_be (put_u32_be b q v32) p = get_u32_be b p"
  "p + 4 \<le> q \<or> q + 8 \<le> p \<Longrightarrow> get_u32_be (put_u64_be b q v64) p = get_u32_be b p"
  "p + 4 \<le> q \<or> q + length bs \<le> p \<Longrightarrow> get_u32_be (write_at b q bs) p = get_u32_be b p"
  by (rule f32.get_unaffected; auto intro!: put_frames write_at_frame)+

lemma get_u64_frame [codec_simps]:
  "p + 8 \<le> q \<or> q + 1 \<le> p \<Longrightarrow> get_u64_be (put_u8_be b q v8) p = get_u64_be b p"
  "p + 8 \<le> q \<or> q + 2 \<le> p \<Longrightarrow> get_u64_be (put_u16_be b q v16) p = get_u64_be b p"
  "p + 8 \<le> q \<or> q + 4 \<le> p \<Longrightarrow> get_u64_be (put_u32_be b q v32) p = get_u64_be b p"
  "p + 8 \<le> q \<or> q + 8 \<le> p \<Longrightarrow> get_u64_be (put_u64_be b q v64) p = get_u64_be b p"
  "p + 8 \<le> q \<or> q + length bs \<le> p \<Longrightarrow> get_u64_be (write_at b q bs) p = get_u64_be b p"
  by (rule f64.get_unaffected; auto intro!: put_frames write_at_frame)+

section \<open>Fields as byte strings\<close>

definition be16 :: "u16 \<Rightarrow> bytes" where
  "be16 v = [ucast (drop_bit 8 v), ucast v]"

definition be32 :: "u32 \<Rightarrow> bytes" where
  "be32 v = [ucast (drop_bit 24 v), ucast (drop_bit 16 v), ucast (drop_bit 8 v), ucast v]"

definition be64 :: "u64 \<Rightarrow> bytes" where
  "be64 v = [ucast (drop_bit 56 v), ucast (drop_bit 48 v), ucast (drop_bit 40 v),
     ucast (drop_bit 32 v), ucast (drop_bit 24 v), ucast (drop_bit 16 v), ucast (drop_bit 8 v),
     ucast v]"

lemma length_be [simp, width_simps]:
  "length (be16 v16) = 2" "length (be32 v32) = 4" "length (be64 v64) = 8"
  by (simp_all add: be16_def be32_def be64_def)

lemma offset_Suc:
  "p + 2 = Suc (Suc p)" "p + 3 = Suc (Suc (Suc p))" "p + 4 = Suc (Suc (Suc (Suc p)))"
  "p + 5 = Suc (Suc (Suc (Suc (Suc p))))" "p + 6 = Suc (Suc (Suc (Suc (Suc (Suc p)))))"
  "p + 7 = Suc (Suc (Suc (Suc (Suc (Suc (Suc p))))))"
  by simp_all

lemma put_be:
  "put_u8_be b p v8 = write_at b p [v8]"
  "put_u16_be b p v16 = write_at b p (be16 v16)"
  "put_u32_be b p v32 = write_at b p (be32 v32)"
  "put_u64_be b p v64 = write_at b p (be64 v64)"
  by (simp_all add: put_u8_be_def put_u16_be_def put_u32_be_def put_u64_be_def be16_def be32_def
      be64_def byte_and byte_and_self offset_Suc)

lemma get_be [codec_simps]:
  "p = length pre \<Longrightarrow> get_u16_be (pre @ be16 v16 @ post) p = v16"
  "p = length pre \<Longrightarrow> get_u32_be (pre @ be32 v32 @ post) p = v32"
  "p = length pre \<Longrightarrow> get_u64_be (pre @ be64 v64 @ post) p = v64"
  using f16.get_put[of p "pre @ be16 v16 @ post" v16] f32.get_put[of p "pre @ be32 v32 @ post" v32]
    f64.get_put[of p "pre @ be64 v64 @ post" v64]
    write_at_append[of p pre "be16 v16" "be16 v16" post]
    write_at_append[of p pre "be32 v32" "be32 v32" post]
    write_at_append[of p pre "be64 v64" "be64 v64" post]
  by (simp_all add: put_be)

lemma be64_get:
  assumes "length d = 8"
  shows "be64 (get_u64_be d 0) = d"
proof -
  obtain b0 b1 b2 b3 b4 b5 b6 b7 where d: "d = [b0, b1, b2, b3, b4, b5, b6, b7]"
    using assms by (auto simp: numeral_eq_Suc length_Suc_conv)
  have high: "bit b n \<Longrightarrow> n < 8" for b :: u8 and n
    using bit_imp_le_length[of b n] by simp
  show ?thesis
    unfolding be64_def d get_u64_be_def list.inject
    by (intro conjI bit_word_eqI refl; auto simp: bit_simps dest: high)
qed

lemma be32_get:
  assumes "length d = 4"
  shows "be32 (get_u32_be d 0) = d"
proof -
  obtain b0 b1 b2 b3 where d: "d = [b0, b1, b2, b3]"
    using assms by (auto simp: numeral_eq_Suc length_Suc_conv)
  have high: "bit b n \<Longrightarrow> n < 8" for b :: u8 and n
    using bit_imp_le_length[of b n] by simp
  show ?thesis
    unfolding be32_def d get_u32_be_def list.inject
    by (intro conjI bit_word_eqI refl; auto simp: bit_simps dest: high)
qed

lemma be32_get_slice:
  "p + 4 \<le> length b \<Longrightarrow> be32 (get_u32_be b p) = take 4 (drop p b)"
  using be32_get[of "take 4 (drop p b)"] f32.get_take[of 0 4 "drop p b"] f32.get_drop[of p 0 b]
  by simp

lemma be16_get:
  assumes "length d = 2"
  shows "be16 (get_u16_be d 0) = d"
proof -
  obtain b0 b1 where d: "d = [b0, b1]"
    using assms by (auto simp: numeral_eq_Suc length_Suc_conv)
  have high: "bit b n \<Longrightarrow> n < 8" for b :: u8 and n
    using bit_imp_le_length[of b n] by simp
  show ?thesis
    unfolding be16_def d get_u16_be_def list.inject
    by (intro conjI bit_word_eqI refl; auto simp: bit_simps dest: high)
qed

lemma be16_get_slice:
  "p + 2 \<le> length b \<Longrightarrow> be16 (get_u16_be b p) = take 2 (drop p b)"
  using be16_get[of "take 2 (drop p b)"] f16.get_take[of 0 2 "drop p b"] f16.get_drop[of p 0 b]
  by simp

lemma be64_get_slice:
  "p + 8 \<le> length b \<Longrightarrow> be64 (get_u64_be b p) = take 8 (drop p b)"
  using be64_get[of "take 8 (drop p b)"] f64.get_take[of 0 8 "drop p b"] f64.get_drop[of p 0 b]
  by simp

text \<open>Filling a zeroed buffer from left to right.\<close>

lemma write_next:
  "p = length pre \<Longrightarrow> length bs \<le> n \<Longrightarrow>
   write_at (pre @ replicate n 0) p bs = (pre @ bs) @ replicate (n - length bs) 0"
  using write_at_append[of p pre "replicate (length bs) 0" bs "replicate (n - length bs) 0"]
  by (simp flip: replicate_add)

lemma write_first:
  "length bs \<le> n \<Longrightarrow> write_at (replicate n 0) 0 bs = bs @ replicate (n - length bs) 0"
  using write_next[of 0 "[]" bs n] by simp

end
