(* ===== verification/KeyCodec.thy ===== *)
theory KeyCodec
  imports Endian
begin

text \<open>
  Keys of the store, after \<open>src/include/Key.h\<close> and
  \<open>src/src/encoding/KeyCodec.cpp\<close>: the typed payload, its validation, its
  order, and the encoding of each C++ alternative of \<open>KeyInput\<close>.  The lemmas
  show that the comparison is a total preorder whose equivalence is equality on
  valid keys, that decoding inverts encoding, and that the byte order of the
  encoded integers is their numeric order.
\<close>

unbundle bit_operations_syntax

section \<open>Data\<close>

datatype KeyType = KBool | KUInt64 | KInt64 | KString | KBytes

fun key_tag :: "KeyType \<Rightarrow> nat" where
  "key_tag KBool = 0"
| "key_tag KUInt64 = 1"
| "key_tag KInt64 = 2"
| "key_tag KString = 3"
| "key_tag KBytes = 4"

lemma key_tag_inject [simp]: "(key_tag s = key_tag t) = (s = t)"
  by (cases s; cases t; simp)

instantiation KeyType :: linorder
begin

definition less_eq_KeyType :: "KeyType \<Rightarrow> KeyType \<Rightarrow> bool" where
  "less_eq_KeyType s t = (key_tag s \<le> key_tag t)"

definition less_KeyType :: "KeyType \<Rightarrow> KeyType \<Rightarrow> bool" where
  "less_KeyType s t = (key_tag s < key_tag t)"

instance
  by standard (auto simp: less_eq_KeyType_def less_KeyType_def)

end

record Key =
  ktype :: KeyType
  ksize :: u32
  kdata :: bytes

text \<open>An \<open>std::int64_t\<close> is its 64-bit pattern; \<open>sint\<close> reads its value.\<close>

datatype KeyInput =
    KI_bool bool
  | KI_uint64 u64
  | KI_int64 u64
  | KI_string bytes
  | KI_bytes bytes

definition MAX_PAYLOAD_SIZE :: nat where
  "MAX_PAYLOAD_SIZE = 65535"

section \<open>Comparison and validation\<close>

fun compare_bytes :: "bytes \<Rightarrow> bytes \<Rightarrow> int" where
  "compare_bytes [] [] = 0"
| "compare_bytes [] (_ # _) = -1"
| "compare_bytes (_ # _) [] = 1"
| "compare_bytes (l # ls) (r # rs) =
     (if l < r then -1 else if l > r then 1 else compare_bytes ls rs)"

definition key_compare :: "Key \<Rightarrow> Key \<Rightarrow> int" where
  "key_compare lhs rhs =
     (if ktype lhs \<noteq> ktype rhs
      then (if key_tag (ktype lhs) < key_tag (ktype rhs) then -1 else 1)
      else compare_bytes (kdata lhs) (kdata rhs))"

definition key_equal :: "Key \<Rightarrow> Key \<Rightarrow> bool" where
  "key_equal lhs rhs = (key_compare lhs rhs = 0)"

definition validate_key :: "Key \<Rightarrow> bool" where
  "validate_key key =
     (if unat (ksize key) \<noteq> length (kdata key) then False
      else if unat (ksize key) > MAX_PAYLOAD_SIZE then False
      else (case ktype key of
              KBool \<Rightarrow> ksize key = 1 \<and> (kdata key ! 0 = 0 \<or> kdata key ! 0 = 1)
            | KUInt64 \<Rightarrow> ksize key = 8
            | KInt64 \<Rightarrow> ksize key = 8
            | KString \<Rightarrow> True
            | KBytes \<Rightarrow> True))"

section \<open>Construction\<close>

definition key_make_bool :: "bool \<Rightarrow> Key" where
  "key_make_bool v = \<lparr>ktype = KBool, ksize = 1, kdata = [if v then 1 else 0]\<rparr>"

definition key_make_uint64 :: "u64 \<Rightarrow> Key" where
  "key_make_uint64 v =
     \<lparr>ktype = KUInt64, ksize = 8, kdata = put_u64_be (replicate 8 0) 0 v\<rparr>"

definition key_make_int64 :: "u64 \<Rightarrow> Key" where
  "key_make_int64 v =
     (let biased = v XOR push_bit 63 1
      in \<lparr>ktype = KInt64, ksize = 8, kdata = put_u64_be (replicate 8 0) 0 biased\<rparr>)"

definition key_make_string :: "bytes \<Rightarrow> Key" where
  "key_make_string v = \<lparr>ktype = KString, ksize = of_nat (length v), kdata = v\<rparr>"

definition key_make_bytes :: "bytes \<Rightarrow> Key" where
  "key_make_bytes v = \<lparr>ktype = KBytes, ksize = of_nat (length v), kdata = v\<rparr>"

fun key_encode :: "KeyInput \<Rightarrow> Key option" where
  "key_encode (KI_bool v) = Some (key_make_bool v)"
| "key_encode (KI_uint64 v) = Some (key_make_uint64 v)"
| "key_encode (KI_int64 v) = Some (key_make_int64 v)"
| "key_encode (KI_string v) =
     (if length v > MAX_PAYLOAD_SIZE then None else Some (key_make_string v))"
| "key_encode (KI_bytes v) =
     (if length v > MAX_PAYLOAD_SIZE then None else Some (key_make_bytes v))"

definition key_decode :: "Key \<Rightarrow> KeyInput option" where
  "key_decode key =
     (if \<not> validate_key key then None
      else (case ktype key of
              KBool \<Rightarrow> Some (KI_bool (kdata key ! 0 = 1))
            | KUInt64 \<Rightarrow> Some (KI_uint64 (get_u64_be (kdata key) 0))
            | KInt64 \<Rightarrow>
                (let encoded = get_u64_be (kdata key) 0;
                     raw = encoded XOR push_bit 63 1
                 in Some (KI_int64 raw))
            | KString \<Rightarrow> Some (KI_string (kdata key))
            | KBytes \<Rightarrow> Some (KI_bytes (kdata key))))"

section \<open>The comparison is a total preorder\<close>

lemma compare_bytes_range: "compare_bytes xs ys \<in> {-1, 0, 1}"
  by (induction xs ys rule: compare_bytes.induct) auto

lemma compare_bytes_refl [simp]: "compare_bytes xs xs = 0"
  by (induction xs) auto

lemma compare_bytes_eq_0 [simp]: "compare_bytes xs ys = 0 \<longleftrightarrow> xs = ys"
  by (induction xs ys rule: compare_bytes.induct) auto

lemma compare_bytes_sym: "compare_bytes ys xs = - compare_bytes xs ys"
  by (induction xs ys rule: compare_bytes.induct) auto

lemma compare_bytes_trans:
  "compare_bytes xs ys < 0 \<Longrightarrow> compare_bytes ys zs < 0 \<Longrightarrow> compare_bytes xs zs < 0"
proof (induction xs ys arbitrary: zs rule: compare_bytes.induct)
  case (4 l ls r rs)
  then show ?case by (cases zs) (auto split: if_splits)
next
  case (2 r rs)
  then show ?case by (cases zs) auto
qed auto

text \<open>
  The contract the sorted containers rely on: a three-way comparison that is
  antisymmetric, transitive, and whose result 0 is a congruence.
\<close>

locale three_way =
  fixes cmp :: "'k \<Rightarrow> 'k \<Rightarrow> int"
  assumes cmp_refl: "cmp a a = 0"
    and cmp_sym: "cmp b a = - cmp a b"
    and cmp_trans: "cmp a b < 0 \<Longrightarrow> cmp b c < 0 \<Longrightarrow> cmp a c < 0"
    and cmp_cong: "cmp a b = 0 \<Longrightarrow> cmp a c = cmp b c"
begin

lemma cmp_cong_right: "cmp a b = 0 \<Longrightarrow> cmp c a = cmp c b"
  using cmp_cong cmp_sym by metis

lemma cmp_le_less_trans: "cmp a b \<le> 0 \<Longrightarrow> cmp b c < 0 \<Longrightarrow> cmp a c < 0"
  using cmp_trans cmp_cong by (metis order_le_less)

lemma cmp_less_le_trans: "cmp a b < 0 \<Longrightarrow> cmp b c \<le> 0 \<Longrightarrow> cmp a c < 0"
  using cmp_trans cmp_cong_right by (metis order_le_less)

lemma cmp_le_trans: "cmp a b \<le> 0 \<Longrightarrow> cmp b c \<le> 0 \<Longrightarrow> cmp a c \<le> 0"
  using cmp_le_less_trans cmp_cong_right by (metis order_le_less)

lemma cmp_ge_iff: "0 \<le> cmp a b \<longleftrightarrow> cmp b a \<le> 0"
  using cmp_sym[of a b] by linarith

lemma sorted_cmp_nth:
  assumes "sorted_wrt (\<lambda>x y. cmp x y < 0) ks" "i \<le> j" "j < length ks"
  shows "cmp (ks ! i) (ks ! j) \<le> 0"
  using assms cmp_refl sorted_wrt_nth_less[OF assms(1), of i j]
  by (cases "i = j") auto

end

interpretation kc: three_way key_compare
proof
  fix a b c :: Key
  show "key_compare a a = 0" by (simp add: key_compare_def)
  show "key_compare b a = - key_compare a b"
    using compare_bytes_sym[of "kdata b" "kdata a"]
    by (auto simp: key_compare_def not_less nat_less_le)
  show "key_compare a b < 0 \<Longrightarrow> key_compare b c < 0 \<Longrightarrow> key_compare a c < 0"
    using compare_bytes_trans[of "kdata a" "kdata b" "kdata c"]
    by (auto simp: key_compare_def split: if_splits)
  show "key_compare a b = 0 \<Longrightarrow> key_compare a c = key_compare b c"
    by (auto simp: key_compare_def split: if_splits)
qed

section \<open>Big-endian bytes compare like numbers\<close>

fun nat_of_be :: "bytes \<Rightarrow> nat" where
  "nat_of_be [] = 0"
| "nat_of_be (b # bs) = unat b * 256 ^ length bs + nat_of_be bs"

lemma lex_digit:
  fixes a b k x y :: nat
  assumes "a < b" "x < k"
  shows "a * k + x < b * k + y"
proof -
  have "a * k + x < Suc a * k" using assms by simp
  also have "\<dots> \<le> b * k" using assms by (intro mult_right_mono) auto
  finally show ?thesis by simp
qed

lemma nat_of_be_bound: "nat_of_be bs < 256 ^ length bs"
proof (induction bs)
  case (Cons b bs)
  have "unat b < 256" using unat_bound[of b] by simp
  from lex_digit[OF this Cons, of 0] show ?case by simp
qed simp

lemma compare_bytes_numeric:
  "length xs = length ys \<Longrightarrow> (compare_bytes xs ys < 0) = (nat_of_be xs < nat_of_be ys)"
proof (induction xs ys rule: compare_bytes.induct)
  case (4 l ls r rs)
  have b: "nat_of_be ls < 256 ^ length rs" "nat_of_be rs < 256 ^ length ls"
    using 4 nat_of_be_bound[of ls] nat_of_be_bound[of rs] by auto
  consider "unat l < unat r" | "unat r < unat l" | "l = r"
    by (metis linorder_neqE_nat word_unat_eq_iff)
  then show ?case
  proof cases
    case 1
    then show ?thesis using lex_digit[OF 1 b(1)] 4 by (simp add: word_less_nat_alt)
  next
    case 2
    then show ?thesis using lex_digit[OF 2 b(2), of "nat_of_be ls"] 4
      by (simp add: word_less_nat_alt)
  next
    case 3
    then show ?thesis using 4 by simp
  qed
qed auto

lemma byte_digit: "unat (ucast (drop_bit k v) :: u8) = unat (v :: u64) div 2 ^ k mod 256"
  by (simp add: unsigned_ucast_eq unat_drop_bit_eq drop_bit_nat_def take_bit_nat_def)

lemma digit_step: "(n::nat) div 2 ^ (k + 8) * 256 + n div 2 ^ k mod 256 = n div 2 ^ k"
  by (simp add: power_add div_mult2_eq)

lemma put_u64_fresh: "put_u64_be (replicate 8 0) 0 v = be64 v"
  using put_be(4)[of "replicate 8 0" 0 v] write_at_append[of 0 "[]" "replicate 8 0" "be64 v" "[]"]
  by simp

lemma nat_of_be_u64: "nat_of_be (put_u64_be (replicate 8 0) 0 v) = unat v"
proof -
  have "unat v < 2 ^ 64" using unat_bound[of v] by simp
  then have top: "unat v div 2 ^ 56 mod 256 = unat v div 2 ^ 56"
    by (simp add: less_mult_imp_div_less)
  have d0: "unat (ucast v :: u8) = unat v mod 256"
    using byte_digit[of 0 v] by simp
  have "unat v = (((((((unat v div 2 ^ 56) * 256 + unat v div 2 ^ 48 mod 256) * 256
     + unat v div 2 ^ 40 mod 256) * 256 + unat v div 2 ^ 32 mod 256) * 256
     + unat v div 2 ^ 24 mod 256) * 256 + unat v div 2 ^ 16 mod 256) * 256
     + unat v div 2 ^ 8 mod 256) * 256 + unat v mod 256"
    using digit_step[of "unat v" 48] digit_step[of "unat v" 40] digit_step[of "unat v" 32]
      digit_step[of "unat v" 24] digit_step[of "unat v" 16] digit_step[of "unat v" 8]
      digit_step[of "unat v" 0] by simp
  then show ?thesis
    unfolding put_u64_fresh be64_def nat_of_be.simps list.size byte_digit d0 top
    by simp
qed

section \<open>Validity\<close>

lemma small_size: "n \<le> MAX_PAYLOAD_SIZE \<Longrightarrow> unat (of_nat n :: u32) = n"
  by (rule unat_of_nat_lt) (simp add: MAX_PAYLOAD_SIZE_def)

lemmas key_make_defs = key_make_bool_def key_make_uint64_def key_make_int64_def
  key_make_string_def key_make_bytes_def

lemma key_encode_valid: "key_encode i = Some k \<Longrightarrow> validate_key k"
  by (cases i) (auto simp: key_make_defs validate_key_def MAX_PAYLOAD_SIZE_def unat_of_nat_lt
      split: if_splits)

lemma xor_twice [simp]: "(a XOR b) XOR b = (a :: 'a::len word)"
  by (simp add: xor.assoc)

lemma valid_key_size: "validate_key k \<Longrightarrow> ksize k = of_nat (length (kdata k))"
  by (metis of_nat_unat_id validate_key_def)

lemma uint_bias: "uint ((a :: u64) XOR push_bit 63 1) = sint a + 2 ^ 63"
proof -
  have "uint (a XOR push_bit 63 1) = flip_bit 63 (uint a)"
    by (simp add: unsigned_xor_eq flip_bit_eq_xor)
  also have "\<dots> = uint a + (if bit (uint a) 63 then - (2 ^ 63) else 2 ^ 63)"
    by (simp add: flip_bit_eq_if set_bit_eq unset_bit_eq)
  also have "\<dots> = sint a + 2 ^ 63"
    using uint_lt2p[of a]
    by (simp add: sint_uint signed_take_bit_eq_take_bit_minus take_bit_int_eq_self)
  finally show ?thesis .
qed

section \<open>Properties\<close>

lemma key_decode_encode:
  assumes "validate_key k" "key_decode k = Some i"
  shows "key_encode i = Some k"
proof -
  have 8: "unat (8 :: u32) = 8" "unat (1 :: u32) = 1" by simp_all
  have s: "ksize k = of_nat (length (kdata k))" "length (kdata k) \<le> MAX_PAYLOAD_SIZE"
    using assms by (auto simp: validate_key_def intro: valid_key_size split: if_splits)
  show ?thesis
  proof (cases "ktype k")
    case KBool
    with assms obtain x where "kdata k = [x]" "x = 0 \<or> x = 1"
      by (cases "kdata k") (auto simp: validate_key_def split: if_splits)
    with KBool assms show ?thesis
      by (auto simp: key_decode_def validate_key_def key_make_bool_def split: if_splits
          intro!: Key.equality)
  qed (use assms s be64_get[of "kdata k"] 8 in \<open>auto simp: key_decode_def key_make_defs put_u64_fresh
      validate_key_def Let_def split: if_splits intro!: Key.equality\<close>)
qed

text \<open>C21: every key the encoder accepts is valid and decodes to the input it was
  made from, and every key that decodes is the encoding of the value it decodes
  to, so that a logical key has exactly one stored representation.\<close>

theorem key_codec_roundtrip:
  "(key_encode i = Some k) = (validate_key k \<and> key_decode k = Some i)"
proof
  assume e: "key_encode i = Some k"
  then show "validate_key k \<and> key_decode k = Some i"
    using key_encode_valid[OF e]
    by (cases i) (auto simp: key_decode_def key_make_defs codec_simps Let_def split: if_splits)
qed (auto intro: key_decode_encode)

lemma key_compare_u64:
  "(compare_bytes (put_u64_be (replicate 8 0) 0 a) (put_u64_be (replicate 8 0) 0 b) < 0) = (a < b)"
  by (simp add: compare_bytes_numeric nat_of_be_u64 word_less_nat_alt)

lemma key_compare_int64:
  "(key_compare (key_make_int64 a) (key_make_int64 b) < 0) = (sint a < sint b)"
  using uint_bias[of a] uint_bias[of b]
  by (simp add: key_compare_def key_make_int64_def Let_def key_compare_u64 word_less_alt)

text \<open>The byte order of encoded unsigned and signed 64-bit keys is their
  numeric order.\<close>

theorem key_order_numeric:
  "(key_compare (key_make_uint64 a) (key_make_uint64 b) < 0) = (a < b) \<and>
   (key_compare (key_make_int64 a) (key_make_int64 b) < 0) = (sint a < sint b)"
  by (simp only: key_compare_int64)
    (simp add: key_compare_def key_make_uint64_def Let_def key_compare_u64)

lemma valid_keys_equal:
  assumes "validate_key a" "validate_key b"
  shows "(key_compare a b = 0) = (a = b)"
  using assms valid_key_size[of a] valid_key_size[of b] kc.cmp_refl[of b]
  by (auto simp: key_compare_def split: if_splits intro: Key.equality)

text \<open>C22: on valid keys the comparison is a strict total order: exactly one of
  less, equal and greater holds, the result 0 means the same key, and less is
  transitive.\<close>

theorem key_compare_total_order:
  assumes "validate_key a" "validate_key b"
  shows "(key_compare a b = 0) = (a = b) \<and> (key_compare a b < 0) = (0 < key_compare b a) \<and>
    (key_compare a b < 0 \<longrightarrow> key_compare b c < 0 \<longrightarrow> key_compare a c < 0)"
  using kc.cmp_trans[of a b c] kc.cmp_sym[of a b] valid_keys_equal[OF assms] by auto

theorem key_compare_total_order_witness:
  "key_compare (key_make_int64 (-3)) (key_make_int64 2) < 0 \<and>
   0 < key_compare (key_make_int64 2) (key_make_int64 (-3))"
  using key_compare_total_order[of "key_make_int64 (-3)" "key_make_int64 2" "key_make_bool True",
      OF key_encode_valid[of "KI_int64 (-3)"] key_encode_valid[of "KI_int64 2"]]
    key_compare_int64[of "-3" 2]
  by simp

end
