(* ===== verification/WaitForGraph.thy ===== *)
theory WaitForGraph
  imports Prelude
begin

text \<open>
  The wait-for graph, after \<open>src/src/TransactionManager/WaitForGraph.cpp\<close>: the
  two adjacency indexes, and the operations that keep them in step.  Every
  operation runs under the graph's mutex, so each is one atomic function.  A
  transaction id is a 64-bit word; an \<open>unordered_set\<close> is a set, iterated in
  increasing order where the source leaves the order open.  Memory exhaustion
  (the only source of the exceptions the code guards against) is not modelled.
\<close>

type_synonym txn_id = u64

record WaitForGraph =
  outgoing_links :: "txn_id \<rightharpoonup> txn_id set"
  incoming_links :: "txn_id \<rightharpoonup> txn_id set"

definition empty_graph :: WaitForGraph where
  "empty_graph = \<lparr>outgoing_links = Map.empty, incoming_links = Map.empty\<rparr>"

definition graph_exists :: "WaitForGraph \<Rightarrow> txn_id \<Rightarrow> bool" where
  "graph_exists g t = (outgoing_links g t \<noteq> None)"

definition add_node :: "WaitForGraph \<Rightarrow> txn_id \<Rightarrow> WaitForGraph" where
  "add_node g t =
     (if outgoing_links g t \<noteq> None then g
      else g\<lparr>outgoing_links := (outgoing_links g)(t \<mapsto> {}),
             incoming_links := (case incoming_links g t of
               None \<Rightarrow> (incoming_links g)(t \<mapsto> {}) | Some _ \<Rightarrow> incoming_links g)\<rparr>)"

text \<open>Erasing one transaction from the link sets of the given nodes.\<close>

definition erase_links :: "(txn_id \<rightharpoonup> txn_id set) \<Rightarrow> txn_id set \<Rightarrow> txn_id \<Rightarrow> (txn_id \<rightharpoonup> txn_id set)" where
  "erase_links m ns t =
     (\<lambda>n. if n \<in> ns then map_option (\<lambda>s. s - {t}) (m n) else m n)"

definition graph_remove :: "WaitForGraph \<Rightarrow> txn_id \<Rightarrow> WaitForGraph" where
  "graph_remove g t =
     (case (outgoing_links g t, incoming_links g t) of
        (Some outs, Some ins) \<Rightarrow>
          (let inc = erase_links (incoming_links g) outs t;
               ins' = the (inc t);
               out = erase_links (outgoing_links g) ins' t
           in g\<lparr>outgoing_links := out(t := None), incoming_links := inc(t := None)\<rparr>)
      | _ \<Rightarrow> g)"

section \<open>Reachability\<close>

text \<open>The loop over the neighbours of the current node: target, remaining
  neighbours, visited set, queue; the first component is the early return.\<close>

fun visit_neighbors ::
  "txn_id \<Rightarrow> txn_id list \<Rightarrow> txn_id set \<Rightarrow> txn_id list \<Rightarrow> bool \<times> txn_id set \<times> txn_id list" where
  "visit_neighbors to [] visited pending = (False, visited, pending)"
| "visit_neighbors to (n # ns) visited pending =
     (if n = to then (True, visited, pending)
      else if n \<notin> visited then visit_neighbors to ns (insert n visited) (pending @ [n])
      else visit_neighbors to ns visited pending)"

lemma visit_neighbors_false:
  assumes "visit_neighbors to ns visited pending = (False, visited', pending')"
  shows "visited' = visited \<union> set ns \<and> to \<notin> set ns \<and>
    (\<exists>new. pending' = pending @ new \<and> distinct new \<and> set new = set ns - visited)"
  using assms
proof (induction to ns visited pending rule: visit_neighbors.induct)
  case (2 to n ns visited pending)
  from "2.prems" have n: "n \<noteq> to" by (auto split: if_splits)
  show ?case
  proof (cases "n \<in> visited")
    case True
    with "2.prems" n "2.IH"(2)[OF n] have "visited' = visited \<union> set ns" "to \<notin> set ns"
        "\<exists>new. pending' = pending @ new \<and> distinct new \<and> set new = set ns - visited"
      by auto
    moreover have "set (n # ns) - visited = set ns - visited" "visited \<union> set (n # ns) = visited \<union> set ns"
      using True by auto
    ultimately show ?thesis using n by simp
  next
    case False
    with "2.prems" n "2.IH"(1)[OF n] obtain new where new: "visited' = insert n visited \<union> set ns"
        "to \<notin> set ns" "pending' = (pending @ [n]) @ new" "distinct new"
        "set new = set ns - insert n visited"
      by auto
    then have "pending' = pending @ (n # new)" "distinct (n # new)"
        "set (n # new) = set (n # ns) - visited"
      using False by auto
    with new n show ?thesis by (intro conjI exI[of _ "n # new"]) auto
  qed
qed auto

function path_search :: "WaitForGraph \<Rightarrow> txn_id \<Rightarrow> txn_id list \<Rightarrow> txn_id set \<Rightarrow> bool" where
  "path_search g to [] visited = False"
| "path_search g to (current # pending) visited =
     (case outgoing_links g current of
        None \<Rightarrow> path_search g to pending visited
      | Some links \<Rightarrow>
          (let (found, visited', pending') =
                 visit_neighbors to (sorted_list_of_set links) visited pending
           in if found then True else path_search g to pending' visited'))"
  by pat_completeness auto

lemma visit_neighbors_measure:
  assumes "visit_neighbors to ns visited pending = (False, visited', pending')"
  shows "card (- visited') < card (- visited) \<or>
    card (- visited') = card (- visited) \<and> length pending' = length pending"
proof -
  obtain new where v: "visited' = visited \<union> set ns" "pending' = pending @ new"
      "set new = set ns - visited"
    using visit_neighbors_false[OF assms] by blast
  show ?thesis
  proof (cases "set ns \<subseteq> visited")
    case True
    then have "set new = {}" "visited' = visited"
      using v by (simp_all only: Diff_eq_empty_iff Un_absorb2)
    with v(2) show ?thesis by simp
  next
    case False
    then have "- visited' \<subset> - visited" using v by auto
    then show ?thesis by (intro disjI1 psubset_card_mono) auto
  qed
qed

termination path_search
  apply (relation "measures [\<lambda>(g, to, pending, visited). card (- visited),
    \<lambda>(g, to, pending, visited). length pending]")
  subgoal by simp
  subgoal by simp
  subgoal premises p for g to current pending visited links x found y visited' pending'
    using visit_neighbors_measure[of to "sorted_list_of_set links" visited pending visited' pending']
      p by (cases found) auto
  done

definition path_exists :: "WaitForGraph \<Rightarrow> txn_id \<Rightarrow> txn_id \<Rightarrow> bool" where
  "path_exists g from to =
     (if outgoing_links g from = None \<or> outgoing_links g to = None then False
      else if from = to then True
      else path_search g to [from] {from})"

section \<open>Edges\<close>

text \<open>The insertion loop of \<open>add_edges\<close>.\<close>

fun insert_edges :: "WaitForGraph \<Rightarrow> txn_id \<Rightarrow> txn_id list \<Rightarrow> WaitForGraph" where
  "insert_edges g from [] = g"
| "insert_edges g from (d # ds) =
     (let outs = the (outgoing_links g from)
      in if d \<in> outs then insert_edges g from ds
         else insert_edges
           (g\<lparr>outgoing_links := (outgoing_links g)(from \<mapsto> insert d outs),
              incoming_links := (incoming_links g)(d \<mapsto> insert from (the (incoming_links g d)))\<rparr>)
           from ds)"

definition add_edges :: "WaitForGraph \<Rightarrow> txn_id \<Rightarrow> txn_id list \<Rightarrow> bool \<times> WaitForGraph" where
  "add_edges g from destinations =
     (if outgoing_links g from = None then (False, g)
      else if list_ex (\<lambda>d. incoming_links g d = None \<or> path_exists g d from) destinations
      then (False, g)
      else (True, insert_edges g from destinations))"

definition add_edge :: "WaitForGraph \<Rightarrow> txn_id \<Rightarrow> txn_id \<Rightarrow> bool \<times> WaitForGraph" where
  "add_edge g from to = add_edges g from [to]"

definition remove_edge :: "WaitForGraph \<Rightarrow> txn_id \<Rightarrow> txn_id \<Rightarrow> WaitForGraph" where
  "remove_edge g from to =
     (case (outgoing_links g from, incoming_links g to) of
        (Some outs, Some ins) \<Rightarrow>
          g\<lparr>outgoing_links := (outgoing_links g)(from \<mapsto> outs - {to}),
            incoming_links := (incoming_links g)(to \<mapsto> ins - {from})\<rparr>
      | _ \<Rightarrow> g)"

definition remove_outgoing :: "WaitForGraph \<Rightarrow> txn_id \<Rightarrow> WaitForGraph" where
  "remove_outgoing g t =
     (case outgoing_links g t of
        None \<Rightarrow> g
      | Some outs \<Rightarrow>
          g\<lparr>incoming_links := erase_links (incoming_links g) outs t,
            outgoing_links := (outgoing_links g)(t \<mapsto> {})\<rparr>)"

section \<open>The graph the indexes stand for\<close>

definition graph_nodes :: "WaitForGraph \<Rightarrow> txn_id set" where
  "graph_nodes g = dom (outgoing_links g)"

definition graph_edges :: "WaitForGraph \<Rightarrow> (txn_id \<times> txn_id) set" where
  "graph_edges g = {(a, b). \<exists>s. outgoing_links g a = Some s \<and> b \<in> s}"

text \<open>The two indexes agree: same nodes, and each is the converse of the other.\<close>

definition graph_ok :: "WaitForGraph \<Rightarrow> bool" where
  "graph_ok g \<longleftrightarrow>
     dom (incoming_links g) = dom (outgoing_links g) \<and>
     (\<forall>a b. (a, b) \<in> graph_edges g \<longleftrightarrow> (\<exists>s. incoming_links g b = Some s \<and> a \<in> s))"

lemma graph_okD:
  assumes "graph_ok g"
  shows "incoming_links g t = None \<longleftrightarrow> outgoing_links g t = None"
    and "(a, b) \<in> graph_edges g \<Longrightarrow> a \<in> graph_nodes g \<and> b \<in> graph_nodes g"
proof -
  show "incoming_links g t = None \<longleftrightarrow> outgoing_links g t = None"
    using assms by (metis domIff graph_ok_def)
  assume e: "(a, b) \<in> graph_edges g"
  then have "incoming_links g b \<noteq> None" using assms unfolding graph_ok_def by force
  with e assms show "a \<in> graph_nodes g \<and> b \<in> graph_nodes g"
    unfolding graph_ok_def graph_nodes_def graph_edges_def by blast
qed

section \<open>The search decides reachability\<close>

lemma visit_neighbors_true: "fst (visit_neighbors to ns visited pending) \<Longrightarrow> to \<in> set ns"
  by (induction to ns visited pending rule: visit_neighbors.induct) (auto split: if_splits)

lemma path_search_sound:
  "path_search g to pending visited \<Longrightarrow> \<exists>n\<in>set pending. (n, to) \<in> (graph_edges g)\<^sup>+"
proof (induction g to pending visited rule: path_search.induct)
  case (2 g to current pending visited)
  show ?case
  proof (cases "outgoing_links g current")
    case None
    with 2 show ?thesis by auto
  next
    case (Some links)
    obtain found visited' pending' where
      v: "visit_neighbors to (sorted_list_of_set links) visited pending = (found, visited', pending')"
      by (metis prod_cases3)
    have e: "n \<in> links \<Longrightarrow> (current, n) \<in> graph_edges g" for n
      using Some by (auto simp: graph_edges_def)
    show ?thesis
    proof (cases found)
      case True
      then have "to \<in> links"
        using v visit_neighbors_true[of to "sorted_list_of_set links" visited pending] by simp
      with e show ?thesis by auto
    next
      case False
      then have "path_search g to pending' visited'" using 2(3) Some v by simp
      from 2(2)[OF Some v[symmetric] refl refl False this]
      obtain n where n: "n \<in> set pending'" "(n, to) \<in> (graph_edges g)\<^sup>+" by auto
      obtain new where "pending' = pending @ new" "set new = links - visited"
        using visit_neighbors_false[of to "sorted_list_of_set links" visited pending visited' pending']
          v False by auto
      with n(1) consider "n \<in> set pending" | "n \<in> links" by auto
      then show ?thesis
      proof cases
        case 2
        from trancl_into_trancl2[OF e[OF this] n(2)] show ?thesis by simp
      qed (use n(2) in auto)
    qed
  qed
qed simp

lemma path_search_complete:
  assumes "\<not> path_search g to pending visited" "set pending \<subseteq> visited" "to \<notin> visited"
    "\<And>n m. n \<in> visited \<Longrightarrow> n \<notin> set pending \<Longrightarrow> (n, m) \<in> graph_edges g \<Longrightarrow> m \<in> visited"
    "n \<in> visited"
  shows "(n, to) \<notin> (graph_edges g)\<^sup>*"
  using assms
proof (induction g to pending visited rule: path_search.induct)
  case (1 g to visited)
  then have "graph_edges g `` visited \<subseteq> visited" by auto
  from Image_closed_trancl[OF this] 1 show ?case by auto
next
  case (2 g to current pending visited)
  show ?case
  proof (cases "outgoing_links g current")
    case None
    then have "(current, m) \<notin> graph_edges g" for m by (simp add: graph_edges_def)
    with None 2(3-7) show ?thesis by (intro 2(1)) auto
  next
    case (Some links)
    obtain found visited' pending' where
      v: "visit_neighbors to (sorted_list_of_set links) visited pending = (found, visited', pending')"
      by (metis prod_cases3)
    with Some 2(3) have f: "\<not> found" by auto
    with v obtain new where new: "visited' = visited \<union> links" "to \<notin> links"
        "pending' = pending @ new" "set new = links - visited"
      using visit_neighbors_false[of to "sorted_list_of_set links" visited pending visited' pending']
      by auto
    have c: "(current, m) \<in> graph_edges g \<Longrightarrow> m \<in> links" for m
      using Some by (auto simp: graph_edges_def)
    show ?thesis
    proof (rule 2(2)[OF Some v[symmetric] refl refl f])
      show "\<not> path_search g to pending' visited'" using 2(3) Some v f by simp
      show "set pending' \<subseteq> visited'" "to \<notin> visited'" "n \<in> visited'" using new 2(4-7) by auto
      show "m \<in> visited'"
        if "k \<in> visited'" "k \<notin> set pending'" "(k, m) \<in> graph_edges g" for k m
      proof (cases "k = current")
        case True
        with c that new show ?thesis by auto
      next
        case False
        with that new have "k \<in> visited" "k \<notin> set (current # pending)" by auto
        from 2(6)[OF this that(3)] new show ?thesis by simp
      qed
    qed
  qed
qed

lemma path_exists_iff:
  "path_exists g a b \<longleftrightarrow>
   a \<in> graph_nodes g \<and> b \<in> graph_nodes g \<and> (a, b) \<in> (graph_edges g)\<^sup>*"
proof -
  have "a \<noteq> b \<Longrightarrow> path_search g b [a] {a} \<longleftrightarrow> (a, b) \<in> (graph_edges g)\<^sup>*"
    using path_search_sound[of g b "[a]" "{a}"] path_search_complete[of g b "[a]" "{a}" a]
    by (auto simp del: path_search.simps intro: trancl_into_rtrancl)
  then show ?thesis by (auto simp: path_exists_def graph_nodes_def)
qed

section \<open>What each operation does to the graph\<close>

definition links :: "(txn_id \<rightharpoonup> txn_id set) \<Rightarrow> txn_id \<Rightarrow> txn_id set" where
  "links m a = (case m a of None \<Rightarrow> {} | Some s \<Rightarrow> s)"

lemma links_upd [simp]:
  "links (m(a \<mapsto> s)) b = (if b = a then s else links m b)"
  "links (m(a := None)) b = (if b = a then {} else links m b)"
  "links (erase_links m ns t) b = (if b \<in> ns then links m b - {t} else links m b)"
  by (auto simp: links_def erase_links_def split: option.splits)

lemma erase_links_None: "erase_links m ns t n = None \<longleftrightarrow> m n = None"
  by (auto simp: erase_links_def)

lemma links_Some: "m a = Some s \<Longrightarrow> links m a = s"
  by (simp add: links_def)

lemma links_None: "m a = None \<Longrightarrow> links m a = {}"
  by (simp add: links_def)

lemma graph_edges_iff: "(a, b) \<in> graph_edges g \<longleftrightarrow> b \<in> links (outgoing_links g) a"
  by (auto simp: graph_edges_def links_def split: option.splits)

lemma graph_ok_iff:
  "graph_ok g \<longleftrightarrow> (\<forall>t. incoming_links g t = None \<longleftrightarrow> outgoing_links g t = None) \<and>
     (\<forall>a b. b \<in> links (outgoing_links g) a \<longleftrightarrow> a \<in> links (incoming_links g) b)"
proof -
  have d: "dom (incoming_links g) = dom (outgoing_links g) \<longleftrightarrow>
      (\<forall>t. incoming_links g t = None \<longleftrightarrow> outgoing_links g t = None)"
    unfolding set_eq_iff domIff by (simp only: Not_eq_iff)
  have e: "(\<exists>s. incoming_links g b = Some s \<and> a \<in> s) \<longleftrightarrow> a \<in> links (incoming_links g) b" for a b
    by (auto simp: links_def split: option.splits)
  show ?thesis unfolding graph_ok_def d e graph_edges_iff by simp
qed

lemma add_node_spec:
  assumes "graph_ok g"
  shows "graph_ok (add_node g t)" "graph_nodes (add_node g t) = insert t (graph_nodes g)"
    "graph_edges (add_node g t) = graph_edges g"
proof -
  have i: "outgoing_links g t = None \<Longrightarrow> incoming_links g t = None" using graph_okD(1)[OF assms] by blast
  have e: "links (outgoing_links (add_node g t)) a = links (outgoing_links g) a"
    "links (incoming_links (add_node g t)) a = links (incoming_links g) a" for a
    using i by (auto simp: add_node_def links_None)
  have "(incoming_links (add_node g t) a = None) = (outgoing_links (add_node g t) a = None)" for a
  proof (cases "outgoing_links g t")
    case None
    from i[OF this] None graph_okD(1)[OF assms, of a] show ?thesis by (simp add: add_node_def)
  next
    case (Some s)
    with graph_okD(1)[OF assms, of a] show ?thesis by (simp add: add_node_def)
  qed
  then show "graph_ok (add_node g t)"
    using assms unfolding graph_ok_iff e by simp
  show "graph_nodes (add_node g t) = insert t (graph_nodes g)"
    by (auto simp: graph_nodes_def add_node_def)
  show "graph_edges (add_node g t) = graph_edges g"
    by (auto simp: graph_edges_iff e)
qed

lemma remove_outgoing_spec:
  assumes "graph_ok g"
  shows "graph_ok (remove_outgoing g t)" "graph_nodes (remove_outgoing g t) = graph_nodes g"
    "graph_edges (remove_outgoing g t) = {(a, b) \<in> graph_edges g. a \<noteq> t}"
proof -
  have e: "links (outgoing_links (remove_outgoing g t)) a =
      (if a = t then {} else links (outgoing_links g) a)" for a
    by (auto simp: remove_outgoing_def links_None split: option.splits)
  have "b \<in> links (outgoing_links g) t \<longleftrightarrow> t \<in> links (incoming_links g) b" for b
    using assms unfolding graph_ok_iff by blast
  from this[symmetric]
  have i: "links (incoming_links (remove_outgoing g t)) b = links (incoming_links g) b - {t}" for b
    by (auto simp: remove_outgoing_def links_None links_Some split: option.splits)
  show "graph_edges (remove_outgoing g t) = {(a, b) \<in> graph_edges g. a \<noteq> t}"
    by (auto simp: graph_edges_iff e split: if_splits)
  show "graph_nodes (remove_outgoing g t) = graph_nodes g"
    by (auto simp: graph_nodes_def remove_outgoing_def split: option.splits if_splits)
  have "(incoming_links (remove_outgoing g t) a = None) = (outgoing_links (remove_outgoing g t) a = None)" for a
    using graph_okD(1)[OF assms, of a]
    by (cases "outgoing_links g t") (auto simp: remove_outgoing_def erase_links_None)
  then show "graph_ok (remove_outgoing g t)"
    using assms unfolding graph_ok_iff e i by auto
qed

lemma graph_remove_links:
  assumes "graph_ok g"
  shows "links (outgoing_links (graph_remove g t)) a =
      (if a = t then {} else links (outgoing_links g) a - {t})"
    "links (incoming_links (graph_remove g t)) a =
      (if a = t then {} else links (incoming_links g) a - {t})"
    "outgoing_links (graph_remove g t) a = None \<longleftrightarrow> a = t \<or> outgoing_links g a = None"
    "incoming_links (graph_remove g t) a = None \<longleftrightarrow> a = t \<or> incoming_links g a = None"
proof -
  have ok: "b \<in> links (outgoing_links g) a \<longleftrightarrow> a \<in> links (incoming_links g) b" for a b
    using assms unfolding graph_ok_iff by blast
  have "links (outgoing_links (graph_remove g t)) a =
      (if a = t then {} else links (outgoing_links g) a - {t}) \<and>
    links (incoming_links (graph_remove g t)) a =
      (if a = t then {} else links (incoming_links g) a - {t}) \<and>
    (outgoing_links (graph_remove g t) a = None \<longleftrightarrow> a = t \<or> outgoing_links g a = None) \<and>
    (incoming_links (graph_remove g t) a = None \<longleftrightarrow> a = t \<or> incoming_links g a = None)"
  proof (cases "outgoing_links g t")
    case None
    then have n: "incoming_links g t = None" using graph_okD(1)[OF assms] by blast
    have "t \<notin> links (outgoing_links g) a" "t \<notin> links (incoming_links g) a"
      using ok[of t a] ok[of a t] None n by (simp_all add: links_None)
    with None n show ?thesis by (auto simp: graph_remove_def links_None)
  next
    case (Some outs)
    then obtain ins where ins: "incoming_links g t = Some ins" using graph_okD(1)[OF assms] by fastforce
    have m: "b \<in> outs \<longleftrightarrow> t \<in> links (incoming_links g) b"
      "b \<in> ins \<longleftrightarrow> t \<in> links (outgoing_links g) b" for b
      using ok[of b t] ok[of t b] Some ins by (simp_all add: links_Some)
    have "the (erase_links (incoming_links g) outs t t) = ins - {t}"
      using ins m[of t] ok[of t t] by (auto simp: erase_links_def)
    then have r: "graph_remove g t =
        g\<lparr>outgoing_links := (erase_links (outgoing_links g) (ins - {t}) t)(t := None),
          incoming_links := (erase_links (incoming_links g) outs t)(t := None)\<rparr>"
      using Some ins by (simp add: graph_remove_def Let_def)
    show ?thesis
      unfolding r by (cases "a = t") (simp_all add: m erase_links_None)
  qed
  note m = this
  show "links (outgoing_links (graph_remove g t)) a =
      (if a = t then {} else links (outgoing_links g) a - {t})"
    by (rule m[THEN conjunct1])
  show "links (incoming_links (graph_remove g t)) a =
      (if a = t then {} else links (incoming_links g) a - {t})"
    by (rule m[THEN conjunct2, THEN conjunct1])
  show "outgoing_links (graph_remove g t) a = None \<longleftrightarrow> a = t \<or> outgoing_links g a = None"
    by (rule m[THEN conjunct2, THEN conjunct2, THEN conjunct1])
  show "incoming_links (graph_remove g t) a = None \<longleftrightarrow> a = t \<or> incoming_links g a = None"
    by (rule m[THEN conjunct2, THEN conjunct2, THEN conjunct2])
qed

lemma graph_remove_spec:
  assumes "graph_ok g"
  shows "graph_ok (graph_remove g t)" "graph_nodes (graph_remove g t) = graph_nodes g - {t}"
    "graph_edges (graph_remove g t) = {(a, b) \<in> graph_edges g. a \<noteq> t \<and> b \<noteq> t}"
proof -
  note l = graph_remove_links[OF assms]
  show "graph_ok (graph_remove g t)"
    using assms unfolding graph_ok_iff l by auto
  show "graph_nodes (graph_remove g t) = graph_nodes g - {t}"
    by (auto simp: graph_nodes_def dom_def l(3) simp del: not_None_eq)
  show "graph_edges (graph_remove g t) = {(a, b) \<in> graph_edges g. a \<noteq> t \<and> b \<noteq> t}"
    by (auto simp: graph_edges_iff l(1) split: if_splits)
qed

lemma insert_edges_spec:
  assumes "graph_ok g" "from \<in> graph_nodes g" "set ds \<subseteq> graph_nodes g"
  shows "graph_ok (insert_edges g from ds) \<and> graph_nodes (insert_edges g from ds) = graph_nodes g \<and>
    graph_edges (insert_edges g from ds) = graph_edges g \<union> {from} \<times> set ds"
  using assms
proof (induction g "from" ds rule: insert_edges.induct)
  case (2 g "from" d ds)
  let ?outs = "the (outgoing_links g from)"
  obtain outs ins where s: "outgoing_links g from = Some outs" "incoming_links g d = Some ins"
    using 2(3-5) graph_okD(1)[OF 2(3), of d] by (auto simp: graph_nodes_def)
  show ?case
  proof (cases "d \<in> ?outs")
    case True
    with s have "(from, d) \<in> graph_edges g" by (simp add: graph_edges_iff links_Some)
    with 2(1)[OF refl True] 2(3-5) True show ?thesis by auto
  next
    case False
    let ?g = "g\<lparr>outgoing_links := (outgoing_links g)(from \<mapsto> insert d ?outs),
              incoming_links := (incoming_links g)(d \<mapsto> insert from (the (incoming_links g d)))\<rparr>"
    have l: "links (outgoing_links ?g) a = (if a = from then insert d outs else links (outgoing_links g) a)"
      "links (incoming_links ?g) a = (if a = d then insert from ins else links (incoming_links g) a)" for a
      using s by simp_all
    have o: "outs = links (outgoing_links g) from" "ins = links (incoming_links g) d"
      using s by (simp_all add: links_Some)
    have dom: "(incoming_links ?g t = None) = (outgoing_links ?g t = None)" for t
      using s graph_okD(1)[OF 2(3), of t] by auto
    have ok: "graph_ok ?g"
      using 2(3) dom unfolding graph_ok_iff l o by auto
    have n: "graph_nodes ?g = graph_nodes g" using s by (auto simp: graph_nodes_def)
    have e: "graph_edges ?g = insert (from, d) (graph_edges g)"
    proof -
      have "(a, b) \<in> graph_edges ?g \<longleftrightarrow> a = from \<and> b = d \<or> (a, b) \<in> graph_edges g" for a b
        unfolding graph_edges_iff l o by auto
      then show ?thesis by auto
    qed
    from 2(2)[OF refl False ok] n e 2(4,5) False show ?thesis by simp
  qed
qed simp

text \<open>Adding all edges of one source at once keeps the graph acyclic exactly when
  no destination reaches the source beforehand.\<close>

lemma reach_source:
  "(d, f) \<in> (r \<union> {f} \<times> D)\<^sup>* \<Longrightarrow> (d, f) \<in> r\<^sup>*"
proof (induction rule: converse_rtrancl_induct)
  case (step y z)
  then show ?case by (auto intro: converse_rtrancl_into_rtrancl)
qed simp

lemma acyclic_add_source:
  assumes "acyclic r" "\<forall>d\<in>D. (d, f) \<notin> r\<^sup>*"
  shows "acyclic (r \<union> {f} \<times> D)"
proof (rule acyclicI, rule allI, rule notI)
  fix x assume "(x, x) \<in> (r \<union> {f} \<times> D)\<^sup>+"
  then have "(x, x) \<in> r\<^sup>+ \<or> (\<exists>d\<in>D. (d, f) \<in> (r \<union> {f} \<times> D)\<^sup>*)"
  proof -
    have "(x, y) \<in> (r \<union> {f} \<times> D)\<^sup>+ \<Longrightarrow>
        (x, y) \<in> r\<^sup>+ \<or> (\<exists>d\<in>D. (x, f) \<in> (r \<union> {f} \<times> D)\<^sup>* \<and> (d, y) \<in> (r \<union> {f} \<times> D)\<^sup>*)" for y
    proof (induction rule: trancl_induct)
      case (base y)
      then show ?case by auto
    next
      case (step y z)
      from step(3) show ?case
      proof
        assume "(x, y) \<in> r\<^sup>+"
        with step(1,2) show ?thesis
          by (cases "(y, z) \<in> r") (auto intro: trancl_into_trancl trancl_into_rtrancl)
      next
        assume "\<exists>d\<in>D. (x, f) \<in> (r \<union> {f} \<times> D)\<^sup>* \<and> (d, y) \<in> (r \<union> {f} \<times> D)\<^sup>*"
        with step(2) show ?thesis by (meson rtrancl.rtrancl_into_rtrancl)
      qed
    qed
    with \<open>(x, x) \<in> (r \<union> {f} \<times> D)\<^sup>+\<close> show ?thesis by (meson rtrancl_trans)
  qed
  with assms show False by (auto dest: reach_source simp: acyclic_def)
qed

lemma add_edges_true:
  assumes "graph_ok g" "add_edges g from ds = (True, g')"
  shows "graph_ok g'" "graph_nodes g' = graph_nodes g" "from \<in> graph_nodes g"
    "set ds \<subseteq> graph_nodes g" "graph_edges g' = graph_edges g \<union> {from} \<times> set ds"
    "\<forall>d\<in>set ds. (d, from) \<notin> (graph_edges g)\<^sup>*"
proof -
  have a: "from \<in> graph_nodes g" "g' = insert_edges g from ds"
    "\<forall>d\<in>set ds. incoming_links g d \<noteq> None \<and> \<not> path_exists g d from"
    using assms(2) by (auto simp: add_edges_def graph_nodes_def list_ex_iff split: if_splits)
  then have n: "set ds \<subseteq> graph_nodes g"
    using graph_okD(1)[OF assms(1)] by (auto simp: graph_nodes_def domIff)
  show "graph_ok g'" "graph_nodes g' = graph_nodes g" "graph_edges g' = graph_edges g \<union> {from} \<times> set ds"
    using insert_edges_spec[OF assms(1) a(1) n] a(2) by simp_all
  show "from \<in> graph_nodes g" "set ds \<subseteq> graph_nodes g" using a(1) n by simp_all
  show "\<forall>d\<in>set ds. (d, from) \<notin> (graph_edges g)\<^sup>*"
    using a(1,3) n unfolding path_exists_iff by auto
qed

lemma add_edges_false:
  assumes "graph_ok g" "add_edges g from ds = (False, g')"
  shows "g' = g" "from \<notin> graph_nodes g \<or> \<not> set ds \<subseteq> graph_nodes g \<or>
    (\<exists>d\<in>set ds. (d, from) \<in> (graph_edges g)\<^sup>*)"
proof -
  show "g' = g" using assms(2) by (auto simp: add_edges_def split: if_splits)
  show "from \<notin> graph_nodes g \<or> \<not> set ds \<subseteq> graph_nodes g \<or>
    (\<exists>d\<in>set ds. (d, from) \<in> (graph_edges g)\<^sup>*)"
    using assms(2) graph_okD(1)[OF assms(1)]
    by (auto simp: add_edges_def graph_nodes_def list_ex_iff path_exists_iff domIff subset_iff
        split: if_splits simp del: not_None_eq)
qed

section \<open>The deadlock-avoidance contract\<close>

text \<open>
  What the transaction manager relies on: a store of waits whose operations
  have the stated effect on the set of nodes and edges, where a batch of edges
  is accepted only if no destination already reaches the source.  From these
  laws the graph stays acyclic, so some transaction of every set of waiting
  transactions waits for nobody in that set.
\<close>

locale wait_registry =
  fixes ok :: "'g \<Rightarrow> bool"
    and nodes :: "'g \<Rightarrow> 'n set"
    and edges :: "'g \<Rightarrow> ('n \<times> 'n) set"
    and node :: "'g \<Rightarrow> 'n \<Rightarrow> 'g"
    and forget :: "'g \<Rightarrow> 'n \<Rightarrow> 'g"
    and wait :: "'g \<Rightarrow> 'n \<Rightarrow> 'n list \<Rightarrow> bool \<times> 'g"
    and resume :: "'g \<Rightarrow> 'n \<Rightarrow> 'g"
  assumes node_law: "ok g \<Longrightarrow> ok (node g t) \<and> nodes (node g t) = insert t (nodes g) \<and>
      edges (node g t) = edges g"
    and forget_law: "ok g \<Longrightarrow> ok (forget g t) \<and> nodes (forget g t) = nodes g - {t} \<and>
      edges (forget g t) = {(a, b) \<in> edges g. a \<noteq> t \<and> b \<noteq> t}"
    and resume_law: "ok g \<Longrightarrow> ok (resume g t) \<and> nodes (resume g t) = nodes g \<and>
      edges (resume g t) = {(a, b) \<in> edges g. a \<noteq> t}"
    and wait_accepted: "ok g \<Longrightarrow> wait g f ds = (True, g') \<Longrightarrow> ok g' \<and> nodes g' = nodes g \<and>
      f \<in> nodes g \<and> set ds \<subseteq> nodes g \<and> edges g' = edges g \<union> {f} \<times> set ds \<and>
      (\<forall>d\<in>set ds. (d, f) \<notin> (edges g)\<^sup>*)"
    and wait_refused: "ok g \<Longrightarrow> wait g f ds = (False, g') \<Longrightarrow> g' = g \<and>
      (f \<notin> nodes g \<or> \<not> set ds \<subseteq> nodes g \<or> (\<exists>d\<in>set ds. (d, f) \<in> (edges g)\<^sup>*))"
begin

lemma node_acyclic: "ok g \<Longrightarrow> acyclic (edges g) \<Longrightarrow> acyclic (edges (node g t))"
  by (simp add: node_law)

lemma forget_acyclic: "ok g \<Longrightarrow> acyclic (edges g) \<Longrightarrow> acyclic (edges (forget g t))"
  by (rule acyclic_subset[of "edges g"]) (auto simp: forget_law)

lemma resume_acyclic: "ok g \<Longrightarrow> acyclic (edges g) \<Longrightarrow> acyclic (edges (resume g t))"
  by (rule acyclic_subset[of "edges g"]) (auto simp: resume_law)

lemma wait_acyclic:
  assumes "ok g" "acyclic (edges g)" "wait g f ds = (r, g')"
  shows "acyclic (edges g')"
proof (cases r)
  case True
  with wait_accepted[OF assms(1)] assms show ?thesis by (auto intro!: acyclic_add_source)
next
  case False
  with wait_refused[OF assms(1)] assms show ?thesis by auto
qed

lemma wait_iff:
  assumes "ok g"
  shows "fst (wait g f ds) \<longleftrightarrow>
    f \<in> nodes g \<and> set ds \<subseteq> nodes g \<and> (\<forall>d\<in>set ds. (d, f) \<notin> (edges g)\<^sup>*)"
proof -
  obtain r g' where w: "wait g f ds = (r, g')" by (cases "wait g f ds")
  show ?thesis
  proof (cases r)
    case True
    with w wait_accepted[OF assms, of f ds g'] show ?thesis by simp
  next
    case False
    with w wait_refused[OF assms, of f ds g'] show ?thesis by auto
  qed
qed

text \<open>A nonempty finite set in which everybody waits for a member has a cycle.\<close>

lemma no_circular_wait:
  assumes "acyclic (edges g)" "finite W" "W \<noteq> {}"
  shows "\<exists>w\<in>W. \<forall>b\<in>W. (w, b) \<notin> edges g"
proof -
  let ?r = "edges g \<inter> W \<times> W"
  have "finite ?r" using assms(2) by simp
  moreover have "acyclic ?r" using assms(1) by (rule acyclic_subset) simp
  ultimately have "wf (?r\<inverse>)" by (intro finite_acyclic_wf_converse)
  moreover obtain x where "x \<in> W" using assms(3) by blast
  ultimately obtain w where w: "w \<in> W" "\<And>b. (b, w) \<in> ?r\<inverse> \<Longrightarrow> b \<notin> W"
    by (rule wfE_min) blast
  show ?thesis
  proof (intro bexI[OF _ w(1)] ballI notI)
    fix b assume "b \<in> W" "(w, b) \<in> edges g"
    with w(1) w(2)[of b] show False by simp
  qed
qed

end

interpretation wg: wait_registry graph_ok graph_nodes graph_edges add_node graph_remove add_edges
  remove_outgoing
proof
  fix g t f ds g'
  assume ok: "graph_ok g"
  show "graph_ok (add_node g t) \<and> graph_nodes (add_node g t) = insert t (graph_nodes g) \<and>
      graph_edges (add_node g t) = graph_edges g"
    by (simp add: add_node_spec[OF ok])
  show "graph_ok (graph_remove g t) \<and> graph_nodes (graph_remove g t) = graph_nodes g - {t} \<and>
      graph_edges (graph_remove g t) = {(a, b) \<in> graph_edges g. a \<noteq> t \<and> b \<noteq> t}"
    by (simp add: graph_remove_spec[OF ok])
  show "graph_ok (remove_outgoing g t) \<and> graph_nodes (remove_outgoing g t) = graph_nodes g \<and>
      graph_edges (remove_outgoing g t) = {(a, b) \<in> graph_edges g. a \<noteq> t}"
    by (simp add: remove_outgoing_spec[OF ok])
  show "graph_ok g' \<and> graph_nodes g' = graph_nodes g \<and> f \<in> graph_nodes g \<and>
      set ds \<subseteq> graph_nodes g \<and> graph_edges g' = graph_edges g \<union> {f} \<times> set ds \<and>
      (\<forall>d\<in>set ds. (d, f) \<notin> (graph_edges g)\<^sup>*)" if "add_edges g f ds = (True, g')"
    using add_edges_true[OF ok that] by blast
  show "g' = g \<and> (f \<notin> graph_nodes g \<or> \<not> set ds \<subseteq> graph_nodes g \<or>
      (\<exists>d\<in>set ds. (d, f) \<in> (graph_edges g)\<^sup>*))" if "add_edges g f ds = (False, g')"
    using add_edges_false[OF ok that] by blast
qed

section \<open>Runs of the graph\<close>

lemma remove_edge_spec:
  assumes "graph_ok g"
  shows "graph_ok (remove_edge g f t)" "graph_nodes (remove_edge g f t) = graph_nodes g"
    "graph_edges (remove_edge g f t) = graph_edges g - {(f, t)}"
proof -
  have ok: "b \<in> links (outgoing_links g) a \<longleftrightarrow> a \<in> links (incoming_links g) b" for a b
    using assms unfolding graph_ok_iff by blast
  have l: "links (outgoing_links (remove_edge g f t)) a =
      (if a = f then links (outgoing_links g) a - {t} else links (outgoing_links g) a)"
    "links (incoming_links (remove_edge g f t)) a =
      (if a = t then links (incoming_links g) a - {f} else links (incoming_links g) a)" for a
    using ok[of t f] by (auto simp: remove_edge_def links_Some links_None split: option.splits)
  have d: "(outgoing_links (remove_edge g f t) a = None) = (outgoing_links g a = None)"
    "(incoming_links (remove_edge g f t) a = None) = (incoming_links g a = None)" for a
    by (auto simp: remove_edge_def split: option.splits)
  show "graph_ok (remove_edge g f t)"
    using assms unfolding graph_ok_iff l d by auto
  show "graph_nodes (remove_edge g f t) = graph_nodes g"
    by (auto simp: graph_nodes_def dom_def d simp del: not_None_eq)
  show "graph_edges (remove_edge g f t) = graph_edges g - {(f, t)}"
    by (auto simp: graph_edges_iff l split: if_splits)
qed

datatype graph_op =
    AddNode txn_id
  | RemoveNode txn_id
  | AddEdges txn_id "txn_id list"
  | RemoveEdge txn_id txn_id
  | RemoveOutgoing txn_id

fun graph_step :: "graph_op \<Rightarrow> WaitForGraph \<Rightarrow> WaitForGraph" where
  "graph_step (AddNode t) g = add_node g t"
| "graph_step (RemoveNode t) g = graph_remove g t"
| "graph_step (AddEdges f ds) g = snd (add_edges g f ds)"
| "graph_step (RemoveEdge f t) g = remove_edge g f t"
| "graph_step (RemoveOutgoing t) g = remove_outgoing g t"

lemma graph_step_inv:
  assumes "graph_ok g" "acyclic (graph_edges g)"
  shows "graph_ok (graph_step op g) \<and> acyclic (graph_edges (graph_step op g))"
proof (cases op)
  case (AddNode t)
  with assms wg.node_law[of g t] show ?thesis by simp
next
  case (RemoveNode t)
  with assms wg.forget_law[of g t] wg.forget_acyclic[of g t] show ?thesis by simp
next
  case (AddEdges f ds)
  obtain r g' where w: "add_edges g f ds = (r, g')" by (cases "add_edges g f ds")
  then have "graph_ok g'"
    using wg.wait_accepted[of g f ds g'] wg.wait_refused[of g f ds g'] assms by (cases r) auto
  with wg.wait_acyclic[OF assms w] AddEdges w show ?thesis by simp
next
  case (RemoveEdge f t)
  have "acyclic (graph_edges g - {(f, t)})" by (rule acyclic_subset[OF assms(2)]) blast
  with RemoveEdge remove_edge_spec[OF assms(1)] show ?thesis by simp
next
  case (RemoveOutgoing t)
  with assms wg.resume_law[of g t] wg.resume_acyclic[of g t] show ?thesis by simp
qed

lemma empty_graph_inv: "graph_ok empty_graph" "graph_edges empty_graph = {}"
  by (auto simp: empty_graph_def graph_ok_iff links_None graph_edges_iff)

section \<open>Properties\<close>

text \<open>The breadth-first search always terminates and decides reachability: it
  answers true exactly when both transactions are in the graph and the second can be
  reached from the first along wait edges.\<close>

theorem path_exists_correct:
  "path_exists g a b =
   (a \<in> graph_nodes g \<and> b \<in> graph_nodes g \<and> (a, b) \<in> (graph_edges g)\<^sup>*)"
  by (rule path_exists_iff)

text \<open>A batch of waits is accepted exactly when all its transactions exist and
  none of the blockers already waits, directly or not, for the requester; an
  accepted batch adds exactly its edges, a refused one changes nothing.\<close>

theorem add_edges_exact:
  assumes "graph_ok g"
  shows "fst (add_edges g f ds) = (f \<in> graph_nodes g \<and> set ds \<subseteq> graph_nodes g \<and>
      (\<forall>d\<in>set ds. (d, f) \<notin> (graph_edges g)\<^sup>*)) \<and>
    (if fst (add_edges g f ds)
     then graph_edges (snd (add_edges g f ds)) = graph_edges g \<union> {f} \<times> set ds
     else snd (add_edges g f ds) = g)"
proof -
  obtain r g' where w: "add_edges g f ds = (r, g')" by (cases "add_edges g f ds")
  show ?thesis
    using wg.wait_iff[OF assms, of f ds] wg.wait_accepted[OF assms, of f ds g']
      wg.wait_refused[OF assms, of f ds g'] w by (cases r) simp_all
qed

theorem add_edges_exact_witness:
  "fst (add_edges (graph_step (AddNode 2) (graph_step (AddNode 1) empty_graph)) 1 [2]) =
   (1 \<in> graph_nodes (graph_step (AddNode 2) (graph_step (AddNode 1) empty_graph)) \<and>
    set [2] \<subseteq> graph_nodes (graph_step (AddNode 2) (graph_step (AddNode 1) empty_graph)) \<and>
    (\<forall>d\<in>set [2]. (d, 1) \<notin> (graph_edges (graph_step (AddNode 2) (graph_step (AddNode 1) empty_graph)))\<^sup>*))"
proof -
  let ?g = "graph_step (AddNode 2) (graph_step (AddNode 1) empty_graph)"
  have "graph_ok ?g" by (simp add: add_node_spec empty_graph_inv)
  from add_edges_exact[OF this, of 1 "[2]"] show ?thesis by blast
qed

text \<open>C18: whatever sequence of operations is applied to the empty graph, its two
  indexes agree and no circular wait ever exists.\<close>

theorem wait_for_graph_acyclic:
  "graph_ok (fold graph_step ops empty_graph) \<and>
   acyclic (graph_edges (fold graph_step ops empty_graph))"
proof -
  have "graph_ok g \<Longrightarrow> acyclic (graph_edges g) \<Longrightarrow>
    graph_ok (fold graph_step ops g) \<and> acyclic (graph_edges (fold graph_step ops g))" for g
    by (induction ops arbitrary: g) (auto dest: graph_step_inv)
  then show ?thesis using empty_graph_inv by (simp add: acyclic_def)
qed

end
