(* ===== verification/Transactions.thy ===== *)
theory Transactions
  imports KeyCodec WaitForGraph
begin

text \<open>
  Transactions and the part of the transaction manager that the lock manager
  calls back into, after \<open>src/include/TransactionManager/Transaction.h\<close> and
  \<open>src/src/TransactionManager/TransactionManager.cpp\<close>: recording a granted lock,
  registering a wait and removing one.  Each runs under
  \<open>transactions_mutex_\<close> and is one atomic function.  A \<open>TransactionHandle\<close> is
  the transaction's id, which the manager never issues twice.
\<close>

datatype LockMode = Shared | Exclusive

datatype TransactionState =
    Active
  | AbortRequested
  | Committing
  | Aborting
  | Committed
  | Aborted

record HeldKeyLock =
  held_key :: Key
  held_mode :: LockMode

record Transaction =
  txn_state :: TransactionState
  held_key_locks :: "HeldKeyLock list"
  last_lsn :: u64

record TransactionManager =
  active_transactions :: "txn_id \<rightharpoonup> Transaction"
  next_transaction_id :: txn_id
  transaction_ids_initialized :: bool
  wait_for_graph :: WaitForGraph

datatype WaitRegistrationStatus = Registered | WaitDeadlock | WaitTransactionNotFound | BlockerNotFound

text \<open>\<open>KeyEqual\<close> ignores the redundant size field; \<open>key_id\<close> is the class of a key.\<close>

definition key_id :: "Key \<Rightarrow> KeyType \<times> bytes" where
  "key_id k = (ktype k, kdata k)"

definition KeyEqual :: "Key \<Rightarrow> Key \<Rightarrow> bool" where
  "KeyEqual lhs rhs \<longleftrightarrow> ktype lhs = ktype rhs \<and> kdata lhs = kdata rhs"

lemma KeyEqual_iff: "KeyEqual a b \<longleftrightarrow> key_id a = key_id b"
  by (auto simp: KeyEqual_def key_id_def)

definition txn_find :: "TransactionManager \<Rightarrow> txn_id \<Rightarrow> Transaction option" where
  "txn_find tm t = active_transactions tm t"

definition has_active_transactions :: "TransactionManager \<Rightarrow> bool" where
  "has_active_transactions tm \<longleftrightarrow> active_transactions tm \<noteq> Map.empty"

definition register_wait ::
  "TransactionManager \<Rightarrow> txn_id \<Rightarrow> txn_id list \<Rightarrow> WaitRegistrationStatus \<times> TransactionManager" where
  "register_wait tm waiting blockers =
     (case active_transactions tm waiting of
        None \<Rightarrow> (WaitTransactionNotFound, tm)
      | Some tr \<Rightarrow>
          if txn_state tr \<noteq> Active then (WaitTransactionNotFound, tm)
          else if list_ex (\<lambda>b. active_transactions tm b = None) blockers then (BlockerNotFound, tm)
          else (case add_edges (wait_for_graph tm) waiting blockers of
                  (added, g) \<Rightarrow>
                    (if added then Registered else WaitDeadlock, tm\<lparr>wait_for_graph := g\<rparr>)))"

definition remove_wait :: "TransactionManager \<Rightarrow> txn_id \<Rightarrow> TransactionManager" where
  "remove_wait tm waiting = tm\<lparr>wait_for_graph := remove_outgoing (wait_for_graph tm) waiting\<rparr>"

text \<open>Search for an entry of the same key, upgrade it or append a new one.\<close>

fun record_held :: "HeldKeyLock list \<Rightarrow> Key \<Rightarrow> LockMode \<Rightarrow> HeldKeyLock list" where
  "record_held [] key mode = [\<lparr>held_key = key, held_mode = mode\<rparr>]"
| "record_held (h # hs) key mode =
     (if KeyEqual (held_key h) key
      then (if mode = Exclusive then h\<lparr>held_mode := Exclusive\<rparr> else h) # hs
      else h # record_held hs key mode)"

definition record_lock ::
  "TransactionManager \<Rightarrow> txn_id \<Rightarrow> Key \<Rightarrow> LockMode \<Rightarrow> bool \<times> TransactionManager" where
  "record_lock tm t key mode =
     (case active_transactions tm t of
        None \<Rightarrow> (False, tm)
      | Some tr \<Rightarrow>
          if txn_state tr \<noteq> Active then (False, tm)
          else (True, tm\<lparr>active_transactions := (active_transactions tm)
                 (t \<mapsto> tr\<lparr>held_key_locks := record_held (held_key_locks tr) key mode\<rparr>)\<rparr>))"

section \<open>The locks a transaction has on record\<close>

definition held_set :: "HeldKeyLock list \<Rightarrow> ((KeyType \<times> bytes) \<times> LockMode) set" where
  "held_set hs = (\<lambda>h. (key_id (held_key h), held_mode h)) ` set hs"

abbreviation held_ids :: "HeldKeyLock list \<Rightarrow> (KeyType \<times> bytes) list" where
  "held_ids hs \<equiv> map (\<lambda>h. key_id (held_key h)) hs"

lemma held_set_simps [simp]:
  "held_set [] = {}"
  "held_set (h # hs) = insert (key_id (held_key h), held_mode h) (held_set hs)"
  "held_set (hs @ hs') = held_set hs \<union> held_set hs'"
  by (auto simp: held_set_def)

lemma held_set_id: "(i, m) \<in> held_set hs \<Longrightarrow> i \<in> set (held_ids hs)"
  by (auto simp: held_set_def)

lemma record_held_ids:
  "set (held_ids (record_held hs key mode)) = insert (key_id key) (set (held_ids hs))"
  "distinct (held_ids hs) \<Longrightarrow> distinct (held_ids (record_held hs key mode))"
proof -
  show s: "set (held_ids (record_held hs key mode)) = insert (key_id key) (set (held_ids hs))" for hs
    by (induction hs) (auto simp: KeyEqual_iff)
  show "distinct (held_ids hs) \<Longrightarrow> distinct (held_ids (record_held hs key mode))"
  proof (induction hs)
    case (Cons h hs)
    then show ?case using s[of hs] by (auto simp: KeyEqual_iff)
  qed simp
qed

lemma record_held_new:
  "key_id key \<notin> set (held_ids hs) \<Longrightarrow>
   held_set (record_held hs key mode) = insert (key_id key, mode) (held_set hs)"
  by (induction hs) (auto simp: KeyEqual_iff)

text \<open>A key already on record keeps or is raised to the stronger mode.\<close>

lemma record_held_old:
  assumes "distinct (held_ids hs)" "key_id key \<in> set (held_ids hs)"
  shows "held_set (record_held hs key Exclusive) =
    insert (key_id key, Exclusive) (held_set hs - {(key_id key, Shared)})"
  using assms
proof (induction hs)
  case (Cons h hs)
  show ?case
  proof (cases "key_id (held_key h) = key_id key")
    case True
    with Cons.prems have "(key_id key, Shared) \<notin> held_set hs" "(key_id key, Exclusive) \<notin> held_set hs"
      by (auto dest: held_set_id)
    with True show ?thesis by (cases "held_mode h") (auto simp: KeyEqual_iff)
  next
    case False
    with Cons show ?thesis by (auto simp: KeyEqual_iff)
  qed
qed simp

end
