(* ===== verification/LockManager.thy ===== *)
theory LockManager
  imports Transactions
begin

text \<open>
  The key lock manager, after \<open>src/src/LockManager/LockManager.cpp\<close> and the
  headers under \<open>src/include/LockManager\<close>: a table of lock states in 64 shards,
  shared and exclusive requests, promotion, FIFO waiting and granting.  Every
  operation runs under its shard's mutex and is atomic up to the point where the
  caller blocks on the condition variable; a request that blocks returns
  \<open>LR_waiting\<close>, and the unlock that completes it returns the waiter with its
  \<open>granted\<close> or \<open>cancelled\<close> flag set.  \<open>txn_mgr_\<close> is an option: the null
  pointer is \<open>None\<close>.
\<close>

unbundle bit_operations_syntax

record Waiter =
  w_txn :: txn_id
  w_mode :: LockMode
  w_granted :: bool
  w_cancelled :: bool

record LockState =
  shared_owners :: "txn_id set"
  exclusive_owner :: "txn_id option"
  waiters :: "Waiter list"

definition new_LockState :: LockState where
  "new_LockState = \<lparr>shared_owners = {}, exclusive_owner = None, waiters = []\<rparr>"

datatype LockManagerStatus =
    LockSuccess
  | TxnHoldsExclusive
  | TxnHoldsShared
  | Busy
  | NotOwner
  | Deadlock
  | TransactionNotFound

section \<open>Shards\<close>

definition KeyHash :: "Key \<Rightarrow> u64" where
  "KeyHash key =
     (let prime = 1099511628211;
          hash = (14695981039346656037 XOR of_nat (key_tag (ktype key))) * prime
      in foldl (\<lambda>hash byte. (hash XOR ucast byte) * prime) hash (kdata key))"

definition SHARD_COUNT :: nat where
  "SHARD_COUNT = 64"

type_synonym LockShard = "(KeyType \<times> bytes) \<rightharpoonup> LockState"

record LockManager =
  shards :: "nat \<Rightarrow> LockShard"

definition shard_of :: "Key \<Rightarrow> nat" where
  "shard_of key = unat (KeyHash key) mod SHARD_COUNT"

definition states_find :: "LockManager \<Rightarrow> Key \<Rightarrow> LockState option" where
  "states_find lm key = shards lm (shard_of key) (key_id key)"

definition states_put :: "LockManager \<Rightarrow> Key \<Rightarrow> LockState \<Rightarrow> LockManager" where
  "states_put lm key st =
     lm\<lparr>shards := (shards lm)(shard_of key := (shards lm (shard_of key))(key_id key \<mapsto> st))\<rparr>"

definition states_erase :: "LockManager \<Rightarrow> Key \<Rightarrow> LockManager" where
  "states_erase lm key =
     lm\<lparr>shards := (shards lm)(shard_of key := (shards lm (shard_of key))(key_id key := None))\<rparr>"

definition empty_LockManager :: LockManager where
  "empty_LockManager = \<lparr>shards = (\<lambda>_. Map.empty)\<rparr>"

text \<open>\<open>shard.states[key]\<close> creates the entry when it is missing.\<close>

definition states_at :: "LockManager \<Rightarrow> Key \<Rightarrow> LockState" where
  "states_at lm key = (case states_find lm key of None \<Rightarrow> new_LockState | Some st \<Rightarrow> st)"

section \<open>Granting\<close>

text \<open>\<open>LockState::grant_waiters\<close>: the loop over the queue, with the waiters granted so far.\<close>

fun grant_queue :: "LockState \<Rightarrow> Waiter list \<Rightarrow> Waiter list \<Rightarrow> LockState \<times> Waiter list" where
  "grant_queue st granted [] = (st\<lparr>waiters := []\<rparr>, granted)"
| "grant_queue st granted (w # queue) =
     (if w_mode w = Exclusive then
        (let only_requester_is_shared = card (shared_owners st) = 1 \<and> w_txn w \<in> shared_owners st
         in if shared_owners st = {} \<or> only_requester_is_shared
            then (st\<lparr>waiters := queue,
                     shared_owners := (if only_requester_is_shared
                                       then shared_owners st - {w_txn w} else shared_owners st),
                     exclusive_owner := Some (w_txn w)\<rparr>,
                  granted @ [w\<lparr>w_granted := True\<rparr>])
            else (st\<lparr>waiters := w # queue\<rparr>, granted))
      else grant_queue (st\<lparr>shared_owners := insert (w_txn w) (shared_owners st)\<rparr>)
             (granted @ [w\<lparr>w_granted := True\<rparr>]) queue)"

definition LockState_grant_waiters :: "LockState \<Rightarrow> LockState \<times> Waiter list" where
  "LockState_grant_waiters st =
     (if exclusive_owner st \<noteq> None \<or> waiters st = [] then (st, [])
      else grant_queue st [] (waiters st))"

text \<open>Taking a lock back from a waiter whose transaction could not record it.\<close>

definition revoke_grant :: "LockState \<Rightarrow> Waiter \<Rightarrow> LockState" where
  "revoke_grant st w =
     (if w_mode w = Shared then st\<lparr>shared_owners := shared_owners st - {w_txn w}\<rparr>
      else if exclusive_owner st = Some (w_txn w) then st\<lparr>exclusive_owner := None\<rparr>
      else st)"

text \<open>The inner loop of \<open>LockManager::grant_waiters\<close> over the granted waiters:
  it returns the retry flag and the completed waiters.\<close>

fun complete_granted ::
  "TransactionManager option \<Rightarrow> LockState \<Rightarrow> Key \<Rightarrow> Waiter list \<Rightarrow>
   TransactionManager option \<times> LockState \<times> bool \<times> Waiter list" where
  "complete_granted tm st key [] = (tm, st, False, [])"
| "complete_granted None st key (w # ws) =
     (case complete_granted None st key ws of
        (tm, st, retry, completed) \<Rightarrow> (tm, st, retry, w # completed))"
| "complete_granted (Some tm) st key (w # ws) =
     (let (recorded, tm) = record_lock tm (w_txn w) key (w_mode w);
          tm = remove_wait tm (w_txn w)
      in if recorded
         then (case complete_granted (Some tm) st key ws of
                 (tm, st, retry, completed) \<Rightarrow> (tm, st, retry, w # completed))
         else
           (case complete_granted (Some tm) (revoke_grant st w) key ws of
              (tm, st, retry, completed) \<Rightarrow>
                (tm, st, True, w\<lparr>w_granted := False, w_cancelled := True\<rparr> # completed)))"

lemma grant_queue_shrinks:
  "grant_queue st granted q = (st', granted') \<Longrightarrow>
   length (waiters st') + length granted' = length q + length granted"
  by (induction st granted q rule: grant_queue.induct) (auto simp: Let_def split: if_splits)

lemma complete_granted_waiters:
  "waiters (fst (snd (complete_granted tm st key ws))) = waiters st"
proof (induction ws arbitrary: tm st)
  case (Cons w ws)
  have "waiters (revoke_grant st w) = waiters st" by (simp add: revoke_grant_def)
  with Cons show ?case by (cases tm) (simp_all add: Let_def case_prod_beta)
qed simp

function lock_grant_waiters ::
  "TransactionManager option \<Rightarrow> LockState \<Rightarrow> Key \<Rightarrow>
   TransactionManager option \<times> LockState \<times> Waiter list" where
  "lock_grant_waiters tm st key =
     (let (st, granted) = LockState_grant_waiters st
      in if granted = [] then (tm, st, [])
         else
           let (tm, st, retry, completed) = complete_granted tm st key granted
           in if \<not> retry then (tm, st, completed)
              else (case lock_grant_waiters tm st key of
                      (tm, st, woken) \<Rightarrow> (tm, st, completed @ woken)))"
  by pat_completeness auto

lemma LockState_grant_shrinks:
  assumes "LockState_grant_waiters st = (st', granted)" "granted \<noteq> []"
  shows "length (waiters st') < length (waiters st)"
proof -
  have "grant_queue st [] (waiters st) = (st', granted)"
    using assms by (auto simp: LockState_grant_waiters_def split: if_splits)
  from grant_queue_shrinks[OF this] assms(2) show ?thesis by (cases granted) auto
qed

termination lock_grant_waiters
  apply (relation "measure (\<lambda>(tm, st, key). length (waiters st))")
  subgoal by simp
  subgoal premises p for tm st key x st1 granted y tm' z st2 u retry completed
  proof -
    have "LockState_grant_waiters st = (st1, granted)" using p(1,2) by simp
    moreover have "waiters st2 = waiters st1"
      using complete_granted_waiters[of tm st1 key granted] p(4-7) by (metis fst_conv snd_conv)
    ultimately show ?thesis using LockState_grant_shrinks[of st st1 granted] p(3) by simp
  qed
  done

declare lock_grant_waiters.simps [simp del]

section \<open>Requests\<close>

datatype lock_result = LR_status LockManagerStatus | LR_waiting Waiter

definition new_waiter :: "txn_id \<Rightarrow> LockMode \<Rightarrow> Waiter" where
  "new_waiter t mode = \<lparr>w_txn = t, w_mode = mode, w_granted = False, w_cancelled = False\<rparr>"

text \<open>Queueing of a blocked request: the waiter enters the queue, then its wait
  edges are registered; a failed registration takes it out again.\<close>

definition enqueue_waiter ::
  "TransactionManager option \<Rightarrow> LockManager \<Rightarrow> Key \<Rightarrow> LockState \<Rightarrow> txn_id \<Rightarrow> LockMode \<Rightarrow> txn_id list \<Rightarrow>
   lock_result \<times> TransactionManager option \<times> LockManager" where
  "enqueue_waiter tmo lm key st t mode blockers =
     (let w = new_waiter t mode;
          queued = st\<lparr>waiters := waiters st @ [w]\<rparr>
      in case tmo of
           None \<Rightarrow> (LR_waiting w, None, states_put lm key queued)
         | Some tm \<Rightarrow>
             (case register_wait tm t blockers of
                (status, tm) \<Rightarrow>
                  if status \<noteq> Registered then
                    (LR_status (if status = WaitDeadlock then Deadlock else TransactionNotFound),
                     Some tm, states_put lm key (queued\<lparr>waiters := butlast (waiters queued)\<rparr>))
                  else (LR_waiting w, Some tm, states_put lm key queued)))"

definition wait_status :: "Waiter \<Rightarrow> LockManagerStatus" where
  "wait_status w = (if w_cancelled w then TransactionNotFound else LockSuccess)"

definition lock_shared ::
  "TransactionManager option \<Rightarrow> LockManager \<Rightarrow> txn_id \<Rightarrow> Key \<Rightarrow>
   lock_result \<times> TransactionManager option \<times> LockManager" where
  "lock_shared tmo lm t key =
     (let st = states_at lm key;
          lm = states_put lm key st
      in if t \<in> shared_owners st then (LR_status TxnHoldsShared, tmo, lm)
         else if exclusive_owner st = Some t then (LR_status TxnHoldsExclusive, tmo, lm)
         else if exclusive_owner st = None \<and> waiters st = [] then
           (let owned = states_put lm key (st\<lparr>shared_owners := insert t (shared_owners st)\<rparr>)
            in case tmo of
                 None \<Rightarrow> (LR_status LockSuccess, None, owned)
               | Some tm \<Rightarrow>
                   (case record_lock tm t key Shared of
                      (recorded, tm) \<Rightarrow>
                        if \<not> recorded
                        then (LR_status TransactionNotFound, Some tm, states_erase owned key)
                        else (LR_status LockSuccess, Some tm, owned)))
         else
           (let blockers = (case exclusive_owner st of None \<Rightarrow> [] | Some e \<Rightarrow> [e]) @
                  map w_txn (filter (\<lambda>w. w_mode w = Exclusive) (waiters st))
            in enqueue_waiter tmo lm key st t Shared blockers))"

definition lock_exclusive ::
  "TransactionManager option \<Rightarrow> LockManager \<Rightarrow> txn_id \<Rightarrow> Key \<Rightarrow>
   lock_result \<times> TransactionManager option \<times> LockManager" where
  "lock_exclusive tmo lm t key =
     (let st = states_at lm key;
          lm = states_put lm key st
      in if exclusive_owner st = Some t then (LR_status TxnHoldsExclusive, tmo, lm)
         else
           let is_promotion = t \<in> shared_owners st;
               no_other_shared_owner = shared_owners st = {} \<or>
                 (is_promotion \<and> card (shared_owners st) = 1)
           in if no_other_shared_owner \<and> exclusive_owner st = None \<and> waiters st = [] then
                (let owned = st\<lparr>shared_owners := (if is_promotion then shared_owners st - {t}
                                                  else shared_owners st),
                                exclusive_owner := Some t\<rparr>
                 in case tmo of
                      None \<Rightarrow> (LR_status LockSuccess, None, states_put lm key owned)
                    | Some tm \<Rightarrow>
                        (case record_lock tm t key Exclusive of
                           (recorded, tm) \<Rightarrow>
                             if \<not> recorded then
                               (LR_status TransactionNotFound, Some tm,
                                if is_promotion
                                then states_put lm key (owned\<lparr>exclusive_owner := None,
                                       shared_owners := insert t (shared_owners owned)\<rparr>)
                                else states_erase lm key)
                             else (LR_status LockSuccess, Some tm, states_put lm key owned)))
              else
                (let blockers = (case exclusive_owner st of None \<Rightarrow> [] | Some e \<Rightarrow> [e]) @
                       filter (\<lambda>s. s \<noteq> t) (sorted_list_of_set (shared_owners st)) @
                       map w_txn (waiters st)
                 in enqueue_waiter tmo lm key st t Exclusive blockers))"

text \<open>The common tail of both unlock operations: grant, then drop an empty state.\<close>

definition finish_unlock ::
  "TransactionManager option \<Rightarrow> LockManager \<Rightarrow> Key \<Rightarrow> LockState \<Rightarrow>
   LockManagerStatus \<times> TransactionManager option \<times> LockManager \<times> Waiter list" where
  "finish_unlock tmo lm key st =
     (case lock_grant_waiters tmo st key of
        (tmo, st, completed) \<Rightarrow>
          (LockSuccess, tmo,
           if exclusive_owner st = None \<and> waiters st = [] \<and> shared_owners st = {}
           then states_erase lm key else states_put lm key st,
           completed))"

definition unlock_shared ::
  "TransactionManager option \<Rightarrow> LockManager \<Rightarrow> txn_id \<Rightarrow> Key \<Rightarrow>
   LockManagerStatus \<times> TransactionManager option \<times> LockManager \<times> Waiter list" where
  "unlock_shared tmo lm t key =
     (case states_find lm key of
        None \<Rightarrow> (NotOwner, tmo, lm, [])
      | Some st \<Rightarrow>
          if t \<notin> shared_owners st then (NotOwner, tmo, lm, [])
          else finish_unlock tmo lm key (st\<lparr>shared_owners := shared_owners st - {t}\<rparr>))"

definition unlock_exclusive ::
  "TransactionManager option \<Rightarrow> LockManager \<Rightarrow> txn_id \<Rightarrow> Key \<Rightarrow>
   LockManagerStatus \<times> TransactionManager option \<times> LockManager \<times> Waiter list" where
  "unlock_exclusive tmo lm t key =
     (case states_find lm key of
        None \<Rightarrow> (NotOwner, tmo, lm, [])
      | Some st \<Rightarrow>
          if exclusive_owner st \<noteq> Some t then (NotOwner, tmo, lm, [])
          else finish_unlock tmo lm key (st\<lparr>exclusive_owner := None\<rparr>))"

section \<open>The sharded table is one map\<close>

text \<open>
  The operations of the lock manager see the 64 shards only through lookup,
  store and erase; these obey the laws of a single map from key identities to
  states, because the shard of a key depends on its identity alone.
\<close>

locale keyed_store =
  fixes find :: "'s \<Rightarrow> 'k \<Rightarrow> 'v option"
    and put :: "'s \<Rightarrow> 'k \<Rightarrow> 'v \<Rightarrow> 's"
    and erase :: "'s \<Rightarrow> 'k \<Rightarrow> 's"
    and same :: "'k \<Rightarrow> 'i"
  assumes find_cong: "same k = same k' \<Longrightarrow> find s k = find s k'"
    and find_put: "find (put s k v) k' = (if same k' = same k then Some v else find s k')"
    and find_erase: "find (erase s k) k' = (if same k' = same k then None else find s k')"
begin

definition at :: "'v \<Rightarrow> 's \<Rightarrow> 'k \<Rightarrow> 'v" where
  "at d s k = (case find s k of None \<Rightarrow> d | Some v \<Rightarrow> v)"

lemma at_put: "at d (put s k v) k' = (if same k' = same k then v else at d s k')"
  by (simp add: at_def find_put)

lemma at_erase: "at d (erase s k) k' = (if same k' = same k then d else at d s k')"
  by (simp add: at_def find_erase)

lemma at_cong: "same k = same k' \<Longrightarrow> at d s k = at d s k'"
  using find_cong[of k k' s] by (simp add: at_def)

end

lemma shard_of_cong: "key_id k = key_id k' \<Longrightarrow> shard_of k = shard_of k'"
  by (simp add: shard_of_def KeyHash_def key_id_def)

interpretation ls: keyed_store states_find states_put states_erase key_id
  by unfold_locales
    (auto simp: states_find_def states_put_def states_erase_def dest: shard_of_cong)

lemma states_at_eq: "states_at = ls.at new_LockState"
  by (auto simp: states_at_def ls.at_def fun_eq_iff)

lemma states_at_upd [simp]:
  "states_at (states_put lm k st) k' = (if key_id k' = key_id k then st else states_at lm k')"
  "states_at (states_erase lm k) k' = (if key_id k' = key_id k then new_LockState else states_at lm k')"
  by (simp_all add: states_at_eq ls.at_put ls.at_erase)

lemma states_at_cong: "key_id k = key_id k' \<Longrightarrow> states_at lm k = states_at lm k'"
  unfolding states_at_eq by (rule ls.at_cong)

lemma states_find_at: "states_find lm k = Some st \<Longrightarrow> states_at lm k = st"
  by (simp add: states_at_def)

section \<open>Readers and a writer never meet\<close>

definition state_exclusive :: "LockState \<Rightarrow> bool" where
  "state_exclusive st \<longleftrightarrow> (exclusive_owner st \<noteq> None \<longrightarrow> shared_owners st = {})"

definition table_exclusive :: "LockManager \<Rightarrow> bool" where
  "table_exclusive lm \<longleftrightarrow> (\<forall>k. state_exclusive (states_at lm k))"

lemma new_state_exclusive [simp]: "state_exclusive new_LockState"
  by (simp add: state_exclusive_def new_LockState_def)

lemma table_exclusive_put [intro]:
  "table_exclusive lm \<Longrightarrow> state_exclusive st \<Longrightarrow> table_exclusive (states_put lm k st)"
  by (simp add: table_exclusive_def)

lemma table_exclusive_erase [intro]:
  "table_exclusive lm \<Longrightarrow> table_exclusive (states_erase lm k)"
  by (simp add: table_exclusive_def)

lemma singleton_owner: "card S = Suc 0 \<Longrightarrow> t \<in> S \<Longrightarrow> x \<in> S \<Longrightarrow> x = t"
  by (auto simp: card_Suc_eq)

lemma grant_queue_exclusive:
  "exclusive_owner st = None \<Longrightarrow> state_exclusive (fst (grant_queue st granted q))"
  by (induction st granted q rule: grant_queue.induct)
    (auto simp: state_exclusive_def Let_def dest: singleton_owner)

lemma revoke_exclusive: "state_exclusive st \<Longrightarrow> state_exclusive (revoke_grant st w)"
  by (auto simp: state_exclusive_def revoke_grant_def)

lemma complete_granted_exclusive:
  "state_exclusive st \<Longrightarrow> state_exclusive (fst (snd (complete_granted tm st key ws)))"
proof (induction ws arbitrary: tm st)
  case (Cons w ws)
  with revoke_exclusive[of st w] show ?case
    by (cases tm) (simp_all add: Let_def case_prod_beta)
qed simp

lemma LockState_grant_exclusive:
  "state_exclusive st \<Longrightarrow> state_exclusive (fst (LockState_grant_waiters st))"
  by (auto simp: LockState_grant_waiters_def intro: grant_queue_exclusive)

lemma lock_grant_exclusive:
  "state_exclusive st \<Longrightarrow> state_exclusive (fst (snd (lock_grant_waiters tm st key)))"
proof (induction tm st key rule: lock_grant_waiters.induct)
  case (1 tm st key)
  obtain st1 granted where g: "LockState_grant_waiters st = (st1, granted)"
    by (cases "LockState_grant_waiters st")
  obtain tm2 st2 retry completed where
    c: "complete_granted tm st1 key granted = (tm2, st2, retry, completed)"
    by (metis prod_cases4)
  have s: "state_exclusive st1" "state_exclusive st2"
    using LockState_grant_exclusive[OF 1(2)] g complete_granted_exclusive[of st1 tm key granted] c
    by auto
  show ?case
  proof (cases "granted = [] \<or> \<not> retry")
    case True
    with g c s show ?thesis by (subst lock_grant_waiters.simps) (auto simp: Let_def)
  next
    case False
    with 1(1)[OF g[symmetric] refl _ c[symmetric] refl refl refl] s g c show ?thesis
      by (subst lock_grant_waiters.simps) (auto simp: Let_def case_prod_beta)
  qed
qed

lemma enqueue_exclusive:
  "table_exclusive lm \<Longrightarrow> state_exclusive st \<Longrightarrow>
   table_exclusive (snd (snd (enqueue_waiter tmo lm key st t mode bs)))"
  by (auto simp: enqueue_waiter_def Let_def state_exclusive_def split: option.splits prod.splits)

lemma finish_unlock_exclusive:
  assumes "table_exclusive lm" "state_exclusive st"
  shows "table_exclusive (fst (snd (snd (finish_unlock tmo lm key st))))"
  using lock_grant_exclusive[OF assms(2), of tmo key] assms(1)
  by (auto simp: finish_unlock_def split: prod.splits)

lemma table_exclusiveD: "table_exclusive lm \<Longrightarrow> state_exclusive (states_at lm k)"
  by (simp add: table_exclusive_def)

text \<open>A transaction manager in which transactions 1 and 3 are active and 2 is not.\<close>

definition sample_manager :: TransactionManager where
  "sample_manager =
     (let tr = \<lparr>txn_state = Active, held_key_locks = [], last_lsn = 0\<rparr>
      in \<lparr>active_transactions = [1 \<mapsto> tr, 3 \<mapsto> tr], next_transaction_id = 4,
          transaction_ids_initialized = True,
          wait_for_graph = add_node (add_node empty_graph 1) 3\<rparr>)"

section \<open>Properties\<close>

text \<open>C19: no operation of the lock manager, on any table and with or without a
  transaction manager attached, ever leaves a key with both a writer and a reader:
  if it held before the call it holds after it, whatever status the call returns.\<close>

theorem lock_table_exclusive:
  assumes "table_exclusive lm"
  shows "table_exclusive (snd (snd (lock_shared tmo lm t key))) \<and>
    table_exclusive (snd (snd (lock_exclusive tmo lm t key))) \<and>
    table_exclusive (fst (snd (snd (unlock_shared tmo lm t key)))) \<and>
    table_exclusive (fst (snd (snd (unlock_exclusive tmo lm t key))))"
proof -
  let ?st = "states_at lm key" and ?lm = "states_put lm key (states_at lm key)"
  have st: "state_exclusive ?st" using assms by (rule table_exclusiveD)
  have lm: "table_exclusive ?lm" using assms st by blast
  have "table_exclusive (snd (snd (lock_shared tmo lm t key)))"
    using lm st enqueue_exclusive[OF lm st]
    by (auto simp: lock_shared_def Let_def state_exclusive_def split: option.splits prod.splits
        intro!: table_exclusive_erase)
  moreover have "table_exclusive (snd (snd (lock_exclusive tmo lm t key)))"
    using lm st enqueue_exclusive[OF lm st]
    by (auto simp: lock_exclusive_def Let_def state_exclusive_def split: option.splits prod.splits
        dest: singleton_owner intro!: table_exclusive_erase table_exclusive_put)
  moreover have "table_exclusive (fst (snd (snd (unlock_shared tmo lm t key))))"
  proof (cases "states_find lm key")
    case (Some st)
    with assms states_find_at[OF Some] table_exclusiveD[OF assms, of key] show ?thesis
      by (auto simp: unlock_shared_def state_exclusive_def intro!: finish_unlock_exclusive)
  qed (use assms in \<open>simp add: unlock_shared_def\<close>)
  moreover have "table_exclusive (fst (snd (snd (unlock_exclusive tmo lm t key))))"
  proof (cases "states_find lm key")
    case (Some st)
    with assms show ?thesis
      by (auto simp: unlock_exclusive_def state_exclusive_def intro!: finish_unlock_exclusive)
  qed (use assms in \<open>simp add: unlock_exclusive_def\<close>)
  ultimately show ?thesis by blast
qed

theorem lock_table_exclusive_witness:
  "table_exclusive (snd (snd (lock_exclusive None empty_LockManager 1 (key_make_bool True))))"
proof -
  have "table_exclusive empty_LockManager"
    by (simp add: table_exclusive_def states_at_def states_find_def empty_LockManager_def)
  from lock_table_exclusive[OF this, of None 1 "key_make_bool True"] show ?thesis by blast
qed

text \<open>C20: a shared request that the transaction manager refuses to record erases the
  whole lock state of the key, so the locks of the other readers vanish with it: after
  transaction 1 has a shared lock, a failed shared request of the unknown transaction 2
  lets transaction 3 take the key exclusively while transaction 1 still has its
  shared lock on record, and transaction 1 can no longer release it.\<close>

theorem failed_shared_request_drops_readers:
  "\<exists>tm1 lm1 tm2 lm2 tm3 lm3.
    lock_shared (Some sample_manager) empty_LockManager 1 key =
      (LR_status LockSuccess, Some tm1, lm1) \<and>
    lock_shared (Some tm1) lm1 2 key = (LR_status TransactionNotFound, Some tm2, lm2) \<and>
    lock_exclusive (Some tm2) lm2 3 key = (LR_status LockSuccess, Some tm3, lm3) \<and>
    exclusive_owner (states_at lm3 key) = Some 3 \<and>
    map_option held_key_locks (active_transactions tm3 1) =
      Some [\<lparr>held_key = key, held_mode = Shared\<rparr>] \<and>
    fst (unlock_shared (Some tm3) lm3 1 key) = NotOwner"
proof -
  have e: "states_at empty_LockManager key = new_LockState"
    by (simp add: states_at_def states_find_def empty_LockManager_def)
  show ?thesis
    by (simp add: lock_shared_def lock_exclusive_def Let_def e new_LockState_def record_lock_def
        unlock_shared_def ls.find_put sample_manager_def)
qed

end
