(* ===== verification/LockProtocol.thy ===== *)
theory LockProtocol
  imports LockManager
begin

text \<open>
  The lock manager and the transaction table working together.  The invariant
  relates the two sides of every lock (the owner sets of the lock table and the
  locks on record with each transaction) and covers every conflict of a queued
  request by a wait edge.  It is stated over four views: \<open>H\<close>, the locks on record of
  each transaction; \<open>A\<close>, the active transactions; \<open>E\<close>, the wait edges; \<open>S\<close>, the
  lock state of each key identity.
\<close>

type_synonym key_ident = "KeyType \<times> bytes"
type_synonym held_view = "txn_id \<Rightarrow> (key_ident \<times> LockMode) set"

declare split_paired_All [simp del] split_paired_Ex [simp del]

section \<open>The invariant\<close>

definition conflict :: "Waiter \<Rightarrow> Waiter \<Rightarrow> bool" where
  "conflict earlier later \<longleftrightarrow> w_mode earlier = Exclusive \<or> w_mode later = Exclusive"

definition waiter_ok :: "txn_id set \<Rightarrow> (txn_id \<times> txn_id) set \<Rightarrow> LockState \<Rightarrow> Waiter \<Rightarrow> bool" where
  "waiter_ok A E st w \<longleftrightarrow>
     w_txn w \<in> A \<and> \<not> w_granted w \<and> \<not> w_cancelled w \<and>
     (w_mode w = Shared \<longrightarrow> w_txn w \<notin> shared_owners st) \<and>
     exclusive_owner st \<noteq> Some (w_txn w) \<and>
     (\<forall>e. exclusive_owner st = Some e \<longrightarrow> (w_txn w, e) \<in> E) \<and>
     (w_mode w = Exclusive \<longrightarrow> (\<forall>r\<in>shared_owners st - {w_txn w}. (w_txn w, r) \<in> E))"

definition state_ok :: "txn_id set \<Rightarrow> (txn_id \<times> txn_id) set \<Rightarrow> LockState \<Rightarrow> bool" where
  "state_ok A E st \<longleftrightarrow>
     state_exclusive st \<and>
     (\<forall>w\<in>set (waiters st). waiter_ok A E st w) \<and>
     distinct (map w_txn (waiters st)) \<and>
     sorted_wrt (\<lambda>a b. conflict a b \<longrightarrow> (w_txn b, w_txn a) \<in> E) (waiters st)"

definition grantable :: "LockState \<Rightarrow> Waiter \<Rightarrow> bool" where
  "grantable st w \<longleftrightarrow>
     exclusive_owner st = None \<and> (w_mode w = Shared \<or> shared_owners st \<subseteq> {w_txn w})"

definition head_blocked :: "LockState \<Rightarrow> bool" where
  "head_blocked st \<longleftrightarrow> (case waiters st of [] \<Rightarrow> True | w # _ \<Rightarrow> \<not> grantable st w)"

definition owners_ok :: "held_view \<Rightarrow> (key_ident \<Rightarrow> LockState) \<Rightarrow> bool" where
  "owners_ok H S \<longleftrightarrow>
     (\<forall>i t. (t \<in> shared_owners (S i) \<longleftrightarrow> (i, Shared) \<in> H t) \<and>
            (exclusive_owner (S i) = Some t \<longleftrightarrow> (i, Exclusive) \<in> H t))"

definition single_wait :: "(key_ident \<Rightarrow> LockState) \<Rightarrow> bool" where
  "single_wait S \<longleftrightarrow>
     (\<forall>i j w v. w \<in> set (waiters (S i)) \<longrightarrow> v \<in> set (waiters (S j)) \<longrightarrow> w_txn w = w_txn v \<longrightarrow> i = j)"

text \<open>The invariant with the head of one queue possibly grantable: the state in the
  middle of an unlock, after an owner has left and before the queue has been served.\<close>

definition lock_inv_except ::
  "key_ident option \<Rightarrow> held_view \<Rightarrow> txn_id set \<Rightarrow> (txn_id \<times> txn_id) set \<Rightarrow> (key_ident \<Rightarrow> LockState) \<Rightarrow> bool"
  where
  "lock_inv_except x H A E S \<longleftrightarrow>
     (\<forall>i. state_ok A E (S i)) \<and> (\<forall>i. Some i \<noteq> x \<longrightarrow> head_blocked (S i)) \<and>
     owners_ok H S \<and> single_wait S"

abbreviation lock_inv ::
  "held_view \<Rightarrow> txn_id set \<Rightarrow> (txn_id \<times> txn_id) set \<Rightarrow> (key_ident \<Rightarrow> LockState) \<Rightarrow> bool" where
  "lock_inv \<equiv> lock_inv_except None"

section \<open>Serving a queue\<close>

text \<open>Granting the head of a queue: new lock state, new record.\<close>

definition own_head :: "LockState \<Rightarrow> Waiter \<Rightarrow> Waiter list \<Rightarrow> LockState" where
  "own_head st w q =
     (if w_mode w = Shared
      then st\<lparr>waiters := q, shared_owners := insert (w_txn w) (shared_owners st)\<rparr>
      else st\<lparr>waiters := q, shared_owners := {}, exclusive_owner := Some (w_txn w)\<rparr>)"

definition own_view :: "held_view \<Rightarrow> key_ident \<Rightarrow> Waiter \<Rightarrow> held_view" where
  "own_view H i w =
     H(w_txn w := insert (i, w_mode w) (H (w_txn w) - {(i, Shared)}))"

definition drop_edges :: "(txn_id \<times> txn_id) set \<Rightarrow> txn_id \<Rightarrow> (txn_id \<times> txn_id) set" where
  "drop_edges E t = {(a, b) \<in> E. a \<noteq> t}"

lemma waiter_ok_drop:
  "waiter_ok A E st w \<Longrightarrow> w_txn w \<noteq> t \<Longrightarrow> waiter_ok A (drop_edges E t) st w"
  by (auto simp: waiter_ok_def drop_edges_def)

lemma state_ok_drop:
  assumes "state_ok A E st" "\<forall>w\<in>set (waiters st). w_txn w \<noteq> t"
  shows "state_ok A (drop_edges E t) st"
proof -
  have "sorted_wrt (\<lambda>a b. conflict a b \<longrightarrow> (w_txn b, w_txn a) \<in> drop_edges E t) (waiters st)"
    using assms by (auto simp: state_ok_def drop_edges_def elim!: sorted_wrt_mono_rel[rotated])
  with assms show ?thesis by (auto simp: state_ok_def waiter_ok_drop)
qed

lemma own_head_ok:
  assumes "state_ok A E st" "waiters st = w # q" "grantable st w"
  shows "state_ok A (drop_edges E (w_txn w)) (own_head st w q)"
proof -
  have q: "\<forall>v\<in>set q. waiter_ok A E st v \<and> w_txn v \<noteq> w_txn w \<and> (conflict w v \<longrightarrow> (w_txn v, w_txn w) \<in> E)"
    "distinct (map w_txn q)"
    "sorted_wrt (\<lambda>a b. conflict a b \<longrightarrow> (w_txn b, w_txn a) \<in> E) q"
    using assms(1,2) by (auto simp: state_ok_def) (metis image_eqI)
  have "waiter_ok A (drop_edges E (w_txn w)) (own_head st w q) v" if "v \<in> set q" for v
    using q(1) that assms(3)
    by (cases "w_mode w") (auto simp: waiter_ok_def own_head_def drop_edges_def conflict_def grantable_def)
  moreover have "sorted_wrt (\<lambda>a b. conflict a b \<longrightarrow> (w_txn b, w_txn a) \<in> drop_edges E (w_txn w)) q"
    using q by (auto simp: drop_edges_def elim!: sorted_wrt_mono_rel[rotated])
  moreover have "waiters (own_head st w q) = q" "state_exclusive (own_head st w q)"
    using assms(3) by (auto simp: own_head_def state_exclusive_def grantable_def)
  ultimately show ?thesis using q(2) by (simp add: state_ok_def)
qed

lemma own_head_inv:
  assumes inv: "lock_inv_except (Some i) H A E S" and S: "waiters (S i) = w # q" "grantable (S i) w"
  shows "lock_inv_except (Some i) (own_view H i w) A (drop_edges E (w_txn w))
    (S(i := own_head (S i) w q))"
proof -
  let ?S = "S(i := own_head (S i) w q)"
  have ok: "state_ok A E (S j)" for j using inv unfolding lock_inv_except_def by blast
  have other: "\<forall>v\<in>set (waiters (S j)). w_txn v \<noteq> w_txn w" if "j \<noteq> i" for j
    using inv S(1) that unfolding lock_inv_except_def single_wait_def by (metis list.set_intros(1))
  have "state_ok A (drop_edges E (w_txn w)) (?S j)" for j
    using own_head_ok[OF ok S] state_ok_drop[OF ok other] by auto
  moreover have "head_blocked (?S j)" if "Some j \<noteq> Some i" for j
    using inv that unfolding lock_inv_except_def by auto
  moreover have "owners_ok (own_view H i w) ?S"
  proof -
    have o: "owners_ok H S" using inv by (simp add: lock_inv_except_def)
    have "w_mode w = Exclusive \<Longrightarrow> shared_owners (S i) \<subseteq> {w_txn w}" "exclusive_owner (S i) = None"
      using S(2) by (auto simp: grantable_def)
    moreover from this(2) have "(i, Exclusive) \<notin> H t" for t
      using o unfolding owners_ok_def by (metis option.distinct(1))
    ultimately show ?thesis using o
      unfolding owners_ok_def own_view_def own_head_def
      by (cases "w_mode w") (auto split: if_splits)
  qed
  moreover have "single_wait ?S"
  proof -
    have "set (waiters (?S j)) \<subseteq> set (waiters (S j))" for j
      using S(1) by (auto simp: own_head_def)
    with inv show ?thesis unfolding lock_inv_except_def single_wait_def by (meson subsetD)
  qed
  ultimately show ?thesis unfolding lock_inv_except_def by blast
qed

text \<open>The waiters a queue pass grants, and the state it leaves.\<close>

fun served :: "LockState \<Rightarrow> Waiter list \<Rightarrow> Waiter list" where
  "served st [] = []"
| "served st (w # q) = (if grantable st w then w # served (own_head st w q) q else [])"

fun serve_state :: "LockState \<Rightarrow> Waiter list \<Rightarrow> LockState" where
  "serve_state st [] = st\<lparr>waiters := []\<rparr>"
| "serve_state st (w # q) =
     (if grantable st w then serve_state (own_head st w q) q else st\<lparr>waiters := w # q\<rparr>)"

lemma grantable_waiters [simp]: "grantable (st\<lparr>waiters := x\<rparr>) w = grantable st w"
  by (simp add: grantable_def)

lemma own_head_waiters [simp]: "own_head (st\<lparr>waiters := x\<rparr>) w q = own_head st w q"
  by (simp add: own_head_def)

lemma serve_waiters [simp]:
  "served (st\<lparr>waiters := x\<rparr>) q = served st q"
  "serve_state (st\<lparr>waiters := x\<rparr>) q = serve_state st q"
  by (cases q; simp)+

lemma serve_owned:
  "exclusive_owner st \<noteq> None \<Longrightarrow> served st q = [] \<and> serve_state st q = st\<lparr>waiters := q\<rparr>"
  by (cases q) (simp_all add: grantable_def)

abbreviation mark_granted :: "Waiter \<Rightarrow> Waiter" where
  "mark_granted w \<equiv> w\<lparr>w_granted := True\<rparr>"

lemma card_1_iff: "(card S = 1 \<and> t \<in> S) = (S = {t})"
  by (auto simp: card_1_singleton_iff)

lemma grant_queue_served:
  "exclusive_owner st = None \<Longrightarrow>
   grant_queue st granted q = (serve_state st q, granted @ map mark_granted (served st q))"
proof (induction q arbitrary: st granted)
  case (Cons w q)
  show ?case
  proof (cases "w_mode w")
    case Shared
    let ?st = "st\<lparr>shared_owners := insert (w_txn w) (shared_owners st)\<rparr>"
    have "own_head st w q = ?st\<lparr>waiters := q\<rparr>" using Shared by (simp add: own_head_def)
    moreover have "grantable st w" using Shared Cons.prems by (simp add: grantable_def)
    ultimately show ?thesis using Cons.IH[of ?st] Cons.prems Shared by simp
  next
    case Exclusive
    show ?thesis
    proof (cases "shared_owners st \<subseteq> {w_txn w}")
      case True
      then have "grantable st w" using Exclusive Cons.prems by (simp add: grantable_def)
      moreover have "exclusive_owner (own_head st w q) \<noteq> None" using Exclusive by (simp add: own_head_def)
      moreover have "own_head st w q = st\<lparr>waiters := q, shared_owners := {}, exclusive_owner := Some (w_txn w)\<rparr>"
        using Exclusive by (simp add: own_head_def)
      moreover have "(if shared_owners st = {w_txn w} then shared_owners st - {w_txn w} else shared_owners st) = {}"
        "shared_owners st = {} \<or> shared_owners st = {w_txn w}"
        using True by auto
      ultimately show ?thesis using Exclusive serve_owned[of "own_head st w q" q]
        by (simp add: Let_def card_1_iff del: One_nat_def)
    next
      case False
      then have "\<not> grantable st w" "shared_owners st \<noteq> {}" "shared_owners st \<noteq> {w_txn w}"
        using Exclusive by (auto simp: grantable_def)
      then show ?thesis using Exclusive by (simp add: Let_def card_1_iff del: One_nat_def)
    qed
  qed
qed simp

lemma LockState_grant_served:
  "LockState_grant_waiters st = (serve_state st (waiters st), map mark_granted (served st (waiters st)))"
proof (cases "exclusive_owner st = None")
  case True
  show ?thesis
  proof (cases "waiters st = []")
    case False
    with True grant_queue_served[OF True, of "[]" "waiters st"] show ?thesis
      by (simp add: LockState_grant_waiters_def)
  qed (use True in \<open>simp add: LockState_grant_waiters_def\<close>)
next
  case False
  with serve_owned[OF this] show ?thesis by (simp add: LockState_grant_waiters_def)
qed

section \<open>Views of the transaction table\<close>

definition tm_held :: "TransactionManager \<Rightarrow> held_view" where
  "tm_held tm t = (case active_transactions tm t of None \<Rightarrow> {} | Some tr \<Rightarrow> held_set (held_key_locks tr))"

definition tm_active :: "TransactionManager \<Rightarrow> txn_id set" where
  "tm_active tm = {t. \<exists>tr. active_transactions tm t = Some tr \<and> txn_state tr = Active}"

abbreviation tm_edges :: "TransactionManager \<Rightarrow> (txn_id \<times> txn_id) set" where
  "tm_edges tm \<equiv> graph_edges (wait_for_graph tm)"

definition tm_ok :: "TransactionManager \<Rightarrow> bool" where
  "tm_ok tm \<longleftrightarrow>
     graph_ok (wait_for_graph tm) \<and> acyclic (tm_edges tm) \<and>
     graph_nodes (wait_for_graph tm) = dom (active_transactions tm) \<and>
     (\<forall>t tr. active_transactions tm t = Some tr \<longrightarrow> distinct (held_ids (held_key_locks tr)))"

lemma record_lock_view:
  assumes "tm_ok tm" "t \<in> tm_active tm"
    "mode = Shared \<Longrightarrow> (key_id key, Shared) \<notin> tm_held tm t \<and> (key_id key, Exclusive) \<notin> tm_held tm t"
  shows "fst (record_lock tm t key mode)" "tm_ok (snd (record_lock tm t key mode))"
    "tm_held (snd (record_lock tm t key mode)) =
      (tm_held tm)(t := insert (key_id key, mode) (tm_held tm t - {(key_id key, Shared)}))"
    "tm_active (snd (record_lock tm t key mode)) = tm_active tm"
    "wait_for_graph (snd (record_lock tm t key mode)) = wait_for_graph tm"
    "dom (active_transactions (snd (record_lock tm t key mode))) = dom (active_transactions tm)"
proof -
  obtain tr where tr: "active_transactions tm t = Some tr" "txn_state tr = Active"
    using assms(2) by (auto simp: tm_active_def)
  let ?tr = "tr\<lparr>held_key_locks := record_held (held_key_locks tr) key mode\<rparr>"
  have r: "record_lock tm t key mode =
      (True, tm\<lparr>active_transactions := (active_transactions tm)(t \<mapsto> ?tr)\<rparr>)"
    using tr by (simp add: record_lock_def)
  have d: "distinct (held_ids (held_key_locks tr))" using assms(1) tr unfolding tm_ok_def by blast
  have h: "held_set (held_key_locks ?tr) =
      insert (key_id key, mode) (held_set (held_key_locks tr) - {(key_id key, Shared)})"
  proof (cases "key_id key \<in> set (held_ids (held_key_locks tr))")
    case True
    then have "mode = Exclusive"
    proof (cases mode)
      case Shared
      from True obtain h where "h \<in> set (held_key_locks tr)" "key_id (held_key h) = key_id key" by auto
      then have "(key_id key, held_mode h) \<in> tm_held tm t"
        using tr by (force simp: tm_held_def held_set_def)
      with assms(3)[OF Shared] show ?thesis by (cases "held_mode h") auto
    qed
    with record_held_old[OF d True] show ?thesis by simp
  next
    case False
    then have "(key_id key, Shared) \<notin> held_set (held_key_locks tr)" by (auto dest: held_set_id)
    with record_held_new[OF False] show ?thesis by simp
  qed
  show "fst (record_lock tm t key mode)" using r by simp
  show "wait_for_graph (snd (record_lock tm t key mode)) = wait_for_graph tm" using r by simp
  show "dom (active_transactions (snd (record_lock tm t key mode))) = dom (active_transactions tm)"
    using r tr by auto
  show "tm_ok (snd (record_lock tm t key mode))"
    using assms(1) r tr d record_held_ids(2)[OF d, of key mode] by (auto simp: tm_ok_def)
  show "tm_active (snd (record_lock tm t key mode)) = tm_active tm"
    using r tr by (auto simp: tm_active_def)
  show "tm_held (snd (record_lock tm t key mode)) =
      (tm_held tm)(t := insert (key_id key, mode) (tm_held tm t - {(key_id key, Shared)}))"
    using r tr h by (auto simp: tm_held_def fun_eq_iff)
qed

text \<open>The bookkeeping for one granted waiter: record the lock, drop its wait edges.\<close>

definition grant_record :: "Key \<Rightarrow> Waiter \<Rightarrow> TransactionManager \<Rightarrow> TransactionManager" where
  "grant_record key w tm = remove_wait (snd (record_lock tm (w_txn w) key (w_mode w))) (w_txn w)"

lemma remove_wait_view:
  assumes "tm_ok tm"
  shows "tm_ok (remove_wait tm t)" "tm_held (remove_wait tm t) = tm_held tm"
    "tm_active (remove_wait tm t) = tm_active tm" "tm_edges (remove_wait tm t) = drop_edges (tm_edges tm) t"
    "active_transactions (remove_wait tm t) = active_transactions tm"
proof -
  have g: "graph_ok (wait_for_graph tm)" "acyclic (tm_edges tm)" using assms by (auto simp: tm_ok_def)
  show "tm_edges (remove_wait tm t) = drop_edges (tm_edges tm) t"
    using wg.resume_law[OF g(1), of t] by (simp add: remove_wait_def drop_edges_def)
  show "tm_ok (remove_wait tm t)"
    using assms wg.resume_law[OF g(1), of t] wg.resume_acyclic[OF g, of t]
    by (simp add: tm_ok_def remove_wait_def)
  show "tm_held (remove_wait tm t) = tm_held tm" "tm_active (remove_wait tm t) = tm_active tm"
    "active_transactions (remove_wait tm t) = active_transactions tm"
    by (auto simp: remove_wait_def tm_held_def tm_active_def fun_eq_iff)
qed

lemma record_lock_frame:
  "t' \<noteq> t \<Longrightarrow> active_transactions (snd (record_lock tm t key mode)) t' = active_transactions tm t'"
  by (auto simp: record_lock_def split: option.splits)

lemma grant_record_view:
  assumes "tm_ok tm" "w_txn w \<in> tm_active tm"
    "w_mode w = Shared \<Longrightarrow> (key_id key, Shared) \<notin> tm_held tm (w_txn w) \<and>
       (key_id key, Exclusive) \<notin> tm_held tm (w_txn w)"
  shows "tm_ok (grant_record key w tm)"
    "tm_held (grant_record key w tm) = own_view (tm_held tm) (key_id key) w"
    "tm_active (grant_record key w tm) = tm_active tm"
    "tm_edges (grant_record key w tm) = drop_edges (tm_edges tm) (w_txn w)"
    "dom (active_transactions (grant_record key w tm)) = dom (active_transactions tm)"
    "t \<noteq> w_txn w \<Longrightarrow> active_transactions (grant_record key w tm) t = active_transactions tm t"
  using record_lock_view[OF assms] record_lock_frame[of t "w_txn w" tm key "w_mode w"]
    remove_wait_view[OF record_lock_view(2)[OF assms]]
  by (simp_all add: grant_record_def own_view_def)

lemma complete_granted_active:
  "\<forall>w\<in>set ws. w_txn w \<in> tm_active tm \<Longrightarrow>
   complete_granted (Some tm) st key ws = (Some (fold (grant_record key) ws tm), st, False, ws)"
proof (induction ws arbitrary: tm)
  case (Cons w ws)
  obtain tr where tr: "active_transactions tm (w_txn w) = Some tr" "txn_state tr = Active"
    using Cons.prems by (auto simp: tm_active_def)
  obtain tm1 where r: "record_lock tm (w_txn w) key (w_mode w) = (True, tm1)"
    using tr by (auto simp: record_lock_def)
  have a: "tm_active (grant_record key w tm) = tm_active tm"
    using tr by (auto simp: grant_record_def record_lock_def remove_wait_def tm_active_def)
  have g: "grant_record key w tm = remove_wait tm1 (w_txn w)" using r by (simp add: grant_record_def)
  from Cons.IH[of "grant_record key w tm"] Cons.prems a r g show ?case by simp
qed simp

lemma fold_grant_mark: "fold (grant_record key) (map mark_granted ws) tm = fold (grant_record key) ws tm"
  by (induction ws arbitrary: tm) (simp_all add: grant_record_def)

lemma served_subset: "set (served st q) \<subseteq> set q"
  by (induction q arbitrary: st) auto

text \<open>When every queued transaction is active, one pass of the outer loop serves the queue.\<close>

lemma lock_grant_served:
  assumes "\<forall>w\<in>set (waiters st). w_txn w \<in> tm_active tm"
  shows "lock_grant_waiters (Some tm) st key =
    (Some (fold (grant_record key) (served st (waiters st)) tm), serve_state st (waiters st),
     map mark_granted (served st (waiters st)))"
proof -
  let ?g = "served st (waiters st)"
  have c: "complete_granted (Some tm) (serve_state st (waiters st)) key (map mark_granted ?g) =
      (Some (fold (grant_record key) ?g tm), serve_state st (waiters st), False, map mark_granted ?g)"
    using complete_granted_active[of "map mark_granted ?g" tm "serve_state st (waiters st)" key]
      assms served_subset[of st "waiters st"] by (auto simp: fold_grant_mark)
  show ?thesis
    by (subst lock_grant_waiters.simps) (simp add: LockState_grant_served c)
qed

section \<open>Serving keeps the invariant\<close>

text \<open>While a transaction releases its locks one by one, the locks it still owns are
  given by an explicit set instead of its record.\<close>

definition held_with :: "(txn_id \<times> (key_ident \<times> LockMode) set) option \<Rightarrow> TransactionManager \<Rightarrow> held_view" where
  "held_with ov tm = (case ov of None \<Rightarrow> tm_held tm | Some (t, r) \<Rightarrow> (tm_held tm)(t := r))"

definition sys_ok ::
  "key_ident option \<Rightarrow> (txn_id \<times> (key_ident \<times> LockMode) set) option \<Rightarrow> TransactionManager \<Rightarrow>
   (key_ident \<Rightarrow> LockState) \<Rightarrow> bool" where
  "sys_ok x ov tm S \<longleftrightarrow> tm_ok tm \<and> lock_inv_except x (held_with ov tm) (tm_active tm) (tm_edges tm) S"

definition ov_avoids :: "(txn_id \<times> (key_ident \<times> LockMode) set) option \<Rightarrow> txn_id set \<Rightarrow> bool" where
  "ov_avoids ov T \<longleftrightarrow> (case ov of None \<Rightarrow> True | Some (t, r) \<Rightarrow> t \<notin> T)"

lemma serve_step:
  assumes ok: "sys_ok (Some (key_id key)) ov tm S"
    and S: "waiters (S (key_id key)) = w # q" "grantable (S (key_id key)) w"
    and ov: "ov_avoids ov {w_txn w}"
  shows "sys_ok (Some (key_id key)) ov (grant_record key w tm)
      (S(key_id key := own_head (S (key_id key)) w q))"
    "tm_active (grant_record key w tm) = tm_active tm"
    "dom (active_transactions (grant_record key w tm)) = dom (active_transactions tm)"
    "t \<noteq> w_txn w \<Longrightarrow> active_transactions (grant_record key w tm) t = active_transactions tm t"
proof -
  let ?i = "key_id key"
  have tm: "tm_ok tm" and inv: "lock_inv_except (Some ?i) (held_with ov tm) (tm_active tm) (tm_edges tm) S"
    using ok by (auto simp: sys_ok_def)
  have w: "waiter_ok (tm_active tm) (tm_edges tm) (S ?i) w"
    using inv S(1) unfolding lock_inv_except_def state_ok_def by (metis list.set_intros(1))
  have H: "held_with ov tm (w_txn w) = tm_held tm (w_txn w)"
    using ov by (auto simp: held_with_def ov_avoids_def split: option.splits)
  have o: "owners_ok (held_with ov tm) S" using inv by (simp add: lock_inv_except_def)
  have n: "w_mode w = Shared \<Longrightarrow> (?i, Shared) \<notin> tm_held tm (w_txn w) \<and> (?i, Exclusive) \<notin> tm_held tm (w_txn w)"
    using w o H unfolding waiter_ok_def owners_ok_def by metis
  have a: "w_txn w \<in> tm_active tm" using w by (simp add: waiter_ok_def)
  note g = grant_record_view[OF tm a n]
  have v: "held_with ov (grant_record key w tm) = own_view (held_with ov tm) ?i w"
    using ov g(2) by (cases ov) (auto simp: held_with_def own_view_def ov_avoids_def fun_eq_iff)
  show "sys_ok (Some ?i) ov (grant_record key w tm) (S(?i := own_head (S ?i) w q))"
    using own_head_inv[OF inv S] g(1,3,4) v by (simp add: sys_ok_def)
  show "tm_active (grant_record key w tm) = tm_active tm"
    "dom (active_transactions (grant_record key w tm)) = dom (active_transactions tm)"
    "t \<noteq> w_txn w \<Longrightarrow> active_transactions (grant_record key w tm) t = active_transactions tm t"
    using g by auto
qed

lemma sys_ok_finish:
  assumes "sys_ok (Some i) ov tm S" "head_blocked (S i)"
  shows "sys_ok None ov tm S"
proof -
  have "head_blocked (S j)" for j
    using assms unfolding sys_ok_def lock_inv_except_def by (cases "j = i") auto
  with assms(1) show ?thesis unfolding sys_ok_def lock_inv_except_def by simp
qed

lemma serve_inv:
  assumes "sys_ok (Some (key_id key)) ov tm S" "waiters (S (key_id key)) = q"
    "ov_avoids ov (w_txn ` set q)"
  shows "sys_ok None ov (fold (grant_record key) (served (S (key_id key)) q) tm)
      (S(key_id key := serve_state (S (key_id key)) q)) \<and>
    tm_active (fold (grant_record key) (served (S (key_id key)) q) tm) = tm_active tm \<and>
    dom (active_transactions (fold (grant_record key) (served (S (key_id key)) q) tm)) =
      dom (active_transactions tm) \<and>
    (\<forall>t. t \<notin> w_txn ` set q \<longrightarrow>
      active_transactions (fold (grant_record key) (served (S (key_id key)) q) tm) t = active_transactions tm t)"
  using assms
proof (induction q arbitrary: tm S)
  case Nil
  let ?i = "key_id key"
  have "S ?i\<lparr>waiters := []\<rparr> = S ?i" using Nil.prems(2) by (cases "S ?i") simp
  moreover have "head_blocked (S ?i)" using Nil.prems(2) by (simp add: head_blocked_def)
  ultimately show ?case using sys_ok_finish[OF Nil.prems(1)] by simp
next
  case (Cons w q)
  let ?i = "key_id key"
  show ?case
  proof (cases "grantable (S ?i) w")
    case True
    let ?S = "S(?i := own_head (S ?i) w q)" and ?tm = "grant_record key w tm"
    have ov: "ov_avoids ov {w_txn w}" "ov_avoids ov (w_txn ` set q)"
      using Cons.prems(3) by (auto simp: ov_avoids_def split: option.splits)
    note st = serve_step[OF Cons.prems(1,2) True ov(1)]
    have q: "waiters (?S ?i) = q" by (simp add: own_head_def)
    have S: "?S(?i := serve_state (?S ?i) q) = S(?i := serve_state (S ?i) (w # q))"
      "served (?S ?i) q = served (own_head (S ?i) w q) q"
      using True by simp_all
    from Cons.IH[OF st(1) q ov(2)] st(2-4) True show ?thesis unfolding S by auto
  next
    case False
    then have "head_blocked (S ?i)" using Cons.prems(2) by (simp add: head_blocked_def)
    moreover have "S ?i\<lparr>waiters := w # q\<rparr> = S ?i" using Cons.prems(2) by (cases "S ?i") simp
    ultimately show ?thesis using False sys_ok_finish[OF Cons.prems(1)] by simp
  qed
qed

section \<open>Releasing locks\<close>

definition lock_view :: "LockManager \<Rightarrow> key_ident \<Rightarrow> LockState" where
  "lock_view lm i = states_at lm \<lparr>ktype = fst i, ksize = 0, kdata = snd i\<rparr>"

lemma lock_view_at: "states_at lm k = lock_view lm (key_id k)"
  unfolding lock_view_def by (rule states_at_cong) (simp add: key_id_def)

lemma lock_view_upd [simp]:
  "lock_view (states_put lm k st) = (lock_view lm)(key_id k := st)"
  "lock_view (states_erase lm k) = (lock_view lm)(key_id k := new_LockState)"
  by (auto simp: lock_view_def fun_eq_iff key_id_def)

definition waiting :: "(key_ident \<Rightarrow> LockState) \<Rightarrow> txn_id set" where
  "waiting S = {w_txn w | i w. w \<in> set (waiters (S i))}"

lemma waitingI: "w \<in> set (waiters (S i)) \<Longrightarrow> w_txn w \<in> waiting S"
  unfolding waiting_def by blast

lemma sys_okD:
  assumes "sys_ok x ov tm S"
  shows "tm_ok tm" "state_ok (tm_active tm) (tm_edges tm) (S i)" "owners_ok (held_with ov tm) S"
    "single_wait S"
  using assms unfolding sys_ok_def lock_inv_except_def by blast+

text \<open>An owner leaves: only conditions on the remaining owners are weakened.\<close>

lemma drop_owner_inv:
  assumes ok: "sys_ok None (Some (t, r)) tm S"
    and st: "st = (case m of Shared \<Rightarrow> (S i)\<lparr>shared_owners := shared_owners (S i) - {t}\<rparr>
        | Exclusive \<Rightarrow> (S i)\<lparr>exclusive_owner := None\<rparr>)"
    and r: "(i, m) \<in> r"
  shows "sys_ok (Some i) (Some (t, r - {(i, m)})) tm (S(i := st))"
proof -
  let ?S = "S(i := st)" and ?ov = "Some (t, r - {(i, m)})"
  have w: "waiters st = waiters (S i)" using st by (cases m) auto
  have "state_ok (tm_active tm) (tm_edges tm) st"
    using sys_okD(2)[OF ok, of i] st w
    by (cases m) (auto simp: state_ok_def waiter_ok_def state_exclusive_def)
  then have "state_ok (tm_active tm) (tm_edges tm) (?S j)" for j using sys_okD(2)[OF ok, of j] by simp
  moreover have "head_blocked (?S j)" if "Some j \<noteq> Some i" for j
    using ok that unfolding sys_ok_def lock_inv_except_def by simp
  moreover have "owners_ok (held_with ?ov tm) ?S"
  proof -
    have o: "t' \<in> shared_owners (S j) \<longleftrightarrow> (j, Shared) \<in> held_with (Some (t, r)) tm t'"
      "exclusive_owner (S j) = Some t' \<longleftrightarrow> (j, Exclusive) \<in> held_with (Some (t, r)) tm t'" for j t'
      using sys_okD(3)[OF ok] unfolding owners_ok_def by blast+
    have h: "(j, n) \<in> held_with ?ov tm t' \<longleftrightarrow>
        (j, n) \<in> held_with (Some (t, r)) tm t' \<and> \<not> (t' = t \<and> j = i \<and> n = m)" for j n t'
      by (auto simp: held_with_def)
    have e: "m = Exclusive \<Longrightarrow> exclusive_owner (S i) = Some t" using o(2)[of i t] r by (simp add: held_with_def)
    show ?thesis
      unfolding owners_ok_def
    proof (intro allI conjI)
      fix j t'
      show "(t' \<in> shared_owners (?S j)) = ((j, Shared) \<in> held_with ?ov tm t')"
        unfolding h o(1)[symmetric] using st by (cases m) auto
      show "(exclusive_owner (?S j) = Some t') = ((j, Exclusive) \<in> held_with ?ov tm t')"
        unfolding h o(2)[symmetric] using st e by (cases m) auto
    qed
  qed
  moreover have "single_wait ?S"
  proof -
    have "waiters (?S j) = waiters (S j)" for j using w by simp
    with sys_okD(4)[OF ok] show ?thesis unfolding single_wait_def by metis
  qed
  ultimately show ?thesis using sys_okD(1)[OF ok] unfolding sys_ok_def lock_inv_except_def by blast
qed

lemma serve_state_waiters: "set (waiters (serve_state st q)) \<subseteq> set q"
  by (induction q arbitrary: st) auto

lemma finish_unlock_ok:
  assumes ok: "sys_ok (Some (key_id key)) (Some (t, r)) tm ((lock_view lm)(key_id key := st))"
    and t: "t \<notin> waiting ((lock_view lm)(key_id key := st))"
  shows "\<exists>tm' lm' ws. finish_unlock (Some tm) lm key st = (LockSuccess, Some tm', lm', ws) \<and>
    sys_ok None (Some (t, r)) tm' (lock_view lm') \<and> tm_active tm' = tm_active tm \<and>
    dom (active_transactions tm') = dom (active_transactions tm) \<and>
    active_transactions tm' t = active_transactions tm t \<and>
    waiting (lock_view lm') \<subseteq> waiting ((lock_view lm)(key_id key := st))"
proof -
  let ?i = "key_id key" and ?S = "(lock_view lm)(key_id key := st)"
  let ?q = "waiters st"
  let ?tm = "fold (grant_record key) (served st ?q) tm" and ?st = "serve_state st ?q"
  have act: "\<forall>w\<in>set ?q. w_txn w \<in> tm_active tm"
    using sys_okD(2)[OF ok, of ?i] by (simp add: state_ok_def waiter_ok_def)
  have nt: "t \<notin> w_txn ` set ?q" using t waitingI[of _ ?S ?i] by auto
  then have ov: "ov_avoids (Some (t, r)) (w_txn ` set ?q)" by (simp add: ov_avoids_def)
  have s: "sys_ok None (Some (t, r)) ?tm (?S(?i := ?st))" "tm_active ?tm = tm_active tm"
    "dom (active_transactions ?tm) = dom (active_transactions tm)"
    "active_transactions ?tm t = active_transactions tm t"
    using serve_inv[OF ok _ ov] nt by auto
  let ?lm = "if exclusive_owner ?st = None \<and> waiters ?st = [] \<and> shared_owners ?st = {}
    then states_erase lm key else states_put lm key ?st"
  have "?st = new_LockState"
    if "exclusive_owner ?st = None" "waiters ?st = []" "shared_owners ?st = {}"
    using that by (simp add: new_LockState_def)
  then have v: "lock_view ?lm = ?S(?i := ?st)" by auto
  have "finish_unlock (Some tm) lm key st = (LockSuccess, Some ?tm, ?lm, map mark_granted (served st ?q))"
    using lock_grant_served[OF act, of key] by (simp add: finish_unlock_def)
  moreover have "waiting (lock_view ?lm) \<subseteq> waiting ?S"
  proof -
    have "set (waiters ((?S(?i := ?st)) j)) \<subseteq> set (waiters (?S j))" for j
      using serve_state_waiters[of st ?q] by auto
    then show ?thesis unfolding v waiting_def by blast
  qed
  ultimately show ?thesis using s v by auto
qed

lemma unlock_ok:
  assumes ok: "sys_ok None (Some (t, r)) tm (lock_view lm)" and r: "(key_id key, m) \<in> r"
    and t: "t \<notin> waiting (lock_view lm)"
  shows "\<exists>tm' lm' ws.
    (case m of Shared \<Rightarrow> unlock_shared (Some tm) lm t key | Exclusive \<Rightarrow> unlock_exclusive (Some tm) lm t key)
      = (LockSuccess, Some tm', lm', ws) \<and>
    sys_ok None (Some (t, r - {(key_id key, m)})) tm' (lock_view lm') \<and> tm_active tm' = tm_active tm \<and>
    dom (active_transactions tm') = dom (active_transactions tm) \<and>
    active_transactions tm' t = active_transactions tm t \<and>
    t \<notin> waiting (lock_view lm')"
proof -
  let ?i = "key_id key" and ?S = "lock_view lm"
  define st where "st = (case m of Shared \<Rightarrow> (?S ?i)\<lparr>shared_owners := shared_owners (?S ?i) - {t}\<rparr>
        | Exclusive \<Rightarrow> (?S ?i)\<lparr>exclusive_owner := None\<rparr>)"
  note ok1 = drop_owner_inv[OF ok st_def r]
  have w: "waiting (?S(?i := st)) = waiting ?S"
  proof -
    have "waiters ((?S(?i := st)) j) = waiters (?S j)" for j by (auto simp: st_def split: LockMode.splits)
    then show ?thesis unfolding waiting_def by presburger
  qed
  have own: "case m of Shared \<Rightarrow> t \<in> shared_owners (?S ?i) | Exclusive \<Rightarrow> exclusive_owner (?S ?i) = Some t"
    using sys_okD(3)[OF ok] r unfolding owners_ok_def by (auto simp: held_with_def split: LockMode.splits)
  then have f: "states_find lm key = Some (?S ?i)"
    unfolding lock_view_at[of lm key, symmetric]
    by (auto simp: states_at_def new_LockState_def split: option.splits LockMode.splits)
  have e: "(case m of Shared \<Rightarrow> unlock_shared (Some tm) lm t key | Exclusive \<Rightarrow> unlock_exclusive (Some tm) lm t key)
      = finish_unlock (Some tm) lm key st"
    using own f by (cases m) (auto simp: unlock_shared_def unlock_exclusive_def st_def)
  have "t \<notin> waiting (?S(?i := st))" using t w by simp
  from finish_unlock_ok[OF ok1 this] e w t show ?thesis by auto
qed

text \<open>\<open>TransactionManager::release_locks\<close>: the loop in reverse acquisition order,
  failing when an unlock does not report success; then the record is cleared.\<close>

fun release_loop ::
  "TransactionManager \<Rightarrow> LockManager \<Rightarrow> txn_id \<Rightarrow> HeldKeyLock list \<Rightarrow>
   (TransactionManager \<times> LockManager \<times> Waiter list) res" where
  "release_loop tm lm t [] = Inr (tm, lm, [])"
| "release_loop tm lm t (h # hs) =
     (case (if held_mode h = Shared then unlock_shared (Some tm) lm t (held_key h)
            else unlock_exclusive (Some tm) lm t (held_key h)) of
        (status, tmo, lm, woken) \<Rightarrow>
          if status \<noteq> LockSuccess then Inl Runtime_error
          else res_bind (release_loop (the tmo) lm t hs) (\<lambda>(tm, lm, woken').
                 Inr (tm, lm, woken @ woken')))"

definition release_locks ::
  "TransactionManager \<Rightarrow> LockManager \<Rightarrow> txn_id \<Rightarrow> (TransactionManager \<times> LockManager \<times> Waiter list) res" where
  "release_locks tm lm t =
     (case active_transactions tm t of
        None \<Rightarrow> Inr (tm, lm, [])
      | Some tr \<Rightarrow>
          res_bind (release_loop tm lm t (rev (held_key_locks tr))) (\<lambda>(tm, lm, woken).
            Inr (tm\<lparr>active_transactions := (active_transactions tm)
                      (t \<mapsto> (the (active_transactions tm t))\<lparr>held_key_locks := []\<rparr>)\<rparr>,
                 lm, woken)))"

definition remove_transaction :: "TransactionManager \<Rightarrow> txn_id \<Rightarrow> TransactionManager" where
  "remove_transaction tm t = tm\<lparr>active_transactions := (active_transactions tm)(t := None)\<rparr>"

lemma release_loop_ok:
  assumes "sys_ok None (Some (t, held_set hs)) tm (lock_view lm)" "distinct (held_ids hs)"
    "t \<notin> waiting (lock_view lm)"
  shows "\<exists>tm' lm' ws. release_loop tm lm t hs = Inr (tm', lm', ws) \<and>
    sys_ok None (Some (t, {})) tm' (lock_view lm') \<and> tm_active tm' = tm_active tm \<and>
    dom (active_transactions tm') = dom (active_transactions tm) \<and>
    active_transactions tm' t = active_transactions tm t \<and> t \<notin> waiting (lock_view lm')"
  using assms
proof (induction hs arbitrary: tm lm)
  case (Cons h hs)
  let ?i = "key_id (held_key h)"
  have "(?i, held_mode h) \<notin> held_set hs" using Cons.prems(2) by (auto dest: held_set_id)
  then have rest: "held_set (h # hs) - {(?i, held_mode h)} = held_set hs" by auto
  have "(?i, held_mode h) \<in> held_set (h # hs)" by simp
  from unlock_ok[OF Cons.prems(1) this Cons.prems(3)]
  obtain tm1 lm1 ws where u:
    "(if held_mode h = Shared then unlock_shared (Some tm) lm t (held_key h)
      else unlock_exclusive (Some tm) lm t (held_key h)) = (LockSuccess, Some tm1, lm1, ws)"
    "sys_ok None (Some (t, held_set hs)) tm1 (lock_view lm1)" "tm_active tm1 = tm_active tm"
    "dom (active_transactions tm1) = dom (active_transactions tm)"
    "active_transactions tm1 t = active_transactions tm t" "t \<notin> waiting (lock_view lm1)"
    unfolding rest by (cases "held_mode h") auto
  from Cons.IH[OF u(2) _ u(6)] Cons.prems(2) u show ?case by auto
qed simp

text \<open>The tail of commit and abort: release the locks, leave the graph and the table.\<close>

definition finish_transaction ::
  "TransactionManager \<Rightarrow> LockManager \<Rightarrow> txn_id \<Rightarrow> (TransactionManager \<times> LockManager \<times> Waiter list) res" where
  "finish_transaction tm lm t =
     res_bind (release_locks tm lm t) (\<lambda>(tm, lm, woken).
       Inr (remove_transaction (tm\<lparr>wait_for_graph := graph_remove (wait_for_graph tm) t\<rparr>) t, lm, woken))"

lemma held_with_self: "held_with (Some (t, tm_held tm t)) tm = held_with None tm"
  by (auto simp: held_with_def)

lemma lock_inv_forget:
  assumes inv: "lock_inv H A E S" and H: "H t = {}" and t: "t \<notin> waiting S"
  shows "lock_inv H (A - {t}) {(a, b) \<in> E. a \<noteq> t \<and> b \<noteq> t} S"
proof -
  let ?E = "{(a, b) \<in> E. a \<noteq> t \<and> b \<noteq> t}"
  have "state_ok (A - {t}) ?E (S i)" for i
  proof -
    have ok: "state_ok A E (S i)" "owners_ok H S" using inv unfolding lock_inv_except_def by blast+
    have w: "w_txn w \<noteq> t" if "w \<in> set (waiters (S i))" for w using that t waitingI by metis
    have o: "t \<notin> shared_owners (S i)" "exclusive_owner (S i) \<noteq> Some t"
      using ok(2) H unfolding owners_ok_def by simp_all
    have "waiter_ok (A - {t}) ?E (S i) v" if "v \<in> set (waiters (S i))" for v
      using ok(1) w[OF that] o that by (auto simp: state_ok_def waiter_ok_def)
    moreover have "sorted_wrt (\<lambda>a b. conflict a b \<longrightarrow> (w_txn b, w_txn a) \<in> ?E) (waiters (S i))"
      using ok(1) w by (auto simp: state_ok_def elim!: sorted_wrt_mono_rel[rotated])
    ultimately show ?thesis using ok(1) by (simp add: state_ok_def)
  qed
  with inv show ?thesis unfolding lock_inv_except_def by blast
qed

text \<open>Leaving with all locks released keeps the invariant; the release cannot fail.\<close>

lemma finish_transaction_ok:
  assumes ok: "sys_ok None None tm (lock_view lm)" and tr: "active_transactions tm t = Some tr"
    and t: "t \<notin> waiting (lock_view lm)"
  shows "\<exists>tm' lm' ws. finish_transaction tm lm t = Inr (tm', lm', ws) \<and>
    sys_ok None None tm' (lock_view lm') \<and>
    dom (active_transactions tm') = dom (active_transactions tm) - {t}"
proof -
  let ?hs = "held_key_locks tr"
  have d: "distinct (held_ids (rev ?hs))"
    using sys_okD(1)[OF ok] tr unfolding tm_ok_def by (metis distinct_rev rev_map)
  have "held_set (rev ?hs) = tm_held tm t" using tr by (simp add: tm_held_def held_set_def)
  then have "sys_ok None (Some (t, held_set (rev ?hs))) tm (lock_view lm)"
    using ok held_with_self[of t tm] by (simp add: sys_ok_def)
  from release_loop_ok[OF this d t] obtain tm1 lm1 ws where
    r: "release_loop tm lm t (rev ?hs) = Inr (tm1, lm1, ws)"
      "sys_ok None (Some (t, {})) tm1 (lock_view lm1)"
      "dom (active_transactions tm1) = dom (active_transactions tm)"
      "active_transactions tm1 t = Some tr" "t \<notin> waiting (lock_view lm1)"
    using tr by auto
  let ?tr = "tr\<lparr>held_key_locks := []\<rparr>"
  let ?tm2 = "tm1\<lparr>active_transactions := (active_transactions tm1)(t \<mapsto> ?tr)\<rparr>"
  let ?tm3 = "remove_transaction (?tm2\<lparr>wait_for_graph := graph_remove (wait_for_graph ?tm2) t\<rparr>) t"
  have f: "finish_transaction tm lm t = Inr (?tm3, lm1, ws)"
    using tr r(1,4) by (simp add: finish_transaction_def release_locks_def)
  have g: "graph_ok (wait_for_graph tm1)" "acyclic (tm_edges tm1)"
    using sys_okD(1)[OF r(2)] by (auto simp: tm_ok_def)
  have e: "tm_edges ?tm3 = {(a, b) \<in> tm_edges tm1. a \<noteq> t \<and> b \<noteq> t}"
    using wg.forget_law[OF g(1), of t] by (simp add: remove_transaction_def)
  have a: "tm_active ?tm3 = tm_active tm1 - {t}"
    by (auto simp: tm_active_def remove_transaction_def)
  have h: "held_with None ?tm3 = held_with (Some (t, {})) tm1"
    by (auto simp: held_with_def tm_held_def remove_transaction_def fun_eq_iff)
  have "tm_ok ?tm3"
    using sys_okD(1)[OF r(2)] wg.forget_law[OF g(1), of t] wg.forget_acyclic[OF g, of t]
    unfolding tm_ok_def by (auto simp: remove_transaction_def split: if_splits)
  moreover have "lock_inv (held_with None ?tm3) (tm_active ?tm3) (tm_edges ?tm3) (lock_view lm1)"
    unfolding h a e using r(2,5) by (intro lock_inv_forget) (auto simp: sys_ok_def held_with_def)
  ultimately show ?thesis
    using f r(3) by (auto simp: sys_ok_def remove_transaction_def)
qed

section \<open>Requesting locks\<close>

lemma state_ok_mono:
  assumes "state_ok A E st" "E \<subseteq> E'"
  shows "state_ok A E' st"
proof -
  have "sorted_wrt (\<lambda>a b. conflict a b \<longrightarrow> (w_txn b, w_txn a) \<in> E') (waiters st)"
    using assms by (auto simp: state_ok_def elim!: sorted_wrt_mono_rel[rotated])
  with assms show ?thesis by (auto simp: state_ok_def waiter_ok_def)
qed

text \<open>A request granted at once, on a key with an empty queue.\<close>

lemma grant_now_inv:
  assumes ok: "sys_ok None None tm S" and i: "i = key_id key" and t: "t \<in> tm_active tm"
    and S: "waiters (S i) = []" "exclusive_owner (S i) = None"
    and m: "m = Shared \<Longrightarrow> t \<notin> shared_owners (S i)" "m = Exclusive \<Longrightarrow> shared_owners (S i) \<subseteq> {t}"
    and st: "st = (case m of Shared \<Rightarrow> (S i)\<lparr>shared_owners := insert t (shared_owners (S i))\<rparr>
        | Exclusive \<Rightarrow> (S i)\<lparr>shared_owners := {}, exclusive_owner := Some t\<rparr>)"
  shows "fst (record_lock tm t key m)" "sys_ok None None (snd (record_lock tm t key m)) (S(i := st))"
proof -
  have o: "t' \<in> shared_owners (S j) \<longleftrightarrow> (j, Shared) \<in> tm_held tm t'"
    "exclusive_owner (S j) = Some t' \<longleftrightarrow> (j, Exclusive) \<in> tm_held tm t'" for j t'
    using sys_okD(3)[OF ok] unfolding owners_ok_def held_with_def by simp_all
  have n: "(i, Exclusive) \<notin> tm_held tm t'" for t' using o(2)[of i t'] S(2) by simp
  have h: "m = Shared \<Longrightarrow> (key_id key, Shared) \<notin> tm_held tm t \<and> (key_id key, Exclusive) \<notin> tm_held tm t"
    using m(1) n[of t] o(1)[of t i] i by auto
  note v = record_lock_view[OF sys_okD(1)[OF ok] t h]
  show "fst (record_lock tm t key m)" by (rule v(1))
  have w: "waiters st = []" using st S(1) by (cases m) auto
  have "state_ok (tm_active tm) (tm_edges tm) ((S(i := st)) j)" for j
    using sys_okD(2)[OF ok, of j] w st S(2) by (cases m) (auto simp: state_ok_def state_exclusive_def)
  moreover have "head_blocked ((S(i := st)) j)" for j
    using ok w unfolding sys_ok_def lock_inv_except_def by (auto simp: head_blocked_def)
  moreover have "owners_ok ((tm_held tm)(t := insert (i, m) (tm_held tm t - {(i, Shared)}))) (S(i := st))"
    unfolding owners_ok_def
  proof (intro allI conjI)
    fix j t'
    show "(t' \<in> shared_owners ((S(i := st)) j)) =
      ((j, Shared) \<in> ((tm_held tm)(t := insert (i, m) (tm_held tm t - {(i, Shared)}))) t')"
      using o(1)[of t' j] m st by (cases m) auto
    show "(exclusive_owner ((S(i := st)) j) = Some t') =
      ((j, Exclusive) \<in> ((tm_held tm)(t := insert (i, m) (tm_held tm t - {(i, Shared)}))) t')"
      using o(2)[of j t'] n[of t'] n[of t] m st by (cases m) auto
  qed
  moreover have "single_wait (S(i := st))"
    using sys_okD(4)[OF ok] w unfolding single_wait_def by (auto split: if_splits)
  ultimately show "sys_ok None None (snd (record_lock tm t key m)) (S(i := st))"
    using v i unfolding sys_ok_def lock_inv_except_def by (simp add: held_with_def)
qed

text \<open>A blocked request enters the queue with edges to everything that blocks it.\<close>

lemma enqueue_ok:
  assumes ok: "sys_ok None None tm (lock_view lm)" and t: "t \<in> tm_active tm" "t \<notin> waiting (lock_view lm)"
    and st: "st = lock_view lm (key_id key)"
    and m: "m = Shared \<Longrightarrow> t \<notin> shared_owners st" "exclusive_owner st \<noteq> Some t"
    and blocked: "waiters st \<noteq> [] \<or> \<not> grantable st (new_waiter t m)"
    and bs: "set bs = {e. exclusive_owner st = Some e} \<union>
        (if m = Exclusive then shared_owners st - {t} else {}) \<union>
        {w_txn w |w. w \<in> set (waiters st) \<and> (w_mode w = Exclusive \<or> m = Exclusive)}"
  shows "\<exists>res tm' lm'. enqueue_waiter (Some tm) lm key st t m bs = (res, Some tm', lm') \<and>
    sys_ok None None tm' (lock_view lm') \<and>
    ((\<exists>w. res = LR_waiting w \<and> t \<in> waiting (lock_view lm')) \<or>
     (res = LR_status Deadlock \<and> tm' = tm \<and> lock_view lm' = lock_view lm \<and>
      (\<exists>b\<in>set bs. (b, t) \<in> (tm_edges tm)\<^sup>*)))"
proof -
  let ?i = "key_id key" and ?S = "lock_view lm" and ?g = "wait_for_graph tm"
  let ?w = "new_waiter t m"
  let ?st = "st\<lparr>waiters := waiters st @ [?w]\<rparr>"
  obtain tr where tr: "active_transactions tm t = Some tr" "txn_state tr = Active"
    using t(1) by (auto simp: tm_active_def)
  have tm: "tm_ok tm" and sok: "state_ok (tm_active tm) (tm_edges tm) st"
    using sys_okD(1,2)[OF ok] st by auto
  have o: "t' \<in> shared_owners st \<longleftrightarrow> (?i, Shared) \<in> tm_held tm t'"
    "exclusive_owner st = Some t' \<longleftrightarrow> (?i, Exclusive) \<in> tm_held tm t'" for t'
    using sys_okD(3)[OF ok] st unfolding owners_ok_def held_with_def by simp_all
  have held: "(?i, n) \<in> tm_held tm t' \<Longrightarrow> active_transactions tm t' \<noteq> None" for t' n
    by (auto simp: tm_held_def split: option.splits)
  have wact: "w \<in> set (waiters st) \<Longrightarrow> active_transactions tm (w_txn w) \<noteq> None" for w
    using sok by (auto simp: state_ok_def waiter_ok_def tm_active_def)
  have dom: "\<not> list_ex (\<lambda>b. active_transactions tm b = None) bs"
    using held[of Shared] held[of Exclusive] o wact bs by (auto simp: list_ex_iff split: if_splits)
  have reg: "register_wait tm t bs = (case add_edges ?g t bs of (added, g) \<Rightarrow>
      (if added then Registered else WaitDeadlock, tm\<lparr>wait_for_graph := g\<rparr>))"
    using tr dom by (simp add: register_wait_def)
  have g: "graph_ok ?g" "acyclic (tm_edges tm)" "graph_nodes ?g = dom (active_transactions tm)"
    using tm by (auto simp: tm_ok_def)
  obtain added g' where ae: "add_edges ?g t bs = (added, g')" by (cases "add_edges ?g t bs")
  have same: "?S(?i := st) = ?S" using st by auto
  show ?thesis
  proof (cases added)
    case False
    then have "g' = ?g" "\<exists>b\<in>set bs. (b, t) \<in> (tm_edges tm)\<^sup>*"
      using wg.wait_refused[OF g(1), of t bs g'] ae g(3) tr dom by (auto simp: list_ex_iff)
    then show ?thesis using reg ae False ok same by (simp add: enqueue_waiter_def)
  next
    case True
    let ?tm = "tm\<lparr>wait_for_graph := g'\<rparr>"
    have a: "graph_ok g'" "graph_nodes g' = graph_nodes ?g" "graph_edges g' = tm_edges tm \<union> {t} \<times> set bs"
      "acyclic (graph_edges g')"
      using wg.wait_accepted[OF g(1), of t bs g'] wg.wait_acyclic[OF g(1,2) ae] ae True by auto
    have "tm_ok ?tm" using tm a by (simp add: tm_ok_def)
    moreover have "tm_active ?tm = tm_active tm" "tm_held ?tm = tm_held tm"
      by (auto simp: tm_active_def tm_held_def fun_eq_iff)
    moreover have "lock_inv (tm_held tm) (tm_active tm) (graph_edges g') (?S(?i := ?st))"
    proof -
      have sub: "tm_edges tm \<subseteq> graph_edges g'" using a(3) by blast
      have fresh: "\<forall>w\<in>set (waiters (?S j)). w_txn w \<noteq> t" for j using t(2) waitingI by metis
      have st': "state_ok (tm_active tm) (graph_edges g') st" using state_ok_mono[OF sok sub] .
      have "state_ok (tm_active tm) (graph_edges g') ?st"
        using st' fresh[of ?i] t(1) m bs a(3) unfolding state_ok_def st[symmetric]
        by (auto simp: waiter_ok_def new_waiter_def conflict_def sorted_wrt_append state_exclusive_def
            split: if_splits)
      then have "state_ok (tm_active tm) (graph_edges g') ((?S(?i := ?st)) j)" for j
        using state_ok_mono[OF sys_okD(2)[OF ok, of j] sub] by simp
      moreover have "head_blocked ((?S(?i := ?st)) j)" for j
      proof -
        have "head_blocked (?S j)" "head_blocked st"
          using ok st unfolding sys_ok_def lock_inv_except_def by auto
        with blocked show ?thesis by (cases "waiters st") (auto simp: head_blocked_def)
      qed
      moreover have "owners_ok (tm_held tm) (?S(?i := ?st))"
        using sys_okD(3)[OF ok] st unfolding owners_ok_def held_with_def by simp
      moreover have "single_wait (?S(?i := ?st))"
      proof -
        have "w \<in> set (waiters ((?S(?i := ?st)) j)) \<Longrightarrow> w \<in> set (waiters (?S j)) \<or> j = ?i \<and> w = ?w" for j w
          using st by (auto split: if_splits)
        moreover have "w_txn ?w = t" by (simp add: new_waiter_def)
        ultimately show ?thesis
          using sys_okD(4)[OF ok] fresh unfolding single_wait_def by metis
      qed
      ultimately show ?thesis unfolding lock_inv_except_def by blast
    qed
    moreover have "t \<in> waiting (?S(?i := ?st))"
      using waitingI[of ?w "?S(?i := ?st)" ?i] by (simp add: new_waiter_def)
    ultimately show ?thesis
      using reg ae True by (simp add: enqueue_waiter_def sys_ok_def held_with_def Let_def)
  qed
qed

lemma put_same_view: "lock_view (states_put lm key (states_at lm key)) = lock_view lm"
  by (simp add: lock_view_at)

lemma put_twice_view:
  "lock_view (states_put (states_put lm key st) key st') = (lock_view lm)(key_id key := st')"
  by simp

lemma owners_okD:
  assumes "sys_ok x None tm S"
  shows "t \<in> shared_owners (S i) \<longleftrightarrow> (i, Shared) \<in> tm_held tm t"
    "exclusive_owner (S i) = Some t \<longleftrightarrow> (i, Exclusive) \<in> tm_held tm t"
  using sys_okD(3)[OF assms] unfolding owners_ok_def held_with_def by simp_all

definition request_ok ::
  "txn_id \<Rightarrow> TransactionManager \<Rightarrow> LockManager \<Rightarrow> Key \<Rightarrow> LockMode \<Rightarrow>
   lock_result \<times> TransactionManager option \<times> LockManager \<Rightarrow> bool" where
  "request_ok t tm lm key m out \<longleftrightarrow>
     (\<exists>res tm' lm'. out = (res, Some tm', lm') \<and> sys_ok None None tm' (lock_view lm') \<and>
       (case res of
          LR_waiting w \<Rightarrow> t \<in> waiting (lock_view lm')
        | LR_status status \<Rightarrow>
            (status = LockSuccess \<and> (key_id key, m) \<in> tm_held tm' t) \<or>
            (status = TxnHoldsExclusive \<and> (key_id key, Exclusive) \<in> tm_held tm t) \<or>
            (status = TxnHoldsShared \<and> (key_id key, Shared) \<in> tm_held tm t) \<or>
            (status = Deadlock \<and> tm' = tm \<and> lock_view lm' = lock_view lm)))"

lemma enqueue_request_ok:
  assumes "\<exists>res tm' lm'. out = (res, Some tm', lm') \<and> sys_ok None None tm' (lock_view lm') \<and>
      ((\<exists>w. res = LR_waiting w \<and> t \<in> waiting (lock_view lm')) \<or>
       (res = LR_status Deadlock \<and> tm' = tm \<and> lock_view lm' = lock_view lm \<and> X))"
  shows "request_ok t tm lm key m out"
proof -
  obtain res tm' lm' where o: "out = (res, Some tm', lm')" "sys_ok None None tm' (lock_view lm')"
    "(\<exists>w. res = LR_waiting w \<and> t \<in> waiting (lock_view lm')) \<or>
       (res = LR_status Deadlock \<and> tm' = tm \<and> lock_view lm' = lock_view lm \<and> X)"
    using assms by blast
  then show ?thesis unfolding request_ok_def by auto
qed

lemma lock_shared_ok:
  assumes ok: "sys_ok None None tm (lock_view lm)" and t: "t \<in> tm_active tm" "t \<notin> waiting (lock_view lm)"
  shows "request_ok t tm lm key Shared (lock_shared (Some tm) lm t key)"
proof -
  let ?st = "lock_view lm (key_id key)" and ?lm = "states_put lm key (states_at lm key)"
  have at: "states_at lm key = ?st" by (rule lock_view_at)
  have v: "lock_view ?lm = lock_view lm" by (rule put_same_view)
  have o: "t \<in> shared_owners ?st \<longleftrightarrow> (key_id key, Shared) \<in> tm_held tm t"
    "exclusive_owner ?st = Some t \<longleftrightarrow> (key_id key, Exclusive) \<in> tm_held tm t"
    using sys_okD(3)[OF ok] unfolding owners_ok_def held_with_def by simp_all
  consider "t \<in> shared_owners ?st" | "t \<notin> shared_owners ?st" "exclusive_owner ?st = Some t"
    | "t \<notin> shared_owners ?st" "exclusive_owner ?st = None" "waiters ?st = []"
    | "t \<notin> shared_owners ?st" "exclusive_owner ?st \<noteq> Some t" "exclusive_owner ?st \<noteq> None \<or> waiters ?st \<noteq> []"
    by auto
  then show ?thesis
  proof cases
    case 1
    with o ok v at show ?thesis by (simp add: request_ok_def lock_shared_def)
  next
    case 2
    with o ok v at show ?thesis by (simp add: request_ok_def lock_shared_def)
  next
    case 3
    define st where "st = ?st\<lparr>shared_owners := insert t (shared_owners ?st)\<rparr>"
    note g = grant_now_inv[OF ok refl t(1) 3(3,2), of Shared st]
    have f: "fst (record_lock tm t key Shared)"
      "sys_ok None None (snd (record_lock tm t key Shared)) ((lock_view lm)(key_id key := st))"
      using g 3(1) by (auto simp: st_def)
    then have "(key_id key, Shared) \<in> tm_held (snd (record_lock tm t key Shared)) t"
      using owners_okD(1)[OF f(2), of t "key_id key"] by (simp add: st_def)
    moreover have "lock_view (states_put ?lm key st) = (lock_view lm)(key_id key := st)" by simp
    moreover have "lock_shared (Some tm) lm t key =
        (LR_status LockSuccess, Some (snd (record_lock tm t key Shared)), states_put ?lm key st)"
      using 3 f(1) at by (auto simp: lock_shared_def Let_def st_def split: prod.splits)
    ultimately show ?thesis using f(2) by (simp add: request_ok_def)
  next
    case 4
    let ?bs = "(case exclusive_owner ?st of None \<Rightarrow> [] | Some e \<Rightarrow> [e]) @
      map w_txn (filter (\<lambda>w. w_mode w = Exclusive) (waiters ?st))"
    have e: "lock_shared (Some tm) lm t key = enqueue_waiter (Some tm) ?lm key ?st t Shared ?bs"
      using 4 at by (auto simp: lock_shared_def Let_def)
    have bl: "waiters ?st \<noteq> [] \<or> \<not> grantable ?st (new_waiter t Shared)"
      using 4 by (auto simp: grantable_def)
    have bs: "set ?bs = {e. exclusive_owner ?st = Some e} \<union>
        (if Shared = Exclusive then shared_owners ?st - {t} else {}) \<union>
        {w_txn w |w. w \<in> set (waiters ?st) \<and> (w_mode w = Exclusive \<or> Shared = Exclusive)}"
      by (auto split: option.splits)
    have "\<exists>res tm' lm'. enqueue_waiter (Some tm) ?lm key ?st t Shared ?bs = (res, Some tm', lm') \<and>
      sys_ok None None tm' (lock_view lm') \<and>
      ((\<exists>w. res = LR_waiting w \<and> t \<in> waiting (lock_view lm')) \<or>
       (res = LR_status Deadlock \<and> tm' = tm \<and> lock_view lm' = lock_view ?lm \<and>
        (\<exists>b\<in>set ?bs. (b, t) \<in> (tm_edges tm)\<^sup>*)))"
      using ok t 4(1,2) bl by (intro enqueue_ok) (simp_all only: v bs LockMode.distinct simp_thms)
    then show ?thesis unfolding e v by (rule enqueue_request_ok)
  qed
qed

lemma lock_exclusive_ok:
  assumes ok: "sys_ok None None tm (lock_view lm)" and t: "t \<in> tm_active tm" "t \<notin> waiting (lock_view lm)"
  shows "request_ok t tm lm key Exclusive (lock_exclusive (Some tm) lm t key)"
proof -
  let ?st = "lock_view lm (key_id key)" and ?lm = "states_put lm key (states_at lm key)"
  have at: "states_at lm key = ?st" by (rule lock_view_at)
  have v: "lock_view ?lm = lock_view lm" by (rule put_same_view)
  have o: "exclusive_owner ?st = Some t \<longleftrightarrow> (key_id key, Exclusive) \<in> tm_held tm t"
    using sys_okD(3)[OF ok] unfolding owners_ok_def held_with_def by simp
  have no: "(shared_owners ?st = {} \<or> t \<in> shared_owners ?st \<and> card (shared_owners ?st) = 1) =
      (shared_owners ?st \<subseteq> {t})"
    using card_1_iff[of "shared_owners ?st" t] by auto
  consider "exclusive_owner ?st = Some t"
    | "shared_owners ?st \<subseteq> {t}" "exclusive_owner ?st = None" "waiters ?st = []"
    | "exclusive_owner ?st \<noteq> Some t"
      "\<not> (shared_owners ?st \<subseteq> {t} \<and> exclusive_owner ?st = None \<and> waiters ?st = [])"
    by auto
  then show ?thesis
  proof cases
    case 1
    with o ok v at show ?thesis by (simp add: request_ok_def lock_exclusive_def)
  next
    case 2
    define st where "st = ?st\<lparr>shared_owners := {}, exclusive_owner := Some t\<rparr>"
    note g = grant_now_inv[OF ok refl t(1) 2(3,2), of Exclusive st]
    have f: "fst (record_lock tm t key Exclusive)"
      "sys_ok None None (snd (record_lock tm t key Exclusive)) ((lock_view lm)(key_id key := st))"
      using g 2(1) by (auto simp: st_def)
    then have "(key_id key, Exclusive) \<in> tm_held (snd (record_lock tm t key Exclusive)) t"
      using owners_okD(2)[OF f(2), of "key_id key" t] by (simp add: st_def)
    moreover have "lock_view (states_put ?lm key st) = (lock_view lm)(key_id key := st)" by simp
    moreover have "(if t \<in> shared_owners ?st then shared_owners ?st - {t} else shared_owners ?st) = {}"
      using 2(1) by auto
    then have "lock_exclusive (Some tm) lm t key =
        (LR_status LockSuccess, Some (snd (record_lock tm t key Exclusive)), states_put ?lm key st)"
      using 2 f(1) at no by (auto simp: lock_exclusive_def Let_def st_def split: prod.splits)
    ultimately show ?thesis using f(2) by (simp add: request_ok_def)
  next
    case 3
    let ?bs = "(case exclusive_owner ?st of None \<Rightarrow> [] | Some e \<Rightarrow> [e]) @
       filter (\<lambda>s. s \<noteq> t) (sorted_list_of_set (shared_owners ?st)) @ map w_txn (waiters ?st)"
    have e: "lock_exclusive (Some tm) lm t key = enqueue_waiter (Some tm) ?lm key ?st t Exclusive ?bs"
      unfolding lock_exclusive_def Let_def at no by (simp only: 3 if_False)
    have bl: "waiters ?st \<noteq> [] \<or> \<not> grantable ?st (new_waiter t Exclusive)"
      using 3 by (auto simp: grantable_def new_waiter_def)
    have bs: "set ?bs = {e. exclusive_owner ?st = Some e} \<union>
        (if Exclusive = Exclusive then shared_owners ?st - {t} else {}) \<union>
        {w_txn w |w. w \<in> set (waiters ?st) \<and> (w_mode w = Exclusive \<or> Exclusive = Exclusive)}"
      by (auto split: option.splits)
    have "\<exists>res tm' lm'. enqueue_waiter (Some tm) ?lm key ?st t Exclusive ?bs = (res, Some tm', lm') \<and>
      sys_ok None None tm' (lock_view lm') \<and>
      ((\<exists>w. res = LR_waiting w \<and> t \<in> waiting (lock_view lm')) \<or>
       (res = LR_status Deadlock \<and> tm' = tm \<and> lock_view lm' = lock_view ?lm \<and>
        (\<exists>b\<in>set ?bs. (b, t) \<in> (tm_edges tm)\<^sup>*)))"
      using ok t 3(1) bl by (intro enqueue_ok) (simp_all only: v bs LockMode.distinct simp_thms)
    then show ?thesis unfolding e v by (rule enqueue_request_ok)
  qed
qed

section \<open>Runs of the protocol\<close>

text \<open>The in-memory part of \<open>TransactionManager::begin\<close>, and a lifecycle transition.\<close>

definition enter_transaction :: "TransactionManager \<Rightarrow> txn_id \<Rightarrow> u64 \<Rightarrow> TransactionManager" where
  "enter_transaction tm t lsn =
     tm\<lparr>active_transactions := (active_transactions tm)
          (t \<mapsto> \<lparr>txn_state = Active, held_key_locks = [], last_lsn = lsn\<rparr>),
        wait_for_graph := add_node (wait_for_graph tm) t\<rparr>"

definition set_txn_state :: "TransactionManager \<Rightarrow> txn_id \<Rightarrow> TransactionState \<Rightarrow> TransactionManager" where
  "set_txn_state tm t s =
     tm\<lparr>active_transactions := (active_transactions tm)
          (t := map_option (\<lambda>tr. tr\<lparr>txn_state := s\<rparr>) (active_transactions tm t))\<rparr>"

definition initial_manager :: TransactionManager where
  "initial_manager = \<lparr>active_transactions = Map.empty, next_transaction_id = 1,
     transaction_ids_initialized = False, wait_for_graph = empty_graph\<rparr>"

text \<open>One step of the system: a transaction enters, requests a lock while it is
  active and not waiting, changes its lifecycle state while it is not waiting, or
  leaves.  A session drives one transaction and is blocked while its request waits.\<close>

inductive lock_step ::
  "TransactionManager \<times> LockManager \<Rightarrow> TransactionManager \<times> LockManager \<Rightarrow> bool" where
  enter: "active_transactions tm t = None \<Longrightarrow> lock_step (tm, lm) (enter_transaction tm t lsn, lm)"
| shared: "t \<in> tm_active tm \<Longrightarrow> t \<notin> waiting (lock_view lm) \<Longrightarrow>
    lock_shared (Some tm) lm t key = (res, Some tm', lm') \<Longrightarrow> lock_step (tm, lm) (tm', lm')"
| exclusive: "t \<in> tm_active tm \<Longrightarrow> t \<notin> waiting (lock_view lm) \<Longrightarrow>
    lock_exclusive (Some tm) lm t key = (res, Some tm', lm') \<Longrightarrow> lock_step (tm, lm) (tm', lm')"
| lifecycle: "t \<notin> waiting (lock_view lm) \<Longrightarrow> lock_step (tm, lm) (set_txn_state tm t s, lm)"
| leave: "active_transactions tm t = Some tr \<Longrightarrow> t \<notin> waiting (lock_view lm) \<Longrightarrow>
    finish_transaction tm lm t = Inr (tm', lm', woken) \<Longrightarrow> lock_step (tm, lm) (tm', lm')"

abbreviation lock_reachable :: "TransactionManager \<Rightarrow> LockManager \<Rightarrow> bool" where
  "lock_reachable tm lm \<equiv> lock_step\<^sup>*\<^sup>* (initial_manager, empty_LockManager) (tm, lm)"

lemma enter_ok:
  assumes ok: "sys_ok None None tm S" and t: "active_transactions tm t = None"
  shows "sys_ok None None (enter_transaction tm t lsn) S"
proof -
  let ?tm = "enter_transaction tm t lsn"
  have g: "graph_ok (wait_for_graph tm)" "acyclic (tm_edges tm)"
    "graph_nodes (wait_for_graph tm) = dom (active_transactions tm)"
    using sys_okD(1)[OF ok] by (auto simp: tm_ok_def)
  have e: "tm_edges ?tm = tm_edges tm"
    using wg.node_law[OF g(1), of t] by (simp add: enter_transaction_def)
  have h: "held_with None ?tm = held_with None tm"
    using t by (auto simp: held_with_def tm_held_def enter_transaction_def fun_eq_iff)
  have a: "tm_active ?tm = insert t (tm_active tm)"
    by (auto simp: tm_active_def enter_transaction_def)
  have "tm_ok ?tm"
    using sys_okD(1)[OF ok] wg.node_law[OF g(1), of t] g
    unfolding tm_ok_def by (auto simp: enter_transaction_def split: if_splits)
  moreover have "state_ok (insert t (tm_active tm)) (tm_edges tm) (S i)" for i
    using sys_okD(2)[OF ok, of i] by (auto simp: state_ok_def waiter_ok_def)
  ultimately show ?thesis
    using ok unfolding sys_ok_def lock_inv_except_def e h a by blast
qed

lemma set_state_ok:
  assumes ok: "sys_ok None None tm S" and t: "t \<notin> waiting S"
  shows "sys_ok None None (set_txn_state tm t s) S"
proof -
  let ?tm = "set_txn_state tm t s"
  have h: "held_with None ?tm = held_with None tm"
    by (auto simp: held_with_def tm_held_def set_txn_state_def fun_eq_iff split: option.splits)
  have d: "dom (active_transactions ?tm) = dom (active_transactions tm)"
    by (auto simp: set_txn_state_def split: if_splits)
  have "tm_ok ?tm"
    using sys_okD(1)[OF ok] d unfolding tm_ok_def by (auto simp: set_txn_state_def split: if_splits)
  moreover have "state_ok (tm_active ?tm) (tm_edges tm) (S i)" for i
  proof -
    have "w_txn w \<noteq> t" if "w \<in> set (waiters (S i))" for w using that t waitingI by metis
    moreover have "u \<in> tm_active tm \<Longrightarrow> u \<noteq> t \<Longrightarrow> u \<in> tm_active ?tm" for u
      by (auto simp: tm_active_def set_txn_state_def)
    ultimately show ?thesis
      using sys_okD(2)[OF ok, of i] by (auto simp: state_ok_def waiter_ok_def)
  qed
  moreover have "tm_edges ?tm = tm_edges tm" by (simp add: set_txn_state_def)
  ultimately show ?thesis
    using ok unfolding sys_ok_def lock_inv_except_def h by auto
qed

lemma request_ok_result:
  "request_ok t tm lm key m (res, Some tm', lm') \<Longrightarrow> sys_ok None None tm' (lock_view lm')"
  by (auto simp: request_ok_def)

lemma lock_step_ok:
  assumes "lock_step (tm, lm) (tm', lm')" "sys_ok None None tm (lock_view lm)"
  shows "sys_ok None None tm' (lock_view lm')"
  using assms
proof (cases rule: lock_step.cases)
  case (shared t key res)
  with lock_shared_ok[OF assms(2), of t key] request_ok_result show ?thesis by metis
next
  case (exclusive t key res)
  with lock_exclusive_ok[OF assms(2), of t key] request_ok_result show ?thesis by metis
next
  case (leave t tr woken)
  with finish_transaction_ok[OF assms(2), of t tr] show ?thesis by auto
qed (use assms(2) enter_ok set_state_ok in auto)

lemma initial_ok: "sys_ok None None initial_manager (lock_view empty_LockManager)"
proof -
  have v: "lock_view empty_LockManager = (\<lambda>_. new_LockState)"
    by (auto simp: lock_view_def states_at_def states_find_def empty_LockManager_def fun_eq_iff)
  have "tm_ok initial_manager"
    using empty_graph_inv by (simp add: tm_ok_def initial_manager_def acyclic_def graph_nodes_def empty_graph_def)
  then show ?thesis
    unfolding sys_ok_def lock_inv_except_def v
    by (auto simp: state_ok_def new_LockState_def state_exclusive_def head_blocked_def owners_ok_def
        held_with_def tm_held_def initial_manager_def single_wait_def)
qed

lemma lock_reachable_ok: "lock_reachable tm lm \<Longrightarrow> sys_ok None None tm (lock_view lm)"
proof (induction "(tm, lm)" arbitrary: tm lm rule: rtranclp_induct)
  case base
  show ?case by (rule initial_ok)
next
  case (step y)
  then show ?case using lock_step_ok by (metis surj_pair)
qed

text \<open>A waiting transaction has a wait edge to an owner or to an earlier request.\<close>

lemma waiting_has_edge:
  assumes ok: "sys_ok None None tm S" and t: "t \<in> waiting S"
  shows "\<exists>b. (t, b) \<in> tm_edges tm"
proof -
  obtain i w where w: "w \<in> set (waiters (S i))" "w_txn w = t" using t by (auto simp: waiting_def)
  obtain h q where q: "waiters (S i) = h # q" using w(1) by (cases "waiters (S i)") auto
  have sok: "state_ok (tm_active tm) (tm_edges tm) (S i)" by (rule sys_okD(2)[OF ok])
  have "head_blocked (S i)" using ok unfolding sys_ok_def lock_inv_except_def by simp
  then have b: "\<not> grantable (S i) h" using q by (simp add: head_blocked_def)
  have wok: "waiter_ok (tm_active tm) (tm_edges tm) (S i) w"
    and hok: "waiter_ok (tm_active tm) (tm_edges tm) (S i) h"
    using sok w(1) q by (auto simp: state_ok_def)
  show ?thesis
  proof (cases "exclusive_owner (S i)")
    case (Some e)
    with wok w(2) show ?thesis by (auto simp: waiter_ok_def)
  next
    case None
    with b have h: "w_mode h = Exclusive" "\<not> shared_owners (S i) \<subseteq> {w_txn h}"
      by (cases "w_mode h"; auto simp: grantable_def)+
    show ?thesis
    proof (cases "w = h")
      case True
      with hok h w(2) show ?thesis by (auto simp: waiter_ok_def)
    next
      case False
      with w(1) q have "w \<in> set q" by auto
      with sok q h(1) w(2) show ?thesis by (auto simp: state_ok_def conflict_def)
    qed
  qed
qed

lemma gone_owns_nothing:
  assumes ok: "sys_ok None None tm (lock_view lm)" and t: "active_transactions tm t = None"
  shows "t \<notin> shared_owners (states_at lm key) \<and> exclusive_owner (states_at lm key) \<noteq> Some t"
proof -
  have "tm_held tm t = {}" using t by (simp add: tm_held_def)
  then show ?thesis
    using owners_okD(1)[OF ok, of t "key_id key"] owners_okD(2)[OF ok, of "key_id key" t] unfolding lock_view_at by simp
qed

section \<open>Properties\<close>


definition demo_two :: TransactionManager where
  "demo_two = enter_transaction (enter_transaction initial_manager 1 0) 2 0"

lemma demo_two_reachable: "lock_reachable demo_two empty_LockManager"
proof -
  have "lock_step (initial_manager, empty_LockManager) (enter_transaction initial_manager 1 0, empty_LockManager)"
    by (rule lock_step.enter) (simp add: initial_manager_def)
  moreover have "lock_step (enter_transaction initial_manager 1 0, empty_LockManager) (demo_two, empty_LockManager)"
    unfolding demo_two_def by (rule lock_step.enter) (simp add: initial_manager_def enter_transaction_def)
  ultimately show ?thesis by (meson converse_rtranclp_into_rtranclp rtranclp.rtrancl_refl)
qed

lemma demo_lock_first:
  "\<exists>tm lm. lock_exclusive (Some demo_two) empty_LockManager 1 key = (LR_status LockSuccess, Some tm, lm) \<and>
    lock_reachable tm lm \<and> exclusive_owner (states_at lm key) = Some 1 \<and> waiters (states_at lm key) = [] \<and>
    2 \<in> tm_active tm \<and> waiting (lock_view lm) = {} \<and> tm_edges tm = {}"
proof -
  have v: "lock_view empty_LockManager = (\<lambda>_. new_LockState)"
    by (auto simp: lock_view_def states_at_def states_find_def empty_LockManager_def fun_eq_iff)
  have at: "states_at empty_LockManager key = new_LockState" using v by (simp add: lock_view_at)
  have a: "1 \<in> tm_active demo_two" "2 \<in> tm_active demo_two" "1 \<notin> waiting (lock_view empty_LockManager)"
    by (auto simp: tm_active_def demo_two_def enter_transaction_def v waiting_def new_LockState_def)
  have e: "tm_edges demo_two = {}"
    by (simp add: demo_two_def enter_transaction_def initial_manager_def add_node_spec empty_graph_inv)
  obtain tm where r: "record_lock demo_two 1 key Exclusive = (True, tm)"
    by (simp add: record_lock_def demo_two_def enter_transaction_def)
  note rv = record_lock_view[OF sys_okD(1)[OF lock_reachable_ok[OF demo_two_reachable]] a(1), of Exclusive key]
  let ?st = "new_LockState\<lparr>exclusive_owner := Some 1\<rparr>"
  let ?lm = "states_put (states_put empty_LockManager key new_LockState) key ?st"
  have x: "lock_exclusive (Some demo_two) empty_LockManager 1 key = (LR_status LockSuccess, Some tm, ?lm)"
    using r at by (simp add: lock_exclusive_def new_LockState_def Let_def)
  from lock_step.exclusive[OF a(1,3) x] demo_two_reachable have "lock_reachable tm ?lm" by simp
  moreover have "tm_active tm = tm_active demo_two" "tm_edges tm = {}" using rv r e by auto
  moreover have "waiting (lock_view ?lm) = {}" by (auto simp: v waiting_def new_LockState_def)
  ultimately show ?thesis using x a(2) by (simp add: new_LockState_def)
qed


text \<open>C3: the system never deadlocks: in every reachable state in which some
  transaction waits for a lock, one of the waiting transactions is blocked by a live
  transaction that is not itself waiting and so can proceed.\<close>

theorem no_deadlock:
  assumes "lock_reachable tm lm" "waiting (lock_view lm) \<noteq> {}"
  shows "\<exists>t b. t \<in> waiting (lock_view lm) \<and> (t, b) \<in> tm_edges tm \<and>
    active_transactions tm b \<noteq> None \<and> b \<notin> waiting (lock_view lm)"
proof -
  note ok = lock_reachable_ok[OF assms(1)]
  have g: "graph_ok (wait_for_graph tm)" "acyclic (tm_edges tm)"
    "graph_nodes (wait_for_graph tm) = dom (active_transactions tm)"
    using sys_okD(1)[OF ok] by (auto simp: tm_ok_def)
  obtain t where t: "t \<in> waiting (lock_view lm)" "\<forall>b\<in>waiting (lock_view lm). (t, b) \<notin> tm_edges tm"
    using wg.no_circular_wait[OF g(2) _ assms(2)] by auto
  obtain b where b: "(t, b) \<in> tm_edges tm" using waiting_has_edge[OF ok t(1)] by blast
  moreover have "active_transactions tm b \<noteq> None" using graph_okD(2)[OF g(1) b] g(3) by auto
  ultimately show ?thesis using t by blast
qed

lemma demo_wait:
  "\<exists>tm lm. lock_reachable tm lm \<and> waiting (lock_view lm) \<noteq> {}"
proof -
  let ?k = "key_make_bool True"
  obtain tm lm where d: "lock_reachable tm lm" "exclusive_owner (states_at lm ?k) = Some 1"
      "waiters (states_at lm ?k) = []" "2 \<in> tm_active tm" "waiting (lock_view lm) = {}" "tm_edges tm = {}"
    using demo_lock_first[of ?k] by blast
  let ?st = "states_at lm ?k" and ?lm = "states_put lm ?k (states_at lm ?k)"
  note ok = lock_reachable_ok[OF d(1)]
  have sh: "shared_owners ?st = {}"
    using sys_okD(2)[OF ok, of "key_id ?k"] d(2) unfolding lock_view_at
    by (simp add: state_ok_def state_exclusive_def)
  have e: "lock_exclusive (Some tm) lm 2 ?k = enqueue_waiter (Some tm) ?lm ?k ?st 2 Exclusive [1]"
    using d(2,3) sh by (simp add: lock_exclusive_def Let_def)
  have "\<exists>res tm' lm'. enqueue_waiter (Some tm) ?lm ?k ?st 2 Exclusive [1] = (res, Some tm', lm') \<and>
      sys_ok None None tm' (lock_view lm') \<and>
      ((\<exists>w. res = LR_waiting w \<and> 2 \<in> waiting (lock_view lm')) \<or>
       (res = LR_status Deadlock \<and> tm' = tm \<and> lock_view lm' = lock_view ?lm \<and>
        (\<exists>b\<in>set [1]. (b, 2) \<in> (tm_edges tm)\<^sup>*)))"
    using ok d sh put_same_view[of lm ?k]
    by (intro enqueue_ok) (auto simp: lock_view_at grantable_def new_waiter_def)
  then obtain w tm' lm' where w: "lock_exclusive (Some tm) lm 2 ?k = (LR_waiting w, Some tm', lm')"
      "2 \<in> waiting (lock_view lm')"
    unfolding e using d(6) by auto
  have "lock_step (tm, lm) (tm', lm')" using d(4,5) w(1) by (intro lock_step.exclusive) auto
  with d(1) have "lock_reachable tm' lm'" by (rule rtranclp.rtrancl_into_rtrancl)
  with w(2) show ?thesis by blast
qed

theorem no_deadlock_witness:
  "\<exists>tm lm t b. t \<in> waiting (lock_view lm) \<and> (t, b) \<in> tm_edges tm \<and>
    active_transactions tm b \<noteq> None \<and> b \<notin> waiting (lock_view lm)"
  using demo_wait no_deadlock by metis



end
