(* ===== verification/LogStore.thy ===== *)
theory LogStore
  imports Endian
begin

text \<open>
  Files of one log segment, after \<open>src/src/disk/DiskIO.cpp\<close>, \<open>src/src/Log/Store.cpp\<close> and
  \<open>src/src/storage/Index.cpp\<close>.  A file is its contents with the length that has been
  synchronised; reads inside a file succeed.  A write may fail after any number of bytes, and
  the roll-back that follows may fail too: the faults are an argument of the appending
  operations.  Sizes and offsets are natural numbers, since a file cannot reach \<open>2^63\<close> bytes; they
  are truncated to 64 bits where the code stores them.
\<close>

section \<open>Files\<close>

record disk_file =
  f_data :: bytes
  f_durable :: nat

definition file_size :: "disk_file \<Rightarrow> nat" where
  "file_size f = length (f_data f)"

definition read_exact_at :: "disk_file \<Rightarrow> nat \<Rightarrow> nat \<Rightarrow> bytes res" where
  "read_exact_at f n off =
     (if n = 0 then Inr []
      else if off + n \<le> file_size f then Inr (take n (drop off (f_data f)))
      else Inl Runtime_error)"

definition overwrite :: "bytes \<Rightarrow> nat \<Rightarrow> bytes \<Rightarrow> bytes" where
  "overwrite d off buf =
     (if buf = [] then d
      else take off (d @ replicate (off - length d) 0) @ buf @ drop (off + length buf) d)"

text \<open>The first argument is the number of bytes after which the device fails, if it does.\<close>

definition write_exact_at :: "nat option \<Rightarrow> disk_file \<Rightarrow> bytes \<Rightarrow> nat \<Rightarrow> unit res \<times> disk_file" where
  "write_exact_at fault f buf off =
     (case fault of
        None \<Rightarrow> (Inr (), f\<lparr>f_data := overwrite (f_data f) off buf\<rparr>)
      | Some k \<Rightarrow>
          if length buf \<le> k then (Inr (), f\<lparr>f_data := overwrite (f_data f) off buf\<rparr>)
          else (Inl Runtime_error, f\<lparr>f_data := overwrite (f_data f) off (take k buf)\<rparr>))"

definition truncate_file :: "disk_file \<Rightarrow> nat \<Rightarrow> disk_file" where
  "truncate_file f n =
     f\<lparr>f_data := take n (f_data f @ replicate (n - file_size f) 0), f_durable := min n (f_durable f)\<rparr>"

definition sync_file_to_disk_fd :: "disk_file \<Rightarrow> disk_file" where
  "sync_file_to_disk_fd f = f\<lparr>f_durable := file_size f\<rparr>"

text \<open>What may go wrong during one append: the write itself, the truncation that undoes it, the
  inspection that follows a failed truncation.\<close>

record io_faults =
  io_write :: "nat option"
  io_truncate :: bool
  io_inspect :: bool

definition no_faults :: io_faults where
  "no_faults = \<lparr>io_write = None, io_truncate = False, io_inspect = False\<rparr>"

section \<open>Store\<close>

datatype StoreScanStatus = StoreComplete | StoreIncompleteTail

record StoreScanResult =
  ss_status :: StoreScanStatus
  ss_physical_size :: nat
  ss_valid_size :: nat
  ss_record_count :: nat

record Store =
  st_file :: disk_file
  st_size :: nat
  st_scan :: StoreScanResult

definition RECORD_LENGTH_SIZE :: nat where "RECORD_LENGTH_SIZE = 4"

function store_inspect_loop :: "bytes \<Rightarrow> nat \<Rightarrow> nat \<Rightarrow> StoreScanResult" where
  "store_inspect_loop d off count =
     (if off < length d then
        let remaining = length d - off
        in if remaining < RECORD_LENGTH_SIZE then
             \<lparr>ss_status = StoreIncompleteTail, ss_physical_size = length d, ss_valid_size = off, ss_record_count = count\<rparr>
           else
             let record_size = unat (get_u32_be d off);
                 remaining_payload = remaining - RECORD_LENGTH_SIZE
             in if record_size > remaining_payload then
                  \<lparr>ss_status = StoreIncompleteTail, ss_physical_size = length d, ss_valid_size = off, ss_record_count = count\<rparr>
                else store_inspect_loop d (off + RECORD_LENGTH_SIZE + record_size) (count + 1)
      else \<lparr>ss_status = StoreComplete, ss_physical_size = length d, ss_valid_size = length d, ss_record_count = count\<rparr>)"
  by pat_completeness auto
termination
  by (relation "measure (\<lambda>(d, off, count). length d - off)") (auto simp: RECORD_LENGTH_SIZE_def)

declare store_inspect_loop.simps [simp del]

definition store_inspect_file :: "disk_file \<Rightarrow> StoreScanResult" where
  "store_inspect_file f = store_inspect_loop (f_data f) 0 0"

definition store_open :: "disk_file \<Rightarrow> Store" where
  "store_open f =
     (let r = store_inspect_file f in \<lparr>st_file = f, st_size = ss_physical_size r, st_scan = r\<rparr>)"

text \<open>The catch block of \<open>Store::append\<close>.\<close>

definition store_rollback :: "io_faults \<Rightarrow> Store \<Rightarrow> nat \<Rightarrow> Store" where
  "store_rollback fl s off =
     (if \<not> io_truncate fl then
        s\<lparr>st_file := truncate_file (st_file s) off, st_size := off,
          st_scan := (st_scan s)\<lparr>ss_status := StoreComplete, ss_physical_size := off, ss_valid_size := off\<rparr>\<rparr>
      else if \<not> io_inspect fl then
        (let r = store_inspect_file (st_file s) in s\<lparr>st_scan := r, st_size := ss_physical_size r\<rparr>)
      else s\<lparr>st_scan := (st_scan s)\<lparr>ss_status := StoreIncompleteTail\<rparr>\<rparr>)"

definition store_append :: "io_faults \<Rightarrow> Store \<Rightarrow> bytes \<Rightarrow> nat res \<times> Store" where
  "store_append fl s rec =
     (if length rec > 2 ^ 32 - 1 then (Inl Length_error, s)
      else if ss_status (st_scan s) = StoreIncompleteTail then (Inl Runtime_error, s)
      else
        let frame_size = RECORD_LENGTH_SIZE + length rec;
            off = st_size s;
            length_bytes = put_u32_be (replicate 4 0) 0 (of_nat (length rec))
        in case write_exact_at (io_write fl) (st_file s) length_bytes off of
             (Inl e, f) \<Rightarrow> (Inl e, store_rollback fl (s\<lparr>st_file := f\<rparr>) off)
           | (Inr _, f) \<Rightarrow>
               (case write_exact_at (map_option (\<lambda>k. k - 4) (io_write fl)) f rec (off + RECORD_LENGTH_SIZE) of
                  (Inl e, f) \<Rightarrow> (Inl e, store_rollback fl (s\<lparr>st_file := f\<rparr>) off)
                | (Inr _, f) \<Rightarrow>
                    (let n = off + frame_size
                     in (Inr off,
                         s\<lparr>st_file := f, st_size := n,
                           st_scan := (st_scan s)\<lparr>ss_status := StoreComplete, ss_physical_size := n,
                             ss_valid_size := n, ss_record_count := ss_record_count (st_scan s) + 1\<rparr>\<rparr>))))"

text \<open>The common head of \<open>read\<close> and \<open>read_prefix\<close>: the payload size at an offset.\<close>

definition store_record_size :: "Store \<Rightarrow> nat \<Rightarrow> nat res" where
  "store_record_size s off =
     (if off \<ge> ss_valid_size (st_scan s) \<or> ss_valid_size (st_scan s) - off < RECORD_LENGTH_SIZE
      then Inl Out_of_range
      else res_bind (read_exact_at (st_file s) 4 off) (\<lambda>length_bytes.
        let record_size = unat (get_u32_be length_bytes 0)
        in if record_size > ss_valid_size (st_scan s) - (off + RECORD_LENGTH_SIZE) then Inl Runtime_error
           else Inr record_size))"

definition store_read :: "Store \<Rightarrow> nat \<Rightarrow> bytes res" where
  "store_read s off =
     res_bind (store_record_size s off) (\<lambda>n. read_exact_at (st_file s) n (off + RECORD_LENGTH_SIZE))"

definition store_read_prefix :: "Store \<Rightarrow> nat \<Rightarrow> nat \<Rightarrow> bytes res" where
  "store_read_prefix s off count =
     res_bind (store_record_size s off) (\<lambda>n.
       if count > n then Inl Out_of_range
       else read_exact_at (st_file s) count (off + RECORD_LENGTH_SIZE))"

definition store_repair_tail :: "Store \<Rightarrow> Store" where
  "store_repair_tail s =
     (let r = store_inspect_file (st_file s);
          s = s\<lparr>st_scan := r, st_size := ss_physical_size r\<rparr>
      in if ss_status r = StoreComplete then s
         else s\<lparr>st_file := truncate_file (st_file s) (ss_valid_size r), st_size := ss_valid_size r,
                st_scan := r\<lparr>ss_status := StoreComplete, ss_physical_size := ss_valid_size r\<rparr>\<rparr>)"

fun store_skip :: "disk_file \<Rightarrow> nat \<Rightarrow> nat \<Rightarrow> nat res" where
  "store_skip f 0 off = Inr off"
| "store_skip f (Suc n) off =
     res_bind (read_exact_at f 4 off) (\<lambda>length_bytes.
       store_skip f n (off + RECORD_LENGTH_SIZE + unat (get_u32_be length_bytes 0)))"

definition store_truncate_to :: "Store \<Rightarrow> nat \<Rightarrow> Store res" where
  "store_truncate_to s record_count =
     (if record_count > ss_record_count (st_scan s) then Inl Out_of_range
      else res_bind (store_skip (st_file s) record_count 0) (\<lambda>off.
        Inr (s\<lparr>st_file := truncate_file (st_file s) off, st_size := off,
               st_scan := \<lparr>ss_status = StoreComplete, ss_physical_size = off, ss_valid_size = off,
                 ss_record_count = record_count\<rparr>\<rparr>)))"

definition store_sync :: "Store \<Rightarrow> Store" where
  "store_sync s = s\<lparr>st_file := sync_file_to_disk_fd (st_file s)\<rparr>"

section \<open>Index\<close>

datatype IndexScanStatus = IndexComplete | IndexIncompleteTail | IndexCorrupt

record IndexScanResult =
  is_status :: IndexScanStatus
  is_physical_size :: nat
  is_valid_size :: nat
  is_entry_count :: nat

record Index =
  ix_file :: disk_file
  ix_size :: nat
  ix_scan :: IndexScanResult

definition ENTRY_SIZE :: nat where "ENTRY_SIZE = 12"

function index_inspect_loop :: "bytes \<Rightarrow> nat \<Rightarrow> IndexScanResult" where
  "index_inspect_loop d ordinal =
     (let complete_entries = length d div ENTRY_SIZE
      in if ordinal < complete_entries then
           (if unat (get_u32_be d (ordinal * ENTRY_SIZE)) \<noteq> ordinal then
              \<lparr>is_status = IndexCorrupt, is_physical_size = length d,
               is_valid_size = ordinal * ENTRY_SIZE, is_entry_count = ordinal\<rparr>
            else index_inspect_loop d (ordinal + 1))
         else
           \<lparr>is_status = (if complete_entries * ENTRY_SIZE = length d then IndexComplete else IndexIncompleteTail),
            is_physical_size = length d, is_valid_size = complete_entries * ENTRY_SIZE,
            is_entry_count = complete_entries\<rparr>)"
  by pat_completeness auto
termination by (relation "measure (\<lambda>(d, ordinal). length d div ENTRY_SIZE - ordinal)") auto

declare index_inspect_loop.simps [simp del]

definition index_inspect_file :: "disk_file \<Rightarrow> IndexScanResult" where
  "index_inspect_file f = index_inspect_loop (f_data f) 0"

definition index_open :: "disk_file \<Rightarrow> Index" where
  "index_open f =
     (let r = index_inspect_file f in \<lparr>ix_file = f, ix_size = is_physical_size r, ix_scan = r\<rparr>)"

definition index_rollback :: "io_faults \<Rightarrow> Index \<Rightarrow> nat \<Rightarrow> Index" where
  "index_rollback fl x off =
     (if \<not> io_truncate fl then
        x\<lparr>ix_file := truncate_file (ix_file x) off, ix_size := off,
          ix_scan := (ix_scan x)\<lparr>is_status := IndexComplete, is_physical_size := off, is_valid_size := off\<rparr>\<rparr>
      else if \<not> io_inspect fl then
        (let r = index_inspect_file (ix_file x) in x\<lparr>ix_scan := r, ix_size := is_physical_size r\<rparr>)
      else x\<lparr>ix_scan := (ix_scan x)\<lparr>is_status := IndexCorrupt\<rparr>\<rparr>)"

definition index_append :: "io_faults \<Rightarrow> Index \<Rightarrow> u32 \<Rightarrow> u64 \<Rightarrow> unit res \<times> Index" where
  "index_append fl x ordinal store_offset =
     (if is_status (ix_scan x) \<noteq> IndexComplete then (Inl Runtime_error, x)
      else
        let off = ix_size x;
            entry = put_u64_be (put_u32_be (replicate 12 0) 0 ordinal) 4 store_offset
        in case write_exact_at (io_write fl) (ix_file x) entry off of
             (Inl e, f) \<Rightarrow> (Inl e, index_rollback fl (x\<lparr>ix_file := f\<rparr>) off)
           | (Inr _, f) \<Rightarrow>
               (let n = ix_size x + ENTRY_SIZE
                in (Inr (),
                    x\<lparr>ix_file := f, ix_size := n,
                      ix_scan := (ix_scan x)\<lparr>is_status := IndexComplete, is_physical_size := n,
                        is_valid_size := n, is_entry_count := is_entry_count (ix_scan x) + 1\<rparr>\<rparr>)))"

definition index_read :: "Index \<Rightarrow> u32 \<Rightarrow> u64 res" where
  "index_read x ordinal =
     (if unat ordinal \<ge> is_entry_count (ix_scan x) then Inl Out_of_range
      else res_bind (read_exact_at (ix_file x) ENTRY_SIZE (unat ordinal * ENTRY_SIZE)) (\<lambda>entry.
        if get_u32_be entry 0 \<noteq> ordinal then Inl Runtime_error
        else Inr (get_u64_be entry 4)))"

definition index_repair_tail :: "Index \<Rightarrow> Index res" where
  "index_repair_tail x =
     (let r = index_inspect_file (ix_file x);
          x = x\<lparr>ix_scan := r, ix_size := is_physical_size r\<rparr>
      in if is_status r = IndexComplete then Inr x
         else if is_status r = IndexCorrupt then Inl Runtime_error
         else Inr (x\<lparr>ix_file := truncate_file (ix_file x) (is_valid_size r), ix_size := is_valid_size r,
                     ix_scan := r\<lparr>is_status := IndexComplete, is_physical_size := is_valid_size r\<rparr>\<rparr>))"

definition index_truncate_to :: "Index \<Rightarrow> nat \<Rightarrow> Index res" where
  "index_truncate_to x entry_count =
     (if entry_count > is_entry_count (ix_scan x) then Inl Out_of_range
      else
        let n = entry_count * ENTRY_SIZE
        in Inr (x\<lparr>ix_file := truncate_file (ix_file x) n, ix_size := n,
                  ix_scan := \<lparr>is_status = IndexComplete, is_physical_size = n, is_valid_size = n,
                    is_entry_count = entry_count\<rparr>\<rparr>))"

definition index_sync :: "Index \<Rightarrow> Index" where
  "index_sync x = x\<lparr>ix_file := sync_file_to_disk_fd (ix_file x)\<rparr>"

section \<open>Frames\<close>

text \<open>The contents of a store are the frames of its records, perhaps followed by the torn
  beginning of another one.\<close>

definition frame :: "bytes \<Rightarrow> bytes" where
  "frame r = be32 (of_nat (length r)) @ r"

definition frames :: "bytes list \<Rightarrow> bytes" where
  "frames rs = concat (map frame rs)"

definition small :: "bytes \<Rightarrow> bool" where
  "small r = (length r < 2 ^ 32)"

definition torn :: "bytes \<Rightarrow> bool" where
  "torn t = (length t < 4 \<or> length t - 4 < unat (get_u32_be t 0))"

lemma frames_simps [simp]:
  "frames [] = []" "frames (r # rs) = frame r @ frames rs" "frames (rs @ rs') = frames rs @ frames rs'"
  by (simp_all add: frames_def)

lemma length_frame [simp]: "length (frame r) = 4 + length r"
  by (simp add: frame_def)

lemma frame_size_field: "small r \<Longrightarrow> unat (get_u32_be (frame r @ t) 0) = length r"
  using get_be(2)[of 0 "[]" "of_nat (length r)" "r @ t"]
  by (simp add: frame_def small_def unat_of_nat_lt)

lemma frame_size_at:
  "small r \<Longrightarrow> p = length pre \<Longrightarrow> unat (get_u32_be (pre @ frame r @ t) p) = length r"
  using f32.get_append2[of p pre 0 "frame r @ t"] frame_size_field[of r t] by simp

lemma torn_Nil [simp]: "torn []"
  by (simp add: torn_def)

lemma not_torn_frame: "small r \<Longrightarrow> \<not> torn (frame r @ t)"
  by (simp add: torn_def frame_size_field)

lemma unframe:
  assumes "\<not> torn d"
  obtains r t where "d = frame r @ t" "small r"
proof -
  let ?n = "unat (get_u32_be d 0)"
  let ?r = "take ?n (drop 4 d)"
  have n: "4 \<le> length d" "?n \<le> length d - 4" using assms by (auto simp: torn_def)
  have "d = take 4 d @ ?r @ drop (4 + ?n) d"
    by (metis append_take_drop_id drop_drop add.commute)
  moreover have "take 4 d = be32 (of_nat (length ?r))" using n be32_get_slice[of 0 d] by simp
  ultimately have "d = frame ?r @ drop (4 + ?n) d" by (simp add: frame_def)
  moreover have "small ?r" using unat_bound[of "get_u32_be d 0"] by (simp add: small_def)
  ultimately show ?thesis by (rule that)
qed

lemma split_frames:
  "\<exists>rs t. d = frames rs @ t \<and> torn t \<and> (\<forall>r\<in>set rs. small r)"
proof (induction d rule: length_induct)
  case (1 d)
  show ?case
  proof (cases "torn d")
    case True
    then show ?thesis by (intro exI[of _ "[]"] exI[of _ d]) simp
  next
    case False
    then obtain r t where d: "d = frame r @ t" "small r" by (rule unframe)
    then have "length t < length d" by simp
    then obtain rs u where "t = frames rs @ u" "torn u" "\<forall>r\<in>set rs. small r" using 1 by blast
    with d show ?thesis by (intro exI[of _ "r # rs"] exI[of _ u]) simp
  qed
qed

lemma split_frames_unique:
  assumes "frames rs @ t = frames rs' @ t'" "torn t" "torn t'"
    "\<forall>r\<in>set rs. small r" "\<forall>r\<in>set rs'. small r"
  shows "rs = rs' \<and> t = t'"
  using assms
proof (induction rs arbitrary: rs')
  case Nil
  then show ?case by (cases rs') (auto simp: not_torn_frame)
next
  case (Cons r rs)
  show ?case
  proof (cases rs')
    case Nil
    then show ?thesis using Cons.prems not_torn_frame[of r "frames rs @ t"] by auto
  next
    case (Cons r' q)
    have e: "frame r @ frames rs @ t = frame r' @ frames q @ t'" using Cons Cons.prems(1) by simp
    have "length r = length r'"
      using frame_size_field[of r "frames rs @ t"] frame_size_field[of r' "frames q @ t'"] e Cons Cons.prems
      by simp
    with e have "frame r = frame r' \<and> frames rs @ t = frames q @ t'" by (simp add: append_eq_append_conv)
    moreover have "frame r = frame r' \<Longrightarrow> r = r'" using \<open>length r = length r'\<close> by (simp add: frame_def)
    ultimately show ?thesis using Cons Cons.prems Cons.IH[of q] by auto
  qed
qed

lemma inspect_frames:
  assumes "torn t" "\<forall>r\<in>set rs. small r"
  shows "store_inspect_loop (pre @ frames rs @ t) (length pre) c =
    \<lparr>ss_status = (if t = [] then StoreComplete else StoreIncompleteTail),
     ss_physical_size = length pre + length (frames rs) + length t,
     ss_valid_size = length pre + length (frames rs), ss_record_count = c + length rs\<rparr>"
  using assms(2)
proof (induction rs arbitrary: pre c)
  case Nil
  have "get_u32_be (pre @ t) (length pre) = get_u32_be t 0" by (rule f32.get_append2) simp
  with assms(1) show ?case
    by (subst store_inspect_loop.simps) (auto simp: torn_def RECORD_LENGTH_SIZE_def Let_def)
next
  case (Cons r rs)
  have "store_inspect_loop (pre @ frame r @ frames rs @ t) (length pre) c =
      store_inspect_loop ((pre @ frame r) @ frames rs @ t) (length (pre @ frame r)) (c + 1)"
    using Cons.prems frame_size_at[of r "length pre" pre "frames rs @ t"]
    by (subst store_inspect_loop.simps) (simp add: RECORD_LENGTH_SIZE_def Let_def add.assoc)
  then show ?case using Cons.IH[of "pre @ frame r" "c + 1"] Cons.prems by (simp add: add.assoc)
qed

lemma take_frames:
  assumes "\<forall>r\<in>set rs. small r"
  shows "\<exists>k t. take n (frames rs) = frames (take k rs) @ t \<and> torn t \<and> k \<le> length rs \<and>
    (\<forall>j \<le> length rs. length (frames (take j rs)) \<le> n \<longrightarrow> j \<le> k)"
  using assms
proof (induction rs arbitrary: n)
  case (Cons r rs)
  show ?case
  proof (cases "length (frame r) \<le> n")
    case True
    have n: "n = length (frame r) + (n - length (frame r))" using True by simp
    obtain k t where k: "take (n - length (frame r)) (frames rs) = frames (take k rs) @ t" "torn t" "k \<le> length rs"
      "\<forall>j \<le> length rs. length (frames (take j rs)) \<le> n - length (frame r) \<longrightarrow> j \<le> k"
      using Cons.IH[of "n - length (frame r)"] Cons.prems by auto
    have "take n (frames (r # rs)) = frames (take (Suc k) (r # rs)) @ t" using k(1) True by simp
    moreover have "j \<le> Suc k" if "j \<le> length (r # rs)" "length (frames (take j (r # rs))) \<le> n" for j
      using that k(4) True by (cases j) auto
    ultimately show ?thesis using k by (intro exI[of _ "Suc k"] exI[of _ t]) auto
  next
    case False
    then have "take n (frames (r # rs)) = take n (frame r)" by simp
    moreover have "torn (take n (frame r))"
    proof (cases "n < 4")
      case False
      then have "get_u32_be (take n (frame r)) 0 = get_u32_be (frame r) 0" by (intro f32.get_take) simp
      then show ?thesis using frame_size_field[of r "[]"] Cons.prems \<open>\<not> length (frame r) \<le> n\<close> by (auto simp: torn_def)
    qed (simp add: torn_def)
    moreover have "j = 0" if "length (frames (take j (r # rs))) \<le> n" for j
      using that False by (cases j) auto
    ultimately show ?thesis by (intro exI[of _ 0] exI[of _ "take n (frame r)"]) auto
  qed
qed simp

section \<open>What a store promises\<close>

locale record_store =
  fixes holds :: "'s \<Rightarrow> bytes list \<Rightarrow> bool"
    and append :: "'s \<Rightarrow> bytes \<Rightarrow> nat res \<times> 's"
    and read :: "'s \<Rightarrow> nat \<Rightarrow> bytes res"
    and truncate :: "'s \<Rightarrow> nat \<Rightarrow> 's res"
  assumes append_law: "holds s rs \<Longrightarrow> small r \<Longrightarrow>
      \<exists>s'. append s r = (Inr (length (frames rs)), s') \<and> holds s' (rs @ [r])"
    and read_law: "holds s rs \<Longrightarrow> i < length rs \<Longrightarrow> read s (length (frames (take i rs))) = Inr (rs ! i)"
    and truncate_law: "holds s rs \<Longrightarrow> n \<le> length rs \<Longrightarrow> \<exists>s'. truncate s n = Inr s' \<and> holds s' (take n rs)"
begin

text \<open>An offset handed out by an append stays good under later appends.\<close>

lemma offset_stable:
  assumes "holds s rs" "i < length rs" "small r"
  obtains off s' where "append s r = (Inr off, s')"
    "read s' (length (frames (take i rs))) = read s (length (frames (take i rs)))" "read s' off = Inr r"
proof -
  obtain s' where s': "append s r = (Inr (length (frames rs)), s')" "holds s' (rs @ [r])"
    using append_law assms by blast
  have "read s' (length (frames (take i rs))) = Inr (rs ! i)"
    using read_law[OF s'(2), of i] assms(2) by (simp add: nth_append)
  moreover have "read s' (length (frames rs)) = Inr r" using read_law[OF s'(2), of "length rs"] by simp
  ultimately show ?thesis using that[OF s'(1)] read_law[OF assms(1,2)] by simp
qed

lemma truncate_read:
  assumes "holds s rs" "n \<le> length rs" "i < n"
  obtains s' where "truncate s n = Inr s'" "read s' (length (frames (take i rs))) = Inr (rs ! i)"
proof -
  obtain s' where s': "truncate s n = Inr s'" "holds s' (take n rs)" using truncate_law assms(1,2) by blast
  moreover have "take i (take n rs) = take i rs" using assms(3) by (simp add: min_def)
  ultimately show ?thesis using that[OF s'(1)] read_law[OF s'(2), of i] assms by simp
qed

end

definition scan_of :: "bytes list \<Rightarrow> StoreScanResult" where
  "scan_of rs = \<lparr>ss_status = StoreComplete, ss_physical_size = length (frames rs),
     ss_valid_size = length (frames rs), ss_record_count = length rs\<rparr>"

definition store_holds :: "Store \<Rightarrow> bytes list \<Rightarrow> bool" where
  "store_holds s rs = (f_data (st_file s) = frames rs \<and> (\<forall>r\<in>set rs. small r) \<and>
     st_size s = length (frames rs) \<and> st_scan s = scan_of rs)"

lemma overwrite_end: "overwrite d (length d) buf = d @ buf"
  by (simp add: overwrite_def)

lemma fresh_be32: "put_u32_be (replicate 4 0) 0 v = be32 v"
  using write_first[of "be32 v" 4] by (simp add: put_be)

lemma store_append_holds:
  assumes "store_holds s rs" "small r"
  shows "\<exists>s'. store_append no_faults s r = (Inr (length (frames rs)), s') \<and> store_holds s' (rs @ [r]) \<and>
    f_durable (st_file s') = f_durable (st_file s)"
proof -
  have "overwrite (overwrite (frames rs) (length (frames rs)) (be32 (of_nat (length r)))) (length (frames rs) + 4) r =
      frames (rs @ [r])"
    using overwrite_end[of "frames rs @ be32 (of_nat (length r))" r] by (simp add: overwrite_end frame_def)
  then show ?thesis
    using assms
    by (simp add: store_append_def no_faults_def write_exact_at_def store_holds_def scan_of_def small_def
        fresh_be32 RECORD_LENGTH_SIZE_def Let_def)
qed

lemma frames_nth:
  "i < length rs \<Longrightarrow> frames rs = frames (take i rs) @ frame (rs ! i) @ frames (drop (Suc i) rs)"
  by (metis frames_simps(2,3) id_take_nth_drop)

lemma store_record_size_at:
  assumes "f_data (st_file s) = pre @ frame r @ post" "small r"
    "length pre + 4 + length r \<le> ss_valid_size (st_scan s)"
  shows "store_record_size s (length pre) = Inr (length r)"
proof -
  have "unat (get_u32_be (take 4 (frame r)) 0) = length r"
    using frame_size_field[of r "[]"] assms(2) f32.get_take[of 0 4 "frame r"] by simp
  moreover have "4 \<le> ss_valid_size (st_scan s) - length pre" "length r \<le> ss_valid_size (st_scan s) - (length pre + 4)"
    "length pre < ss_valid_size (st_scan s)" using assms(3) by linarith+
  ultimately show ?thesis
    using assms(1) by (simp add: store_record_size_def read_exact_at_def file_size_def RECORD_LENGTH_SIZE_def Let_def)
qed

lemma store_read_at:
  assumes "f_data (st_file s) = pre @ frame r @ post" "small r"
    "length pre + 4 + length r \<le> ss_valid_size (st_scan s)"
  shows "store_read s (length pre) = Inr r"
    "n \<le> length r \<Longrightarrow> store_read_prefix s (length pre) n = Inr (take n r)"
  using assms store_record_size_at[OF assms]
  by (simp_all add: store_read_def store_read_prefix_def read_exact_at_def file_size_def RECORD_LENGTH_SIZE_def frame_def)

lemma store_holds_frame:
  assumes "store_holds s rs" "i < length rs"
  shows "f_data (st_file s) = frames (take i rs) @ frame (rs ! i) @ frames (drop (Suc i) rs)" "small (rs ! i)"
    "length (frames (take i rs)) + 4 + length (rs ! i) \<le> ss_valid_size (st_scan s)"
  using assms frames_nth[OF assms(2)] by (simp_all add: store_holds_def scan_of_def)

lemma store_read_holds:
  assumes "store_holds s rs" "i < length rs"
  shows "store_read s (length (frames (take i rs))) = Inr (rs ! i)"
    "n \<le> length (rs ! i) \<Longrightarrow> store_read_prefix s (length (frames (take i rs))) n = Inr (take n (rs ! i))"
  using store_read_at[OF store_holds_frame[OF assms]] by auto

lemma store_skip_frames:
  assumes "f_data f = pre @ frames rs @ post" "\<forall>r\<in>set rs. small r"
  shows "store_skip f (length rs) (length pre) = Inr (length pre + length (frames rs))"
  using assms
proof (induction rs arbitrary: pre)
  case (Cons r rs)
  have "f_data f = (pre @ frame r) @ frames rs @ post" using Cons.prems(1) by simp
  from Cons.IH[OF this] have ih: "store_skip f (length rs) (length pre + (4 + length r)) =
      Inr (length pre + (4 + length r) + length (frames rs))" using Cons.prems by simp
  have "unat (get_u32_be (take 4 (frame r)) 0) = length r"
    using frame_size_field[of r "[]"] Cons.prems(2) f32.get_take[of 0 4 "frame r"] by simp
  then show ?case
    using Cons.prems(1) ih by (simp add: read_exact_at_def file_size_def RECORD_LENGTH_SIZE_def add.assoc)
qed simp

lemma store_truncate_holds:
  assumes "store_holds s rs" "n \<le> length rs"
  shows "\<exists>s'. store_truncate_to s n = Inr s' \<and> store_holds s' (take n rs)"
proof -
  have d: "f_data (st_file s) = [] @ frames (take n rs) @ frames (drop n rs)"
    using assms(1) by (simp add: store_holds_def flip: frames_simps(3))
  have small: "\<forall>r\<in>set rs. small r" using assms(1) by (simp add: store_holds_def)
  have "store_skip (st_file s) n 0 = Inr (length (frames (take n rs)))"
    using store_skip_frames[OF d] small assms(2) by (auto dest: in_set_takeD)
  moreover have "take (length (frames (take n rs))) (frames rs) = frames (take n rs)"
    by (metis append_eq_conv_conj append_take_drop_id frames_simps(3))
  moreover have "length (frames (take n rs)) \<le> length (frames rs)"
    by (metis append_take_drop_id frames_simps(3) le_add1 length_append)
  ultimately show ?thesis
    using assms small
    by (auto simp: store_truncate_to_def store_holds_def scan_of_def truncate_file_def file_size_def dest: in_set_takeD)
qed

interpretation rs: record_store store_holds "store_append no_faults" store_read store_truncate_to
proof unfold_locales
  show "store_holds s rs \<Longrightarrow> small r \<Longrightarrow>
      \<exists>s'. store_append no_faults s r = (Inr (length (frames rs)), s') \<and> store_holds s' (rs @ [r])" for s rs r
    using store_append_holds by blast
qed (use store_read_holds(1) store_truncate_holds in blast)+

section \<open>Damaged stores\<close>

lemma store_inspect_split:
  assumes "f_data f = frames rs @ t" "torn t" "\<forall>r\<in>set rs. small r"
  shows "store_inspect_file f = \<lparr>ss_status = (if t = [] then StoreComplete else StoreIncompleteTail),
     ss_physical_size = length (frames rs) + length t, ss_valid_size = length (frames rs),
     ss_record_count = length rs\<rparr>"
  using inspect_frames[OF assms(2,3), of "[]" 0] assms(1) by (simp add: store_inspect_file_def)

lemma store_repair_holds:
  assumes "f_data (st_file s) = frames rs @ t" "torn t" "\<forall>r\<in>set rs. small r"
  shows "store_holds (store_repair_tail s) rs"
  using assms by (simp add: store_repair_tail_def store_inspect_split[OF assms] store_holds_def scan_of_def
      truncate_file_def file_size_def Let_def)

lemma store_open_split:
  assumes "f_data f = frames rs @ t" "torn t" "\<forall>r\<in>set rs. small r"
  shows "t = [] \<Longrightarrow> store_holds (store_open f) rs"
    "t \<noteq> [] \<Longrightarrow> ss_status (st_scan (store_open f)) = StoreIncompleteTail"
    "store_holds (store_repair_tail (store_open f)) rs"
  using assms store_repair_holds[of "store_open f" rs t]
  by (simp_all add: store_open_def store_inspect_split[OF assms] store_holds_def scan_of_def Let_def)

lemma torn_take_frame:
  assumes "small r" "k < length (frame r)"
  shows "torn (take k (frame r))"
proof (cases "k < 4")
  case False
  then have "get_u32_be (take k (frame r)) 0 = get_u32_be (frame r) 0" by (intro f32.get_take) simp
  then show ?thesis using frame_size_field[of r "[]"] assms by (auto simp: torn_def)
qed (simp add: torn_def)

lemma rollback_repairs:
  assumes "f_data (st_file s) = frames rs @ t" "torn t" "\<forall>r\<in>set rs. small r" "st_scan s = scan_of rs"
  shows "store_holds (store_repair_tail (store_rollback fl s (length (frames rs)))) rs"
    "store_holds (store_rollback fl s (length (frames rs))) rs \<or>
     ss_status (st_scan (store_rollback fl s (length (frames rs)))) = StoreIncompleteTail"
proof -
  let ?s = "store_rollback fl s (length (frames rs))"
  have "f_data (st_file ?s) = frames rs \<or> f_data (st_file ?s) = frames rs @ t"
    using assms(1) by (simp add: store_rollback_def truncate_file_def file_size_def Let_def)
  then show "store_holds (store_repair_tail ?s) rs"
    using store_repair_holds[of ?s rs "[]"] store_repair_holds[of ?s rs t] assms(2,3) by auto
  show "store_holds ?s rs \<or> ss_status (st_scan ?s) = StoreIncompleteTail"
    using assms by (simp add: store_rollback_def store_inspect_split[OF assms(1-3)] store_holds_def scan_of_def
        truncate_file_def file_size_def Let_def)
qed

lemma store_append_faulty:
  assumes "store_holds s rs" "small r"
  shows "(\<exists>s'. store_append fl s r = (Inr (length (frames rs)), s') \<and> store_holds s' (rs @ [r])) \<or>
    (\<exists>t. torn t \<and> store_append fl s r =
      (Inl Runtime_error, store_rollback fl (s\<lparr>st_file := (st_file s)\<lparr>f_data := frames rs @ t\<rparr>\<rparr>) (length (frames rs))))"
proof -
  let ?h = "be32 (of_nat (length r))" and ?d = "f_data (st_file s)"
  have d: "?d = frames rs" "st_size s = length (frames rs)" "st_scan s = scan_of rs" "\<not> length r > 2 ^ 32 - 1"
    using assms by (auto simp: store_holds_def small_def)
  have w1: "overwrite (frames rs) (length (frames rs)) b = frames rs @ b" for b by (rule overwrite_end)
  have w2: "overwrite (frames rs @ ?h) (length (frames rs) + 4) b = frames rs @ ?h @ b" for b
    using overwrite_end[of "frames rs @ ?h" b] by simp
  show ?thesis
  proof (cases "io_write fl")
    case None
    then show ?thesis
      using assms d by (simp add: store_append_def scan_of_def write_exact_at_def fresh_be32 w1 w2 store_holds_def
          RECORD_LENGTH_SIZE_def small_def frame_def Let_def)
  next
    case (Some k)
    consider "k < 4" | "4 \<le> k" "k < 4 + length r" | "4 + length r \<le> k" by linarith
    then show ?thesis
    proof cases
      case 1
      then have "store_append fl s r = (Inl Runtime_error,
          store_rollback fl (s\<lparr>st_file := (st_file s)\<lparr>f_data := frames rs @ take k ?h\<rparr>\<rparr>) (length (frames rs)))"
        using Some d by (simp add: store_append_def scan_of_def write_exact_at_def fresh_be32 w1 Let_def)
      then show ?thesis using 1 by (intro disjI2 exI[of _ "take k ?h"]) (simp add: torn_def)
    next
      case 2
      then have "store_append fl s r = (Inl Runtime_error,
          store_rollback fl (s\<lparr>st_file := (st_file s)\<lparr>f_data := frames rs @ take k (frame r)\<rparr>\<rparr>) (length (frames rs)))"
        using Some d by (simp add: store_append_def scan_of_def write_exact_at_def fresh_be32 w1 w2
            RECORD_LENGTH_SIZE_def frame_def Let_def)
      then show ?thesis using 2 assms(2) by (intro disjI2 exI[of _ "take k (frame r)"]) (simp add: torn_take_frame)
    next
      case 3
      then have "4 \<le> k" "length r \<le> k - 4" by linarith+
      then show ?thesis
        using Some assms d by (simp add: store_append_def scan_of_def write_exact_at_def fresh_be32 w1 w2 store_holds_def
            RECORD_LENGTH_SIZE_def small_def frame_def Let_def)
    qed
  qed
qed

section \<open>Index files\<close>

fun index_image :: "nat \<Rightarrow> nat list \<Rightarrow> bytes" where
  "index_image i [] = []"
| "index_image i (off # offs) = be32 (of_nat i) @ be64 (of_nat off) @ index_image (Suc i) offs"

lemma length_index_image [simp]: "length (index_image i offs) = 12 * length offs"
  by (induction offs arbitrary: i) auto

lemma index_image_append: "index_image i (a @ b) = index_image i a @ index_image (i + length a) b"
  by (induction a arbitrary: i) auto

lemma take_index_image: "take (12 * n) (index_image i offs) = index_image i (take n offs)"
proof (induction offs arbitrary: i n)
  case (Cons off offs)
  then show ?case by (cases n) auto
qed simp

lemma index_image_nth:
  assumes "j < length offs"
  shows "index_image i offs = index_image i (take j offs) @ be32 (of_nat (i + j)) @ be64 (of_nat (offs ! j)) @
    index_image (i + Suc j) (drop (Suc j) offs)"
proof -
  have "index_image i offs = index_image i (take j offs @ offs ! j # drop (Suc j) offs)"
    using assms by (metis id_take_nth_drop)
  then show ?thesis using assms by (simp only: index_image_append) simp
qed

definition index_holds :: "Index \<Rightarrow> nat list \<Rightarrow> bool" where
  "index_holds x offs = (f_data (ix_file x) = index_image 0 offs \<and> length offs \<le> 2 ^ 32 \<and>
     (\<forall>off\<in>set offs. off < 2 ^ 64) \<and> ix_size x = 12 * length offs \<and>
     ix_scan x = \<lparr>is_status = IndexComplete, is_physical_size = 12 * length offs,
       is_valid_size = 12 * length offs, is_entry_count = length offs\<rparr>)"

lemma index_ordinal_at:
  assumes "j < length offs" "length offs \<le> 2 ^ 32"
  shows "unat (get_u32_be (index_image 0 offs @ t) (j * 12)) = j"
proof -
  have "get_u32_be (index_image 0 offs @ t) (j * 12) = of_nat j"
    unfolding index_image_nth[OF assms(1), of 0] append_assoc using assms(1)
    by (intro trans[OF get_be(2)]) simp_all
  then show ?thesis using assms by (simp add: unat_of_nat_lt)
qed

lemma index_inspect_image:
  assumes "length offs \<le> 2 ^ 32" "length t < 12" "i \<le> length offs"
  shows "index_inspect_loop (index_image 0 offs @ t) i =
    \<lparr>is_status = (if t = [] then IndexComplete else IndexIncompleteTail),
     is_physical_size = 12 * length offs + length t, is_valid_size = 12 * length offs,
     is_entry_count = length offs\<rparr>"
  using assms(3)
proof (induction "length offs - i" arbitrary: i)
  case 0
  have "(12 * length offs + length t) div 12 = length offs" using assms(2) by simp
  then show ?case using 0 by (subst index_inspect_loop.simps) (simp add: ENTRY_SIZE_def Let_def)
next
  case (Suc n)
  then have i: "i < length offs" "n = length offs - Suc i" by auto
  have "(12 * length offs + length t) div 12 = length offs" using assms(2) by simp
  then have "index_inspect_loop (index_image 0 offs @ t) i = index_inspect_loop (index_image 0 offs @ t) (Suc i)"
    using i index_ordinal_at[OF i(1) assms(1), of t]
    by (subst index_inspect_loop.simps) (simp add: ENTRY_SIZE_def Let_def)
  then show ?case using Suc.hyps(1)[OF i(2)] i(1) by simp
qed

lemma fresh_entry: "put_u64_be (put_u32_be (replicate 12 0) 0 a) 4 b = be32 a @ be64 b"
  by (simp add: put_be write_first write_next)

locale offset_index =
  fixes holds :: "'x \<Rightarrow> nat list \<Rightarrow> bool"
    and append :: "'x \<Rightarrow> u32 \<Rightarrow> u64 \<Rightarrow> unit res \<times> 'x"
    and read :: "'x \<Rightarrow> u32 \<Rightarrow> u64 res"
    and truncate :: "'x \<Rightarrow> nat \<Rightarrow> 'x res"
  assumes append_law: "holds x offs \<Longrightarrow> length offs < 2 ^ 32 \<Longrightarrow> off < 2 ^ 64 \<Longrightarrow>
      \<exists>x'. append x (of_nat (length offs)) (of_nat off) = (Inr (), x') \<and> holds x' (offs @ [off])"
    and read_law: "holds x offs \<Longrightarrow> i < length offs \<Longrightarrow> read x (of_nat i) = Inr (of_nat (offs ! i))"
    and truncate_law: "holds x offs \<Longrightarrow> n \<le> length offs \<Longrightarrow> \<exists>x'. truncate x n = Inr x' \<and> holds x' (take n offs)"
begin

text \<open>Every entry, old or new, is found under its ordinal after an append.\<close>

lemma read_after_append:
  assumes "holds x offs" "length offs < 2 ^ 32" "off < 2 ^ 64" "i \<le> length offs"
  obtains x' where "append x (of_nat (length offs)) (of_nat off) = (Inr (), x')"
    "read x' (of_nat i) = Inr (of_nat ((offs @ [off]) ! i))"
proof -
  obtain x' where "append x (of_nat (length offs)) (of_nat off) = (Inr (), x')" "holds x' (offs @ [off])"
    using append_law assms(1-3) by blast
  with that read_law[of x' "offs @ [off]" i] assms(4) show ?thesis by simp
qed

end

lemma index_append_holds:
  assumes "index_holds x offs" "length offs < 2 ^ 32" "off < 2 ^ 64"
  shows "\<exists>x'. index_append no_faults x (of_nat (length offs)) (of_nat off) = (Inr (), x') \<and> index_holds x' (offs @ [off])"
  using assms overwrite_end[of "index_image 0 offs" "be32 (of_nat (length offs)) @ be64 (of_nat off)"]
  by (simp add: index_append_def no_faults_def write_exact_at_def index_holds_def fresh_entry
      index_image_append ENTRY_SIZE_def Let_def)

lemma index_read_prefix:
  assumes "f_data (ix_file x) = index_image 0 offs @ t" "length offs \<le> 2 ^ 32"
    "is_entry_count (ix_scan x) = length offs" "i < length offs"
  shows "index_read x (of_nat i) = Inr (of_nat (offs ! i))"
proof -
  let ?a = "be32 (of_nat i)" and ?b = "be64 (of_nat (offs ! i))"
  have u: "unat (of_nat i :: u32) = i" using assms(2,4) by (simp add: unat_of_nat_lt)
  have "take 12 (drop (i * 12) (index_image 0 offs @ t)) = ?a @ ?b"
    using index_image_nth[OF assms(4), of 0] assms(4) by simp
  then have "read_exact_at (ix_file x) ENTRY_SIZE (i * ENTRY_SIZE) = Inr (?a @ ?b)"
    using assms by (simp add: read_exact_at_def file_size_def ENTRY_SIZE_def)
  moreover have "get_u32_be (?a @ ?b) 0 = of_nat i" using get_be(2)[of 0 "[]" _ ?b] by simp
  moreover have "get_u64_be (?a @ ?b) 4 = of_nat (offs ! i)" using get_be(3)[of 4 ?a _ "[]"] by simp
  ultimately show ?thesis using assms u by (simp add: index_read_def)
qed

lemma index_read_holds:
  "index_holds x offs \<Longrightarrow> i < length offs \<Longrightarrow> index_read x (of_nat i) = Inr (of_nat (offs ! i))"
  using index_read_prefix[of x offs "[]" i] by (simp add: index_holds_def)

lemma index_truncate_holds:
  assumes "index_holds x offs" "n \<le> length offs"
  shows "\<exists>x'. index_truncate_to x n = Inr x' \<and> index_holds x' (take n offs)"
  using assms take_index_image[of n 0 offs]
  by (auto simp: index_truncate_to_def index_holds_def truncate_file_def file_size_def ENTRY_SIZE_def
      mult.commute Let_def dest: in_set_takeD)

interpretation oi: offset_index index_holds "index_append no_faults" index_read index_truncate_to
  by unfold_locales (blast intro: index_append_holds index_read_holds index_truncate_holds)+

text \<open>What is left of an index file that lost its tail.\<close>

lemma index_open_cut:
  assumes "index_holds x offs" "f_data f = take m (index_image 0 offs)"
  shows "is_status (ix_scan (index_open f)) \<noteq> IndexCorrupt \<and>
    is_entry_count (ix_scan (index_open f)) = min (m div 12) (length offs) \<and>
    (is_status (ix_scan (index_open f)) = IndexComplete \<longrightarrow>
       index_holds (index_open f) (take (m div 12) offs)) \<and>
    (\<forall>n \<le> min (m div 12) (length offs). \<exists>x'. index_truncate_to (index_open f) n = Inr x' \<and> index_holds x' (take n offs)) \<and>
    (\<forall>i < min (m div 12) (length offs). index_read (index_open f) (of_nat i) = Inr (of_nat (offs ! i)))"
proof -
  let ?k = "min (m div 12) (length offs)" and ?o = "take (m div 12) offs"
  define t where "t = (if m div 12 < length offs then take (m mod 12) (drop (12 * (m div 12)) (index_image 0 offs)) else [])"
  have len: "length offs \<le> 2 ^ 32" "\<forall>off\<in>set offs. off < 2 ^ 64" using assms(1) by (auto simp: index_holds_def)
  have "take m (index_image 0 offs) = take (12 * (m div 12)) (index_image 0 offs) @ take (m mod 12) (drop (12 * (m div 12)) (index_image 0 offs))"
    by (metis mult_div_mod_eq take_add)
  then have d: "f_data f = index_image 0 ?o @ t"
    using assms(2) by (auto simp: take_index_image t_def)
  have t: "length t < 12" by (auto simp: t_def min_def intro: le_less_trans)
  have l: "length ?o \<le> 2 ^ 32" using len(1) by simp
  have scan: "index_inspect_file f = \<lparr>is_status = (if t = [] then IndexComplete else IndexIncompleteTail),
     is_physical_size = 12 * length ?o + length t, is_valid_size = 12 * length ?o, is_entry_count = length ?o\<rparr>"
    unfolding index_inspect_file_def d by (rule index_inspect_image[OF l t]) simp
  have "\<exists>x'. index_truncate_to (index_open f) n = Inr x' \<and> index_holds x' (take n offs)" if "n \<le> ?k" for n
  proof -
    have n: "n \<le> m div 12" "n \<le> length offs" using that by simp_all
    then have "take (n * 12) (index_image 0 ?o @ t) = take (12 * n) (index_image 0 ?o)" by (simp add: mult.commute)
    also have "\<dots> = index_image 0 (take n offs)" using n by (simp add: take_index_image min_absorb1)
    finally have "take (n * 12) (index_image 0 ?o @ t) = index_image 0 (take n offs)" .
    then show ?thesis
      using n len d by (auto simp: index_truncate_to_def index_open_def scan index_holds_def truncate_file_def
          file_size_def ENTRY_SIZE_def Let_def dest: in_set_takeD)
  qed
  moreover have "index_read (index_open f) (of_nat i) = Inr (of_nat (offs ! i))" if "i < ?k" for i
    using index_read_prefix[of "index_open f" ?o t i] that l d by (simp add: index_open_def scan Let_def)
  ultimately show ?thesis
    using scan d len by (auto simp: index_open_def index_holds_def Let_def min_def dest: in_set_takeD)
qed

section \<open>Properties\<close>

text \<open>An append to the record file is all or nothing, whatever write, roll-back or
  inspection fails.  It either adds exactly the new record, readable at the offset returned, or throws and
  leaves a file whose repair holds exactly the old records; until that repair, when the roll-back did not
  already restore them, every further append is refused.\<close>

theorem store_append_atomic:
  assumes "store_holds s rs" "small r"
  shows "case store_append fl s r of
      (Inr off, s') \<Rightarrow> store_holds s' (rs @ [r]) \<and> store_read s' off = Inr r
    | (Inl e, s') \<Rightarrow> store_holds (store_repair_tail s') rs \<and>
        (store_holds s' rs \<or> (\<forall>fl' r'. \<exists>e'. store_append fl' s' r' = (Inl e', s')))"
  using store_append_faulty[OF assms, of fl]
proof (elim disjE exE conjE)
  fix s' assume "store_append fl s r = (Inr (length (frames rs)), s')" "store_holds s' (rs @ [r])"
  then show ?thesis using store_read_holds(1)[of s' "rs @ [r]" "length rs"] by simp
next
  fix t let ?s = "s\<lparr>st_file := (st_file s)\<lparr>f_data := frames rs @ t\<rparr>\<rparr>"
  assume "torn t" "store_append fl s r = (Inl Runtime_error, store_rollback fl ?s (length (frames rs)))"
  moreover from \<open>torn t\<close> have "store_holds (store_repair_tail (store_rollback fl ?s (length (frames rs)))) rs"
    "store_holds (store_rollback fl ?s (length (frames rs))) rs \<or>
     ss_status (st_scan (store_rollback fl ?s (length (frames rs)))) = StoreIncompleteTail"
    using rollback_repairs[of ?s rs t fl] assms(1) by (auto simp: store_holds_def)
  moreover have "\<exists>e'. store_append fl' s' r' = (Inl e', s')" if "ss_status (st_scan s') = StoreIncompleteTail" for fl' s' r'
    using that by (simp add: store_append_def)
  ultimately show ?thesis by auto
qed

definition empty_file :: disk_file where
  "empty_file = \<lparr>f_data = [], f_durable = 0\<rparr>"

lemma store_open_empty: "store_holds (store_open empty_file) []"
  using store_open_split(1)[of empty_file "[]" "[]"] by (simp add: empty_file_def)

theorem store_append_atomic_witness:
  "case store_append \<lparr>io_write = Some 5, io_truncate = True, io_inspect = False\<rparr> (store_open empty_file) [1, 2, 3] of
      (Inr off, s') \<Rightarrow> False
    | (Inl e, s') \<Rightarrow> store_holds (store_repair_tail s') [] \<and> f_data (st_file s') = [0, 0, 0, 3, 1]"
proof -
  have e: "store_append \<lparr>io_write = Some 5, io_truncate = True, io_inspect = False\<rparr> (store_open empty_file) [1, 2, 3] =
    (Inl Runtime_error, s') \<Longrightarrow> f_data (st_file s') = [0, 0, 0, 3, 1]" for s'
    using store_open_empty by (auto simp: store_append_def store_holds_def scan_of_def write_exact_at_def overwrite_def
        store_rollback_def fresh_be32 be32_def RECORD_LENGTH_SIZE_def Let_def)
  have "fst (store_append \<lparr>io_write = Some 5, io_truncate = True, io_inspect = False\<rparr> (store_open empty_file) [1, 2, 3]) =
    Inl Runtime_error"
    using store_open_empty by (simp add: store_append_def store_holds_def scan_of_def write_exact_at_def
        fresh_be32 Let_def)
  then show ?thesis
    using store_append_atomic[OF store_open_empty, of "[1, 2, 3]" "\<lparr>io_write = Some 5, io_truncate = True, io_inspect = False\<rparr>"] e
    by (auto simp: small_def split: prod.splits sum.splits)
qed

end
