(* ===== verification/Segment.thy ===== *)
theory Segment
  imports LogStore
begin

text \<open>
  One segment of a log: an authoritative store and the index derived from it, after
  \<open>src/src/Log/Segment.cpp\<close> and \<open>src/include/Log/Config.h\<close>.  The write-ahead log and the Raft log use
  the same code with different record codecs (\<open>src/src/Raft/RaftSegment.cpp\<close>), so the
  operations take the encoder, the decoder and the number of a record as arguments.  The contract of a
  codec is the locale \<open>record_codec\<close>; inside it a segment is shown to hold a list of records
  under append, read, scan and truncation, and to recover a prefix of it from any cut of its two files.
\<close>

record Config =
  max_index_bytes :: nat
  max_store_bytes :: nat
  initial_lsn :: u64

definition config_validate :: "Config \<Rightarrow> unit res" where
  "config_validate c =
     (if max_index_bytes c = 0 \<or> max_index_bytes c mod ENTRY_SIZE \<noteq> 0 then Inl Invalid_argument
      else if max_store_bytes c = 0 then Inl Invalid_argument
      else if initial_lsn c = 0 then Inl Invalid_argument
      else Inr ())"

record Segment =
  sg_config :: Config
  sg_base :: u64
  sg_next :: u64
  sg_recovery_required :: bool
  sg_store :: Store
  sg_index :: Index

definition segment_append ::
  "('r \<Rightarrow> bytes res) \<Rightarrow> ('r \<Rightarrow> u64) \<Rightarrow> io_faults \<Rightarrow> io_faults \<Rightarrow> Segment \<Rightarrow> 'r \<Rightarrow> unit res \<times> Segment" where
  "segment_append enc num fs fx seg r =
     (if sg_recovery_required seg then (Inl Runtime_error, seg)
      else if num r \<noteq> sg_next seg then (Inl Invalid_argument, seg)
      else
        let relative = num r - sg_base seg
        in if unat relative > 2 ^ 32 - 1 then (Inl Length_error, seg)
           else
             (case enc r of
                Inl e \<Rightarrow> (Inl e, seg)
              | Inr encoded \<Rightarrow>
                  (case store_append fs (sg_store seg) encoded of
                     (Inl e, st) \<Rightarrow> (Inl e, seg\<lparr>sg_store := st, sg_recovery_required := True\<rparr>)
                   | (Inr off, st) \<Rightarrow>
                       (case index_append fx (sg_index seg) (ucast relative) (of_nat off) of
                          (Inl e, ix) \<Rightarrow>
                            (Inl e, seg\<lparr>sg_store := st, sg_index := ix, sg_recovery_required := True\<rparr>)
                        | (Inr _, ix) \<Rightarrow>
                            (Inr (), seg\<lparr>sg_store := st, sg_index := ix, sg_next := sg_next seg + 1\<rparr>)))))"

definition segment_read :: "(bytes \<Rightarrow> 'r res) \<Rightarrow> ('r \<Rightarrow> u64) \<Rightarrow> Segment \<Rightarrow> u64 \<Rightarrow> 'r res" where
  "segment_read dec num seg n =
     (if n < sg_base seg \<or> n \<ge> sg_next seg then Inl Out_of_range
      else
        res_bind (index_read (sg_index seg) (ucast (n - sg_base seg))) (\<lambda>off.
        res_bind (store_read (sg_store seg) (unat off)) (\<lambda>encoded.
        res_bind (dec encoded) (\<lambda>r.
          if num r \<noteq> n then Inl Runtime_error else Inr r))))"

function segment_scan_loop ::
  "(bytes \<Rightarrow> 'r res) \<Rightarrow> ('r \<Rightarrow> u64) \<Rightarrow> Store \<Rightarrow> nat \<Rightarrow> u64 \<Rightarrow> 'r list res" where
  "segment_scan_loop dec num st off expected =
     (if off < ss_valid_size (st_scan st) then
        (case store_read st off of
           Inl e \<Rightarrow> Inl e
         | Inr encoded \<Rightarrow>
             (case dec encoded of
                Inl e \<Rightarrow> Inl e
              | Inr r \<Rightarrow>
                  if num r \<noteq> expected then Inl Runtime_error
                  else
                    (case segment_scan_loop dec num st (off + RECORD_LENGTH_SIZE + length encoded) (expected + 1) of
                       Inl e \<Rightarrow> Inl e
                     | Inr rs \<Rightarrow> Inr (r # rs))))
      else Inr [])"
  by pat_completeness auto
termination
  by (relation "measure (\<lambda>(dec, num, st, off, expected). ss_valid_size (st_scan st) - off)")
    (auto simp: RECORD_LENGTH_SIZE_def)

declare segment_scan_loop.simps [simp del]

definition segment_scan :: "(bytes \<Rightarrow> 'r res) \<Rightarrow> ('r \<Rightarrow> u64) \<Rightarrow> Segment \<Rightarrow> 'r list res" where
  "segment_scan dec num seg = segment_scan_loop dec num (sg_store seg) 0 (sg_base seg)"

definition segment_sync :: "Segment \<Rightarrow> Segment res" where
  "segment_sync seg =
     (if sg_recovery_required seg then Inl Runtime_error
      else Inr (seg\<lparr>sg_store := store_sync (sg_store seg), sg_index := index_sync (sg_index seg)\<rparr>))"

definition segment_is_maxed :: "Segment \<Rightarrow> bool" where
  "segment_is_maxed seg =
     (st_size (sg_store seg) > max_store_bytes (sg_config seg) \<or> ix_size (sg_index seg) > max_index_bytes (sg_config seg))"

section \<open>Recovery\<close>

text \<open>Phase 3 of \<open>recover\<close>: the offsets of the store records the index lacks, and the record
  number the walk ends at.\<close>

function recover_missing ::
  "(bytes \<Rightarrow> 'r res) \<Rightarrow> ('r \<Rightarrow> u64) \<Rightarrow> u64 \<Rightarrow> Store \<Rightarrow> nat \<Rightarrow> nat \<Rightarrow> (nat list \<times> nat) res" where
  "recover_missing dec num base st cursor relative =
     (if cursor < ss_valid_size (st_scan st) then
        (case store_read st cursor of
           Inl e \<Rightarrow> Inl e
         | Inr encoded \<Rightarrow>
             (case dec encoded of
                Inl e \<Rightarrow> Inl e
              | Inr r \<Rightarrow>
                  if num r \<noteq> base + of_nat relative then Inl Runtime_error
                  else if relative > 2 ^ 32 - 1 then Inl Length_error
                  else
                    (case recover_missing dec num base st (cursor + RECORD_LENGTH_SIZE + length encoded) (relative + 1) of
                       Inl e \<Rightarrow> Inl e
                     | Inr (offs, n) \<Rightarrow> Inr (cursor # offs, n))))
      else Inr ([], relative))"
  by pat_completeness auto
termination
  by (relation "measure (\<lambda>(dec, num, base, st, cursor, relative). ss_valid_size (st_scan st) - cursor)")
    (auto simp: RECORD_LENGTH_SIZE_def)

declare recover_missing.simps [simp del]

text \<open>Phase 2: where the store suffix behind the common prefix begins.\<close>

definition recover_boundary ::
  "(bytes \<Rightarrow> 'r res) \<Rightarrow> ('r \<Rightarrow> u64) \<Rightarrow> u64 \<Rightarrow> Store \<Rightarrow> Index \<Rightarrow> nat \<Rightarrow> nat res" where
  "recover_boundary dec num base st ix common =
     (if common > 0 then
        res_bind (index_read ix (of_nat (common - 1))) (\<lambda>off.
        res_bind (store_read st (unat off)) (\<lambda>encoded.
        res_bind (dec encoded) (\<lambda>r.
          let next_off = unat off + RECORD_LENGTH_SIZE + length encoded
          in if num r \<noteq> base + of_nat (common - 1) \<or> next_off > ss_valid_size (st_scan st) then Inl Runtime_error
             else Inr next_off)))
      else Inr 0)"

text \<open>The loop of phase 4 that writes the missing entries.\<close>

fun recover_append :: "Index \<Rightarrow> nat \<Rightarrow> nat list \<Rightarrow> Index res" where
  "recover_append ix n [] = Inr ix"
| "recover_append ix n (off # offs) =
     (case index_append no_faults ix (of_nat n) (of_nat off) of
        (Inl e, _) \<Rightarrow> Inl e
      | (Inr _, ix) \<Rightarrow> recover_append ix (n + 1) offs)"

text \<open>Phases 2 to 5, on the repaired store.\<close>

definition recover_reconcile ::
  "(bytes \<Rightarrow> 'r res) \<Rightarrow> ('r \<Rightarrow> u64) \<Rightarrow> Segment \<Rightarrow> Store \<Rightarrow> bool \<Rightarrow> Segment res" where
  "recover_reconcile dec num seg st store_changed =
     (let ix = sg_index seg
      in if is_status (ix_scan ix) = IndexCorrupt then Inl Runtime_error
         else
           let common = min (is_entry_count (ix_scan ix)) (ss_record_count (st_scan st))
           in res_bind (recover_boundary dec num (sg_base seg) st ix common) (\<lambda>suffix.
              res_bind (recover_missing dec num (sg_base seg) st suffix common) (\<lambda>(missing, relative).
                if relative \<noteq> ss_record_count (st_scan st) then Inl Runtime_error
                else
                  let needs_truncation = (is_status (ix_scan ix) \<noteq> IndexComplete \<or> is_entry_count (ix_scan ix) \<noteq> common)
                  in res_bind (if needs_truncation then index_truncate_to ix common else Inr ix) (\<lambda>ix.
                     res_bind (recover_append ix common missing) (\<lambda>ix.
                       let index_changed = (needs_truncation \<or> missing \<noteq> [])
                       in Inr (seg\<lparr>sg_store := (if store_changed \<or> index_changed then store_sync st else st),
                                   sg_index := (if index_changed then index_sync ix else ix),
                                   sg_next := sg_base seg + of_nat (ss_record_count (st_scan st)),
                                   sg_recovery_required := False\<rparr>))))))"

definition segment_recover :: "(bytes \<Rightarrow> 'r res) \<Rightarrow> ('r \<Rightarrow> u64) \<Rightarrow> Segment \<Rightarrow> Segment res" where
  "segment_recover dec num seg =
     (let store_changed = (ss_status (st_scan (sg_store seg)) = StoreIncompleteTail);
          st = (if store_changed then store_repair_tail (sg_store seg) else sg_store seg)
      in recover_reconcile dec num seg st store_changed)"

definition segment_open ::
  "(bytes \<Rightarrow> 'r res) \<Rightarrow> ('r \<Rightarrow> u64) \<Rightarrow> u64 \<Rightarrow> disk_file \<Rightarrow> disk_file \<Rightarrow> Config \<Rightarrow> Segment res" where
  "segment_open dec num base store_fd index_fd config =
     (let seg = \<lparr>sg_config = config, sg_base = base, sg_next = base, sg_recovery_required = False,
                 sg_store = store_open store_fd, sg_index = index_open index_fd\<rparr>
      in res_bind (config_validate config) (\<lambda>_.
         if base = 0 then Inl Invalid_argument else segment_recover dec num seg))"

text \<open>\<open>RaftSegment::truncate_suffix\<close>: the store is cut before the index.\<close>

definition segment_truncate_suffix :: "Segment \<Rightarrow> u64 \<Rightarrow> unit res \<times> Segment" where
  "segment_truncate_suffix seg from_index =
     (if sg_recovery_required seg then (Inl Runtime_error, seg)
      else if from_index < sg_base seg \<or> from_index > sg_next seg then (Inl Out_of_range, seg)
      else if from_index = sg_next seg then (Inr (), seg)
      else
        let retained = unat (from_index - sg_base seg)
        in case store_truncate_to (sg_store seg) retained of
             Inl e \<Rightarrow> (Inl e, seg\<lparr>sg_recovery_required := True\<rparr>)
           | Inr st \<Rightarrow>
               (case index_truncate_to (sg_index seg) retained of
                  Inl e \<Rightarrow> (Inl e, seg\<lparr>sg_store := st, sg_recovery_required := True\<rparr>)
                | Inr ix \<Rightarrow> (Inr (), seg\<lparr>sg_store := st, sg_index := ix, sg_next := from_index\<rparr>)))"

section \<open>Segments hold lists of records\<close>

definition offsets :: "bytes list \<Rightarrow> nat list" where
  "offsets bs = map (\<lambda>i. length (frames (take i bs))) [0..<length bs]"

lemma length_offsets [simp]: "length (offsets bs) = length bs"
  by (simp add: offsets_def)

lemma offsets_nth: "i < length bs \<Longrightarrow> offsets bs ! i = length (frames (take i bs))"
  by (simp add: offsets_def)

lemma offsets_snoc: "offsets (bs @ [b]) = offsets bs @ [length (frames bs)]"
  by (rule nth_equalityI) (auto simp: offsets_nth nth_append less_Suc_eq)

lemma take_offsets: "take k (offsets bs) = offsets (take k bs)"
proof (rule nth_equalityI)
  fix i assume "i < length (take k (offsets bs))"
  then show "take k (offsets bs) ! i = offsets (take k bs) ! i"
    by (simp add: offsets_nth min_absorb1)
qed simp

lemma length_frames_take: "length (frames (take i bs)) \<le> length (frames bs)"
  by (metis append_take_drop_id frames_simps(3) le_add1 length_append)

lemma offsets_bound: "length (frames bs) < 2 ^ 64 \<Longrightarrow> \<forall>off\<in>set (offsets bs). off < 2 ^ 64"
  using length_frames_take[of _ bs] by (auto simp: offsets_def intro: le_less_trans)

definition encodings :: "('r \<Rightarrow> bytes res) \<Rightarrow> 'r list \<Rightarrow> bytes list \<Rightarrow> bool" where
  "encodings enc rs bs = (map enc rs = map Inr bs)"

lemma encodings_nth:
  assumes "encodings enc rs bs"
  shows "length rs = length bs" "i < length bs \<Longrightarrow> enc (rs ! i) = Inr (bs ! i)"
proof -
  have m: "map enc rs = map Inr bs" using assms by (simp add: encodings_def)
  then show l: "length rs = length bs" by (metis length_map)
  show "enc (rs ! i) = Inr (bs ! i)" if "i < length bs"
    using m that l by (metis nth_map)
qed

lemma encodings_simps [simp]:
  "encodings enc [] bs = (bs = [])" "encodings enc (rs @ [r]) (bs @ [b]) = (encodings enc rs bs \<and> enc r = Inr b)"
  by (simp_all add: encodings_def)

lemma encodings_take: "encodings enc rs bs \<Longrightarrow> encodings enc (take k rs) (take k bs)"
  by (simp add: encodings_def flip: take_map)

text \<open>Record \<open>i\<close> of the segment with base \<open>b\<close> carries the number \<open>b + i\<close>.\<close>

definition numbered :: "('r \<Rightarrow> u64) \<Rightarrow> u64 \<Rightarrow> 'r list \<Rightarrow> bool" where
  "numbered num base rs = (\<forall>i < length rs. num (rs ! i) = base + of_nat i)"

definition segment_fits :: "u64 \<Rightarrow> bytes list \<Rightarrow> bool" where
  "segment_fits base bs = (base \<noteq> 0 \<and> length bs \<le> 2 ^ 32 \<and> unat base + length bs < 2 ^ 64 \<and>
     length (frames bs) < 2 ^ 64 \<and> (\<forall>b\<in>set bs. small b))"

definition segment_holds ::
  "('r \<Rightarrow> bytes res) \<Rightarrow> ('r \<Rightarrow> u64) \<Rightarrow> Segment \<Rightarrow> 'r list \<Rightarrow> bytes list \<Rightarrow> bool" where
  "segment_holds enc num seg rs bs = (encodings enc rs bs \<and> numbered num (sg_base seg) rs \<and>
     segment_fits (sg_base seg) bs \<and> store_holds (sg_store seg) bs \<and> index_holds (sg_index seg) (offsets bs) \<and>
     sg_next seg = sg_base seg + of_nat (length rs) \<and> \<not> sg_recovery_required seg)"

lemma segment_fits_take: "segment_fits base bs \<Longrightarrow> segment_fits base (take k bs)"
  using length_frames_take[of k bs] by (auto simp: segment_fits_def dest: in_set_takeD)

lemma numbered_take: "numbered num base rs \<Longrightarrow> numbered num base (take k rs)"
  by (simp add: numbered_def)

lemma relative_number:
  assumes "segment_fits base bs" "i \<le> length bs"
  shows "unat (base + of_nat i) = unat base + i" "unat ((base + of_nat i) - base) = i"
    "i < 2 ^ 32 \<Longrightarrow> (ucast ((base + of_nat i) - base) :: u32) = of_nat i"
proof -
  have u: "unat (of_nat i :: u64) = i" using assms by (intro unat_of_nat_lt) (simp add: segment_fits_def)
  have "unat base + unat (of_nat i :: u64) < 2 ^ LENGTH(64)" using assms u by (simp add: segment_fits_def)
  then have "unat (base + of_nat i) = unat base + unat (of_nat i :: u64)" by (rule unat_add_lem[THEN iffD1])
  then show "unat (base + of_nat i) = unat base + i" using u by simp
  show "unat ((base + of_nat i) - base) = i" using u by simp
  show "i < 2 ^ 32 \<Longrightarrow> (ucast ((base + of_nat i) - base) :: u32) = of_nat i"
    by (simp add: unsigned_of_nat take_bit_nat_eq_self)
qed

lemma in_segment:
  assumes "segment_fits base bs" "i \<le> length bs" "j \<le> length bs"
  shows "(base + of_nat i < base + of_nat j) = (i < j)" "(base + of_nat i = base + of_nat j) = (i = j)"
  using relative_number(1)[OF assms(1,2)] relative_number(1)[OF assms(1,3)]
  by (auto simp: word_less_nat_alt word_unat_eq_iff)

text \<open>Whatever fails during an append, each file is left as a cut of what a successful append would
  have written.\<close>

lemma write_end_cut:
  "\<exists>k. f_data (snd (write_exact_at fault f buf (length (f_data f)))) = f_data f @ take k buf \<and>
     (fst (write_exact_at fault f buf (length (f_data f))) = Inr () \<longrightarrow> take k buf = buf)"
proof (cases "case fault of None \<Rightarrow> True | Some k \<Rightarrow> length buf \<le> k")
  case True
  then show ?thesis
    by (intro exI[of _ "length buf"]) (auto simp: write_exact_at_def overwrite_end split: option.splits)
next
  case False
  then obtain k where "fault = Some k" "\<not> length buf \<le> k" by (auto split: option.splits)
  then show ?thesis by (intro exI[of _ k]) (simp add: write_exact_at_def overwrite_end)
qed

lemma truncate_back:
  "f_data f = d @ x \<Longrightarrow> f_data (truncate_file f (length d)) = d"
  by (simp add: truncate_file_def)

lemma store_rollback_cut:
  assumes "f_data (st_file s) = d @ take k x"
  shows "\<exists>k. f_data (st_file (store_rollback fl s (length d))) = d @ take k x"
  using assms truncate_back[OF assms]
  by (cases "io_truncate fl"; cases "io_inspect fl")
    (auto simp: store_rollback_def Let_def intro: exI[of _ 0] exI[of _ k])

lemma index_rollback_cut:
  assumes "f_data (ix_file s) = d @ take k x"
  shows "\<exists>k. f_data (ix_file (index_rollback fl s (length d))) = d @ take k x"
  using assms truncate_back[OF assms]
  by (cases "io_truncate fl"; cases "io_inspect fl")
    (auto simp: index_rollback_def Let_def intro: exI[of _ 0] exI[of _ k])

lemma index_append_cut:
  assumes "index_holds x offs"
  shows "\<exists>k. f_data (ix_file (snd (index_append fl x i off))) = index_image 0 offs @ take k (be32 i @ be64 off)"
proof -
  let ?e = "be32 i @ be64 off"
  obtain rw f where w: "write_exact_at (io_write fl) (ix_file x) ?e (length (f_data (ix_file x))) = (rw, f)"
    by (cases "write_exact_at (io_write fl) (ix_file x) ?e (length (f_data (ix_file x)))")
  have d: "f_data (ix_file x) = index_image 0 offs" "ix_size x = length (index_image 0 offs)"
    "is_status (ix_scan x) = IndexComplete"
    using assms by (simp_all add: index_holds_def)
  obtain k where k: "f_data f = index_image 0 offs @ take k ?e"
    using write_end_cut[of "io_write fl" "ix_file x" ?e] w d(1) by auto
  then have r: "\<exists>k. f_data (ix_file (index_rollback fl (x\<lparr>ix_file := f\<rparr>) (length (index_image 0 offs)))) =
    index_image 0 offs @ take k ?e"
    by (intro index_rollback_cut[where k = k]) simp
  show ?thesis
  proof (cases rw)
    case (Inl e)
    then show ?thesis using r w d by (simp add: index_append_def fresh_entry Let_def)
  next
    case (Inr u)
    then show ?thesis using k w d by (auto simp: index_append_def fresh_entry Let_def)
  qed
qed

lemma store_append_cut:
  assumes "store_holds s rs" "small r"
  shows "\<exists>k. f_data (st_file (snd (store_append fl s r))) = frames rs @ take k (frame r)"
proof -
  let ?h = "be32 (of_nat (length r)) :: bytes"
  obtain rw f where w: "write_exact_at (io_write fl) (st_file s) ?h (length (f_data (st_file s))) = (rw, f)"
    by (cases "write_exact_at (io_write fl) (st_file s) ?h (length (f_data (st_file s)))")
  have d: "f_data (st_file s) = frames rs" "st_size s = length (frames rs)" "ss_status (st_scan s) = StoreComplete"
    using assms by (simp_all add: store_holds_def scan_of_def)
  obtain k where k: "f_data f = frames rs @ take k ?h" "rw = Inr () \<longrightarrow> take k ?h = ?h"
    using write_end_cut[of "io_write fl" "st_file s" ?h] w d(1) by auto
  have l: "\<not> length r > 2 ^ 32 - 1" using assms(2) by (simp add: small_def)
  have rb: "\<exists>k. f_data (st_file (store_rollback fl (s\<lparr>st_file := g\<rparr>) (length (frames rs)))) = frames rs @ take k (frame r)"
    if "f_data g = frames rs @ take j (frame r)" for g j
    using that by (intro store_rollback_cut[where k = j]) simp
  show ?thesis
  proof (cases rw)
    case (Inl e)
    have "take k ?h = take (min k 4) (frame r)" by (cases "k \<le> 4") (simp_all add: frame_def min_def)
    then show ?thesis using rb[of f "min k 4"] k(1) Inl w d l
      by (simp add: store_append_def fresh_be32 Let_def)
  next
    case (Inr u)
    let ?fl = "map_option (\<lambda>k. k - 4) (io_write fl)"
    have fd: "f_data f = frames rs @ ?h" using k Inr by simp
    obtain rw' g where w': "write_exact_at ?fl f r (length (f_data f)) = (rw', g)"
      by (cases "write_exact_at ?fl f r (length (f_data f))")
    obtain k' where k': "f_data g = frames rs @ ?h @ take k' r"
      using write_end_cut[of ?fl f r] w' fd by auto
    have t: "f_data g = frames rs @ take (4 + k') (frame r)" using k' by (simp add: frame_def)
    have o: "length (f_data f) = length (frames rs) + RECORD_LENGTH_SIZE" using fd by (simp add: RECORD_LENGTH_SIZE_def)
    show ?thesis using rb[OF t] t Inr w w' d l o
      by (cases rw') (auto simp: store_append_def fresh_be32 Let_def)
  qed
qed

lemma unat_plus_one: "unat (x :: u64) + 1 < 2 ^ 64 \<Longrightarrow> unat (x + 1) = unat x + 1"
  using unat_add_lem[of x 1] by simp

text \<open>Limits under which a segment that is not full has room for one more record.\<close>

definition roomy :: "Config \<Rightarrow> bool" where
  "roomy c = (config_validate c = Inr () \<and> max_index_bytes c \<le> 12 * (2 ^ 32 - 1) \<and> max_store_bytes c < 2 ^ 63)"

definition fresh_segment :: "Config \<Rightarrow> u64 \<Rightarrow> Segment" where
  "fresh_segment c base = \<lparr>sg_config = c, sg_base = base, sg_next = base, sg_recovery_required = False,
     sg_store = store_open empty_file, sg_index = index_open empty_file\<rparr>"

lemma open_empty_segment:
  assumes "config_validate c = Inr ()" "base \<noteq> 0"
  shows "segment_open dec num base empty_file empty_file c = Inr (fresh_segment c base)"
proof -
  have st: "st_scan (store_open empty_file) = scan_of []" "is_status (ix_scan (index_open empty_file)) = IndexComplete"
    "is_entry_count (ix_scan (index_open empty_file)) = 0"
    by code_simp+
  have "recover_missing dec num base (store_open empty_file) 0 0 = Inr ([], 0)"
    by (simp add: recover_missing.simps st(1) scan_of_def)
  then show ?thesis
    using assms by (simp add: segment_open_def segment_recover_def recover_reconcile_def st scan_of_def
        recover_boundary_def fresh_segment_def Let_def)
qed

lemma fresh_segment_holds:
  assumes "base \<noteq> 0"
  shows "segment_holds enc num (fresh_segment c base) [] []"
    "st_size (sg_store (fresh_segment c base)) = 0" "ix_size (sg_index (fresh_segment c base)) = 0"
    "sg_base (fresh_segment c base) = base" "sg_next (fresh_segment c base) = base"
    "sg_config (fresh_segment c base) = c"
proof -
  have u: "unat base < 2 ^ 64" using unat_bound[of base] by simp
  have "index_holds (index_open empty_file) []"
    by (simp add: index_holds_def) code_simp
  then show "segment_holds enc num (fresh_segment c base) [] []"
    using assms u store_open_empty
    by (simp add: segment_holds_def fresh_segment_def segment_fits_def numbered_def encodings_def offsets_def)
  show "st_size (sg_store (fresh_segment c base)) = 0" "ix_size (sg_index (fresh_segment c base)) = 0"
    by (simp_all add: fresh_segment_def) code_simp+
qed (simp_all add: fresh_segment_def)

lemma frames_inject:
  assumes "frames bs = frames cs" "\<forall>b\<in>set bs. small b" "\<forall>b\<in>set cs. small b"
  shows "bs = cs"
proof -
  have "torn []" by (simp add: torn_def)
  then show ?thesis using split_frames_unique[of bs "[]" cs "[]"] assms by simp
qed

text \<open>A run of segments, each starting where the one before it ends.\<close>

fun segment_chain ::
  "('r \<Rightarrow> bytes res) \<Rightarrow> ('r \<Rightarrow> u64) \<Rightarrow> u64 \<Rightarrow> Segment list \<Rightarrow> 'r list list \<Rightarrow> u64 \<Rightarrow> bool" where
  "segment_chain enc num b [] [] e = (b = e)"
| "segment_chain enc num b (s # ss) (rs # rss) e =
     (sg_base s = b \<and> (\<exists>bs. segment_holds enc num s rs bs) \<and> segment_chain enc num (sg_next s) ss rss e)"
| "segment_chain enc num b _ _ e = False"

definition roll :: "Config \<Rightarrow> u64 \<Rightarrow> Segment list \<Rightarrow> Segment list" where
  "roll c e ss = (if segment_is_maxed (last ss) then ss @ [fresh_segment c e] else ss)"

lemma chain_ConsE:
  assumes "segment_chain enc num b (s # ss) rss e"
  obtains rs q bs where "rss = rs # q" "sg_base s = b" "segment_holds enc num s rs bs" "segment_chain enc num (sg_next s) ss q e"
  using assms by (cases rss) auto

locale record_codec =
  fixes enc :: "'r \<Rightarrow> bytes res" and dec :: "bytes \<Rightarrow> 'r res" and num :: "'r \<Rightarrow> u64"
  assumes decode_encode: "enc r = Inr b \<Longrightarrow> dec b = Inr r"
begin

lemma append_holds:
  assumes h: "segment_holds enc num seg rs bs" and r: "num r = sg_next seg" "enc r = Inr b" "small b"
    and room: "segment_fits (sg_base seg) (bs @ [b])"
  shows "\<exists>seg'. segment_append enc num no_faults no_faults seg r = (Inr (), seg') \<and>
    segment_holds enc num seg' (rs @ [r]) (bs @ [b]) \<and> sg_base seg' = sg_base seg \<and> sg_config seg' = sg_config seg"
proof -
  have fits: "segment_fits (sg_base seg) bs" and e: "encodings enc rs bs"
    and st: "store_holds (sg_store seg) bs" and ix: "index_holds (sg_index seg) (offsets bs)"
    and n: "sg_next seg = sg_base seg + of_nat (length bs)" "\<not> sg_recovery_required seg"
    and num: "numbered num (sg_base seg) rs"
    using h encodings_nth(1) by (fastforce simp: segment_holds_def)+
  have small_len: "length bs < 2 ^ 32" "length (frames bs) < 2 ^ 64"
    using room by (auto simp: segment_fits_def)
  obtain st' where st': "store_append no_faults (sg_store seg) b = (Inr (length (frames bs)), st')" "store_holds st' (bs @ [b])"
    using rs.append_law[OF st r(3)] by blast
  obtain ix' where ix': "index_append no_faults (sg_index seg) (of_nat (length bs)) (of_nat (length (frames bs))) = (Inr (), ix')"
    "index_holds ix' (offsets (bs @ [b]))"
    using oi.append_law[OF ix, of "length (frames bs)"] small_len by (auto simp: offsets_snoc)
  have rel: "unat (num r - sg_base seg) = length bs" "(ucast (num r - sg_base seg) :: u32) = of_nat (length bs)"
    using relative_number(2,3)[OF fits order_refl] small_len r(1) n(1) by simp_all
  have "segment_append enc num no_faults no_faults seg r =
      (Inr (), seg\<lparr>sg_store := st', sg_index := ix', sg_next := sg_next seg + 1\<rparr>)"
    using n r st'(1) ix'(1) rel small_len by (simp add: segment_append_def Let_def)
  moreover have "numbered num (sg_base seg) (rs @ [r])"
    using num n(1) r(1) encodings_nth(1)[OF e] by (auto simp: numbered_def nth_append less_Suc_eq)
  ultimately show ?thesis
    using st'(2) ix'(2) e r room n encodings_nth(1)[OF e] by (simp add: segment_holds_def)
qed

lemma holds_nth:
  assumes "segment_holds enc num seg rs bs" "i < length rs"
  shows "i < length bs" "dec (bs ! i) = Inr (rs ! i)" "num (rs ! i) = sg_base seg + of_nat i"
    "store_read (sg_store seg) (length (frames (take i bs))) = Inr (bs ! i)"
  using assms encodings_nth[of enc rs bs] decode_encode rs.read_law[of "sg_store seg" bs i]
  by (auto simp: segment_holds_def numbered_def)

lemma locate_holds:
  assumes h: "segment_holds enc num seg rs bs" and i: "i < length rs"
  shows "index_read (sg_index seg) (ucast (sg_base seg + of_nat i - sg_base seg)) = Inr (of_nat (length (frames (take i bs))))"
    "unat (of_nat (length (frames (take i bs))) :: u64) = length (frames (take i bs))"
    "\<not> sg_base seg + of_nat i < sg_base seg" "\<not> sg_next seg \<le> sg_base seg + of_nat i" "i < length bs"
proof -
  have fits: "segment_fits (sg_base seg) bs" and ix: "index_holds (sg_index seg) (offsets bs)"
    and n: "sg_next seg = sg_base seg + of_nat (length bs)"
    using h encodings_nth(1) by (fastforce simp: segment_holds_def)+
  show ib: "i < length bs" using holds_nth(1)[OF h i] .
  then have small: "i < 2 ^ 32" using fits by (auto simp: segment_fits_def)
  show "unat (of_nat (length (frames (take i bs))) :: u64) = length (frames (take i bs))"
    using fits length_frames_take[of i bs] by (intro unat_of_nat_lt) (simp add: segment_fits_def)
  have "index_read (sg_index seg) (of_nat i) = Inr (of_nat (length (frames (take i bs))))"
    using oi.read_law[OF ix, of i] ib by (simp add: offsets_nth)
  then show "index_read (sg_index seg) (ucast (sg_base seg + of_nat i - sg_base seg)) = Inr (of_nat (length (frames (take i bs))))"
    using relative_number(3)[OF fits, of i] ib small by simp
  show "\<not> sg_base seg + of_nat i < sg_base seg" "\<not> sg_next seg \<le> sg_base seg + of_nat i"
    using in_segment(1)[OF fits, of i 0] in_segment(1)[OF fits, of i "length bs"] ib n by (simp_all add: not_le)
qed

lemma read_holds:
  assumes h: "segment_holds enc num seg rs bs" and i: "i < length rs"
  shows "segment_read dec num seg (sg_base seg + of_nat i) = Inr (rs ! i)"
  using locate_holds[OF h i] holds_nth[OF h i] by (simp add: segment_read_def)

lemma scan_loop_holds:
  assumes h: "segment_holds enc num seg rs bs" and "i \<le> length rs"
  shows "segment_scan_loop dec num (sg_store seg) (length (frames (take i bs))) (sg_base seg + of_nat i) = Inr (drop i rs)"
  using assms(2)
proof (induction "length rs - i" arbitrary: i)
  case 0
  then have "i = length bs" using h encodings_nth(1) by (auto simp: segment_holds_def)
  moreover have "ss_valid_size (st_scan (sg_store seg)) = length (frames bs)"
    using h by (simp add: segment_holds_def store_holds_def scan_of_def)
  ultimately show ?case using 0 by (subst segment_scan_loop.simps) simp
next
  case (Suc n)
  then have i: "i < length rs" "n = length rs - Suc i" by auto
  note nth = holds_nth[OF h i(1)]
  have t: "frames (take (Suc i) bs) = frames (take i bs) @ frame (bs ! i)"
    using nth(1) by (simp add: take_Suc_conv_app_nth)
  then have "length (frames (take i bs)) < length (frames bs)" using length_frames_take[of "Suc i" bs] by simp
  then have "length (frames (take i bs)) < ss_valid_size (st_scan (sg_store seg))"
    using h by (simp add: segment_holds_def store_holds_def scan_of_def)
  moreover have "drop i rs = rs ! i # drop (Suc i) rs" using i(1) by (simp add: Cons_nth_drop_Suc)
  ultimately show ?case
    using nth Suc.hyps(1)[OF i(2)] i(1) t
    by (subst segment_scan_loop.simps) (simp add: RECORD_LENGTH_SIZE_def ac_simps)
qed

lemma scan_holds: "segment_holds enc num seg rs bs \<Longrightarrow> segment_scan dec num seg = Inr rs"
  using scan_loop_holds[of seg rs bs 0] by (simp add: segment_scan_def)

lemma truncate_holds:
  assumes h: "segment_holds enc num seg rs bs" and k: "k \<le> length rs"
  shows "\<exists>seg'. segment_truncate_suffix seg (sg_base seg + of_nat k) = (Inr (), seg') \<and>
    segment_holds enc num seg' (take k rs) (take k bs) \<and> sg_base seg' = sg_base seg \<and> sg_config seg' = sg_config seg"
proof -
  have fits: "segment_fits (sg_base seg) bs" and e: "encodings enc rs bs"
    and st: "store_holds (sg_store seg) bs" and ix: "index_holds (sg_index seg) (offsets bs)"
    and n: "sg_next seg = sg_base seg + of_nat (length bs)" "\<not> sg_recovery_required seg"
    and num: "numbered num (sg_base seg) rs"
    using h encodings_nth(1) by (fastforce simp: segment_holds_def)+
  have kb: "k \<le> length bs" using k encodings_nth(1)[OF e] by simp
  obtain st' where st': "store_truncate_to (sg_store seg) k = Inr st'" "store_holds st' (take k bs)"
    using rs.truncate_law[OF st kb] by blast
  obtain ix' where ix': "index_truncate_to (sg_index seg) k = Inr ix'" "index_holds ix' (offsets (take k bs))"
    using oi.truncate_law[OF ix, of k] kb by (auto simp: take_offsets)
  have range: "\<not> sg_base seg + of_nat k < sg_base seg" "\<not> sg_base seg + of_nat k > sg_next seg"
    "(sg_base seg + of_nat k = sg_next seg) = (k = length bs)"
    using in_segment[OF fits, of k 0] in_segment[OF fits, of "length bs" k] in_segment[OF fits, of k "length bs"] kb n by auto
  show ?thesis
  proof (cases "k = length bs")
    case True
    then have "segment_truncate_suffix seg (sg_base seg + of_nat k) = (Inr (), seg)"
      using n range by (simp add: segment_truncate_suffix_def)
    then show ?thesis using h True encodings_nth(1)[OF e] by simp
  next
    case False
    then have "segment_truncate_suffix seg (sg_base seg + of_nat k) =
        (Inr (), seg\<lparr>sg_store := st', sg_index := ix', sg_next := sg_base seg + of_nat k\<rparr>)"
      using n range st'(1) ix'(1) relative_number(2)[OF fits kb] by (simp add: segment_truncate_suffix_def Let_def)
    then show ?thesis
      using st'(2) ix'(2) n k encodings_take[OF e, of k] segment_fits_take[OF fits, of k] numbered_take[OF num, of k]
      by (simp add: segment_holds_def min_def)
  qed
qed

lemma missing_holds:
  assumes st: "store_holds st bs" and e: "encodings enc rs bs" and n: "numbered num base rs"
    and len: "length bs \<le> 2 ^ 32" and "i \<le> length bs"
  shows "recover_missing dec num base st (length (frames (take i bs))) i = Inr (drop i (offsets bs), length bs)"
  using assms(5)
proof (induction "length bs - i" arbitrary: i)
  case 0
  then have "i = length bs" by simp
  then show ?case using st by (subst recover_missing.simps) (simp add: store_holds_def scan_of_def)
next
  case (Suc m)
  then have i: "i < length bs" "m = length bs - Suc i" by auto
  have r: "store_read st (length (frames (take i bs))) = Inr (bs ! i)" "dec (bs ! i) = Inr (rs ! i)"
    "num (rs ! i) = base + of_nat i"
    using rs.read_law[OF st i(1)] decode_encode encodings_nth[OF e] n i(1) by (auto simp: numbered_def)
  have t: "frames (take (Suc i) bs) = frames (take i bs) @ frame (bs ! i)"
    using i(1) by (simp add: take_Suc_conv_app_nth)
  then have "length (frames (take i bs)) < ss_valid_size (st_scan st)"
    using st length_frames_take[of "Suc i" bs] by (simp add: store_holds_def scan_of_def)
  moreover have "drop i (offsets bs) = length (frames (take i bs)) # drop (Suc i) (offsets bs)"
    using i(1) by (simp add: offsets_nth flip: Cons_nth_drop_Suc)
  ultimately show ?case
    using r Suc.hyps(1)[OF i(2)] i(1) t len
    by (subst recover_missing.simps) (simp add: RECORD_LENGTH_SIZE_def ac_simps)
qed

lemma boundary_holds:
  assumes st: "store_holds st (take k bs)" and e: "encodings enc rs bs" and n: "numbered num base rs"
    and len: "length (frames bs) < 2 ^ 64"
    and ix: "\<And>i. i < c \<Longrightarrow> index_read ix (of_nat i) = Inr (of_nat (offsets bs ! i))"
    and c: "c \<le> k" "k \<le> length bs"
  shows "recover_boundary dec num base st ix c = Inr (length (frames (take c bs)))"
proof (cases c)
  case 0
  then show ?thesis by (simp add: recover_boundary_def)
next
  case (Suc j)
  have j: "j < length bs" "j < length (take k bs)" using Suc c by simp_all
  have tk: "take j (take k bs) = take j bs" "take k bs ! j = bs ! j" using j by (simp_all add: min_absorb1)
  have "store_read st (length (frames (take j bs))) = Inr (bs ! j)" using rs.read_law[OF st j(2)] tk by simp
  moreover have "dec (bs ! j) = Inr (rs ! j)" "num (rs ! j) = base + of_nat j"
    using decode_encode encodings_nth[OF e] n j(1) by (auto simp: numbered_def)
  moreover have "unat (of_nat (length (frames (take j bs))) :: u64) = length (frames (take j bs))"
    using len length_frames_take[of j bs] by (intro unat_of_nat_lt) simp
  moreover have "frames (take (Suc j) bs) = frames (take j bs) @ frame (bs ! j)"
    using j(1) by (simp add: take_Suc_conv_app_nth)
  moreover have "length (frames (take (Suc j) bs)) \<le> ss_valid_size (st_scan st)"
    using st length_frames_take[of "Suc j" "take k bs"] Suc c by (simp add: store_holds_def scan_of_def min_absorb1)
  ultimately show ?thesis
    using ix[of j] Suc j by (simp add: recover_boundary_def offsets_nth RECORD_LENGTH_SIZE_def Let_def add.assoc)
qed

lemma recover_append_holds:
  assumes "index_holds ix offs" "length offs + length extra \<le> 2 ^ 32" "\<forall>off\<in>set extra. off < 2 ^ 64"
  shows "\<exists>ix'. recover_append ix (length offs) extra = Inr ix' \<and> index_holds ix' (offs @ extra)"
  using assms
proof (induction extra arbitrary: ix offs)
  case (Cons off extra)
  obtain ix1 where ix1: "index_append no_faults ix (of_nat (length offs)) (of_nat off) = (Inr (), ix1)" "index_holds ix1 (offs @ [off])"
    using oi.append_law[OF Cons.prems(1), of off] Cons.prems by auto
  then show ?case using Cons.IH[OF ix1(2)] Cons.prems by auto
qed simp

lemma sync_holds [simp]:
  "store_holds (store_sync st) bs = store_holds st bs" "index_holds (index_sync ix) offs = index_holds ix offs"
  by (simp_all add: store_holds_def index_holds_def store_sync_def index_sync_def sync_file_to_disk_fd_def)

text \<open>Recovery from any cut of the two files: the store decides how many records survive, and the
  index is brought into line with it.\<close>

lemma open_cut:
  assumes h: "segment_holds enc num seg rs bs" and cfg: "config_validate cfg = Inr ()"
    and sf: "f_data sf = take n (frames bs)" and xf: "f_data xf = take m (index_image 0 (offsets bs))"
  shows "\<exists>k seg'. segment_open dec num (sg_base seg) sf xf cfg = Inr seg' \<and> k \<le> length rs \<and>
    segment_holds enc num seg' (take k rs) (take k bs) \<and> sg_base seg' = sg_base seg \<and> sg_config seg' = cfg \<and>
    length (frames (take k bs)) \<le> n \<and> (\<forall>j \<le> length rs. length (frames (take j bs)) \<le> n \<longrightarrow> j \<le> k)"
proof -
  let ?b = "sg_base seg"
  have fits: "segment_fits ?b bs" and e: "encodings enc rs bs" and num: "numbered num ?b rs"
    and ix: "index_holds (sg_index seg) (offsets bs)" and len: "length rs = length bs"
    using h encodings_nth(1) by (fastforce simp: segment_holds_def)+
  have lim: "length bs \<le> 2 ^ 32" "length (frames bs) < 2 ^ 64" "?b \<noteq> 0" "\<forall>b\<in>set bs. small b"
    using fits by (auto simp: segment_fits_def)
  obtain k t where k: "take n (frames bs) = frames (take k bs) @ t" "torn t" "k \<le> length bs"
    "\<forall>j \<le> length bs. length (frames (take j bs)) \<le> n \<longrightarrow> j \<le> k"
    using take_frames[OF lim(4), of n] by blast
  have small: "\<forall>r\<in>set (take k bs). small r" using lim(4) by (auto dest: in_set_takeD)
  define st where "st = (if ss_status (st_scan (store_open sf)) = StoreIncompleteTail
    then store_repair_tail (store_open sf) else store_open sf)"
  have st: "store_holds st (take k bs)"
    using store_open_split[OF sf[unfolded k(1)] k(2) small] by (cases "t = []") (auto simp: st_def store_holds_def scan_of_def)
  define c0 where "c0 = min (m div 12) (length bs)"
  note cut = index_open_cut[OF ix xf, simplified length_offsets]
  have c0: "is_status (ix_scan (index_open xf)) \<noteq> IndexCorrupt" "is_entry_count (ix_scan (index_open xf)) = c0"
    "is_status (ix_scan (index_open xf)) = IndexComplete \<Longrightarrow> index_holds (index_open xf) (take c0 (offsets bs))"
    "\<And>n. n \<le> c0 \<Longrightarrow> \<exists>x'. index_truncate_to (index_open xf) n = Inr x' \<and> index_holds x' (take n (offsets bs))"
    "\<And>i. i < c0 \<Longrightarrow> index_read (index_open xf) (of_nat i) = Inr (of_nat (offsets bs ! i))"
    using cut by (auto simp: c0_def min_def)
  define c where "c = min c0 k"
  have c: "c \<le> c0" "c \<le> k" "take c (take k bs) = take c bs" by (simp_all add: c_def min_def)
  have count: "ss_record_count (st_scan st) = k" using st k(3) by (simp add: store_holds_def scan_of_def)
  have bound: "recover_boundary dec num ?b st (index_open xf) c = Inr (length (frames (take c bs)))"
    using c0(5) c by (intro boundary_holds[OF st e num lim(2) _ c(2) k(3)]) auto
  have miss: "recover_missing dec num ?b st (length (frames (take c bs))) c = Inr (drop c (offsets (take k bs)), k)"
    using missing_holds[OF st encodings_take[OF e] numbered_take[OF num], of c] lim(1) k(3) c by simp
  define trunc where "trunc = (is_status (ix_scan (index_open xf)) \<noteq> IndexComplete \<or> c0 \<noteq> c)"
  obtain x1 where x1: "(if trunc then index_truncate_to (index_open xf) c else Inr (index_open xf)) = Inr x1"
    "index_holds x1 (take c (offsets bs))"
    using c0(3) c0(4)[OF c(1)] by (cases trunc) (auto simp: trunc_def)
  have tc: "take c (offsets bs) = take c (offsets (take k bs))" using c(2) by (simp add: min_absorb1 flip: take_offsets)
  have lc: "length (take c (offsets bs)) = c" "length (drop c (offsets (take k bs))) = k - c"
    using c k(3) by (simp_all add: min_absorb1 min_absorb2)
  have "\<forall>off\<in>set (offsets (take k bs)). off < 2 ^ 64"
    using length_frames_take[of k bs] lim(2) by (intro offsets_bound) simp
  then have "\<forall>off\<in>set (drop c (offsets (take k bs))). off < 2 ^ 64" by (auto dest: in_set_dropD)
  then obtain x2 where x2: "recover_append x1 c (drop c (offsets (take k bs))) = Inr x2" "index_holds x2 (offsets (take k bs))"
    using recover_append_holds[OF x1(2), of "drop c (offsets (take k bs))", unfolded lc] lim(1) k(3) c(2)
    unfolding tc append_take_drop_id by auto
  have rec: "\<exists>seg'. recover_reconcile dec num sg st changed = Inr seg' \<and> store_holds (sg_store seg') (take k bs) \<and>
      index_holds (sg_index seg') (offsets (take k bs)) \<and> sg_base seg' = ?b \<and> sg_config seg' = sg_config sg \<and>
      sg_next seg' = ?b + of_nat k \<and> \<not> sg_recovery_required seg'"
    if "sg_index sg = index_open xf" "sg_base sg = ?b" for sg changed
    unfolding recover_reconcile_def Let_def that c0(2) count c_def[symmetric] trunc_def[symmetric]
    using c0(1) bound miss x1(1) x2 st that by simp
  have "\<exists>seg'. segment_open dec num ?b sf xf cfg = Inr seg' \<and> store_holds (sg_store seg') (take k bs) \<and>
      index_holds (sg_index seg') (offsets (take k bs)) \<and> sg_base seg' = ?b \<and> sg_config seg' = cfg \<and>
      sg_next seg' = ?b + of_nat k \<and> \<not> sg_recovery_required seg'"
    using rec[of "\<lparr>sg_config = cfg, sg_base = ?b, sg_next = ?b, sg_recovery_required = False,
        sg_store = store_open sf, sg_index = index_open xf\<rparr>"
        "ss_status (st_scan (store_open sf)) = StoreIncompleteTail"] cfg lim(3)
    unfolding st_def by (simp add: segment_open_def segment_recover_def Let_def split del: if_split cong: if_cong)
  then obtain seg' where seg': "segment_open dec num ?b sf xf cfg = Inr seg'" "store_holds (sg_store seg') (take k bs)"
    "index_holds (sg_index seg') (offsets (take k bs))" "sg_base seg' = ?b" "sg_config seg' = cfg"
    "sg_next seg' = ?b + of_nat k" "\<not> sg_recovery_required seg'" by blast
  have "segment_holds enc num seg' (take k rs) (take k bs)"
    using seg'(2-7) encodings_take[OF e, of k] numbered_take[OF num, of k] segment_fits_take[OF fits, of k] k(3) len
    by (simp add: segment_holds_def min_absorb2)
  moreover have "length (frames (take k bs)) \<le> n"
    using arg_cong[OF k(1), of length] by simp
  ultimately show ?thesis using seg'(1,4,5) k(3,4) len by (intro exI[of _ k] exI[of _ seg']) simp
qed

text \<open>Opening files that are complete changes nothing and forces nothing to disk.\<close>

lemma open_intact:
  assumes h: "segment_holds enc num seg rs bs" and cfg: "config_validate cfg = Inr ()"
    and sf: "f_data sf = frames bs" and xf: "f_data xf = index_image 0 (offsets bs)"
    and o: "segment_open dec num (sg_base seg) sf xf cfg = Inr seg'"
  shows "sg_store seg' = store_open sf"
proof -
  let ?b = "sg_base seg"
  have fits: "segment_fits ?b bs" and e: "encodings enc rs bs" and num: "numbered num ?b rs"
    and ix: "index_holds (sg_index seg) (offsets bs)"
    using h by (simp_all add: segment_holds_def)
  have lim: "length bs \<le> 2 ^ 32" "length (frames bs) < 2 ^ 64" "\<forall>b\<in>set bs. small b"
    using fits by (auto simp: segment_fits_def)
  have st: "store_holds (store_open sf) bs" using store_open_split(1)[of sf bs "[]"] sf lim(3) by simp
  have x: "index_holds (index_open xf) (offsets bs)"
    using index_inspect_image[of "offsets bs" "[]" 0] xf ix by (simp add: index_open_def index_inspect_file_def index_holds_def)
  have st': "store_holds (store_open sf) (take (length bs) bs)" using st by simp
  have rd: "index_read (index_open xf) (of_nat i) = Inr (of_nat (offsets bs ! i))" if "i < length bs" for i
    using oi.read_law[OF x] that by simp
  have bound: "recover_boundary dec num ?b (store_open sf) (index_open xf) (length bs) = Inr (length (frames bs))"
    using boundary_holds[OF st' e num lim(2) rd order_refl order_refl] by simp
  have miss: "recover_missing dec num ?b (store_open sf) (length (frames bs)) (length bs) = Inr ([], length bs)"
    using missing_holds[OF st e num lim(1), of "length bs"] by simp
  have "ss_status (st_scan (store_open sf)) = StoreComplete" "ss_record_count (st_scan (store_open sf)) = length bs"
    "is_status (ix_scan (index_open xf)) = IndexComplete" "is_entry_count (ix_scan (index_open xf)) = length bs"
    using st x by (simp_all add: store_holds_def index_holds_def scan_of_def)
  then show ?thesis
    using o bound miss by (auto simp: segment_open_def segment_recover_def recover_reconcile_def Let_def split: if_split_asm)
qed

lemma chain_split:
  "segment_chain enc num b (ss @ ss') rss e \<longleftrightarrow>
     (\<exists>rss1 rss2 m. rss = rss1 @ rss2 \<and> segment_chain enc num b ss rss1 m \<and> segment_chain enc num m ss' rss2 e)"
proof (induction ss arbitrary: b rss)
  case Nil
  show ?case
  proof
    assume "segment_chain enc num b ([] @ ss') rss e"
    then show "\<exists>rss1 rss2 m. rss = rss1 @ rss2 \<and> segment_chain enc num b [] rss1 m \<and> segment_chain enc num m ss' rss2 e"
      by (intro exI[of _ "[]"] exI[of _ rss] exI[of _ b]) simp
  next
    assume "\<exists>rss1 rss2 m. rss = rss1 @ rss2 \<and> segment_chain enc num b [] rss1 m \<and> segment_chain enc num m ss' rss2 e"
    then obtain rss1 rss2 m where "rss = rss1 @ rss2" "segment_chain enc num b [] rss1 m" "segment_chain enc num m ss' rss2 e"
      by blast
    then show "segment_chain enc num b ([] @ ss') rss e" by (cases rss1) simp_all
  qed
next
  case (Cons s ss)
  show ?case
  proof
    assume "segment_chain enc num b ((s # ss) @ ss') rss e"
    then obtain rs rss' where r: "rss = rs # rss'" "sg_base s = b" "\<exists>bs. segment_holds enc num s rs bs"
      "segment_chain enc num (sg_next s) (ss @ ss') rss' e" by (cases rss) auto
    then obtain rss1 rss2 m where "rss' = rss1 @ rss2" "segment_chain enc num (sg_next s) ss rss1 m" "segment_chain enc num m ss' rss2 e"
      using Cons.IH by blast
    with r show "\<exists>rss1 rss2 m. rss = rss1 @ rss2 \<and> segment_chain enc num b (s # ss) rss1 m \<and> segment_chain enc num m ss' rss2 e"
      by (intro exI[of _ "rs # rss1"] exI[of _ rss2] exI[of _ m]) simp
  next
    assume "\<exists>rss1 rss2 m. rss = rss1 @ rss2 \<and> segment_chain enc num b (s # ss) rss1 m \<and> segment_chain enc num m ss' rss2 e"
    then obtain rss1 rss2 m where c: "rss = rss1 @ rss2" "segment_chain enc num b (s # ss) rss1 m" "segment_chain enc num m ss' rss2 e"
      by blast
    from c(2) obtain rs q where "rss1 = rs # q" "sg_base s = b" "\<exists>bs. segment_holds enc num s rs bs" "segment_chain enc num (sg_next s) ss q m"
      by (cases rss1) auto
    with c Cons.IH[of "sg_next s" "q @ rss2"] show "segment_chain enc num b ((s # ss) @ ss') rss e" by auto
  qed
qed

lemma chain_snoc:
  "segment_chain enc num b (ss @ [s]) rss e \<longleftrightarrow>
     (\<exists>rss1 rs. rss = rss1 @ [rs] \<and> segment_chain enc num b ss rss1 (sg_base s) \<and>
       (\<exists>bs. segment_holds enc num s rs bs) \<and> sg_next s = e)"
proof -
  have one: "segment_chain enc num m [s] rss2 e \<longleftrightarrow> (\<exists>rs. rss2 = [rs] \<and> sg_base s = m \<and> (\<exists>bs. segment_holds enc num s rs bs) \<and> sg_next s = e)"
    for m rss2
  proof (cases rss2)
    case (Cons rs q)
    then show ?thesis by (cases q) auto
  qed simp
  show ?thesis
  proof
    assume "segment_chain enc num b (ss @ [s]) rss e"
    then obtain rss1 rss2 m where c: "rss = rss1 @ rss2" "segment_chain enc num b ss rss1 m" "segment_chain enc num m [s] rss2 e"
      unfolding chain_split by blast
    from c(3)[unfolded one] obtain rs where "rss2 = [rs]" "sg_base s = m" "\<exists>bs. segment_holds enc num s rs bs" "sg_next s = e"
      by blast
    with c show "\<exists>rss1 rs. rss = rss1 @ [rs] \<and> segment_chain enc num b ss rss1 (sg_base s) \<and>
       (\<exists>bs. segment_holds enc num s rs bs) \<and> sg_next s = e"
      by (intro exI[of _ rss1] exI[of _ rs]) simp
  next
    assume "\<exists>rss1 rs. rss = rss1 @ [rs] \<and> segment_chain enc num b ss rss1 (sg_base s) \<and>
       (\<exists>bs. segment_holds enc num s rs bs) \<and> sg_next s = e"
    then obtain rss1 rs where c: "rss = rss1 @ [rs]" "segment_chain enc num b ss rss1 (sg_base s)"
      "\<exists>bs. segment_holds enc num s rs bs" "sg_next s = e" by blast
    from c(3,4) have "segment_chain enc num (sg_base s) [s] [rs] e" by simp
    with c(1,2) show "segment_chain enc num b (ss @ [s]) rss e" unfolding chain_split
      by (intro exI[of _ rss1] exI[of _ "[rs]"] exI[of _ "sg_base s"]) simp
  qed
qed

lemma holds_bounds:
  assumes "segment_holds enc num s rs bs"
  shows "sg_base s \<noteq> 0" "unat (sg_next s) = unat (sg_base s) + length rs" "unat (sg_base s) + length rs < 2 ^ 64"
    "numbered num (sg_base s) rs" "sg_next s = sg_base s + of_nat (length rs)"
proof -
  have e: "encodings enc rs bs" and f: "segment_fits (sg_base s) bs" using assms by (simp_all add: segment_holds_def)
  have l: "length rs = length bs" by (rule encodings_nth(1)[OF e])
  show n: "sg_next s = sg_base s + of_nat (length rs)" and "numbered num (sg_base s) rs"
    using assms by (simp_all add: segment_holds_def)
  show "sg_base s \<noteq> 0" "unat (sg_base s) + length rs < 2 ^ 64" using f l by (simp_all add: segment_fits_def)
  show "unat (sg_next s) = unat (sg_base s) + length rs"
    using relative_number(1)[OF f order_refl] n l by simp
qed

lemma chain_bounds:
  assumes "segment_chain enc num b ss rss e"
  shows "unat e = unat b + length (concat rss)" "e = b + of_nat (length (concat rss))"
  using assms
proof (induction ss arbitrary: b rss)
  case Nil
  { case 1 then show ?case by (cases rss) auto }
  { case 2 then show ?case by (cases rss) auto }
next
  case (Cons s ss)
  have step: "\<exists>rs q bs. rss = rs # q \<and> b = sg_base s \<and> segment_holds enc num s rs bs \<and> segment_chain enc num (sg_next s) ss q e"
    if "segment_chain enc num b (s # ss) rss e" for b rss
    using that by (cases rss) auto
  { case 1
    then obtain rs q bs where q: "rss = rs # q" "b = sg_base s" "segment_holds enc num s rs bs" "segment_chain enc num (sg_next s) ss q e"
      using step by blast
    then show ?case using Cons.IH(1)[OF q(4)] holds_bounds(2)[OF q(3)] by simp }
  { case 2
    then obtain rs q bs where q: "rss = rs # q" "b = sg_base s" "segment_holds enc num s rs bs" "segment_chain enc num (sg_next s) ss q e"
      using step by blast
    then show ?case using Cons.IH(2)[OF q(4)] holds_bounds(5)[OF q(3)] by (simp add: add.assoc) }
qed

lemma chain_numbered:
  assumes "segment_chain enc num b ss rss e"
  shows "numbered num b (concat rss)"
  using assms
proof (induction ss arbitrary: b rss)
  case Nil
  then show ?case by (cases rss) (auto simp: numbered_def)
next
  case (Cons s ss)
  then obtain rs q bs where q: "rss = rs # q" "sg_base s = b" "segment_holds enc num s rs bs" "segment_chain enc num (sg_next s) ss q e"
    by (cases rss) auto
  note h = holds_bounds[OF q(3)]
  have ih: "numbered num (sg_next s) (concat q)" by (rule Cons.IH[OF q(4)])
  show ?case
    unfolding numbered_def q(1) concat.simps
  proof (intro allI impI)
    fix i assume i: "i < length (rs @ concat q)"
    show "num ((rs @ concat q) ! i) = b + of_nat i"
    proof (cases "i < length rs")
      case True
      then show ?thesis using h(4) q(2) by (simp add: numbered_def nth_append)
    next
      case False
      then have "num (concat q ! (i - length rs)) = b + of_nat (length rs) + of_nat (i - length rs)"
        using ih i h(5) q(2) by (auto simp: numbered_def)
      then show ?thesis using False by (simp add: nth_append of_nat_diff)
    qed
  qed
qed

text \<open>The segment holding a number is the one the linear search finds.\<close>

lemma chain_locate:
  assumes "segment_chain enc num b ss rss e" "i < length (concat rss)"
  shows "\<exists>s rs bs j. List.find (\<lambda>s. b + of_nat i \<ge> sg_base s \<and> b + of_nat i < sg_next s) ss = Some s \<and>
    segment_holds enc num s rs bs \<and> j < length rs \<and> rs ! j = concat rss ! i \<and> b + of_nat i = sg_base s + of_nat j"
  using assms
proof (induction ss arbitrary: b rss i)
  case Nil
  then show ?case by (cases rss) auto
next
  case (Cons s ss)
  obtain rs q bs where q: "rss = rs # q" "sg_base s = b" "segment_holds enc num s rs bs" "segment_chain enc num (sg_next s) ss q e"
    using Cons.prems(1) by (rule chain_ConsE)
  note h = holds_bounds[OF q(3)]
  have big: "unat b + i < 2 ^ 64"
    using chain_bounds(1)[OF Cons.prems(1)] Cons.prems(2) unat_bound[of e] by simp
  then have ui: "unat (of_nat i :: u64) = i" by (intro unat_of_nat_lt) simp
  have u: "unat (b + of_nat i) = unat b + i"
    using big ui unat_add_lem[of b "of_nat i"] by simp
  show ?case
  proof (cases "i < length rs")
    case True
    then have "b + of_nat i \<ge> sg_base s \<and> b + of_nat i < sg_next s"
      using u h(2) q(2) by (simp add: word_le_nat_alt word_less_nat_alt)
    then show ?thesis using q True
      by (rule_tac exI[of _ s], rule_tac exI[of _ rs], rule_tac exI[of _ bs], rule_tac exI[of _ i]) (simp add: nth_append)
  next
    case False
    then have nf: "\<not> b + of_nat i < sg_next s" using u h(2) q(2) by (simp add: word_less_nat_alt)
    have j: "i - length rs < length (concat q)" "b + of_nat i = sg_next s + of_nat (i - length rs)"
      using False Cons.prems(2) q(1,2) h(5) by (auto simp: of_nat_diff)
    show ?thesis using Cons.IH[OF q(4) j(1)] nf False q(1) unfolding j(2) by (simp add: nth_append)
  qed
qed

lemma chain_find:
  assumes "segment_chain enc num b ss rss e" "i < length (concat rss)"
  shows "\<exists>s. List.find (\<lambda>s. b + of_nat i \<ge> sg_base s \<and> b + of_nat i < sg_next s) ss = Some s \<and>
    segment_read dec num s (b + of_nat i) = Inr (concat rss ! i)"
  using chain_locate[OF assms] read_holds by fastforce

lemma room_for_one:
  assumes h: "segment_holds enc num seg rs bs" and nm: "\<not> segment_is_maxed seg" and c: "roomy (sg_config seg)"
    and b: "small b" and n: "unat (sg_next seg) + 1 < 2 ^ 64"
  shows "segment_fits (sg_base seg) (bs @ [b])"
proof -
  have f: "segment_fits (sg_base seg) bs" and st: "st_size (sg_store seg) = length (frames bs)"
    and ix: "ix_size (sg_index seg) = 12 * length bs" and l: "length rs = length bs"
    using h encodings_nth(1) by (auto simp: segment_holds_def store_holds_def index_holds_def)
  have "length (frames bs) < 2 ^ 63" using nm c st by (simp add: segment_is_maxed_def roomy_def)
  moreover have "length (frame b) < 4 + 2 ^ 32" using b by (simp add: frame_def small_def)
  moreover have "length bs + 1 \<le> 2 ^ 32" using nm c ix by (simp add: segment_is_maxed_def roomy_def)
  moreover have "unat (sg_base seg) + (length bs + 1) < 2 ^ 64" using n l holds_bounds(2)[OF h] by simp
  ultimately show ?thesis using f b by (simp add: segment_fits_def)
qed

lemma append_keeps_durable:
  assumes "segment_append enc num no_faults no_faults seg r = (Inr (), seg')"
  shows "f_durable (st_file (sg_store seg')) = f_durable (st_file (sg_store seg))"
proof -
  have st: "f_durable (st_file st') = f_durable (st_file st)" if "store_append no_faults st e = (Inr off, st')" for st e off st'
    using that by (simp add: store_append_def no_faults_def write_exact_at_def Let_def split: if_split_asm) (elim conjE, hypsubst, simp)
  obtain e where e: "enc r = Inr e"
    using assms by (cases "enc r") (simp_all add: segment_append_def Let_def split: if_split_asm)
  obtain off st' where a: "store_append no_faults (sg_store seg) e = (off, st')" by (cases "store_append no_faults (sg_store seg) e")
  show ?thesis
  proof (cases off)
    case (Inl x)
    then show ?thesis using assms e a by (simp add: segment_append_def Let_def split: if_split_asm)
  next
    case (Inr n)
    obtain i ix' where i: "index_append no_faults (sg_index seg) (ucast (num r - sg_base seg)) (of_nat n) = (i, ix')"
      by (cases "index_append no_faults (sg_index seg) (ucast (num r - sg_base seg)) (of_nat n)")
    then have "sg_store seg' = st'"
      using assms e a Inr by (cases i) (auto simp: segment_append_def Let_def split: if_split_asm)
    then show ?thesis using st[of "sg_store seg" e n st'] a Inr by simp
  qed
qed

text \<open>Appending to the last segment of a chain, after starting a new one if the last is full.\<close>

lemma roll_chain:
  assumes ch: "segment_chain enc num b ss rss e" "ss \<noteq> []" "\<forall>q\<in>set (butlast rss). q \<noteq> []"
    and c: "roomy c" "\<forall>s\<in>set ss. sg_config s = c"
  shows "\<exists>rss'. concat rss' = concat rss \<and> segment_chain enc num b (roll c e ss) rss' e \<and> roll c e ss \<noteq> [] \<and>
    (\<forall>q\<in>set (butlast rss'). q \<noteq> []) \<and> (\<forall>s\<in>set (roll c e ss). sg_config s = c) \<and>
    \<not> segment_is_maxed (last (roll c e ss))"
proof (cases "segment_is_maxed (last ss)")
  case False
  then show ?thesis using assms by (intro exI[of _ rss]) (simp add: roll_def)
next
  case True
  obtain s0 ss0 where ss: "ss = ss0 @ [s0]" using ch(2) by (cases ss rule: rev_cases) auto
  obtain rss0 rs bs where r: "rss = rss0 @ [rs]" "segment_chain enc num b ss0 rss0 (sg_base s0)"
    "segment_holds enc num s0 rs bs" "sg_next s0 = e"
    using ch(1) unfolding ss chain_snoc by blast
  have e0: "e \<noteq> 0" using holds_bounds(1,2)[OF r(3)] r(4) by (metis add_is_0 unat_eq_zero)
  have "rs \<noteq> []"
  proof
    assume "rs = []"
    then have "bs = []" using r(3) encodings_nth(1)[of enc rs bs] by (simp add: segment_holds_def)
    then have "st_size (sg_store s0) = 0" "ix_size (sg_index s0) = 0"
      using r(3) by (auto simp: segment_holds_def store_holds_def index_holds_def offsets_def)
    with True show False by (simp add: segment_is_maxed_def ss)
  qed
  note fr = fresh_segment_holds[OF e0]
  have "\<not> segment_is_maxed (fresh_segment c e)" by (simp add: segment_is_maxed_def fr)
  moreover have "segment_chain enc num b (ss @ [fresh_segment c e]) (rss @ [[]]) e"
    unfolding chain_snoc
    by (rule exI[of _ rss], rule exI[of _ "[]"]) (use ch(1) fr in \<open>auto intro!: exI[of _ "[]"]\<close>)
  ultimately show ?thesis
    using True ch(3) c(2) \<open>rs \<noteq> []\<close> r(1) fr
    by (intro exI[of _ "rss @ [[]]"]) (auto simp: roll_def butlast_append)
qed

lemma chain_append:
  assumes ch: "segment_chain enc num b ss rss e" "ss \<noteq> []" "\<forall>q\<in>set (butlast rss). q \<noteq> []"
    and c: "roomy c" "\<forall>s\<in>set ss. sg_config s = c" "\<not> segment_is_maxed (last ss)"
    and r: "num r = e" "enc r = Inr x" "small x" "unat e + 1 < 2 ^ 64"
  shows "\<exists>seg rss'. segment_append enc num no_faults no_faults (last ss) r = (Inr (), seg) \<and>
    concat rss' = concat rss @ [r] \<and> segment_chain enc num b (butlast ss @ [seg]) rss' (e + 1) \<and>
    (\<forall>q\<in>set (butlast rss'). q \<noteq> []) \<and> sg_config seg = c \<and>
    sg_base seg = sg_base (last ss) \<and> f_durable (st_file (sg_store seg)) = f_durable (st_file (sg_store (last ss)))"
proof -
  obtain s0 ss0 where ss: "ss = ss0 @ [s0]" using ch(2) by (cases ss rule: rev_cases) auto
  obtain rss0 rs bs where q: "rss = rss0 @ [rs]" "segment_chain enc num b ss0 rss0 (sg_base s0)"
    "segment_holds enc num s0 rs bs" "sg_next s0 = e"
    using ch(1) unfolding ss chain_snoc by blast
  have room: "segment_fits (sg_base s0) (bs @ [x])"
    using room_for_one[OF q(3)] c r q(4) ss by simp
  obtain seg where s: "segment_append enc num no_faults no_faults s0 r = (Inr (), seg)"
    "segment_holds enc num seg (rs @ [r]) (bs @ [x])" "sg_base seg = sg_base s0" "sg_config seg = sg_config s0"
    using append_holds[OF q(3) _ r(2,3) room] r(1) q(4) by metis
  have n: "sg_next seg = e + 1"
    using holds_bounds(5)[OF s(2)] holds_bounds(5)[OF q(3)] s(3) q(4) by (simp add: add.assoc)
  have k: "segment_chain enc num b (ss0 @ [seg]) (rss0 @ [rs @ [r]]) (e + 1)"
    unfolding chain_snoc
    by (rule exI[of _ rss0], rule exI[of _ "rs @ [r]"]) (use q(2) s(2,3) n in auto)
  have "concat (rss0 @ [rs @ [r]]) = concat rss @ [r]" "\<forall>q\<in>set (butlast (rss0 @ [rs @ [r]])). q \<noteq> []"
    "sg_config seg = c"
    using q(1) ch(3) c(2) s(4) by (simp_all add: ss)
  note g = this
  have d: "f_durable (st_file (sg_store seg)) = f_durable (st_file (sg_store s0))"
    by (rule append_keeps_durable[OF s(1)])
  show ?thesis
    unfolding ss last_snoc butlast_snoc
    by (rule exI[of _ seg], rule exI[of _ "rss0 @ [rs @ [r]]"]) (intro conjI s(1,3) g k d)
qed

text \<open>Reopening the files a faulty append leaves behind gives the old records, with or without the new one.\<close>

lemma append_cut:
  assumes h: "segment_holds enc num seg rs bs" and r: "num r = sg_next seg" "enc r = Inr b" "small b"
    and room: "segment_fits (sg_base seg) (bs @ [b])"
    and a: "segment_append enc num fs fx seg r = (res, seg')"
  shows "\<exists>n m. f_data (st_file (sg_store seg')) = take n (frames (bs @ [b])) \<and> length (frames bs) \<le> n \<and>
    f_data (ix_file (sg_index seg')) = take m (index_image 0 (offsets (bs @ [b]))) \<and> sg_base seg' = sg_base seg"
proof -
  have st: "store_holds (sg_store seg) bs" and ix: "index_holds (sg_index seg) (offsets bs)"
    and fits: "segment_fits (sg_base seg) bs" and nr: "\<not> sg_recovery_required seg"
    and n: "sg_next seg = sg_base seg + of_nat (length bs)"
    using h encodings_nth(1) by (fastforce simp: segment_holds_def)+
  have small_len: "length bs < 2 ^ 32" using room by (simp add: segment_fits_def)
  have rel: "unat (num r - sg_base seg) = length bs" "(ucast (num r - sg_base seg) :: u32) = of_nat (length bs)"
    using relative_number(2,3)[OF fits order_refl] small_len r(1) n by simp_all
  obtain rst st' where sa: "store_append fs (sg_store seg) b = (rst, st')" by (cases "store_append fs (sg_store seg) b")
  obtain k where k: "f_data (st_file st') = frames bs @ take k (frame b)"
    using store_append_cut[OF st r(3), of fs] sa by auto
  have cutS: "frames bs @ take k (frame b) = take (length (frames bs) + k) (frames (bs @ [b]))" by simp
  have img: "index_image 0 (offsets (bs @ [b])) =
    index_image 0 (offsets bs) @ be32 (of_nat (length bs)) @ be64 (of_nat (length (frames bs)))"
    using index_image_append[of 0 "offsets bs" "[length (frames bs)]"] by (simp add: offsets_snoc)
  have ix0: "f_data (ix_file (sg_index seg)) = take (12 * length bs) (index_image 0 (offsets (bs @ [b])))"
    using ix unfolding img by (simp add: index_holds_def)
  show ?thesis
  proof (cases rst)
    case (Inl e)
    then have "seg' = seg\<lparr>sg_store := st', sg_recovery_required := True\<rparr>"
      using a nr r rel(1) small_len sa by (simp add: segment_append_def Let_def)
    then show ?thesis using k ix0 unfolding cutS
      by (intro exI[where x = "length (frames bs) + k"] exI[of _ "12 * length bs"]) simp
  next
    case (Inr off)
    have off: "off = length (frames bs)"
      using store_append_faulty[OF st r(3), of fs] sa Inr by auto
    obtain rix ix' where ia: "index_append fx (sg_index seg) (of_nat (length bs)) (of_nat off) = (rix, ix')"
      by (cases "index_append fx (sg_index seg) (of_nat (length bs)) (of_nat off)")
    obtain j where j: "f_data (ix_file ix') = index_image 0 (offsets bs) @ take j (be32 (of_nat (length bs)) @ be64 (of_nat off))"
      using index_append_cut[OF ix, of fx "of_nat (length bs)" "of_nat off"] ia by auto
    have cutI: "f_data (ix_file ix') = take (12 * length bs + j) (index_image 0 (offsets (bs @ [b])))"
      unfolding img j off by simp
    have "sg_store seg' = st'" "sg_index seg' = ix'" "sg_base seg' = sg_base seg"
      using a nr r rel small_len sa ia Inr by (cases rix; auto simp: segment_append_def Let_def)+
    then show ?thesis using k cutI unfolding cutS
      by (intro exI[where x = "length (frames bs) + k"] exI[of _ "12 * length bs + j"]) simp
  qed
qed

end

end
