(* ===== verification/SegmentDir.thy ===== *)
theory SegmentDir
  imports Segment "HOL-Library.Multiset"
begin

text \<open>
  A directory of segment files, as the write-ahead log (\<open>src/src/Log/Log.cpp\<close>) and the Raft log
  (\<open>src/src/Raft/RaftLog.cpp\<close>) both keep one: the names of the files, their discovery in whatever
  order the directory lists them, opening the segments of a chain, and forcing them to disk.  A
  directory is the list of its file names with their contents.  The lemmas are over any record codec.
\<close>

section \<open>File names\<close>

definition digit :: "nat \<Rightarrow> char" where
  "digit d = char_of (48 + d)"

fun fixed_digits :: "nat \<Rightarrow> nat \<Rightarrow> string" where
  "fixed_digits 0 n = []"
| "fixed_digits (Suc w) n = fixed_digits w (n div 10) @ [digit (n mod 10)]"

text \<open>A 64-bit number has at most 20 decimal digits, so padding to width 20 always gives 20.\<close>

definition segment_stem :: "u64 \<Rightarrow> string" where
  "segment_stem base = ''segment-'' @ fixed_digits 20 (unat base)"

definition is_digit :: "char \<Rightarrow> bool" where
  "is_digit c = (48 \<le> (of_char c :: nat) \<and> (of_char c :: nat) \<le> 57)"

definition decimal_value :: "string \<Rightarrow> nat" where
  "decimal_value s = foldl (\<lambda>v c. v * 10 + (of_char c - 48)) 0 s"

definition parse_segment_name :: "string \<Rightarrow> (u64 \<times> bool) res" where
  "parse_segment_name name =
     (let store = (length name = 34 \<and> drop 28 name = ''.store'');
          index = (length name = 34 \<and> drop 28 name = ''.index'')
      in if take 8 name \<noteq> ''segment-'' then Inr (0, False)
         else if \<not> store \<and> \<not> index then Inl Runtime_error
         else
           let digits = take 20 (drop 8 name)
           in if \<not> list_all is_digit digits then Inl Runtime_error
              else if decimal_value digits \<ge> 2 ^ 64 then Inl Runtime_error
              else Inr (of_nat (decimal_value digits), store))"

section \<open>Discovery\<close>

type_synonym directory = "(string \<times> disk_file) list"

record SegmentFiles =
  sf_store :: bool
  sf_index :: bool

text \<open>\<open>discovered[base]\<close> with the flag of one file set; the list is ordered by base like the \<open>std::map\<close>.\<close>

fun note_file :: "(u64 \<times> SegmentFiles) list \<Rightarrow> u64 \<Rightarrow> bool \<Rightarrow> (u64 \<times> SegmentFiles) list" where
  "note_file [] base is_store = [(base, \<lparr>sf_store = is_store, sf_index = \<not> is_store\<rparr>)]"
| "note_file ((b, fs) # rest) base is_store =
     (if b = base then (b, if is_store then fs\<lparr>sf_store := True\<rparr> else fs\<lparr>sf_index := True\<rparr>) # rest
      else if base < b then (base, \<lparr>sf_store = is_store, sf_index = \<not> is_store\<rparr>) # (b, fs) # rest
      else (b, fs) # note_file rest base is_store)"

fun discover :: "string list \<Rightarrow> (u64 \<times> SegmentFiles) list \<Rightarrow> (u64 \<times> SegmentFiles) list res" where
  "discover [] found = Inr found"
| "discover (name # names) found =
     (if take 8 name \<noteq> ''segment-'' then discover names found
      else res_bind (parse_segment_name name) (\<lambda>(base, is_store).
        if base = 0 then Inl Runtime_error else discover names (note_file found base is_store)))"

definition dir_file :: "directory \<Rightarrow> string \<Rightarrow> disk_file" where
  "dir_file dir name = (case map_of dir name of None \<Rightarrow> empty_file | Some f \<Rightarrow> f)"

fun open_segments :: "(bytes \<Rightarrow> 'r res) \<Rightarrow> ('r \<Rightarrow> u64) \<Rightarrow> Config \<Rightarrow> directory \<Rightarrow> (u64 \<times> SegmentFiles) list \<Rightarrow> u64 \<Rightarrow> Segment list res" where
  "open_segments dec num config dir [] expected = Inr []"
| "open_segments dec num config dir ((base, files) # rest) expected =
     (if base \<noteq> expected then Inl Runtime_error
      else if \<not> sf_store files then Inl Runtime_error
      else res_bind (segment_open dec num base (dir_file dir (segment_stem base @ ''.store''))
                       (dir_file dir (segment_stem base @ ''.index'')) config) (\<lambda>seg.
           res_bind (open_segments dec num config dir rest (sg_next seg)) (\<lambda>segs. Inr (seg # segs))))"

section \<open>Segments of a chain\<close>

fun sync_all :: "Segment list \<Rightarrow> Segment list res" where
  "sync_all [] = Inr []"
| "sync_all (s # ss) = res_bind (segment_sync s) (\<lambda>s. res_bind (sync_all ss) (\<lambda>ss. Inr (s # ss)))"

text \<open>\<open>close\<close> gives back the files of the directory.\<close>

definition segment_dir :: "Segment list \<Rightarrow> directory" where
  "segment_dir segs = concat (map (\<lambda>s. [(segment_stem (sg_base s) @ ''.store'', st_file (sg_store s)),
                                         (segment_stem (sg_base s) @ ''.index'', ix_file (sg_index s))]) segs)"

fun scan_segments :: "(bytes \<Rightarrow> 'r res) \<Rightarrow> ('r \<Rightarrow> u64) \<Rightarrow> Segment list \<Rightarrow> 'r list res" where
  "scan_segments dec num [] = Inr []"
| "scan_segments dec num (s # ss) =
     res_bind (segment_scan dec num s) (\<lambda>part.
     res_bind (scan_segments dec num ss) (\<lambda>rest. Inr (part @ rest)))"

fun sync_loop :: "Segment list \<Rightarrow> u64 \<Rightarrow> u64 \<Rightarrow> (Segment list \<times> u64) res" where
  "sync_loop [] durable target = Inr ([], durable)"
| "sync_loop (s # ss) durable target =
     (if sg_next s = sg_base s \<or> sg_next s - 1 \<le> durable
      then res_bind (sync_loop ss durable target) (\<lambda>(ss, d). Inr (s # ss, d))
      else res_bind (segment_sync s) (\<lambda>s.
        let durable = sg_next s - 1
        in if durable \<ge> target then Inr (s # ss, durable)
           else res_bind (sync_loop ss durable target) (\<lambda>(ss, d). Inr (s # ss, d))))"

section \<open>Names are read back\<close>

lemma of_char_digit [simp]: "d < 10 \<Longrightarrow> (of_char (digit d) :: nat) = 48 + d"
  by (simp add: digit_def)

lemma length_fixed_digits [simp]: "length (fixed_digits w n) = w"
  by (induction w arbitrary: n) simp_all

lemma fixed_digits_are_digits: "list_all is_digit (fixed_digits w n)"
  by (induction w arbitrary: n) (simp_all add: is_digit_def)

lemma decimal_value_fixed: "decimal_value (fixed_digits w n) = n mod 10 ^ w"
proof (induction w arbitrary: n)
  case 0
  show ?case by (simp add: decimal_value_def)
next
  case (Suc w)
  have "decimal_value (fixed_digits (Suc w) n) = decimal_value (fixed_digits w (n div 10)) * 10 + n mod 10"
    by (simp add: decimal_value_def)
  also have "\<dots> = n mod 10 ^ Suc w"
    unfolding Suc by (simp add: mod_mult2_eq)
  finally show ?case .
qed

lemma decimal_value_stem [simp]: "decimal_value (fixed_digits 20 (unat (b :: u64))) = unat b"
proof -
  have "unat b < 10 ^ 20" using unat_bound[of b] by simp
  then show ?thesis by (simp add: decimal_value_fixed)
qed

lemma length_segment_stem [simp]: "length (segment_stem b) = 28"
  by (simp add: segment_stem_def)

lemma take_segment_stem [simp]:
  "take 8 (segment_stem b @ x) = ''segment-''" "take 8 (segment_stem b) = ''segment-''"
  by (simp_all add: segment_stem_def)

lemma digits_segment_stem [simp]: "take 20 (drop 8 (segment_stem b @ x)) = fixed_digits 20 (unat b)"
  by (simp add: segment_stem_def)

lemma parse_segment_stem [simp]:
  "parse_segment_name (segment_stem b @ ''.store'') = Inr (b, True)"
  "parse_segment_name (segment_stem b @ ''.index'') = Inr (b, False)"
  using unat_bound[of b] fixed_digits_are_digits[of 20 "unat b"]
  by (simp_all add: parse_segment_name_def Let_def del: take_append drop_append)

text \<open>The names the log gives its files are read back: parsing the store name or the index name of a
  base number returns that number and which of the two files it is.\<close>

theorem segment_name_roundtrip:
  "parse_segment_name (segment_stem base @ (if is_store then ''.store'' else ''.index'')) = Inr (base, is_store)"
  by (cases is_store) simp_all

lemma segment_stem_eq [simp]: "segment_stem a = segment_stem b \<longleftrightarrow> a = b"
proof
  assume "segment_stem a = segment_stem b"
  then have "decimal_value (fixed_digits 20 (unat a)) = decimal_value (fixed_digits 20 (unat b))"
    by (simp add: segment_stem_def)
  then show "a = b" by (simp add: word_unat_eq_iff)
qed simp

section \<open>The order of the listing does not matter\<close>

text \<open>The order in which the directory is listed does not matter.\<close>

lemma note_file_commute:
  "note_file (note_file found a x) b y = note_file (note_file found b y) a x"
proof (induction found)
  case Nil
  show ?case by (cases x; cases y) auto
next
  case (Cons p found)
  obtain c fs where p: "p = (c, fs)" by (cases p)
  consider "a < b" | "a = b" | "b < a" by force
  then show ?case using Cons unfolding p by cases (cases x; cases y; auto)+
qed

definition parsed_name :: "string \<Rightarrow> u64 \<times> bool" where
  "parsed_name name = (case parse_segment_name name of Inr r \<Rightarrow> r | Inl _ \<Rightarrow> (0, False))"

definition good_name :: "string \<Rightarrow> bool" where
  "good_name name = (take 8 name = ''segment-'' \<and> (\<exists>b st. parse_segment_name name = Inr (b, st) \<and> b \<noteq> 0))"

lemma discover_fold:
  "\<forall>name\<in>set names. good_name name \<Longrightarrow>
     discover names found = Inr (fold (\<lambda>name found. case parsed_name name of (b, st) \<Rightarrow> note_file found b st) names found)"
  by (induction names arbitrary: found) (auto simp: good_name_def parsed_name_def)

lemma discover_order:
  assumes "mset names = mset names'" "\<forall>name\<in>set names. good_name name"
  shows "discover names found = discover names' found"
proof -
  let ?f = "\<lambda>name found. case parsed_name name of (b, st) \<Rightarrow> note_file found b st"
  have "fold ?f names = fold ?f names'"
    by (rule fold_multiset_equiv[OF _ assms(1)]) (auto simp: fun_eq_iff note_file_commute split: prod.splits)
  moreover have "set names = set names'" using assms(1) by (rule mset_eq_setD)
  ultimately show ?thesis using assms(2) by (simp add: discover_fold)
qed

lemma note_file_end:
  assumes "\<forall>(b, fs)\<in>set found. b < base"
  shows "note_file found base st = found @ [(base, \<lparr>sf_store = st, sf_index = \<not> st\<rparr>)]"
  using assms by (induction found) auto

lemma note_file_last:
  assumes "\<forall>(b, fs)\<in>set found. b < base"
  shows "note_file (found @ [(base, \<lparr>sf_store = True, sf_index = False\<rparr>)]) base False =
    found @ [(base, \<lparr>sf_store = True, sf_index = True\<rparr>)]"
  using assms by (induction found) auto

fun base_names :: "u64 list \<Rightarrow> string list" where
  "base_names [] = []"
| "base_names (b # bs) = (segment_stem b @ ''.store'') # (segment_stem b @ ''.index'') # base_names bs"

lemma good_base_names: "0 \<notin> set bs \<Longrightarrow> \<forall>name\<in>set (base_names bs). good_name name"
  by (induction bs) (auto simp: good_name_def)

lemma discover_bases:
  assumes "sorted_wrt (<) bs" "0 \<notin> set bs" "\<forall>(b, fs)\<in>set found. \<forall>c\<in>set bs. b < c"
  shows "discover (base_names bs) found = Inr (found @ map (\<lambda>b. (b, \<lparr>sf_store = True, sf_index = True\<rparr>)) bs)"
  using assms
proof (induction bs arbitrary: found)
  case (Cons c bs)
  have f: "\<forall>(b, fs)\<in>set found. b < c" using Cons.prems(3) by auto
  show ?case
    using Cons.prems Cons.IH[of "found @ [(c, \<lparr>sf_store = True, sf_index = True\<rparr>)]"]
    by (auto simp: note_file_end[OF f] note_file_last[OF f])
qed simp

text \<open>A directory that holds, for every segment, a prefix of its two files.  The files are identified by
  the base number of their segment.\<close>

definition cut_dir :: "(u64 \<Rightarrow> nat) \<Rightarrow> (u64 \<Rightarrow> nat) \<Rightarrow> Segment list \<Rightarrow> directory \<Rightarrow> bool" where
  "cut_dir cs ci segs dir = (mset (map fst dir) = mset (base_names (map sg_base segs)) \<and>
     (\<forall>s\<in>set segs.
        f_data (dir_file dir (segment_stem (sg_base s) @ ''.store'')) = take (cs (sg_base s)) (f_data (st_file (sg_store s))) \<and>
        f_data (dir_file dir (segment_stem (sg_base s) @ ''.index'')) = take (ci (sg_base s)) (f_data (ix_file (sg_index s)))))"

definition all_durable :: "directory \<Rightarrow> bool" where
  "all_durable dir = (\<forall>(name, f)\<in>set dir. f_durable f = length (f_data f))"

lemma dir_file_durable: "all_durable dir \<Longrightarrow> f_durable (dir_file dir name) = length (f_data (dir_file dir name))"
  by (auto simp: all_durable_def dir_file_def empty_file_def dest!: map_of_SomeD split: option.split)

lemma base_names_mem:
  "n \<in> set (base_names bs) \<longleftrightarrow> (\<exists>b\<in>set bs. n = segment_stem b @ ''.store'' \<or> n = segment_stem b @ ''.index'')"
  by (induction bs) auto

lemma store_not_index [simp]: "segment_stem a @ ''.store'' \<noteq> segment_stem b @ ''.index''"
proof
  assume "segment_stem a @ ''.store'' = segment_stem b @ ''.index''"
  then have "drop 28 (segment_stem a @ ''.store'') = drop 28 (segment_stem b @ ''.index'')" by metis
  then show False by simp
qed

lemma distinct_base_names: "distinct bs \<Longrightarrow> distinct (base_names bs)"
  using store_not_index[symmetric] by (induction bs) (auto simp: base_names_mem simp del: store_not_index)

lemma segment_dir_names: "map fst (segment_dir segs) = base_names (map sg_base segs)"
  by (induction segs) (simp_all add: segment_dir_def)

lemma dir_file_mem: "distinct (map fst dir) \<Longrightarrow> (name, f) \<in> set dir \<Longrightarrow> dir_file dir name = f"
  by (simp add: dir_file_def)

lemma segment_dir_file:
  assumes "distinct (map sg_base segs)" "s \<in> set segs"
  shows "dir_file (segment_dir segs) (segment_stem (sg_base s) @ ''.store'') = st_file (sg_store s)"
    "dir_file (segment_dir segs) (segment_stem (sg_base s) @ ''.index'') = ix_file (sg_index s)"
  using assms distinct_base_names[OF assms(1)]
  by (auto intro!: dir_file_mem simp: segment_dir_names) (auto simp: segment_dir_def)

lemma sorted_less_distinct: "sorted_wrt (<) (bs :: u64 list) \<Longrightarrow> distinct bs"
  by (induction bs) auto

abbreviation both_files :: "Segment list \<Rightarrow> (u64 \<times> SegmentFiles) list" where
  "both_files \<equiv> map (\<lambda>s. (sg_base s, \<lparr>sf_store = True, sf_index = True\<rparr>))"

lemma open_durable:
  assumes d: "f_durable sf = length (f_data sf)" and o: "segment_open dec num base sf xf c = Inr seg"
  shows "f_durable (st_file (sg_store seg)) = length (f_data (st_file (sg_store seg)))"
proof -
  let ?st0 = "store_open sf"
  let ?st = "if ss_status (st_scan ?st0) = StoreIncompleteTail then store_repair_tail ?st0 else ?st0"
  obtain rs t where "f_data sf = frames rs @ t" "torn t" "\<forall>r\<in>set rs. small r" using split_frames by blast
  then have "ss_valid_size (store_inspect_file sf) \<le> length (f_data sf)" using store_inspect_split by simp
  then have st: "f_durable (st_file ?st) = length (f_data (st_file ?st))"
    using d by (auto simp: store_open_def store_repair_tail_def truncate_file_def Let_def)
  have "sg_store seg = ?st \<or> sg_store seg = store_sync ?st"
    using o by (auto simp: segment_open_def segment_recover_def recover_reconcile_def Let_def split: if_split_asm prod.splits)
  then show ?thesis
    using st by (auto simp: store_sync_def sync_file_to_disk_fd_def file_size_def)
qed

lemma file_whole: "file_size f \<le> n \<Longrightarrow> take n (f_data f) = f_data f"
  by (simp add: file_size_def)

definition files_bound :: "Segment list \<Rightarrow> nat" where
  "files_bound ss = (\<Sum>s\<leftarrow>ss. file_size (st_file (sg_store s)) + file_size (ix_file (sg_index s)))"

lemma files_bound:
  assumes "s \<in> set ss"
  shows "file_size (st_file (sg_store s)) \<le> files_bound ss" "file_size (ix_file (sg_index s)) \<le> files_bound ss"
  using member_le_sum_list[of "file_size (st_file (sg_store s)) + file_size (ix_file (sg_index s))"
      "map (\<lambda>s. file_size (st_file (sg_store s)) + file_size (ix_file (sg_index s))) ss"] assms
  by (auto simp: files_bound_def)

text \<open>Replacing the files of one segment by a cut of them cuts the directory.\<close>

lemma cut_replace_dir:
  assumes d: "distinct (map sg_base (ss1 @ v # ss2))" and b: "sg_base s = sg_base v"
    and f: "f_data (st_file (sg_store s)) = take n (f_data (st_file (sg_store v)))"
      "f_data (ix_file (sg_index s)) = take m (f_data (ix_file (sg_index v)))"
  shows "cut_dir (\<lambda>b. if b = sg_base v then n else files_bound (ss1 @ ss2)) (\<lambda>b. if b = sg_base v then m else files_bound (ss1 @ ss2))
    (ss1 @ v # ss2) (segment_dir (ss1 @ s # ss2))" "\<forall>t\<in>set (ss1 @ ss2). sg_base t \<noteq> sg_base v"
proof -
  let ?dir = "segment_dir (ss1 @ s # ss2)"
  have d': "distinct (map sg_base (ss1 @ s # ss2))" using d b by simp
  note df = segment_dir_file[OF d']
  have "sg_base v \<notin> set (map sg_base (ss1 @ ss2))" using d by auto
  then show other: "\<forall>t\<in>set (ss1 @ ss2). sg_base t \<noteq> sg_base v" by (metis image_eqI list.set_map)
  have "dir_file ?dir (segment_stem (sg_base v) @ ''.store'') = st_file (sg_store s)"
    "dir_file ?dir (segment_stem (sg_base v) @ ''.index'') = ix_file (sg_index s)"
    using df[of s] b by simp_all
  moreover have "dir_file ?dir (segment_stem (sg_base t) @ ''.store'') = st_file (sg_store t)"
    "dir_file ?dir (segment_stem (sg_base t) @ ''.index'') = ix_file (sg_index t)"
    "file_size (st_file (sg_store t)) \<le> files_bound (ss1 @ ss2)" "file_size (ix_file (sg_index t)) \<le> files_bound (ss1 @ ss2)"
    if "t \<in> set (ss1 @ ss2)" for t
    using df[of t] that files_bound[OF that] by auto
  ultimately show "cut_dir (\<lambda>b. if b = sg_base v then n else files_bound (ss1 @ ss2)) (\<lambda>b. if b = sg_base v then m else files_bound (ss1 @ ss2))
    (ss1 @ v # ss2) ?dir"
    using f b other by (simp add: cut_dir_def segment_dir_names file_whole)
qed

definition cut_segment :: "(u64 \<Rightarrow> nat) \<Rightarrow> (u64 \<Rightarrow> nat) \<Rightarrow> Segment \<Rightarrow> Segment" where
  "cut_segment cs ci s =
     (let cut = (\<lambda>n f. \<lparr>f_data = take n (f_data f), f_durable = min n (length (f_data f))\<rparr>)
      in s\<lparr>sg_store := (sg_store s)\<lparr>st_file := cut (cs (sg_base s)) (st_file (sg_store s))\<rparr>,
           sg_index := (sg_index s)\<lparr>ix_file := cut (ci (sg_base s)) (ix_file (sg_index s))\<rparr>\<rparr>)"

lemma cut_segment_simps [simp]:
  "sg_base (cut_segment cs ci s) = sg_base s"
  "st_file (sg_store (cut_segment cs ci s)) = \<lparr>f_data = take (cs (sg_base s)) (f_data (st_file (sg_store s))),
     f_durable = min (cs (sg_base s)) (length (f_data (st_file (sg_store s))))\<rparr>"
  "ix_file (sg_index (cut_segment cs ci s)) = \<lparr>f_data = take (ci (sg_base s)) (f_data (ix_file (sg_index s))),
     f_durable = min (ci (sg_base s)) (length (f_data (ix_file (sg_index s))))\<rparr>"
  by (simp_all add: cut_segment_def Let_def)

lemma cut_dir_exists:
  assumes "distinct (map sg_base ss)"
  shows "cut_dir cs ci ss (segment_dir (map (cut_segment cs ci) ss))" "all_durable (segment_dir (map (cut_segment cs ci) ss))"
proof -
  have m: "map sg_base (map (cut_segment cs ci) ss) = map sg_base ss" by simp
  have d: "distinct (map sg_base (map (cut_segment cs ci) ss))" using assms unfolding m .
  show "cut_dir cs ci ss (segment_dir (map (cut_segment cs ci) ss))"
    using segment_dir_file[OF d, of "cut_segment cs ci _"] by (simp add: cut_dir_def segment_dir_names comp_def)
  show "all_durable (segment_dir (map (cut_segment cs ci) ss))"
    by (auto simp: all_durable_def segment_dir_def min.commute)
qed

lemma segment_append_poisons:
  assumes "segment_append enc num fs fx s r = (Inl x, s')" "\<not> sg_recovery_required s" "num r = sg_next s"
    "unat (num r - sg_base s) \<le> 2 ^ 32 - 1" "enc r = Inr b"
  shows "sg_recovery_required s'"
  using assms by (auto simp: segment_append_def Let_def split: sum.splits prod.splits)

section \<open>Forced records\<close>

text \<open>The records up to the durable number are in the part of the store files that has been forced to disk.\<close>

definition segment_synced :: "('r \<Rightarrow> bytes res) \<Rightarrow> ('r \<Rightarrow> u64) \<Rightarrow> u64 \<Rightarrow> Segment \<Rightarrow> bool" where
  "segment_synced enc num d s = (\<forall>rs bs. segment_holds enc num s rs bs \<longrightarrow>
     length (frames (take (unat d + 1 - unat (sg_base s)) bs)) \<le> f_durable (st_file (sg_store s)))"

text \<open>\<open>survives d cs s\<close>: the cut of the store keeps the records numbered up to \<open>d\<close>.\<close>

definition survives :: "('r \<Rightarrow> bytes res) \<Rightarrow> ('r \<Rightarrow> u64) \<Rightarrow> u64 \<Rightarrow> (u64 \<Rightarrow> nat) \<Rightarrow> Segment \<Rightarrow> bool" where
  "survives enc num d cs s = (\<forall>rs bs. segment_holds enc num s rs bs \<longrightarrow>
     length (frames (take (unat d + 1 - unat (sg_base s)) bs)) \<le> cs (sg_base s))"

text \<open>What opening the segments of a cut directory achieves.\<close>

definition opened :: "('r \<Rightarrow> bytes res) \<Rightarrow> ('r \<Rightarrow> u64) \<Rightarrow> Config \<Rightarrow> bool \<Rightarrow> u64 \<Rightarrow> 'r list \<Rightarrow> nat \<Rightarrow> Segment list res \<Rightarrow> bool" where
  "opened enc num c dur b rs n res = (\<exists>ss rss k. res = Inr ss \<and> segment_chain enc num b ss rss (sg_next (last ss)) \<and> ss \<noteq> [] \<and>
     concat rss = take k rs \<and> (\<forall>q\<in>set (butlast rss). q \<noteq> []) \<and>
     (\<forall>s\<in>set ss. sg_config s = c \<and> (dur \<longrightarrow> (\<forall>d. segment_synced enc num d s))) \<and> min n (length rs) \<le> k)"

context record_codec
begin

lemma holds_unique:
  assumes "segment_holds enc num s rs bs" "segment_holds enc num s rs' bs'"
  shows "bs = bs'"
  using assms by (intro frames_inject) (auto simp: segment_holds_def store_holds_def)

lemma segment_synced_iff:
  assumes "segment_holds enc num s rs bs"
  shows "segment_synced enc num d s \<longleftrightarrow>
    length (frames (take (unat d + 1 - unat (sg_base s)) bs)) \<le> f_durable (st_file (sg_store s))"
  unfolding segment_synced_def using assms holds_unique by metis

lemma roll_synced:
  assumes "e \<noteq> 0" "\<forall>s\<in>set ss. segment_synced enc num d s" "s \<in> set (roll c e ss)"
  shows "segment_synced enc num d s"
  using assms segment_synced_iff[OF fresh_segment_holds(1)[OF assms(1)], of d c]
  by (auto simp: roll_def split: if_split_asm)

lemma append_synced:
  assumes h: "segment_holds enc num s rs bs" and sy: "segment_synced enc num d s" and d: "d < sg_next s"
    and r: "num r = sg_next s" "enc r = Inr b" and sm: "small b" and n: "unat (sg_next s) + 1 < 2 ^ 64"
    and c: "\<not> segment_is_maxed s" "roomy (sg_config s)"
    and a: "segment_append enc num no_faults no_faults s r = (Inr (), s')"
  shows "segment_synced enc num d s'"
proof -
  have h': "segment_holds enc num s' (rs @ [r]) (bs @ [b])" "sg_base s' = sg_base s"
    using append_holds[OF h r sm room_for_one[OF h c sm n]] a by auto
  have "length bs = length rs" using h encodings_nth(1)[of enc rs bs] by (simp add: segment_holds_def)
  then have "unat d + 1 - unat (sg_base s) \<le> length bs"
    using d holds_bounds(2)[OF h] by (simp add: word_less_nat_alt)
  then show ?thesis
    using sy append_keeps_durable[OF a] segment_synced_iff[OF h] segment_synced_iff[OF h'(1)] h'(2) by simp
qed

lemma chain_scan:
  "segment_chain enc num b ss rss e \<Longrightarrow> scan_segments dec num ss = Inr (concat rss)"
proof (induction ss arbitrary: b rss)
  case Nil
  then show ?case by (cases rss) simp_all
next
  case (Cons s ss)
  then obtain rs q bs where q: "rss = rs # q" "segment_holds enc num s rs bs"
    "segment_chain enc num (sg_next s) ss q e"
    by (cases rss) auto
  then show ?case using Cons.IH[OF q(3)] scan_holds[OF q(2)] by simp
qed

lemma synced_all:
  assumes "segment_holds enc num s rs bs" "length (frames bs) \<le> f_durable (st_file (sg_store s))"
  shows "segment_synced enc num d s"
  unfolding segment_synced_iff[OF assms(1)] using length_frames_take[of _ bs] assms(2) by (rule order_trans)

lemma synced_none:
  assumes "segment_holds enc num s rs bs" "d < sg_base s"
  shows "segment_synced enc num d s"
  unfolding segment_synced_iff[OF assms(1)] using assms(2) by (simp add: word_less_nat_alt)

lemma synced_whole:
  assumes h: "segment_holds enc num s rs bs" and sy: "segment_synced enc num d s" and d: "sg_next s \<noteq> sg_base s" "sg_next s - 1 \<le> d"
  shows "segment_synced enc num d' s"
proof (rule synced_all[OF h])
  note b = holds_bounds[OF h]
  have "length rs = length bs" using h encodings_nth(1)[of enc rs bs] by (simp add: segment_holds_def)
  moreover have "unat (sg_next s - 1) = unat (sg_next s) - 1"
    using b(1,2) by (intro unat_minus_one) (auto simp: unat_eq_zero)
  ultimately have "length bs \<le> unat d + 1 - unat (sg_base s)" using d(2) b(2) by (simp add: word_le_nat_alt)
  then show "length (frames bs) \<le> f_durable (st_file (sg_store s))"
    using sy unfolding segment_synced_iff[OF h] by simp
qed

lemma segment_sync_holds:
  assumes "segment_holds enc num s rs bs"
  shows "\<exists>s'. segment_sync s = Inr s' \<and> segment_holds enc num s' rs bs \<and> sg_base s' = sg_base s \<and>
    sg_next s' = sg_next s \<and> sg_config s' = sg_config s \<and> length (frames bs) \<le> f_durable (st_file (sg_store s'))"
  using assms
  by (simp add: segment_sync_def segment_holds_def sync_holds)
    (simp add: store_sync_def sync_file_to_disk_fd_def file_size_def store_holds_def)

lemma chain_base_ge:
  "segment_chain enc num b ss rss e \<Longrightarrow> \<forall>s\<in>set ss. b \<le> sg_base s \<and> (\<exists>rs bs. segment_holds enc num s rs bs)"
proof (induction ss arbitrary: b rss)
  case (Cons s ss)
  then obtain rs q bs where q: "rss = rs # q" "segment_holds enc num s rs bs" "sg_base s = b"
    "segment_chain enc num (sg_next s) ss q e"
    by (cases rss) auto
  have "b \<le> sg_next s" using holds_bounds(2)[OF q(2)] q(3) by (simp add: word_le_nat_alt)
  then show ?case using Cons.IH[OF q(4)] q(2,3) by (auto intro: order_trans)
qed simp

lemma sync_loop_chain:
  assumes "segment_chain enc num b ss rss e" "\<forall>s\<in>set ss. segment_synced enc num d s \<and> sg_config s = c"
    "d < e" "t < b \<longrightarrow> t \<le> d"
  shows "\<exists>ss' d'. sync_loop ss d t = Inr (ss', d') \<and> segment_chain enc num b ss' rss e \<and>
    (\<forall>s\<in>set ss'. segment_synced enc num d' s \<and> sg_config s = c) \<and> d \<le> d' \<and> d' < e \<and> (t < e \<longrightarrow> t \<le> d')"
  using assms
proof (induction ss arbitrary: b rss d)
  case Nil
  then show ?case by (cases rss) auto
next
  case (Cons s ss)
  obtain rs q bs where q: "rss = rs # q" "segment_holds enc num s rs bs" "sg_base s = b"
    "segment_chain enc num (sg_next s) ss q e"
    using Cons.prems(1) by (rule chain_ConsE)
  have all: "\<forall>r\<in>set ss. segment_synced enc num d r \<and> sg_config r = c" "segment_synced enc num d s" "sg_config s = c"
    using Cons.prems(2) by simp_all
  note hb = holds_bounds[OF q(2)]
  have nz: "sg_next s \<noteq> 0" using hb(1,2) by (auto simp: unat_eq_zero)
  have um: "unat (sg_next s - 1) = unat (sg_next s) - 1" using nz by (rule unat_minus_one)
  have pos: "unat (sg_next s) > 0" using nz by (simp add: unat_gt_0)
  have ne: "unat (sg_next s) \<le> unat e" using chain_bounds(1)[OF q(4)] by simp
  show ?case
  proof (cases "sg_next s = sg_base s \<or> sg_next s - 1 \<le> d")
    case True
    have "t < sg_next s \<longrightarrow> t \<le> d"
    proof (cases "sg_next s = sg_base s")
      case False
      then show ?thesis using True um pos by (auto simp: word_less_nat_alt word_le_nat_alt)
    qed (use Cons.prems(4) q(3) in simp)
    then obtain ss' d' where r: "sync_loop ss d t = Inr (ss', d')" "segment_chain enc num (sg_next s) ss' q e"
      "\<forall>s\<in>set ss'. segment_synced enc num d' s \<and> sg_config s = c" "d \<le> d'" "d' < e" "t < e \<longrightarrow> t \<le> d'"
      using Cons.IH[OF q(4) all(1) Cons.prems(3)] by blast
    have "segment_synced enc num d' s"
    proof (cases "sg_next s = sg_base s")
      case True
      then have "bs = []" using q(2) hb(2) encodings_nth(1)[of enc rs bs] by (simp add: segment_holds_def)
      then show ?thesis using synced_all[OF q(2)] by simp
    next
      case False
      then show ?thesis using synced_whole[OF q(2) all(2)] True by blast
    qed
    moreover have "segment_chain enc num b (s # ss') rss e" using q r(2) by auto
    ultimately show ?thesis using r True all(3)
      by (rule_tac exI[of _ "s # ss'"], rule_tac exI[of _ d']) simp
  next
    case False
    obtain s' where s': "segment_sync s = Inr s'" "segment_holds enc num s' rs bs" "sg_base s' = sg_base s"
      "sg_next s' = sg_next s" "sg_config s' = sg_config s" "length (frames bs) \<le> f_durable (st_file (sg_store s'))"
      using segment_sync_holds[OF q(2)] by blast
    let ?d = "sg_next s - 1"
    have lt: "?d < sg_next s" "?d < e" "d \<le> ?d"
      using um pos ne False by (auto simp: word_less_nat_alt word_le_nat_alt)
    have rest: "segment_synced enc num ?d r \<and> sg_config r = c" if m: "r \<in> set ss" for r
    proof -
      obtain rs' bs' where "segment_holds enc num r rs' bs'" "sg_next s \<le> sg_base r"
        using chain_base_ge[OF q(4)] m by blast
      then show ?thesis using synced_none[of r rs' bs' ?d] lt(1) all(1) m by auto
    qed
    show ?thesis
    proof (cases "?d \<ge> t")
      case True
      moreover have "segment_chain enc num b (s' # ss) rss e" using q s'(2,3,4) by auto
      moreover have "sync_loop (s # ss) d t = Inr (s' # ss, ?d)" using False True s'(1,4) by (simp add: Let_def)
      ultimately show ?thesis
        using s'(5) all(3) lt rest synced_all[OF s'(2,6)]
        by (rule_tac exI[of _ "s' # ss"], rule_tac exI[of _ ?d]) simp
    next
      case nt: False
      then have "t < sg_next s \<longrightarrow> t \<le> ?d" using um pos by (auto simp: word_less_nat_alt word_le_nat_alt)
      then obtain ss' d' where r: "sync_loop ss ?d t = Inr (ss', d')" "segment_chain enc num (sg_next s) ss' q e"
        "\<forall>s\<in>set ss'. segment_synced enc num d' s \<and> sg_config s = c" "?d \<le> d'" "d' < e" "t < e \<longrightarrow> t \<le> d'"
        using Cons.IH[OF q(4) _ lt(2)] rest by blast
      moreover have "segment_chain enc num b (s' # ss') rss e" using q s'(2,3,4) r(2) by auto
      moreover have "sync_loop (s # ss) d t = Inr (s' # ss', d')" using False nt s'(1,4) r(1) by (simp add: Let_def)
      ultimately show ?thesis
        using s'(5) all(3) lt(3) synced_all[OF s'(2,6)]
        by (rule_tac exI[of _ "s' # ss'"], rule_tac exI[of _ d']) simp
    qed
  qed
qed

lemma chain_bases_sorted:
  assumes "segment_chain enc num b ss rss e" "\<forall>q\<in>set (butlast rss). q \<noteq> []"
  shows "sorted_wrt (<) (map sg_base ss)"
  using assms
proof (induction ss arbitrary: b rss)
  case (Cons s ss)
  obtain rs q bs where q: "rss = rs # q" "sg_base s = b" "segment_holds enc num s rs bs"
    "segment_chain enc num (sg_next s) ss q e"
    using Cons.prems(1) by (rule chain_ConsE)
  have "sorted_wrt (<) (map sg_base ss)"
    using Cons.IH[OF q(4)] Cons.prems(2) q(1) by (cases q) auto
  moreover have "sg_base s < sg_base r" if m: "r \<in> set ss" for r
  proof -
    have "q \<noteq> []" using q(4) m by (cases q; cases ss) auto
    then have "rs \<noteq> []" using Cons.prems(2) q(1) by simp
    then have "sg_base s < sg_next s" using holds_bounds(2)[OF q(3)] by (simp add: word_less_nat_alt)
    then show ?thesis using chain_base_ge[OF q(4)] m by auto
  qed
  ultimately show ?case by simp
qed simp

lemma discover_cut_dir:
  assumes "segment_chain enc num b ss rss e" "\<forall>q\<in>set (butlast rss). q \<noteq> []"
    "mset (map fst dir) = mset (base_names (map sg_base ss))"
  shows "discover (map fst dir) [] = Inr (both_files ss)"
proof -
  let ?bs = "map sg_base ss"
  have z: "0 \<notin> set ?bs"
  proof
    assume "0 \<in> set ?bs"
    then obtain s where s: "s \<in> set ss" "sg_base s = 0" by auto
    then obtain rs bs where "segment_holds enc num s rs bs" using chain_base_ge[OF assms(1)] by blast
    then show False using s(2) holds_bounds(1) by blast
  qed
  show ?thesis
    unfolding discover_order[OF assms(3)[symmetric] good_base_names[OF z], symmetric]
    using discover_bases[OF chain_bases_sorted[OF assms(1,2)] z, of "[]"] by (simp add: comp_def)
qed

lemma open_cut_segment:
  assumes h: "segment_holds enc num s rs bs" and c: "config_validate c = Inr ()"
    and f: "f_data sf = take n (f_data (st_file (sg_store s)))" "f_data xf = take m (f_data (ix_file (sg_index s)))"
  shows "\<exists>k s'. segment_open dec num (sg_base s) sf xf c = Inr s' \<and>
    k \<le> length rs \<and> segment_holds enc num s' (take k rs) (take k bs) \<and> sg_base s' = sg_base s \<and> sg_config s' = c \<and>
    (f_durable sf = length (f_data sf) \<longrightarrow> (\<forall>d. segment_synced enc num d s')) \<and>
    length (frames (take k bs)) \<le> n \<and> (\<forall>j \<le> length rs. length (frames (take j bs)) \<le> n \<longrightarrow> j \<le> k)"
proof -
  have f': "f_data sf = take n (frames bs)" "f_data xf = take m (index_image 0 (offsets bs))"
    using f h by (simp_all add: segment_holds_def store_holds_def index_holds_def)
  obtain k s' where k: "segment_open dec num (sg_base s) sf xf c = Inr s'" "k \<le> length rs"
    "segment_holds enc num s' (take k rs) (take k bs)" "sg_base s' = sg_base s" "sg_config s' = c"
    "length (frames (take k bs)) \<le> n" "\<forall>j \<le> length rs. length (frames (take j bs)) \<le> n \<longrightarrow> j \<le> k"
    using open_cut[OF h c f'] by blast
  have "\<forall>d. segment_synced enc num d s'" if "f_durable sf = length (f_data sf)"
    using open_durable[OF that k(1)] synced_all[OF k(3)] k(3) by (simp add: segment_holds_def store_holds_def)
  with k show ?thesis by blast
qed

lemma synced_survives:
  "segment_synced enc num d s \<Longrightarrow> f_durable (st_file (sg_store s)) \<le> cs (sg_base s) \<Longrightarrow> survives enc num d cs s"
  unfolding segment_synced_def survives_def using order_trans by blast

lemma opened_Cons:
  assumes h: "segment_holds enc num s rs bs" "sg_base s = b" "sg_config s = c" "dur \<longrightarrow> (\<forall>d. segment_synced enc num d s)"
    and rs: "rs \<noteq> []" and r: "opened enc num c dur (sg_next s) rest (n - length rs) res"
  shows "opened enc num c dur b (rs @ rest) n (res_bind res (\<lambda>ss. Inr (s # ss)))"
proof -
  obtain ss rss k where o: "res = Inr ss" "segment_chain enc num (sg_next s) ss rss (sg_next (last ss))" "ss \<noteq> []"
    "concat rss = take k rest" "\<forall>q\<in>set (butlast rss). q \<noteq> []"
    "\<forall>s\<in>set ss. sg_config s = c \<and> (dur \<longrightarrow> (\<forall>d. segment_synced enc num d s))" "min (n - length rs) (length rest) \<le> k"
    using r unfolding opened_def by blast
  have "segment_chain enc num b (s # ss) (rs # rss) (sg_next (last (s # ss)))" using h(1,2) o(2,3) by auto
  moreover have "concat (rs # rss) = take (length rs + k) (rs @ rest)" using o(4) by simp
  moreover have "min n (length (rs @ rest)) \<le> length rs + k" using o(7) by simp
  moreover have "\<forall>q\<in>set (butlast (rs # rss)). q \<noteq> []" using o(5) rs by simp
  ultimately show ?thesis
    unfolding opened_def using o(1,3,6) h(3,4)
    by (rule_tac exI[of _ "s # ss"], rule_tac exI[of _ "rs # rss"], rule_tac exI[of _ "length rs + k"]) simp
qed

lemma open_cut_chain:
  assumes "segment_chain enc num b ss rss e" "ss \<noteq> []" "\<forall>q\<in>set (butlast rss). q \<noteq> []"
    and c: "config_validate c = Inr ()"
    and "\<forall>s\<in>set ss. f_data (dir_file dir (segment_stem (sg_base s) @ ''.store'')) = take (cs (sg_base s)) (f_data (st_file (sg_store s))) \<and>
      f_data (dir_file dir (segment_stem (sg_base s) @ ''.index'')) = take (ci (sg_base s)) (f_data (ix_file (sg_index s)))"
    and "\<forall>s\<in>set ss. survives enc num d cs s"
    and "\<forall>s\<in>set (butlast ss). file_size (st_file (sg_store s)) \<le> cs (sg_base s)"
  shows "opened enc num c (all_durable dir) b (concat rss) (unat d + 1 - unat b) (open_segments dec num c dir (both_files ss) b)"
  using assms(1,2,3,5,6,7)
proof (induction ss arbitrary: b rss)
  case (Cons s ss)
  obtain rs q bs where q: "rss = rs # q" "sg_base s = b" "segment_holds enc num s rs bs"
    "segment_chain enc num (sg_next s) ss q e"
    using Cons.prems(1) by (rule chain_ConsE)
  have bs: "length rs = length bs" "f_data (st_file (sg_store s)) = frames bs"
    using q(3) encodings_nth(1)[of enc rs bs] by (simp_all add: segment_holds_def store_holds_def)
  let ?sf = "dir_file dir (segment_stem b @ ''.store'')" let ?xf = "dir_file dir (segment_stem b @ ''.index'')"
  have f: "f_data ?sf = take (cs b) (f_data (st_file (sg_store s)))" "f_data ?xf = take (ci b) (f_data (ix_file (sg_index s)))"
    using Cons.prems(4) q(2) by simp_all
  obtain k s' where k: "segment_open dec num b ?sf ?xf c = Inr s'"
    "k \<le> length rs" "segment_holds enc num s' (take k rs) (take k bs)" "sg_base s' = b" "sg_config s' = c"
    "all_durable dir \<longrightarrow> (\<forall>d. segment_synced enc num d s')" "\<forall>j \<le> length rs. length (frames (take j bs)) \<le> cs b \<longrightarrow> j \<le> k"
    using open_cut_segment[OF q(3) c f] dir_file_durable q(2) by blast
  show ?case
  proof (cases "ss = []")
    case True
    then have "q = []" using q(4) by (cases q) auto
    have "length (frames (take (unat d + 1 - unat b) bs)) \<le> cs b"
      using Cons.prems(5) q(2,3) by (auto simp: survives_def)
    then have "min (unat d + 1 - unat b) (length rs) \<le> k"
      using k(7) bs(1) by (cases "unat d + 1 - unat b \<le> length rs") auto
    moreover have "segment_chain enc num b [s'] [take k rs] (sg_next (last [s']))" using k(3,4) by auto
    ultimately show ?thesis
      unfolding opened_def using True k(1,5,6) q(1,2) \<open>q = []\<close>
      by (rule_tac exI[of _ "[s']"], rule_tac exI[of _ "[take k rs]"], rule_tac exI[of _ k]) simp
  next
    case False
    have "k = length rs"
      using k(2,7) Cons.prems(6) False bs q(2) by (auto simp: file_size_def)
    then have full: "segment_holds enc num s' rs bs" using k(3) bs by simp
    have nx: "sg_next s' = sg_next s" using holds_bounds(5)[OF full] holds_bounds(5)[OF q(3)] k(4) q(2) by simp
    have qn: "q \<noteq> []" using q(4) False by (cases q; cases ss) auto
    have ne: "rs \<noteq> []" "\<forall>q\<in>set (butlast q). q \<noteq> []" using Cons.prems(3) q(1) qn by auto
    have len: "unat d + 1 - unat b - length rs = unat d + 1 - unat (sg_next s)"
      using holds_bounds(2)[OF q(3)] q(2) by simp
    have "opened enc num c (all_durable dir) (sg_next s) (concat q) (unat d + 1 - unat (sg_next s)) (open_segments dec num c dir (both_files ss) (sg_next s))"
      using Cons.IH[OF q(4) False ne(2)] Cons.prems(4,5,6) False by simp
    then have "opened enc num c (all_durable dir) b (rs @ concat q) (unat d + 1 - unat b)
        (res_bind (open_segments dec num c dir (both_files ss) (sg_next s)) (\<lambda>ss. Inr (s' # ss)))"
      using opened_Cons[OF full k(4,5,6) ne(1)] len nx by simp
    then show ?thesis using k(1) nx q(1,2) by simp
  qed
qed simp

lemma whole_survives:
  assumes "file_size (st_file (sg_store s)) \<le> cs (sg_base s)"
  shows "survives enc num d cs s"
  unfolding survives_def
proof (intro allI impI)
  fix rs bs assume "segment_holds enc num s rs bs"
  then have "f_data (st_file (sg_store s)) = frames bs" by (simp add: segment_holds_def store_holds_def)
  then have "length (frames bs) \<le> cs (sg_base s)" using assms by (simp add: file_size_def)
  then show "length (frames (take (unat d + 1 - unat (sg_base s)) bs)) \<le> cs (sg_base s)"
    using length_frames_take order_trans by blast
qed

lemma sync_all_chain:
  assumes "segment_chain enc num b ss rss e"
  shows "\<exists>ss'. sync_all ss = Inr ss' \<and> segment_chain enc num b ss' rss e \<and> map sg_config ss' = map sg_config ss \<and>
    (\<forall>s\<in>set ss'. f_durable (st_file (sg_store s)) = file_size (st_file (sg_store s)) \<and>
       f_durable (ix_file (sg_index s)) = file_size (ix_file (sg_index s)))"
  using assms
proof (induction ss arbitrary: b rss)
  case (Cons s ss)
  obtain rs q bs where q: "rss = rs # q" "sg_base s = b" "segment_holds enc num s rs bs"
    "segment_chain enc num (sg_next s) ss q e"
    using Cons.prems by (rule chain_ConsE)
  let ?s = "s\<lparr>sg_store := store_sync (sg_store s), sg_index := index_sync (sg_index s)\<rparr>"
  have s: "segment_sync s = Inr ?s" "segment_holds enc num ?s rs bs"
    using q(3) by (simp_all add: segment_sync_def segment_holds_def)
  obtain ss' where "sync_all ss = Inr ss'" "segment_chain enc num (sg_next s) ss' q e" "map sg_config ss' = map sg_config ss"
    "\<forall>s\<in>set ss'. f_durable (st_file (sg_store s)) = file_size (st_file (sg_store s)) \<and>
       f_durable (ix_file (sg_index s)) = file_size (ix_file (sg_index s))"
    using Cons.IH[OF q(4)] by blast
  moreover have "f_durable (st_file (sg_store ?s)) = file_size (st_file (sg_store ?s))"
    "f_durable (ix_file (sg_index ?s)) = file_size (ix_file (sg_index ?s))"
    by (simp_all add: store_sync_def index_sync_def sync_file_to_disk_fd_def file_size_def)
  moreover have "\<exists>bs. segment_holds enc num ?s rs bs" using s(2) by blast
  ultimately show ?case using s(1) q(1,2) by (rule_tac exI[of _ "?s # ss'"]) simp
next
  case Nil
  then show ?case by (cases rss) simp_all
qed

lemma failed_last_append:
  assumes h: "segment_holds enc num s rs bs" and r: "num r = sg_next s" "enc r = Inr b" and sm: "small b"
    and c: "\<not> segment_is_maxed s" "roomy (sg_config s)" "unat (sg_next s) + 1 < 2 ^ 64"
    and a: "segment_append enc num fs fx s r = (Inl x, s')"
  shows "sg_recovery_required s'" "sg_base s' = sg_base s"
    "\<exists>v n m. segment_append enc num no_faults no_faults s r = (Inr (), v) \<and> sg_base v = sg_base s \<and>
       f_data (st_file (sg_store s')) = take n (f_data (st_file (sg_store v))) \<and>
       f_data (ix_file (sg_index s')) = take m (f_data (ix_file (sg_index v))) \<and>
       segment_holds enc num v (rs @ [r]) (bs @ [b]) \<and> length (frames bs) \<le> n"
proof -
  note room = room_for_one[OF h c(1,2) sm c(3)]
  have l: "length rs = length bs" "segment_fits (sg_base s) bs" "\<not> sg_recovery_required s"
    using h encodings_nth(1)[of enc rs bs] by (simp_all add: segment_holds_def)
  have "unat (num r - sg_base s) \<le> 2 ^ 32 - 1"
    using room relative_number(2)[OF l(2) order_refl] holds_bounds(5)[OF h] r(1) l(1) by (simp add: segment_fits_def)
  then show "sg_recovery_required s'" using segment_append_poisons[OF a l(3) r(1) _ r(2)] by blast
  obtain n m where cut: "f_data (st_file (sg_store s')) = take n (frames (bs @ [b]))" "length (frames bs) \<le> n"
    "f_data (ix_file (sg_index s')) = take m (index_image 0 (offsets (bs @ [b])))" "sg_base s' = sg_base s"
    using append_cut[OF h r sm room a] by blast
  then show "sg_base s' = sg_base s" by blast
  obtain v where v: "segment_append enc num no_faults no_faults s r = (Inr (), v)"
    "segment_holds enc num v (rs @ [r]) (bs @ [b])" "sg_base v = sg_base s"
    using append_holds[OF h r sm room] by blast
  then have "f_data (st_file (sg_store v)) = frames (bs @ [b])" "f_data (ix_file (sg_index v)) = index_image 0 (offsets (bs @ [b]))"
    by (simp_all add: segment_holds_def store_holds_def index_holds_def)
  with v cut show "\<exists>v n m. segment_append enc num no_faults no_faults s r = (Inr (), v) \<and> sg_base v = sg_base s \<and>
       f_data (st_file (sg_store s')) = take n (f_data (st_file (sg_store v))) \<and>
       f_data (ix_file (sg_index s')) = take m (f_data (ix_file (sg_index v))) \<and>
       segment_holds enc num v (rs @ [r]) (bs @ [b]) \<and> length (frames bs) \<le> n"
    by (rule_tac exI[of _ v], rule_tac exI[of _ n], rule_tac exI[of _ m]) simp
qed

text \<open>A completed segment that lost its tail makes the segments behind it unreachable.\<close>

lemma open_broken_chain:
  assumes "segment_chain enc num b ss rss e" "\<forall>q\<in>set (butlast rss). q \<noteq> []"
    and c: "config_validate c = Inr ()"
    and "\<forall>s\<in>set ss. f_data (dir_file dir (segment_stem (sg_base s) @ ''.store'')) = take (cs (sg_base s)) (f_data (st_file (sg_store s))) \<and>
      f_data (dir_file dir (segment_stem (sg_base s) @ ''.index'')) = take (ci (sg_base s)) (f_data (ix_file (sg_index s)))"
    and "\<exists>s\<in>set (butlast ss). cs (sg_base s) < file_size (st_file (sg_store s))"
  shows "open_segments dec num c dir (both_files ss) b = Inl Runtime_error"
  using assms(1,2,4,5)
proof (induction ss arbitrary: b rss)
  case (Cons s ss)
  obtain rs q bs where q: "rss = rs # q" "sg_base s = b" "segment_holds enc num s rs bs"
    "segment_chain enc num (sg_next s) ss q e"
    using Cons.prems(1) by (rule chain_ConsE)
  obtain t ts where t: "ss = t # ts" using Cons.prems(4) by (cases ss) auto
  have bs: "length rs = length bs" "f_data (st_file (sg_store s)) = frames bs"
    using q(3) encodings_nth(1)[of enc rs bs] by (simp_all add: segment_holds_def store_holds_def)
  let ?sf = "dir_file dir (segment_stem b @ ''.store'')" let ?xf = "dir_file dir (segment_stem b @ ''.index'')"
  have f: "f_data ?sf = take (cs b) (f_data (st_file (sg_store s)))" "f_data ?xf = take (ci b) (f_data (ix_file (sg_index s)))"
    using Cons.prems(3) q(2) by simp_all
  obtain k s' where k: "segment_open dec num b ?sf ?xf c = Inr s'" "k \<le> length rs"
    "segment_holds enc num s' (take k rs) (take k bs)" "sg_base s' = b" "length (frames (take k bs)) \<le> cs b"
    "\<forall>j \<le> length rs. length (frames (take j bs)) \<le> cs b \<longrightarrow> j \<le> k"
    using open_cut_segment[OF q(3) c f] q(2) by blast
  have nx: "unat (sg_next s') = unat b + k" "unat (sg_next s) = unat b + length rs"
    using holds_bounds(2)[OF k(3)] holds_bounds(2)[OF q(3)] k(2,4) q(2) by simp_all
  have base_t: "sg_base t = sg_next s" using q(4) unfolding t by (cases q) auto
  show ?case
  proof (cases "cs b < length (frames bs)")
    case True
    then have "k \<noteq> length rs" using k(5) bs(1) by auto
    then have "sg_base t \<noteq> sg_next s'" using nx base_t by auto
    then show ?thesis using k(1) q(2) by (simp add: t)
  next
    case False
    then have "k = length rs" using k(2,6) bs(1) by auto
    then have "sg_next s' = sg_next s" using nx by (simp add: word_unat_eq_iff)
    moreover have "\<exists>s\<in>set (butlast ss). cs (sg_base s) < file_size (st_file (sg_store s))"
      using Cons.prems(4) False q(2) bs(2) t by (auto simp: file_size_def)
    moreover have "\<forall>q\<in>set (butlast q). q \<noteq> []" using Cons.prems(2) q(1,4) by (cases q) auto
    ultimately have "open_segments dec num c dir (both_files ss) (sg_next s') = Inl Runtime_error"
      using Cons.IH[OF q(4)] Cons.prems(3) by simp
    then show ?thesis using k(1) q(2) by simp
  qed
qed simp

lemma open_intact_chain:
  assumes "segment_chain enc num b ss rss e" and c: "config_validate c = Inr ()"
    and "\<forall>s\<in>set ss. dir_file dir (segment_stem (sg_base s) @ ''.store'') = st_file (sg_store s) \<and>
      dir_file dir (segment_stem (sg_base s) @ ''.index'') = ix_file (sg_index s)"
  shows "\<exists>ss'. open_segments dec num c dir (both_files ss) b = Inr ss' \<and> map (\<lambda>s. st_file (sg_store s)) ss' = map (\<lambda>s. st_file (sg_store s)) ss \<and>
    map sg_next ss' = map sg_next ss"
  using assms(1,3)
proof (induction ss arbitrary: b rss)
  case (Cons s ss)
  obtain rs q bs where q: "rss = rs # q" "sg_base s = b" "segment_holds enc num s rs bs"
    "segment_chain enc num (sg_next s) ss q e"
    using Cons.prems(1) by (rule chain_ConsE)
  let ?sf = "st_file (sg_store s)" let ?xf = "ix_file (sg_index s)"
  have f: "f_data ?sf = frames bs" "f_data ?xf = index_image 0 (offsets bs)" "length rs = length bs"
    using q(3) encodings_nth(1)[of enc rs bs] by (simp_all add: segment_holds_def store_holds_def index_holds_def)
  have cut: "f_data ?sf = take (length (frames bs)) (f_data ?sf)" "f_data ?xf = take (length (f_data ?xf)) (f_data ?xf)"
    using f(1) by simp_all
  obtain k s' where k: "segment_open dec num (sg_base s) ?sf ?xf c = Inr s'" "k \<le> length rs"
    "segment_holds enc num s' (take k rs) (take k bs)" "sg_base s' = sg_base s"
    "\<forall>j \<le> length rs. length (frames (take j bs)) \<le> length (frames bs) \<longrightarrow> j \<le> k"
    using open_cut_segment[OF q(3) c cut] by blast
  have kk: "k = length rs" using k(2,5) length_frames_take[of "length rs" bs] by auto
  have nx: "sg_next s' = sg_next s" using holds_bounds(5)[OF k(3)] holds_bounds(5)[OF q(3)] k(4) kk by simp
  have st: "st_file (sg_store s') = ?sf"
    using open_intact[OF q(3) c f(1,2) k(1)] by (simp add: store_open_def Let_def)
  obtain ss' where "open_segments dec num c dir (both_files ss) (sg_next s) = Inr ss'"
    "map (\<lambda>s. st_file (sg_store s)) ss' = map (\<lambda>s. st_file (sg_store s)) ss" "map sg_next ss' = map sg_next ss"
    using Cons.IH[OF q(4)] Cons.prems(2) by auto
  then show ?case using k(1) nx st q(2) Cons.prems(2) by simp
qed simp

end

end
