(* ===== verification/Crc32c.thy ===== *)
theory Crc32c
  imports Endian
begin

text \<open>
  The CRC-32C checksum of \<open>src/src/encoding/Crc32c.cpp\<close> and the contract of the
  blocks sealed with it.  Log records, pages and Raft entries all carry the checksum
  of the block with its own checksum field read as zero.  The lemmas show that a
  sealed block verifies and that damage to any single byte is always noticed.
\<close>

unbundle bit_operations_syntax

definition crc_bit :: "u32 \<Rightarrow> u32" where
  "crc_bit crc = drop_bit 1 crc XOR (0x82F63B78 AND (0 - (crc AND 1)))"

definition crc_byte :: "u32 \<Rightarrow> u8 \<Rightarrow> u32" where
  "crc_byte crc v = (crc_bit ^^ 8) (crc XOR ucast v)"

definition crc32c :: "bytes \<Rightarrow> u32" where
  "crc32c data = foldl crc_byte 0xFFFFFFFF data XOR 0xFFFFFFFF"

section \<open>One changed byte changes the checksum\<close>

lemma xor_right_cancel: "(a XOR c = b XOR c) = (a = (b :: 'a::len word))"
  by (metis xor.assoc xor_self_eq xor.right_neutral)

lemma xor_left_cancel: "(c XOR a = c XOR b) = (a = (b :: 'a::len word))"
  by (metis xor.commute xor_right_cancel)

lemma crc_bit_alt: "crc_bit c = drop_bit 1 c XOR (if odd c then 0x82F63B78 else 0)"
  by (simp add: crc_bit_def and_one_eq mod_2_eq_odd)

lemma crc_bit_top: "bit (crc_bit c) 31 = odd c"
proof -
  have "\<not> bit c 32" using bit_imp_le_length[of c 32] by auto
  then show ?thesis unfolding crc_bit_alt bit_xor_iff bit_drop_bit_eq comp_def by simp
qed

lemma crc_bit_inj: "crc_bit c = crc_bit d \<Longrightarrow> c = d"
proof -
  assume e: "crc_bit c = crc_bit d"
  then have o: "odd c = odd d" using crc_bit_top[of c] crc_bit_top[of d] by simp
  then have "drop_bit 1 c = drop_bit 1 d" using e by (auto simp: crc_bit_alt xor_right_cancel split: if_splits)
  then have "bit (drop_bit 1 c) n = bit (drop_bit 1 d) n" for n by simp
  then have "bit c (Suc n) = bit d (Suc n)" for n by (simp add: bit_drop_bit_eq comp_def)
  moreover have "bit c 0 = bit d 0" using o by (simp add: bit_0)
  ultimately have "bit c n = bit d n" for n by (cases n) auto
  then show "c = d" by (auto intro: bit_eqI)
qed

lemma crc_bits_inj: "(crc_bit ^^ n) c = (crc_bit ^^ n) d \<Longrightarrow> c = d"
  by (induction n arbitrary: c d) (auto dest: crc_bit_inj)

lemma crc_byte_inj_state: "crc_byte c v = crc_byte d v \<Longrightarrow> c = d"
  using crc_bits_inj[of 8] xor_right_cancel unfolding crc_byte_def by blast

lemma byte_ucast_inj: "ucast (v :: u8) = (ucast w :: u32) \<Longrightarrow> v = w"
proof (rule bit_word_eqI)
  fix n assume "ucast v = (ucast w :: u32)" "n < LENGTH(8)"
  then have "bit (ucast v :: u32) n = bit (ucast w :: u32) n" "n < 32" by simp_all
  then show "bit v n = bit w n" by (simp add: bit_ucast_iff)
qed

lemma crc_byte_inj_byte: "crc_byte c v = crc_byte c w \<Longrightarrow> v = w"
  using crc_bits_inj[of 8] xor_left_cancel byte_ucast_inj unfolding crc_byte_def by blast

lemma crc_fold_inj: "foldl crc_byte c xs = foldl crc_byte d xs \<Longrightarrow> c = d"
  by (induction xs arbitrary: c d) (auto dest: crc_byte_inj_state)

lemma crc32c_one_byte:
  assumes "crc32c (xs @ v # ys) = crc32c (xs @ w # ys)"
  shows "v = w"
proof -
  let ?c = "foldl crc_byte 0xFFFFFFFF xs"
  have "foldl crc_byte (crc_byte ?c v) ys = foldl crc_byte (crc_byte ?c w) ys"
    using assms by (simp add: crc32c_def xor_right_cancel)
  then show ?thesis using crc_fold_inj crc_byte_inj_byte by blast
qed

lemma crc32c_update:
  assumes "i < length b" "v \<noteq> b ! i"
  shows "crc32c (b[i := v]) \<noteq> crc32c b"
proof
  assume e: "crc32c (b[i := v]) = crc32c b"
  have "b = take i b @ b ! i # drop (Suc i) b" using assms(1) by (rule id_take_nth_drop)
  moreover have "b[i := v] = take i b @ v # drop (Suc i) b" using assms(1) by (rule upd_conv_take_nth_drop)
  ultimately have "crc32c (take i b @ v # drop (Suc i) b) = crc32c (take i b @ b ! i # drop (Suc i) b)"
    using e by simp
  from crc32c_one_byte[OF this] assms(2) show False by simp
qed

section \<open>Blocks sealed with their own checksum\<close>

lemma write_at_update_outside:
  "i < off \<or> off + length z \<le> i \<Longrightarrow> write_at (b[i := v]) off z = (write_at b off z)[i := v]"
  by (induction b off z rule: write_at.induct) (auto simp: list_update_swap)

lemma write_at_update_inside:
  "off \<le> i \<Longrightarrow> i < off + length z \<Longrightarrow> write_at (b[i := v]) off z = write_at b off z"
proof (induction b off z rule: write_at.induct)
  case (2 b off x xs)
  show ?case
  proof (cases "i = off")
    case True
    then show ?thesis by simp
  next
    case False
    have "write_at (b[off := x, i := v]) (Suc off) xs = write_at (b[off := x]) (Suc off) xs"
      using False 2 by (intro 2(1)) auto
    with False show ?thesis by (simp add: list_update_swap)
  qed
qed simp

lemma write_at_again:
  assumes "length ys = length xs"
  shows "write_at (write_at b p xs) p ys = write_at b p ys"
  using assms
proof (induction xs ys arbitrary: b p rule: list_induct2')
  case (4 x xs y ys)
  have "write_at (write_at (b[p := x]) (Suc p) xs) p (y # ys) =
      write_at ((write_at (b[p := x]) (Suc p) xs)[p := y]) (Suc p) ys" by simp
  also have "(write_at (b[p := x]) (Suc p) xs)[p := y] = write_at (b[p := y]) (Suc p) xs"
    using write_at_update_outside[of p "Suc p" xs "b[p := x]" y] by simp
  finally show ?case using 4 by simp
qed auto

locale sealed_block =
  fixes checksum :: "bytes \<Rightarrow> u32" and field :: nat
  assumes checksum_zeroed:
    "field + 4 \<le> length b \<Longrightarrow> checksum b = crc32c (write_at b field (replicate 4 0))"
begin

lemma checksum_ignores_field:
  "field + 4 \<le> length b \<Longrightarrow> checksum (put_u32_be b field c) = checksum b"
  by (simp add: checksum_zeroed put_be write_at_again)

lemma seal_verifies:
  "field + 4 \<le> length b \<Longrightarrow>
   get_u32_be (put_u32_be b field (checksum b)) field = checksum (put_u32_be b field (checksum b))"
  by (simp add: checksum_ignores_field codec_simps)

lemma field_update_differs:
  assumes "field + 4 \<le> length b" "field \<le> i" "i < field + 4" "v \<noteq> b ! i"
  shows "get_u32_be (b[i := v]) field \<noteq> get_u32_be b field"
proof
  assume "get_u32_be (b[i := v]) field = get_u32_be b field"
  then have "take 4 (drop field (b[i := v])) = take 4 (drop field b)"
    using be32_get_slice[of field b] be32_get_slice[of field "b[i := v]"] assms(1) by simp
  then have "take 4 (drop field (b[i := v])) ! (i - field) = take 4 (drop field b) ! (i - field)" by simp
  with assms show False by simp
qed

lemma damage_detected:
  assumes len: "field + 4 \<le> length b" and good: "get_u32_be b field = checksum b"
    and i: "i < length b" "v \<noteq> b ! i"
  shows "get_u32_be (b[i := v]) field \<noteq> checksum (b[i := v])"
proof (cases "field \<le> i \<and> i < field + 4")
  case True
  then have "checksum (b[i := v]) = checksum b"
    using len by (simp add: checksum_zeroed write_at_update_inside)
  with field_update_differs[OF len _ _ i(2)] True good show ?thesis by simp
next
  case False
  then have out: "i < field \<or> field + 4 \<le> i" by auto
  have z: "write_at b field (replicate 4 0) ! i = b ! i"
    using out by (intro write_at_frame) simp
  have "checksum (b[i := v]) = crc32c ((write_at b field (replicate 4 0))[i := v])"
    using len out by (simp add: checksum_zeroed write_at_update_outside)
  also have "\<dots> \<noteq> crc32c (write_at b field (replicate 4 0))"
    using crc32c_update[of i "write_at b field (replicate 4 0)" v] i z by simp
  finally have "checksum (b[i := v]) \<noteq> checksum b" using len by (simp add: checksum_zeroed)
  moreover have "get_u32_be (b[i := v]) field = get_u32_be b field"
    using out by (intro f32.get_unaffected) auto
  ultimately show ?thesis using good by simp
qed

end

end
