(* ===== verification/WalRecord.thy ===== *)
theory WalRecord
  imports Crc32c
begin

text \<open>
  Log records and their framing, after \<open>src/include/Log/WalRecord.h\<close> and
  \<open>src/src/Log/WalRecordCodec.cpp\<close>.  The 16-bit type tag read from disk is converted
  before it is checked, so a value outside the enumeration is kept as \<open>Unknown_type\<close>.
  The theorems show that records and accepted encodings correspond one to one, and that
  truncation and damage of any single byte are noticed.
\<close>

type_synonym Lsn = u64

datatype WalRecordType =
    TxnBegin
  | BTreeAction
  | Compensation
  | SystemAction
  | TxnCommit
  | TxnAbort
  | TxnEnd
  | Unknown_type u16

record PendingWalRecord =
  pw_type :: WalRecordType
  pw_transaction_id :: u64
  pw_prev_lsn :: Lsn
  pw_data :: bytes

record WalRecord =
  w_lsn :: Lsn
  w_type :: WalRecordType
  w_transaction_id :: u64
  w_prev_lsn :: Lsn
  w_data :: bytes

fun wal_type_code :: "WalRecordType \<Rightarrow> u16" where
  "wal_type_code TxnBegin = 1"
| "wal_type_code BTreeAction = 2"
| "wal_type_code Compensation = 3"
| "wal_type_code SystemAction = 4"
| "wal_type_code TxnCommit = 5"
| "wal_type_code TxnAbort = 6"
| "wal_type_code TxnEnd = 7"
| "wal_type_code (Unknown_type c) = c"

definition wal_type_of :: "u16 \<Rightarrow> WalRecordType" where
  "wal_type_of c =
     (if c = 1 then TxnBegin else if c = 2 then BTreeAction else if c = 3 then Compensation
      else if c = 4 then SystemAction else if c = 5 then TxnCommit else if c = 6 then TxnAbort
      else if c = 7 then TxnEnd else Unknown_type c)"

definition WAL_MAGIC :: bytes where "WAL_MAGIC = [0x53, 0x4C, 0x57, 0x4C]"
definition WAL_HEADER_SIZE :: nat where "WAL_HEADER_SIZE = 40"
definition FORMAT_VERSION :: u16 where "FORMAT_VERSION = 1"

fun is_known_type :: "WalRecordType \<Rightarrow> bool" where
  "is_known_type (Unknown_type _) = False"
| "is_known_type _ = True"

definition validate_fields :: "WalRecord \<Rightarrow> bool \<Rightarrow> unit res" where
  "validate_fields r decoding =
     (let fail = Inl (if decoding then Runtime_error else Invalid_argument)
      in if w_lsn r = 0 then fail
         else if \<not> is_known_type (w_type r) then fail
         else if w_type r = SystemAction then
           (if w_transaction_id r \<noteq> 0 \<or> w_prev_lsn r \<noteq> 0 then fail else Inr ())
         else if w_transaction_id r = 0 then fail
         else if w_type r = TxnBegin then (if w_prev_lsn r \<noteq> 0 then fail else Inr ())
         else if w_prev_lsn r = 0 then fail
         else Inr ())"

definition record_checksum :: "bytes \<Rightarrow> u32" where
  "record_checksum encoded = crc32c (write_at encoded 12 (replicate 4 0))"

definition wal_encode :: "WalRecord \<Rightarrow> bytes res" where
  "wal_encode r =
     res_bind (validate_fields r False) (\<lambda>_.
       if length (w_data r) > 2 ^ 32 - 1 - WAL_HEADER_SIZE then Inl Invalid_argument
       else
         let n = WAL_HEADER_SIZE + length (w_data r);
             e = replicate n 0;
             e = write_at e 0 WAL_MAGIC;
             e = put_u16_be e 4 FORMAT_VERSION;
             e = put_u16_be e 6 (wal_type_code (w_type r));
             e = put_u32_be e 8 (of_nat n);
             e = put_u64_be e 16 (w_lsn r);
             e = put_u64_be e 24 (w_transaction_id r);
             e = put_u64_be e 32 (w_prev_lsn r);
             e = write_at e WAL_HEADER_SIZE (w_data r)
         in Inr (put_u32_be e 12 (record_checksum e)))"

definition wal_decode :: "bytes \<Rightarrow> WalRecord res" where
  "wal_decode e =
     (if length e < WAL_HEADER_SIZE then Inl Runtime_error
      else if take 4 e \<noteq> WAL_MAGIC then Inl Runtime_error
      else if get_u16_be e 4 \<noteq> FORMAT_VERSION then Inl Runtime_error
      else if unat (get_u32_be e 8) \<noteq> length e then Inl Runtime_error
      else if get_u32_be e 12 \<noteq> record_checksum e then Inl Runtime_error
      else
        let r = \<lparr>w_lsn = get_u64_be e 16, w_type = wal_type_of (get_u16_be e 6),
                 w_transaction_id = get_u64_be e 24, w_prev_lsn = get_u64_be e 32,
                 w_data = drop WAL_HEADER_SIZE e\<rparr>
        in res_bind (validate_fields r True) (\<lambda>_. Inr r))"

section \<open>Layout\<close>

interpretation wr: sealed_block record_checksum 12
  by unfold_locales (simp add: record_checksum_def)

lemma length_WAL_MAGIC [simp]: "length WAL_MAGIC = 4"
  by (simp add: WAL_MAGIC_def)

lemma wal_type_code_of [simp]: "wal_type_code (wal_type_of c) = c"
  by (simp add: wal_type_of_def)

lemma wal_type_of_code: "is_known_type t \<Longrightarrow> wal_type_of (wal_type_code t) = t"
  by (cases t) (simp_all add: wal_type_of_def)

lemma validate_fields_mode: "(validate_fields r d = Inr u) = (validate_fields r d' = Inr u)"
  by (simp add: validate_fields_def Let_def)

lemma validate_fields_known: "validate_fields r d = Inr u \<Longrightarrow> is_known_type (w_type r)"
  by (auto simp: validate_fields_def Let_def split: if_splits)

definition wal_image :: "WalRecord \<Rightarrow> u32 \<Rightarrow> bytes" where
  "wal_image r c =
     (WAL_MAGIC @ be16 FORMAT_VERSION @ be16 (wal_type_code (w_type r)) @
      be32 (of_nat (WAL_HEADER_SIZE + length (w_data r)))) @ be32 c @
     be64 (w_lsn r) @ be64 (w_transaction_id r) @ be64 (w_prev_lsn r) @ w_data r"

lemma length_wal_image [simp, width_simps]: "length (wal_image r c) = WAL_HEADER_SIZE + length (w_data r)"
  by (simp add: wal_image_def WAL_HEADER_SIZE_def)

lemma be32_zero: "be32 0 = replicate 4 0"
  by (simp add: be32_def numeral_eq_Suc)

lemma write_next_gap:
  assumes "length pre + g = p" "g + length bs \<le> n"
  shows "write_at (pre @ replicate n 0) p bs = (pre @ replicate g 0 @ bs) @ replicate (n - g - length bs) 0"
  using write_next[of p "pre @ replicate g 0" bs "n - g"] assms by (simp flip: replicate_add)

lemma wal_encode_image:
  "wal_encode r = Inr b \<longleftrightarrow> validate_fields r False = Inr () \<and> WAL_HEADER_SIZE + length (w_data r) < 2 ^ 32 \<and>
     b = put_u32_be (wal_image r 0) 12 (record_checksum (wal_image r 0))"
proof -
  let ?n = "WAL_HEADER_SIZE + length (w_data r)"
  let ?h = "put_u32_be (put_u16_be (put_u16_be (write_at (replicate ?n 0) 0 WAL_MAGIC) 4 FORMAT_VERSION)
      6 (wal_type_code (w_type r))) 8 (of_nat ?n)"
  let ?e = "write_at (put_u64_be (put_u64_be (put_u64_be ?h 16 (w_lsn r)) 24 (w_transaction_id r)) 32
      (w_prev_lsn r)) WAL_HEADER_SIZE (w_data r)"
  have h: "?h = (WAL_MAGIC @ be16 FORMAT_VERSION @ be16 (wal_type_code (w_type r)) @ be32 (of_nat ?n)) @
      replicate (28 + length (w_data r)) 0"
    by (simp add: put_be write_first write_next WAL_HEADER_SIZE_def del: append_assoc)
  have "?e = wal_image r 0"
    unfolding h unfolding put_be wal_image_def be32_zero
    by (simp add: write_next_gap[where g = 4] write_next WAL_HEADER_SIZE_def del: append_assoc)
  then show ?thesis
    by (auto simp: wal_encode_def Let_def WAL_HEADER_SIZE_def)
qed

lemma wal_image_get [codec_simps]:
  "take 4 (wal_image r c) = WAL_MAGIC" "get_u16_be (wal_image r c) 4 = FORMAT_VERSION"
  "get_u16_be (wal_image r c) 6 = wal_type_code (w_type r)"
  "get_u32_be (wal_image r c) 8 = of_nat (WAL_HEADER_SIZE + length (w_data r))"
  "get_u32_be (wal_image r c) 12 = c"
  "get_u64_be (wal_image r c) 16 = w_lsn r" "get_u64_be (wal_image r c) 24 = w_transaction_id r"
  "get_u64_be (wal_image r c) 32 = w_prev_lsn r" "drop WAL_HEADER_SIZE (wal_image r c) = w_data r"
proof -
  let ?t = "be16 (wal_type_code (w_type r))"
  let ?n = "be32 (of_nat (WAL_HEADER_SIZE + length (w_data r)))"
  let ?h = "WAL_MAGIC @ be16 FORMAT_VERSION @ ?t @ ?n"
  note i = wal_image_def append_assoc
  show "take 4 (wal_image r c) = WAL_MAGIC" by (simp add: wal_image_def)
  show "get_u16_be (wal_image r c) 4 = FORMAT_VERSION" unfolding i by (rule get_be) simp
  show "get_u16_be (wal_image r c) 6 = wal_type_code (w_type r)"
    using get_be(1)[of 6 "WAL_MAGIC @ be16 FORMAT_VERSION"] by (simp add: wal_image_def)
  show "get_u32_be (wal_image r c) 8 = of_nat (WAL_HEADER_SIZE + length (w_data r))"
    using get_be(2)[of 8 "WAL_MAGIC @ be16 FORMAT_VERSION @ ?t"] by (simp add: wal_image_def)
  show "get_u32_be (wal_image r c) 12 = c" unfolding wal_image_def by (rule get_be) simp
  show "get_u64_be (wal_image r c) 16 = w_lsn r"
    using get_be(3)[of 16 "?h @ be32 c"] by (simp add: wal_image_def)
  show "get_u64_be (wal_image r c) 24 = w_transaction_id r"
    using get_be(3)[of 24 "?h @ be32 c @ be64 (w_lsn r)"] by (simp add: wal_image_def)
  show "get_u64_be (wal_image r c) 32 = w_prev_lsn r"
    using get_be(3)[of 32 "?h @ be32 c @ be64 (w_lsn r) @ be64 (w_transaction_id r)"] by (simp add: wal_image_def)
  show "drop WAL_HEADER_SIZE (wal_image r c) = w_data r"
    by (simp add: wal_image_def WAL_HEADER_SIZE_def)
qed

lemma put_checksum_image: "put_u32_be (wal_image r c) 12 d = wal_image r d"
  unfolding put_be wal_image_def by (rule write_at_append) simp_all

lemma image_checksum: "record_checksum (wal_image r c) = record_checksum (wal_image r 0)"
  using wr.checksum_ignores_field[of "wal_image r 0" c] by (simp add: put_checksum_image WAL_HEADER_SIZE_def)

lemma take_drop_chain: "drop p b = take n (drop p b) @ drop (p + n) b"
  by (simp add: add.commute flip: drop_drop)

lemma wal_image_of_bytes:
  assumes "WAL_HEADER_SIZE \<le> length b" "take 4 b = WAL_MAGIC" "get_u16_be b 4 = FORMAT_VERSION"
    "unat (get_u32_be b 8) = length b"
    and r: "r = \<lparr>w_lsn = get_u64_be b 16, w_type = wal_type_of (get_u16_be b 6),
      w_transaction_id = get_u64_be b 24, w_prev_lsn = get_u64_be b 32, w_data = drop WAL_HEADER_SIZE b\<rparr>"
  shows "b = wal_image r (get_u32_be b 12)"
proof -
  have l: "40 \<le> length b" using assms(1) by (simp add: WAL_HEADER_SIZE_def)
  have n: "of_nat (length b) = get_u32_be b 8" using assms(4) by (metis of_nat_unat_id)
  have "b = take 4 b @ drop 4 b" by simp
  also have "drop 4 b = be16 (get_u16_be b 4) @ drop 6 b"
    using take_drop_chain[of 4 b 2] l by (simp add: be16_get_slice)
  also have "drop 6 b = be16 (get_u16_be b 6) @ drop 8 b"
    using take_drop_chain[of 6 b 2] l by (simp add: be16_get_slice)
  also have "drop 8 b = be32 (get_u32_be b 8) @ drop 12 b"
    using take_drop_chain[of 8 b 4] l by (simp add: be32_get_slice)
  also have "drop 12 b = be32 (get_u32_be b 12) @ drop 16 b"
    using take_drop_chain[of 12 b 4] l by (simp add: be32_get_slice)
  also have "drop 16 b = be64 (get_u64_be b 16) @ drop 24 b"
    using take_drop_chain[of 16 b 8] l by (simp add: be64_get_slice)
  also have "drop 24 b = be64 (get_u64_be b 24) @ drop 32 b"
    using take_drop_chain[of 24 b 8] l by (simp add: be64_get_slice)
  also have "drop 32 b = be64 (get_u64_be b 32) @ drop 40 b"
    using take_drop_chain[of 32 b 8] l by (simp add: be64_get_slice)
  finally show ?thesis
    using assms(2,3) l by (simp add: wal_image_def r WAL_HEADER_SIZE_def n)
qed

lemma wal_decode_image:
  "wal_decode b = Inr r \<longleftrightarrow> validate_fields r False = Inr () \<and> WAL_HEADER_SIZE + length (w_data r) < 2 ^ 32 \<and>
     b = wal_image r (record_checksum b)" (is "?L \<longleftrightarrow> ?R")
proof
  assume ?L
  then have c: "WAL_HEADER_SIZE \<le> length b" "take 4 b = WAL_MAGIC" "get_u16_be b 4 = FORMAT_VERSION"
    "unat (get_u32_be b 8) = length b" "get_u32_be b 12 = record_checksum b" "validate_fields r True = Inr ()"
    and r: "r = \<lparr>w_lsn = get_u64_be b 16, w_type = wal_type_of (get_u16_be b 6),
      w_transaction_id = get_u64_be b 24, w_prev_lsn = get_u64_be b 32, w_data = drop WAL_HEADER_SIZE b\<rparr>"
    by (auto simp: wal_decode_def Let_def split: if_splits)
  have "length b < 2 ^ 32" using c(4) unat_bound[of "get_u32_be b 8"] by simp
  then show ?R
    using wal_image_of_bytes[OF c(1-4) r] c r validate_fields_mode[of r True _ False] by simp
next
  assume R: ?R
  then have g: "wal_type_of (wal_type_code (w_type r)) = w_type r"
    using validate_fields_known wal_type_of_code by blast
  have u: "unat (of_nat (WAL_HEADER_SIZE + length (w_data r)) :: u32) = WAL_HEADER_SIZE + length (w_data r)"
    using R by (intro unat_of_nat_lt) simp
  define c where "c = record_checksum b"
  have b: "b = wal_image r c" using R by (simp add: c_def)
  then have c: "record_checksum (wal_image r c) = c" by (simp add: c_def)
  have e: "\<lparr>w_lsn = w_lsn r, w_type = w_type r, w_transaction_id = w_transaction_id r,
    w_prev_lsn = w_prev_lsn r, w_data = w_data r\<rparr> = r" by (cases r) simp
  have "validate_fields r True = Inr ()" using R validate_fields_mode[of r False _ True] by simp
  then show ?L
    using R g u c
    by (simp add: b wal_decode_def Let_def wal_image_get e del: of_nat_add)
qed

section \<open>Properties\<close>

lemma wal_decode_error: "wal_decode b = Inl e \<Longrightarrow> e = Runtime_error"
  by (auto simp: wal_decode_def validate_fields_def Let_def split: if_splits)

lemma wal_decode_fails: "(\<And>r. wal_decode b \<noteq> Inr r) \<Longrightarrow> wal_decode b = Inl Runtime_error"
  using wal_decode_error by (cases "wal_decode b") auto

lemma wal_decode_sealed:
  "wal_decode b = Inr r \<Longrightarrow> WAL_HEADER_SIZE \<le> length b \<and> get_u32_be b 12 = record_checksum b \<and>
     unat (get_u32_be b 8) = length b"
  by (auto simp: wal_decode_def split: if_splits)

text \<open>C10: encoding and decoding of log records are inverse to each other.  A byte string is
  the encoding of a record exactly when it decodes to that record, so every accepted
  record survives the round trip and every accepted byte string is canonical.\<close>

theorem wal_codec_bijection: "(wal_encode r = Inr b) = (wal_decode b = Inr r)"
proof -
  have "(b = put_u32_be (wal_image r 0) 12 (record_checksum (wal_image r 0))) = (b = wal_image r (record_checksum b))"
    unfolding put_checksum_image by (metis image_checksum)
  then show ?thesis by (simp add: wal_encode_image wal_decode_image)
qed

text \<open>C11: a damaged log record is never replayed.  Whatever single byte of an accepted
  encoding changes, and wherever it is cut short, decoding throws.\<close>

theorem wal_damage_detected:
  assumes "wal_decode b = Inr r"
  shows "(i < length b \<and> v \<noteq> b ! i \<longrightarrow> wal_decode (b[i := v]) = Inl Runtime_error) \<and>
    (n < length b \<longrightarrow> wal_decode (take n b) = Inl Runtime_error)"
proof (intro conjI impI; (elim conjE)?)
  note s = wal_decode_sealed[OF assms]
  { assume "i < length b" "v \<noteq> b ! i"
    then have "get_u32_be (b[i := v]) 12 \<noteq> record_checksum (b[i := v])"
      using s by (intro wr.damage_detected) (auto simp: WAL_HEADER_SIZE_def)
    then show "wal_decode (b[i := v]) = Inl Runtime_error"
      by (intro wal_decode_fails) (auto dest: wal_decode_sealed) }
  { assume n: "n < length b"
    have "get_u32_be (take n b) 8 = get_u32_be b 8" if "WAL_HEADER_SIZE \<le> n"
      using that by (intro f32.get_take) (simp add: WAL_HEADER_SIZE_def)
    with n s show "wal_decode (take n b) = Inl Runtime_error"
      by (intro wal_decode_fails) (auto dest!: wal_decode_sealed) }
qed

definition sample_wal_record :: WalRecord where
  "sample_wal_record = \<lparr>w_lsn = 1, w_type = TxnBegin, w_transaction_id = 5, w_prev_lsn = 0, w_data = [1]\<rparr>"

lemma sample_wal_decodes:
  "wal_decode (wal_image sample_wal_record (record_checksum (wal_image sample_wal_record 0))) = Inr sample_wal_record"
  by (simp add: wal_decode_image image_checksum[of _ "record_checksum _"] validate_fields_def
      sample_wal_record_def WAL_HEADER_SIZE_def)

theorem wal_damage_detected_witness:
  "wal_decode (take 40 (wal_image sample_wal_record (record_checksum (wal_image sample_wal_record 0)))) =
   Inl Runtime_error"
  using wal_damage_detected[OF sample_wal_decodes, of 0 0 40]
  by (simp add: WAL_HEADER_SIZE_def sample_wal_record_def)

end
