(* ===== verification/PageCodec.thy ===== *)
theory PageCodec
  imports Crc32c
begin

text \<open>
  Page images, after \<open>src/src/V2PageCodec.cpp\<close>, \<open>src/src/DBHeaderCodec.cpp\<close> and
  \<open>src/src/JournalCodec.cpp\<close>.  A page is its byte string; the encoded kind is a
  number, so a value outside the enumeration is kept as \<open>InvalidKind\<close>.
  \<open>assert\<close> on the kind is a precondition of the callers.
\<close>

definition V2_PAGE_SIZE :: nat where "V2_PAGE_SIZE = 4096"
definition V2_PAGE_HEADER_SIZE :: nat where "V2_PAGE_HEADER_SIZE = 24"
definition V2_PAGE_PAYLOAD_SIZE :: nat where "V2_PAGE_PAYLOAD_SIZE = V2_PAGE_SIZE - V2_PAGE_HEADER_SIZE"

definition PAGE_MAGIC :: bytes where "PAGE_MAGIC = [0x53, 0x4C, 0x50, 0x47]"

datatype V2PageKind =
    DatabaseMetadata
  | Freelist
  | BTreeInternal
  | BTreeLeaf
  | InvalidKind u32

fun page_kind_code :: "V2PageKind \<Rightarrow> u32" where
  "page_kind_code DatabaseMetadata = 1"
| "page_kind_code Freelist = 2"
| "page_kind_code BTreeInternal = 3"
| "page_kind_code BTreeLeaf = 4"
| "page_kind_code (InvalidKind c) = c"

definition page_kind_of :: "u32 \<Rightarrow> V2PageKind" where
  "page_kind_of c =
     (if c = 1 then DatabaseMetadata else if c = 2 then Freelist else if c = 3 then BTreeInternal
      else if c = 4 then BTreeLeaf else InvalidKind c)"

fun is_valid_page_kind :: "V2PageKind \<Rightarrow> bool" where
  "is_valid_page_kind (InvalidKind _) = False"
| "is_valid_page_kind _ = True"

datatype V2PageCodecResult =
    PageSuccess | InvalidSize | InvalidMagic | InvalidPageKind | ChecksumMismatch

definition compute_checksum :: "bytes \<Rightarrow> u32" where
  "compute_checksum page = crc32c (write_at page 16 (replicate 4 0))"

definition update_checksum :: "bytes \<Rightarrow> bytes" where
  "update_checksum page = put_u32_be page 16 (compute_checksum page)"

definition page_initialize :: "u32 \<Rightarrow> V2PageKind \<Rightarrow> bytes" where
  "page_initialize page_num_value kind =
     (let page = replicate V2_PAGE_SIZE 0;
          page = write_at page 0 PAGE_MAGIC;
          page = put_u32_be page 4 page_num_value;
          page = put_u64_be page 8 0;
          page = put_u32_be page 20 (page_kind_code kind)
      in update_checksum page)"

definition page_num :: "bytes \<Rightarrow> u32" where
  "page_num page = get_u32_be page 4"

definition page_lsn :: "bytes \<Rightarrow> u64" where
  "page_lsn page = get_u64_be page 8"

definition page_kind :: "bytes \<Rightarrow> V2PageKind" where
  "page_kind page = page_kind_of (get_u32_be page 20)"

definition set_page_lsn :: "bytes \<Rightarrow> u64 \<Rightarrow> bytes" where
  "set_page_lsn page lsn = put_u64_be page 8 lsn"

definition set_page_kind :: "bytes \<Rightarrow> V2PageKind \<Rightarrow> bytes" where
  "set_page_kind page kind = put_u32_be page 20 (page_kind_code kind)"

definition validate_structure :: "bytes \<Rightarrow> V2PageCodecResult" where
  "validate_structure page =
     (if length page \<noteq> V2_PAGE_SIZE then InvalidSize
      else if take 4 page \<noteq> PAGE_MAGIC then InvalidMagic
      else if \<not> is_valid_page_kind (page_kind page) then InvalidPageKind
      else PageSuccess)"

definition page_validate :: "bytes \<Rightarrow> V2PageCodecResult" where
  "page_validate page =
     (let structure = validate_structure page
      in if structure \<noteq> PageSuccess then structure
         else if get_u32_be page 16 \<noteq> compute_checksum page then ChecksumMismatch
         else PageSuccess)"

section \<open>Database header\<close>

record DBHeader =
  magic_header :: bytes
  file_change_counter :: u32
  db_page_count :: u32
  freelist_head_page_num :: u32
  freelist_page_count :: u32
  btree_root_page_num :: u32

definition DBHeader_magic_string :: bytes where
  "DBHeader_magic_string =
     [0x53, 0x51, 0x4C, 0x69, 0x74, 0x65, 0x20, 0x66,
      0x6F, 0x72, 0x6D, 0x61, 0x74, 0x20, 0x33, 0x00]"

definition serialize_DBHeader :: "DBHeader \<Rightarrow> bytes \<Rightarrow> nat \<Rightarrow> bytes" where
  "serialize_DBHeader h out p =
     (let out = write_at out p (magic_header h);
          out = put_u32_be out (p + 16) (file_change_counter h);
          out = put_u32_be out (p + 20) (db_page_count h);
          out = put_u32_be out (p + 24) (freelist_head_page_num h);
          out = put_u32_be out (p + 28) (freelist_page_count h)
      in put_u32_be out (p + 32) (btree_root_page_num h))"

definition deserialize_DBHeader :: "bytes \<Rightarrow> nat \<Rightarrow> DBHeader" where
  "deserialize_DBHeader inp p =
     \<lparr>magic_header = take 16 (drop p inp),
      file_change_counter = get_u32_be inp (p + 16),
      db_page_count = get_u32_be inp (p + 20),
      freelist_head_page_num = get_u32_be inp (p + 24),
      freelist_page_count = get_u32_be inp (p + 28),
      btree_root_page_num = get_u32_be inp (p + 32)\<rparr>"

definition validate_DBHeader :: "DBHeader \<Rightarrow> bool" where
  "validate_DBHeader h =
     (if magic_header h \<noteq> DBHeader_magic_string then False
      else if btree_root_page_num h \<noteq> 0 \<and> btree_root_page_num h \<ge> db_page_count h then False
      else if freelist_page_count h = 0 then freelist_head_page_num h = 0
      else if freelist_head_page_num h = 0 then False
      else if freelist_head_page_num h \<ge> db_page_count h then False
      else True)"

section \<open>Rollback journal\<close>

record JournalHeader =
  jmagic :: bytes
  jpage_count :: u32
  jnonce :: u32
  init_db_page_count :: u32

record JournalPageRecord =
  jrec_page_num :: u32
  jrec_data :: bytes
  jrec_checksum :: u32

definition JOURNAL_MAGIC :: bytes where
  "JOURNAL_MAGIC = [0xd9, 0xd5, 0x05, 0xf9, 0x20, 0xa1, 0x63, 0xd7]"

definition serialize_jHeader :: "JournalHeader \<Rightarrow> bytes \<Rightarrow> bytes" where
  "serialize_jHeader h out =
     (let out = write_at out 0 (jmagic h);
          out = put_u32_be out 8 (jpage_count h);
          out = put_u32_be out 12 (jnonce h)
      in put_u32_be out 16 (init_db_page_count h))"

definition deserialize_jHeader :: "bytes \<Rightarrow> JournalHeader" where
  "deserialize_jHeader inp =
     \<lparr>jmagic = take 8 inp, jpage_count = get_u32_be inp 8, jnonce = get_u32_be inp 12,
      init_db_page_count = get_u32_be inp 16\<rparr>"

definition serialize_jPage_record :: "JournalPageRecord \<Rightarrow> bytes \<Rightarrow> bytes" where
  "serialize_jPage_record r out =
     (let out = put_u32_be out 0 (jrec_page_num r);
          out = write_at out 4 (jrec_data r)
      in put_u32_be out (4 + V2_PAGE_SIZE) (jrec_checksum r))"

definition deserialize_jPage_record :: "bytes \<Rightarrow> JournalPageRecord" where
  "deserialize_jPage_record inp =
     \<lparr>jrec_page_num = get_u32_be inp 0, jrec_data = take V2_PAGE_SIZE (drop 4 inp),
      jrec_checksum = get_u32_be inp (4 + V2_PAGE_SIZE)\<rparr>"

text \<open>
  The loop of \<open>Journal::checksum\<close>: the signed cursor \<open>X\<close> starts one stride below the
  end of the page and goes down until it is negative.
\<close>

function journal_sum :: "bytes \<Rightarrow> int \<Rightarrow> u32 \<Rightarrow> u32" where
  "journal_sum page X value =
     (if X \<ge> 0 then journal_sum page (X - 200) (value + ucast (page ! nat X)) else value)"
  by pat_completeness auto
termination by (relation "measure (\<lambda>(page, X, value). nat (X + 200))") auto

declare journal_sum.simps [simp del]

definition journal_checksum :: "u32 \<Rightarrow> bytes \<Rightarrow> u32" where
  "journal_checksum nonce page = journal_sum page (int (length page) - 200) nonce"

definition validate_journal_record_checksum :: "JournalPageRecord \<Rightarrow> JournalHeader \<Rightarrow> bool" where
  "validate_journal_record_checksum r h =
     (journal_checksum (jnonce h) (jrec_data r) = jrec_checksum r)"

definition validate_journal_header :: "JournalHeader \<Rightarrow> bool" where
  "validate_journal_header h = (jmagic h = JOURNAL_MAGIC)"

section \<open>Page images\<close>

interpretation pc: sealed_block compute_checksum 16
  by unfold_locales (simp add: compute_checksum_def)

lemmas page_sizes = V2_PAGE_SIZE_def V2_PAGE_HEADER_SIZE_def

lemma length_PAGE_MAGIC [simp]: "length PAGE_MAGIC = 4"
  by (simp add: PAGE_MAGIC_def)

lemma length_page_ops [simp, width_simps]:
  "length (update_checksum p) = length p"
  "length (set_page_lsn p l) = length p"
  "length (set_page_kind p k) = length p"
  "length (page_initialize n k) = V2_PAGE_SIZE"
  by (simp_all add: update_checksum_def set_page_lsn_def set_page_kind_def page_initialize_def Let_def)

lemma page_kind_of_code: "is_valid_page_kind k \<Longrightarrow> page_kind_of (page_kind_code k) = k"
  by (cases k) (simp_all add: page_kind_of_def)

lemma update_checksum_fields:
  assumes "length p = V2_PAGE_SIZE"
  shows "take 4 (update_checksum p) = take 4 p" "page_num (update_checksum p) = page_num p"
    "page_lsn (update_checksum p) = page_lsn p" "page_kind (update_checksum p) = page_kind p"
    "drop 24 (update_checksum p) = drop 24 p"
  using assms
  by (simp_all add: update_checksum_def page_num_def page_lsn_def page_kind_def codec_simps
      f32.put_take_before f32.put_drop_after page_sizes)

text \<open>Recomputing the checksum is what makes a structurally sound page valid.\<close>

lemma update_checksum_validates:
  assumes "validate_structure p = PageSuccess"
  shows "page_validate (update_checksum p) = PageSuccess"
proof -
  have len: "length p = V2_PAGE_SIZE" using assms by (simp add: validate_structure_def split: if_splits)
  then have "validate_structure (update_checksum p) = PageSuccess"
    using assms by (simp add: validate_structure_def update_checksum_fields split: if_splits)
  moreover have "get_u32_be (update_checksum p) 16 = compute_checksum (update_checksum p)"
    unfolding update_checksum_def using pc.seal_verifies[of p] len by (simp add: page_sizes)
  ultimately show ?thesis by (simp add: page_validate_def)
qed

lemma page_initialize_fields:
  assumes "is_valid_page_kind k"
  shows "validate_structure (page_initialize n k) = PageSuccess"
    "page_num (page_initialize n k) = n" "page_lsn (page_initialize n k) = 0"
    "page_kind (page_initialize n k) = k" "drop 24 (page_initialize n k) = replicate V2_PAGE_PAYLOAD_SIZE 0"
proof -
  let ?m = "write_at (replicate V2_PAGE_SIZE 0) 0 PAGE_MAGIC"
  let ?p = "put_u32_be (put_u64_be (put_u32_be ?m 4 n) 8 0) 20 (page_kind_code k)"
  have init: "page_initialize n k = update_checksum ?p" by (simp add: page_initialize_def Let_def)
  have len: "length ?p = V2_PAGE_SIZE" by simp
  have m: "?m = PAGE_MAGIC @ replicate (V2_PAGE_SIZE - 4) 0"
    using write_first[of PAGE_MAGIC V2_PAGE_SIZE] by (simp add: page_sizes)
  show num: "page_num (page_initialize n k) = n" and lsn: "page_lsn (page_initialize n k) = 0"
    and kind: "page_kind (page_initialize n k) = k"
    unfolding init update_checksum_fields[OF len]
    using assms by (simp_all add: page_num_def page_lsn_def page_kind_def codec_simps page_sizes page_kind_of_code)
  have "take 4 (page_initialize n k) = PAGE_MAGIC"
    unfolding init update_checksum_fields[OF len]
    by (simp add: f32.put_take_before f64.put_take_before m)
  with kind assms show "validate_structure (page_initialize n k) = PageSuccess"
    by (simp add: validate_structure_def)
  show "drop 24 (page_initialize n k) = replicate V2_PAGE_PAYLOAD_SIZE 0"
    unfolding init update_checksum_fields[OF len]
    by (simp add: f32.put_drop_after f64.put_drop_after m[unfolded page_sizes] V2_PAGE_PAYLOAD_SIZE_def page_sizes)
qed

lemma page_initialize_idem: "update_checksum (page_initialize n k) = page_initialize n k"
  using pc.checksum_ignores_field
  by (simp add: page_initialize_def update_checksum_def Let_def put_be write_at_again page_sizes)

lemma page_initialize_validates:
  "is_valid_page_kind k \<Longrightarrow> page_validate (page_initialize n k) = PageSuccess"
  using update_checksum_validates[OF page_initialize_fields(1)[of k n]]
  by (simp add: page_initialize_idem)

text \<open>Initialising a page with a declared kind leaves an image that passes validation,
  carries the page number and kind it was given and LSN 0, and has a zeroed payload.\<close>

theorem page_initialize_valid:
  assumes "is_valid_page_kind k"
  shows "page_validate (page_initialize n k) = PageSuccess \<and> page_num (page_initialize n k) = n \<and>
    page_lsn (page_initialize n k) = 0 \<and> page_kind (page_initialize n k) = k \<and>
    drop V2_PAGE_HEADER_SIZE (page_initialize n k) = replicate V2_PAGE_PAYLOAD_SIZE 0"
  using page_initialize_fields[OF assms, of n] page_initialize_validates[OF assms, of n]
  by (simp add: V2_PAGE_HEADER_SIZE_def)

theorem page_initialize_valid_witness:
  "page_validate (page_initialize 7 BTreeLeaf) = PageSuccess \<and> page_num (page_initialize 7 BTreeLeaf) = 7"
  using page_initialize_valid[of BTreeLeaf 7] by simp

lemma page_damage:
  assumes "page_validate p = PageSuccess" "i < length p" "v \<noteq> p ! i"
  shows "page_validate (p[i := v]) \<noteq> PageSuccess"
proof -
  have "16 + 4 \<le> length p" "get_u32_be p 16 = compute_checksum p"
    using assms(1) by (auto simp: page_validate_def validate_structure_def Let_def page_sizes split: if_splits)
  from pc.damage_detected[OF this assms(2,3)] show ?thesis
    by (simp add: page_validate_def Let_def)
qed

text \<open>C25: changing any one byte of a valid page image, the checksum field included, makes
  validation fail.\<close>

theorem page_damage_detected:
  assumes "page_validate p = PageSuccess" "i < length p" "v \<noteq> p ! i"
  shows "page_validate (p[i := v]) \<noteq> PageSuccess"
  using page_damage[OF assms] .

theorem page_damage_detected_witness:
  "page_validate ((page_initialize 7 BTreeLeaf)[4000 := 1]) \<noteq> PageSuccess"
proof (rule page_damage_detected[OF page_initialize_validates])
  have "page_initialize 7 BTreeLeaf ! (24 + 3976) = drop 24 (page_initialize 7 BTreeLeaf) ! 3976"
    by (rule nth_drop[symmetric]) (simp add: page_sizes)
  then show "1 \<noteq> page_initialize 7 BTreeLeaf ! 4000"
    using page_initialize_fields(5)[of BTreeLeaf 7] by (simp add: V2_PAGE_PAYLOAD_SIZE_def page_sizes)
qed (simp_all add: page_sizes)

text \<open>Stamping a valid page with an LSN and recomputing its checksum keeps it valid, and
  keeps everything in it but the LSN.\<close>

theorem page_stamp_lsn:
  assumes "page_validate p = PageSuccess"
  shows "page_validate (update_checksum (set_page_lsn p l)) = PageSuccess \<and>
    page_lsn (update_checksum (set_page_lsn p l)) = l \<and>
    page_num (update_checksum (set_page_lsn p l)) = page_num p \<and>
    page_kind (update_checksum (set_page_lsn p l)) = page_kind p \<and>
    drop V2_PAGE_HEADER_SIZE (update_checksum (set_page_lsn p l)) = drop V2_PAGE_HEADER_SIZE p"
proof -
  have s: "validate_structure p = PageSuccess"
    using assms by (simp add: page_validate_def Let_def split: if_splits)
  then have len: "length p = V2_PAGE_SIZE" by (simp add: validate_structure_def split: if_splits)
  have f: "take 4 (set_page_lsn p l) = take 4 p" "page_num (set_page_lsn p l) = page_num p"
    "page_lsn (set_page_lsn p l) = l" "page_kind (set_page_lsn p l) = page_kind p"
    "drop 24 (set_page_lsn p l) = drop 24 p"
    using len by (simp_all add: set_page_lsn_def page_num_def page_lsn_def page_kind_def codec_simps
        f64.put_take_before f64.put_drop_after page_sizes)
  then have "validate_structure (set_page_lsn p l) = PageSuccess"
    using s by (simp add: validate_structure_def split: if_splits)
  then show ?thesis
    using f len by (simp add: update_checksum_validates update_checksum_fields V2_PAGE_HEADER_SIZE_def)
qed

theorem page_stamp_lsn_witness:
  "page_lsn (update_checksum (set_page_lsn (page_initialize 7 BTreeLeaf) 42)) = 42"
  using page_stamp_lsn[OF page_initialize_validates[of BTreeLeaf 7], of 42] by simp

section \<open>Header and journal\<close>

lemma slice_written:
  "p + length bs \<le> length b \<Longrightarrow> take (length bs) (drop p (write_at b p bs)) = bs"
  by (simp add: write_at_take_drop)

lemma slice_untouched:
  assumes "p + n \<le> q"
  shows "take n (drop p (put_u32_be b q v)) = take n (drop p b)"
proof -
  have "take n (drop p (put_u32_be b q v)) = drop p (take (p + n) (put_u32_be b q v))"
    by (simp add: drop_take)
  also have "\<dots> = drop p (take (p + n) b)" using assms by (simp add: f32.put_take_before)
  finally show ?thesis by (simp add: drop_take)
qed

text \<open>A database header written at an offset of a page is read back unchanged, and
  neither the bytes before it nor those after its 36 bytes are touched.\<close>

theorem db_header_roundtrip:
  assumes "length (magic_header h) = 16" "p + 36 \<le> length out"
  shows "deserialize_DBHeader (serialize_DBHeader h out p) p = h \<and>
    take p (serialize_DBHeader h out p) = take p out \<and>
    drop (p + 36) (serialize_DBHeader h out p) = drop (p + 36) out"
proof -
  have m: "take 16 (drop p (write_at out p (magic_header h))) = magic_header h"
    using slice_written[of p "magic_header h" out] assms by simp
  have "take p (write_at out p (magic_header h)) = take p out"
    "drop (p + 36) (write_at out p (magic_header h)) = drop (p + 36) out"
    using assms by (simp_all add: write_at_take_drop add.commute)
  then show ?thesis
    using assms m by (simp add: serialize_DBHeader_def deserialize_DBHeader_def Let_def codec_simps
        slice_untouched f32.put_take_before f32.put_drop_after)
qed

definition sample_header :: DBHeader where
  "sample_header = \<lparr>magic_header = DBHeader_magic_string, file_change_counter = 1, db_page_count = 5,
     freelist_head_page_num = 0, freelist_page_count = 0, btree_root_page_num = 2\<rparr>"

theorem db_header_roundtrip_witness:
  "deserialize_DBHeader (serialize_DBHeader sample_header (replicate 4096 0) 24) 24 = sample_header \<and>
   validate_DBHeader sample_header"
proof -
  have "validate_DBHeader sample_header" by (simp add: validate_DBHeader_def sample_header_def)
  then show ?thesis
    using db_header_roundtrip[of sample_header 24 "replicate 4096 0"]
    by (simp add: sample_header_def DBHeader_magic_string_def)
qed

lemma journal_sum_add: "journal_sum page X (v + d) = journal_sum page X v + d"
proof (induction page X v rule: journal_sum.induct)
  case (1 page X v)
  then show ?case
    by (subst (1 2) journal_sum.simps) (auto simp: ac_simps)
qed

lemma stride_step: "((X - 200 - i) mod 200 = 0) = ((X - i) mod (200 :: int) = 0)"
proof -
  have "(X - i - 200) mod 200 = (X - i) mod (200 :: int)" by simp
  then show ?thesis by (simp add: algebra_simps)
qed

lemma journal_sum_update:
  assumes "X < int (length page)"
  shows "journal_sum (page[i := b]) X v = journal_sum page X v +
    (if int i \<le> X \<and> (X - int i) mod 200 = 0 then ucast b - ucast (page ! i) else 0)"
  using assms
proof (induction page X v rule: journal_sum.induct)
  case (1 page X v)
  show ?case
  proof (cases "X \<ge> 0")
    case False
    then show ?thesis by (simp add: journal_sum.simps)
  next
    case True
    have ih: "journal_sum (page[i := b]) (X - 200) w = journal_sum page (X - 200) w +
      (if int i \<le> X - 200 \<and> (X - int i) mod 200 = 0 then ucast b - ucast (page ! i) else 0)" for w
    proof -
      have "journal_sum page (X - 200) w = journal_sum page (X - 200) (v + ucast (page ! nat X)) + (w - (v + ucast (page ! nat X)))" 
        using journal_sum_add[of page "X - 200" "v + ucast (page ! nat X)" "w - (v + ucast (page ! nat X))"] by simp
      moreover have "journal_sum (page[i := b]) (X - 200) w = journal_sum (page[i := b]) (X - 200) (v + ucast (page ! nat X)) + (w - (v + ucast (page ! nat X)))" 
        using journal_sum_add[of "page[i := b]" "X - 200" "v + ucast (page ! nat X)" "w - (v + ucast (page ! nat X))"] by simp
      ultimately show ?thesis using 1(1)[OF True] 1(2) by (simp add: stride_step)
    qed
    show ?thesis
    proof (cases "int i = X")
      case eq: True
      then have "journal_sum (page[i := b]) X v = journal_sum page (X - 200) (v + ucast b)"
        using True 1(2) ih by (subst journal_sum.simps) (auto simp flip: eq)
      moreover have "journal_sum page X v = journal_sum page (X - 200) (v + ucast (page ! i))"
        using True eq by (subst journal_sum.simps) auto
      ultimately show ?thesis using eq by (simp add: journal_sum_add)
    next
      case False
      then have n: "page[i := b] ! nat X = page ! nat X" using True by (intro nth_list_update_neq) auto
      have "(int i \<le> X \<and> (X - int i) mod 200 = 0) = (int i \<le> X - 200 \<and> (X - int i) mod 200 = 0)"
        using False zmod_trivial_iff[of "X - int i" 200] by (auto simp: mod_pos_pos_trivial)
      then show ?thesis using True n ih by (subst (1 2) journal_sum.simps) simp
    qed
  qed
qed

lemma page_sample_positions:
  assumes "i < 4096"
  shows "(int i \<le> 3896 \<and> (3896 - int i) mod 200 = 0) = (i mod 200 = 96)"
proof -
  have "((3896 - int i) mod 200 = 0) = ((3896 :: int) mod 200 = int i mod 200)"
    by (simp only: mod_eq_dvd_iff dvd_eq_mod_eq_0)
  also have "\<dots> = (i mod 200 = 96)" using zmod_int[of i 200] by (simp del: of_nat_mod) linarith
  finally have e: "((3896 - int i) mod 200 = 0) = (i mod 200 = 96)" .
  have "i \<le> 3896" if m: "i mod 200 = 96"
  proof -
    obtain k where k: "i = 200 * k + 96" using m mult_div_mod_eq[of 200 i] by metis
    then have "k < 20" using assms by linarith
    with k show ?thesis by linarith
  qed
  with e show ?thesis by auto
qed

text \<open>A journal record written to its 4104-byte slot is read back unchanged, and the
  sampled checksum of the record notices a change of one byte of the saved page exactly when that byte
  lies at offset 96 modulo 200; a change to any of the other 4076 bytes goes unnoticed.\<close>

theorem journal_record_protection:
  assumes "length (jrec_data r) = V2_PAGE_SIZE" "length out = 4104"
    and "validate_journal_record_checksum r h" "i < V2_PAGE_SIZE" "v \<noteq> jrec_data r ! i"
  shows "deserialize_jPage_record (serialize_jPage_record r out) = r \<and>
    validate_journal_record_checksum (r\<lparr>jrec_data := (jrec_data r)[i := v]\<rparr>) h = (i mod 200 \<noteq> 96)"
proof -
  have "take V2_PAGE_SIZE (drop 4 (write_at b 4 (jrec_data r))) = jrec_data r" if "length b = 4104" for b
    using slice_written[of 4 "jrec_data r" b] assms that by (simp add: page_sizes)
  then have "deserialize_jPage_record (serialize_jPage_record r out) = r"
    using assms(1,2) by (simp add: deserialize_jPage_record_def serialize_jPage_record_def Let_def codec_simps
        slice_untouched page_sizes)
  moreover have "ucast v - ucast (jrec_data r ! i) \<noteq> (0 :: u32)"
    using assms(5) byte_ucast_inj by auto
  then have "validate_journal_record_checksum (r\<lparr>jrec_data := (jrec_data r)[i := v]\<rparr>) h = (i mod 200 \<noteq> 96)"
    using assms page_sample_positions[of i] journal_sum_update[of 3896 "jrec_data r" i v "jnonce h"]
    by (simp add: validate_journal_record_checksum_def journal_checksum_def page_sizes)
  ultimately show ?thesis ..
qed

definition sample_journal_record :: JournalPageRecord where
  "sample_journal_record = \<lparr>jrec_page_num = 3, jrec_data = replicate 4096 0, jrec_checksum = 9\<rparr>"

definition sample_journal_header :: JournalHeader where
  "sample_journal_header = \<lparr>jmagic = JOURNAL_MAGIC, jpage_count = 1, jnonce = 9, init_db_page_count = 5\<rparr>"

lemma journal_sum_zero: "X < int n \<Longrightarrow> journal_sum (replicate n 0) X v = v"
proof (induction "replicate n (0 :: u8)" X v rule: journal_sum.induct)
  case (1 X v)
  then show ?case by (subst journal_sum.simps) simp
qed

theorem journal_record_protection_witness:
  "validate_journal_record_checksum
     (sample_journal_record\<lparr>jrec_data := (replicate 4096 0)[100 := 7]\<rparr>) sample_journal_header \<and>
   \<not> validate_journal_record_checksum
     (sample_journal_record\<lparr>jrec_data := (replicate 4096 0)[296 := 7]\<rparr>) sample_journal_header"
proof -
  have "validate_journal_record_checksum sample_journal_record sample_journal_header"
    by (simp add: validate_journal_record_checksum_def journal_checksum_def sample_journal_record_def
        sample_journal_header_def journal_sum_zero)
  then show ?thesis
    using journal_record_protection[of sample_journal_record "replicate 4104 0" sample_journal_header 100 7]
      journal_record_protection[of sample_journal_record "replicate 4104 0" sample_journal_header 296 7]
    by (simp add: sample_journal_record_def page_sizes)
qed

end
