(* ===== verification/ValueCodec.thy ===== *)
theory ValueCodec
  imports KeyCodec
begin

text \<open>
  Values of the store, after \<open>src/include/Value.h\<close> and
  \<open>src/src/encoding/ValueCodec.cpp\<close>: variable-length unsigned integers
  (seven payload bits per byte), the ZigZag transform for signed ones, and the
  typed payload around them.
\<close>

unbundle bit_operations_syntax

datatype ValueType = VVarUInt | VVarInt | VBool | VChar

fun value_tag :: "ValueType \<Rightarrow> nat" where
  "value_tag VVarUInt = 0"
| "value_tag VVarInt = 1"
| "value_tag VBool = 2"
| "value_tag VChar = 3"

record Value =
  vtype :: ValueType
  vsize :: u32
  vdata :: bytes

datatype ValueInput =
    VI_bool bool
  | VI_uint64 u64
  | VI_int64 u64
  | VI_string bytes

section \<open>Variable-length integers\<close>

function encode_varuint_bytes :: "u64 \<Rightarrow> bytes" where
  "encode_varuint_bytes v =
     (let byte = ucast (v AND 0x7F) :: u8;
          v' = drop_bit 7 v
      in if v' \<noteq> 0 then (byte OR 0x80) # encode_varuint_bytes v' else [byte])"
  by pat_completeness auto

lemma drop_7_less: "drop_bit 7 v \<noteq> 0 \<Longrightarrow> unat (drop_bit 7 v) < unat (v :: u64)"
proof -
  assume "drop_bit 7 v \<noteq> 0"
  then have "v \<noteq> 0" by auto
  then have "unat v \<noteq> 0" by (simp add: unsigned_eq_0_iff)
  then show ?thesis by (simp add: unat_drop_bit_eq drop_bit_nat_def)
qed

termination encode_varuint_bytes
  by (relation "measure unat") (auto intro: drop_7_less)

declare encode_varuint_bytes.simps [simp del]

text \<open>The decoding loop: remaining bytes, value so far, shift so far.\<close>

fun decode_varuint_loop :: "bytes \<Rightarrow> u64 \<Rightarrow> nat \<Rightarrow> u64 option" where
  "decode_varuint_loop [] v shift = None"
| "decode_varuint_loop (byte # rest) v shift =
     (if shift \<ge> 64 \<and> byte AND 0x7F \<noteq> 0 then None
      else
        let v' = v OR push_bit shift (ucast (byte AND 0x7F))
        in if byte AND 0x80 = 0
           then (if rest \<noteq> [] then None else Some v')
           else if shift + 7 > 63 \<and> rest \<noteq> [] then None
           else decode_varuint_loop rest v' (shift + 7))"

definition decode_varuint_bytes :: "bytes \<Rightarrow> u64 option" where
  "decode_varuint_bytes bs = (if bs = [] then None else decode_varuint_loop bs 0 0)"

definition zigzag_encode :: "u64 \<Rightarrow> u64" where
  "zigzag_encode v = push_bit 1 v XOR signed_drop_bit 63 v"

definition zigzag_decode :: "u64 \<Rightarrow> u64" where
  "zigzag_decode v = drop_bit 1 v XOR (NOT (v AND 1) + 1)"

section \<open>Values\<close>

definition value_make_varuint :: "u64 \<Rightarrow> Value" where
  "value_make_varuint v =
     (let d = encode_varuint_bytes v
      in \<lparr>vtype = VVarUInt, vsize = of_nat (length d), vdata = d\<rparr>)"

definition value_make_varint :: "u64 \<Rightarrow> Value" where
  "value_make_varint v =
     (let d = encode_varuint_bytes (zigzag_encode v)
      in \<lparr>vtype = VVarInt, vsize = of_nat (length d), vdata = d\<rparr>)"

definition value_make_bool :: "bool \<Rightarrow> Value" where
  "value_make_bool v = \<lparr>vtype = VBool, vsize = 1, vdata = [if v then 1 else 0]\<rparr>"

definition value_make_char :: "bytes \<Rightarrow> Value" where
  "value_make_char v = \<lparr>vtype = VChar, vsize = of_nat (length v), vdata = v\<rparr>"

fun value_encode :: "ValueInput \<Rightarrow> Value option" where
  "value_encode (VI_bool v) = Some (value_make_bool v)"
| "value_encode (VI_uint64 v) = Some (value_make_varuint v)"
| "value_encode (VI_int64 v) = Some (value_make_varint v)"
| "value_encode (VI_string v) =
     (if length v > MAX_PAYLOAD_SIZE then None else Some (value_make_char v))"

definition decode_varuint :: "Value \<Rightarrow> u64 option" where
  "decode_varuint val =
     (if vtype val \<noteq> VVarUInt then None else decode_varuint_bytes (vdata val))"

definition decode_varint :: "Value \<Rightarrow> u64 option" where
  "decode_varint val =
     (if vtype val \<noteq> VVarInt then None
      else map_option zigzag_decode (decode_varuint_bytes (vdata val)))"

definition validate_value :: "Value \<Rightarrow> bool" where
  "validate_value val =
     (if unat (vsize val) \<noteq> length (vdata val) then False
      else if unat (vsize val) > MAX_PAYLOAD_SIZE then False
      else (case vtype val of
              VVarUInt \<Rightarrow> decode_varuint_bytes (vdata val) \<noteq> None
            | VVarInt \<Rightarrow> decode_varuint_bytes (vdata val) \<noteq> None
            | VBool \<Rightarrow> vsize val = 1 \<and> (vdata val ! 0 = 0 \<or> vdata val ! 0 = 1)
            | VChar \<Rightarrow> True))"

definition value_decode :: "Value \<Rightarrow> ValueInput option" where
  "value_decode val =
     (if \<not> validate_value val then None
      else (case vtype val of
              VVarUInt \<Rightarrow> map_option VI_uint64 (decode_varuint val)
            | VVarInt \<Rightarrow> map_option VI_int64 (decode_varint val)
            | VBool \<Rightarrow> Some (VI_bool (vdata val ! 0 = 1))
            | VChar \<Rightarrow> Some (VI_string (vdata val))))"

definition value_equal :: "Value \<Rightarrow> Value \<Rightarrow> bool" where
  "value_equal lhs rhs = (vtype lhs = vtype rhs \<and> vsize lhs = vsize rhs \<and> vdata lhs = vdata rhs)"

section \<open>Lemmas\<close>

lemma and_7F: "(w :: 'a::len word) AND 0x7F = take_bit 7 w"
  by (simp add: take_bit_eq_mask mask_eq_exp_minus_1)

lemma and_80: "((b :: u8) AND 0x80 = 0) = (\<not> bit b 7)"
  using and_exp_eq_0_iff_not_bit[of b 7] by simp

lemma or_80: "(b :: u8) OR 0x80 = set_bit 7 b"
  by (simp add: set_bit_eq_or)

lemma group_bits:
  "\<not> bit (ucast (take_bit 7 (v :: u64)) :: u8) 7"
  "ucast (take_bit 7 (ucast (take_bit 7 v) :: u8)) = take_bit 7 v"
  "ucast (take_bit 7 (set_bit 7 (ucast (take_bit 7 v)) :: u8)) = take_bit 7 v"
  by (auto simp: bit_simps intro!: bit_word_eqI)

lemma encode_varuint_nonempty [simp]: "encode_varuint_bytes v \<noteq> []"
  by (subst encode_varuint_bytes.simps) (simp add: Let_def)

lemma shift_join:
  "push_bit s (take_bit 7 v) OR push_bit (s + 7) (drop_bit 7 v) = push_bit s (v :: u64)"
proof (rule bit_word_eqI)
  fix n
  have "s + 7 \<le> n \<Longrightarrow> 7 + (n - (s + 7)) = n - s" by simp
  then show "bit (push_bit s (take_bit 7 v) OR push_bit (s + 7) (drop_bit 7 v)) n =
    bit (push_bit s v) n"
    by (cases "s + 7 \<le> n") (auto simp: bit_simps)
qed

declare decode_varuint_loop.simps [simp del]

lemma decode_last:
  "s \<le> 63 \<Longrightarrow>
   decode_varuint_loop [ucast (v AND 0x7F)] acc s = Some (acc OR push_bit s (take_bit 7 v))"
  by (simp add: decode_varuint_loop.simps and_7F and_80 group_bits Let_def)

lemma decode_more:
  "s + 7 \<le> 63 \<Longrightarrow> decode_varuint_loop ((ucast (v AND 0x7F) OR 0x80) # rest) acc s =
   decode_varuint_loop rest (acc OR push_bit s (take_bit 7 v)) (s + 7)"
  by (simp add: decode_varuint_loop.simps and_7F and_80 or_80 group_bits Let_def bit_set_bit_iff)

lemma decode_encode_loop:
  "shift \<le> 63 \<Longrightarrow> unat v < 2 ^ (64 - shift) \<Longrightarrow>
   decode_varuint_loop (encode_varuint_bytes v) acc shift = Some (acc OR push_bit shift v)"
proof (induction v arbitrary: acc shift rule: encode_varuint_bytes.induct)
  case (1 v)
  let ?w = "drop_bit 7 v"
  show ?case
  proof (cases "?w = 0")
    case True
    then have "take_bit 7 v = v" by (metis take_bit_eq_self_iff_drop_bit_eq_0)
    with True 1(2) show ?thesis
      by (subst encode_varuint_bytes.simps) (simp add: decode_last)
  next
    case False
    have w: "unat ?w = unat v div 128" by (simp add: unat_drop_bit_eq drop_bit_nat_def)
    with False have "0 < unat v div 128" by (metis gr0I unsigned_eq_0_iff)
    then have "2 ^ 7 \<le> unat v" by (simp add: div_greater_zero_iff)
    with 1(3) have "(2::nat) ^ 7 < 2 ^ (64 - shift)" by linarith
    then have "7 < 64 - shift" by (simp only: power_strict_increasing_iff)
    then have s: "shift + 7 \<le> 63" by simp
    then have "64 - shift = (64 - (shift + 7)) + 7" by simp
    then have "(2::nat) ^ (64 - shift) = 2 ^ (64 - (shift + 7)) * 2 ^ 7"
      by (metis power_add)
    with 1(3) w have "unat ?w < 2 ^ (64 - (shift + 7))"
      by (simp add: less_mult_imp_div_less)
    from 1(1)[OF refl refl False s this] False s show ?thesis
      by (subst encode_varuint_bytes.simps) (simp add: decode_more or.assoc shift_join)
  qed
qed

lemma bit_zigzag_encode:
  "n < 64 \<Longrightarrow> bit (zigzag_encode v) n = (if n = 0 then bit v 63 else bit v (n - 1) \<noteq> bit v 63)"
  unfolding zigzag_encode_def bit_xor_iff bit_push_bit_iff bit_signed_drop_bit_iff
  by (cases n) auto

lemma zigzag_roundtrip: "zigzag_decode (zigzag_encode v) = v"
proof (rule bit_word_eqI)
  fix n assume n: "n < LENGTH(64)"
  have "zigzag_encode v AND 1 = of_bool (bit v 63)"
    using bit_zigzag_encode[of 0 v] by (simp add: and_one_eq mod_2_eq_odd bit_0)
  then have "NOT (zigzag_encode v AND 1) + 1 = (if bit v 63 then -1 else 0)"
    by (simp add: minus_eq_not_plus_1 [symmetric])
  moreover have "\<not> bit (zigzag_encode v) 64" using bit_imp_le_length[of "zigzag_encode v" 64] by auto
  ultimately show "bit (zigzag_decode (zigzag_encode v)) n = bit v n"
    unfolding zigzag_decode_def bit_xor_iff bit_drop_bit_eq comp_def
    using n by (cases "n = 63") (auto simp: bit_zigzag_encode)
qed

lemma decode_encode_varuint: "decode_varuint_bytes (encode_varuint_bytes v) = Some v"
  using decode_encode_loop[of 0 v 0] unat_bound[of v] by (simp add: decode_varuint_bytes_def)

lemma encode_varuint_length:
  "unat v < 128 ^ n \<Longrightarrow> 0 < n \<Longrightarrow> length (encode_varuint_bytes v) \<le> n"
proof (induction v arbitrary: n rule: encode_varuint_bytes.induct)
  case (1 v)
  show ?case
  proof (cases "drop_bit 7 v = 0")
    case True
    then show ?thesis using 1(3) by (subst encode_varuint_bytes.simps) simp
  next
    case False
    have w: "unat (drop_bit 7 v) = unat v div 128" by (simp add: unat_drop_bit_eq drop_bit_nat_def)
    obtain m where n: "n = Suc m" using 1(3) by (cases n) auto
    have w': "unat (drop_bit 7 v) < 128 ^ m" using 1(2) w n by (simp add: less_mult_imp_div_less mult.commute)
    moreover have "0 < m" using w' False by (cases m) (auto simp: unsigned_eq_0_iff)
    ultimately have "length (encode_varuint_bytes (drop_bit 7 v)) \<le> m"
      using 1(1)[OF refl refl False] by blast
    then show ?thesis using False n by (subst encode_varuint_bytes.simps) simp
  qed
qed

lemma encode_varuint_max: "length (encode_varuint_bytes v) \<le> 10"
proof (rule encode_varuint_length)
  have "unat v < 2 ^ 64" using unat_bound[of v] by simp
  then show "unat v < 128 ^ 10" by (rule less_trans) simp
qed simp

section \<open>Properties\<close>

text \<open>C23: every value the encoder accepts is valid and decodes to its input.\<close>

theorem value_codec_roundtrip:
  assumes "value_encode i = Some v"
  shows "validate_value v \<and> value_decode v = Some i"
proof -
  have len: "unat (of_nat (length (encode_varuint_bytes x)) :: u32) = length (encode_varuint_bytes x)"
    "\<not> MAX_PAYLOAD_SIZE < length (encode_varuint_bytes x)" for x
    using encode_varuint_max[of x] by (auto simp: MAX_PAYLOAD_SIZE_def intro!: unat_of_nat_lt)
  have "MAX_PAYLOAD_SIZE \<noteq> 0" by (simp add: MAX_PAYLOAD_SIZE_def)
  then show ?thesis
    using assms
    by (cases i) (auto simp: value_make_varuint_def value_make_varint_def value_make_bool_def
        value_make_char_def value_decode_def validate_value_def Let_def len decode_varuint_def
        decode_varint_def decode_encode_varuint zigzag_roundtrip small_size
        split: if_splits)
qed

theorem value_codec_roundtrip_witness:
  "validate_value (value_make_varint (-5)) \<and>
   value_decode (value_make_varint (-5)) = Some (VI_int64 (-5))"
  by (rule value_codec_roundtrip) simp

text \<open>The decoder accepts a ten-byte encoding whose last group carries
  payload above bit 63 and silently drops it, although its comment says that
  encodings which spill past 64 bits are rejected: two different byte strings
  decode to 0.\<close>

theorem varuint_spill_accepted:
  "decode_varuint_bytes (replicate 9 0x80 @ [0x02]) = Some 0 \<and>
   decode_varuint_bytes (encode_varuint_bytes 0) = Some 0 \<and>
   encode_varuint_bytes 0 \<noteq> replicate 9 0x80 @ [0x02]"
proof -
  have "replicate 9 (0x80::u8) = [0x80, 0x80, 0x80, 0x80, 0x80, 0x80, 0x80, 0x80, 0x80]"
    by (simp add: numeral_eq_Suc)
  then have "decode_varuint_bytes (replicate 9 0x80 @ [0x02]) = Some 0"
    by (simp add: decode_varuint_bytes_def decode_varuint_loop.simps)
  moreover have "length (encode_varuint_bytes 0) = 1"
    by (subst encode_varuint_bytes.simps) simp
  ultimately show ?thesis using decode_encode_varuint[of 0] by auto
qed

end
