(* ===== verification/WalPayload.thy ===== *)
theory WalPayload
  imports WalRecord PageCodec KeyCodec ValueCodec
begin

text \<open>
  Payloads of log records, after \<open>src/include/Log/WalPayload.h\<close>,
  \<open>src/src/Log/WalPayloadCodec.cpp\<close>, \<open>src/src/Log/WalRecords.cpp\<close> and
  \<open>src/src/Log/PendingBTreeAction.cpp\<close>.  A \<open>Writer\<close> is the byte string written so
  far, a \<open>Reader\<close> the bytes not read yet.  The in-memory enumerations hold declared
  values only, so the range checks of the encoder on them never fire.  The locale
  \<open>stream_field\<close> is the contract between a write and the matching read; the payload codec
  is shown to be a bijection from it.
\<close>

datatype AbortReason = ClientRequest | DeadlockVictim | StatementFailure | InternalError
datatype BTreeActionKind = ActionInsert | ActionUpdate | ActionDelete
datatype PageEffectKind = EffectWrite | EffectAllocate | EffectFree
datatype SystemActionKind = BTreeSplit | BTreeMerge | PageMaintenance

datatype UndoDescriptor = InsertUndo Key | UpdateUndo Key Value | DeleteUndo Key Value

record PageEffect =
  effect_kind :: PageEffectKind
  effect_page_num :: u32
  after_image :: bytes

datatype WalPayload =
    BeginPayload
  | BTreeActionPayload UndoDescriptor "PageEffect list"
  | CompensationPayload Lsn Lsn "PageEffect list"
  | SystemActionPayload SystemActionKind "PageEffect list"
  | CommitPayload u64
  | AbortPayload AbortReason
  | EndPayload

fun abort_reason_code :: "AbortReason \<Rightarrow> u8" where
  "abort_reason_code ClientRequest = 1"
| "abort_reason_code DeadlockVictim = 2"
| "abort_reason_code StatementFailure = 3"
| "abort_reason_code InternalError = 4"

fun action_kind_code :: "BTreeActionKind \<Rightarrow> u8" where
  "action_kind_code ActionInsert = 1"
| "action_kind_code ActionUpdate = 2"
| "action_kind_code ActionDelete = 3"

fun effect_kind_code :: "PageEffectKind \<Rightarrow> u8" where
  "effect_kind_code EffectWrite = 1"
| "effect_kind_code EffectAllocate = 2"
| "effect_kind_code EffectFree = 3"

fun system_kind_code :: "SystemActionKind \<Rightarrow> u8" where
  "system_kind_code BTreeSplit = 1"
| "system_kind_code BTreeMerge = 2"
| "system_kind_code PageMaintenance = 3"

definition key_type_of :: "u8 \<Rightarrow> KeyType option" where
  "key_type_of c = List.find (\<lambda>t. of_nat (key_tag t) = c) [KBool, KUInt64, KInt64, KString, KBytes]"

definition value_type_of :: "u8 \<Rightarrow> ValueType option" where
  "value_type_of c = List.find (\<lambda>t. of_nat (value_tag t) = c) [VVarUInt, VVarInt, VBool, VChar]"

section \<open>Writer and reader\<close>

definition w_u8 :: "bytes \<Rightarrow> u8 \<Rightarrow> bytes" where
  "w_u8 out v = out @ [v]"

definition w_u32 :: "bytes \<Rightarrow> u32 \<Rightarrow> bytes" where
  "w_u32 out v = put_u32_be (out @ replicate 4 0) (length out) v"

definition w_u64 :: "bytes \<Rightarrow> u64 \<Rightarrow> bytes" where
  "w_u64 out v = put_u64_be (out @ replicate 8 0) (length out) v"

definition w_bytes :: "bytes \<Rightarrow> bytes \<Rightarrow> bytes" where
  "w_bytes out v = out @ v"

definition r_u8 :: "bytes \<Rightarrow> (u8 \<times> bytes) res" where
  "r_u8 d = (if 1 > length d then Inl Runtime_error else Inr (d ! 0, drop 1 d))"

definition r_u32 :: "bytes \<Rightarrow> (u32 \<times> bytes) res" where
  "r_u32 d = (if 4 > length d then Inl Runtime_error else Inr (get_u32_be d 0, drop 4 d))"

definition r_u64 :: "bytes \<Rightarrow> (u64 \<times> bytes) res" where
  "r_u64 d = (if 8 > length d then Inl Runtime_error else Inr (get_u64_be d 0, drop 8 d))"

definition r_bytes :: "nat \<Rightarrow> bytes \<Rightarrow> (bytes \<times> bytes) res" where
  "r_bytes n d = (if n > length d then Inl Runtime_error else Inr (take n d, drop n d))"

definition r_finish :: "bytes \<Rightarrow> unit res" where
  "r_finish d = (if d \<noteq> [] then Inl Runtime_error else Inr ())"

text \<open>A number in range names the enumerator at its place in the declaration.\<close>

definition checked_enum :: "u8 \<Rightarrow> u8 \<Rightarrow> u8 \<Rightarrow> 'e list \<Rightarrow> 'e res" where
  "checked_enum raw lo hi enum =
     (if raw < lo \<or> raw > hi then Inl Runtime_error else Inr (enum ! (unat raw - unat lo)))"

definition write_key :: "bytes \<Rightarrow> Key \<Rightarrow> bytes res" where
  "write_key out key =
     (if \<not> validate_key key then Inl Invalid_argument
      else Inr (w_bytes (w_u32 (w_u8 out (of_nat (key_tag (ktype key)))) (ksize key)) (kdata key)))"

definition read_key :: "bytes \<Rightarrow> (Key \<times> bytes) res" where
  "read_key d =
     res_bind (r_u8 d) (\<lambda>(t, d).
     res_bind (r_u32 d) (\<lambda>(n, d).
     res_bind (r_bytes (unat n) d) (\<lambda>(bs, d).
       case key_type_of t of None \<Rightarrow> Inl Runtime_error
       | Some t \<Rightarrow>
           let key = \<lparr>ktype = t, ksize = n, kdata = bs\<rparr>
           in if \<not> validate_key key then Inl Runtime_error else Inr (key, d))))"

definition write_value :: "bytes \<Rightarrow> Value \<Rightarrow> bytes res" where
  "write_value out val =
     (if \<not> validate_value val then Inl Invalid_argument
      else Inr (w_bytes (w_u32 (w_u8 out (of_nat (value_tag (vtype val)))) (vsize val)) (vdata val)))"

definition read_value :: "bytes \<Rightarrow> (Value \<times> bytes) res" where
  "read_value d =
     res_bind (r_u8 d) (\<lambda>(t, d).
     res_bind (r_u32 d) (\<lambda>(n, d).
     res_bind (r_bytes (unat n) d) (\<lambda>(bs, d).
       case value_type_of t of None \<Rightarrow> Inl Runtime_error
       | Some t \<Rightarrow>
           let val = \<lparr>vtype = t, vsize = n, vdata = bs\<rparr>
           in if \<not> validate_value val then Inl Runtime_error else Inr (val, d))))"

section \<open>Page effects\<close>

definition write_effect :: "bytes \<Rightarrow> PageEffect \<Rightarrow> bytes res" where
  "write_effect out e =
     (if validate_structure (after_image e) \<noteq> PageSuccess \<or> page_num (after_image e) \<noteq> effect_page_num e
      then Inl Invalid_argument
      else Inr (w_bytes (w_u32 (w_u8 out (effect_kind_code (effect_kind e))) (effect_page_num e)) (after_image e)))"

fun write_effect_loop :: "bytes \<Rightarrow> PageEffect list \<Rightarrow> bytes res" where
  "write_effect_loop out [] = Inr out"
| "write_effect_loop out (e # es) = res_bind (write_effect out e) (\<lambda>out. write_effect_loop out es)"

definition write_effects :: "bytes \<Rightarrow> PageEffect list \<Rightarrow> bytes res" where
  "write_effects out effects =
     (if effects = [] then Inl Invalid_argument
      else if length effects > 2 ^ 32 - 1 then Inl Invalid_argument
      else write_effect_loop (w_u32 out (of_nat (length effects))) effects)"

definition read_effect :: "bytes \<Rightarrow> (PageEffect \<times> bytes) res" where
  "read_effect d =
     res_bind (r_u8 d) (\<lambda>(raw, d).
     res_bind (checked_enum raw 1 3 [EffectWrite, EffectAllocate, EffectFree]) (\<lambda>kind.
     res_bind (r_u32 d) (\<lambda>(n, d).
     res_bind (r_bytes V2_PAGE_SIZE d) (\<lambda>(image, d).
       if validate_structure image \<noteq> PageSuccess \<or> page_num image \<noteq> n then Inl Runtime_error
       else Inr (\<lparr>effect_kind = kind, effect_page_num = n, after_image = image\<rparr>, d)))))"

fun read_effect_loop :: "nat \<Rightarrow> bytes \<Rightarrow> (PageEffect list \<times> bytes) res" where
  "read_effect_loop 0 d = Inr ([], d)"
| "read_effect_loop (Suc n) d =
     res_bind (read_effect d) (\<lambda>(e, d). res_bind (read_effect_loop n d) (\<lambda>(es, d). Inr (e # es, d)))"

definition read_effects :: "bytes \<Rightarrow> (PageEffect list \<times> bytes) res" where
  "read_effects d =
     res_bind (r_u32 d) (\<lambda>(count, d).
       if count = 0 then Inl Runtime_error
       else if unat count > length d div (1 + 4 + V2_PAGE_SIZE) then Inl Runtime_error
       else read_effect_loop (unat count) d)"

section \<open>Payloads\<close>

fun action_kind :: "UndoDescriptor \<Rightarrow> BTreeActionKind" where
  "action_kind (InsertUndo _) = ActionInsert"
| "action_kind (UpdateUndo _ _) = ActionUpdate"
| "action_kind (DeleteUndo _ _) = ActionDelete"

fun payload_index :: "WalPayload \<Rightarrow> nat" where
  "payload_index BeginPayload = 0"
| "payload_index (BTreeActionPayload _ _) = 1"
| "payload_index (CompensationPayload _ _ _) = 2"
| "payload_index (SystemActionPayload _ _) = 3"
| "payload_index (CommitPayload _) = 4"
| "payload_index (AbortPayload _) = 5"
| "payload_index EndPayload = 6"

text \<open>The subtraction is on \<open>size_t\<close>, so type 0 wraps around and matches no alternative.\<close>

definition require_payload_type :: "WalRecordType \<Rightarrow> WalPayload \<Rightarrow> unit res" where
  "require_payload_type expected payload =
     (if is_known_type expected \<and> unat (wal_type_code expected) - 1 = payload_index payload then Inr ()
      else Inl Invalid_argument)"

fun write_undo :: "bytes \<Rightarrow> UndoDescriptor \<Rightarrow> bytes res" where
  "write_undo out (InsertUndo k) = write_key out k"
| "write_undo out (UpdateUndo k v) = res_bind (write_key out k) (\<lambda>out. write_value out v)"
| "write_undo out (DeleteUndo k v) = res_bind (write_key out k) (\<lambda>out. write_value out v)"

fun write_payload :: "bytes \<Rightarrow> WalPayload \<Rightarrow> bytes res" where
  "write_payload out BeginPayload = Inr out"
| "write_payload out EndPayload = Inr out"
| "write_payload out (CommitPayload raft_index) = Inr (w_u64 out raft_index)"
| "write_payload out (AbortPayload reason) = Inr (w_u8 out (abort_reason_code reason))"
| "write_payload out (BTreeActionPayload undo effects) =
     res_bind (write_undo (w_u8 out (action_kind_code (action_kind undo))) undo) (\<lambda>out.
       write_effects out effects)"
| "write_payload out (CompensationPayload undo_of undo_next effects) =
     write_effects (w_u64 (w_u64 out undo_of) undo_next) effects"
| "write_payload out (SystemActionPayload kind effects) =
     write_effects (w_u8 out (system_kind_code kind)) effects"

definition payload_encode :: "WalRecordType \<Rightarrow> WalPayload \<Rightarrow> bytes res" where
  "payload_encode type payload = res_bind (require_payload_type type payload) (\<lambda>_. write_payload [] payload)"

definition read_undo :: "bytes \<Rightarrow> (UndoDescriptor \<times> bytes) res" where
  "read_undo d =
     res_bind (r_u8 d) (\<lambda>(raw, d).
     res_bind (checked_enum raw 1 3 [ActionInsert, ActionUpdate, ActionDelete]) (\<lambda>kind.
     res_bind (read_key d) (\<lambda>(key, d).
       case kind of
         ActionInsert \<Rightarrow> Inr (InsertUndo key, d)
       | ActionUpdate \<Rightarrow> res_bind (read_value d) (\<lambda>(val, d). Inr (UpdateUndo key val, d))
       | ActionDelete \<Rightarrow> res_bind (read_value d) (\<lambda>(val, d). Inr (DeleteUndo key val, d)))))"

fun read_payload :: "WalRecordType \<Rightarrow> bytes \<Rightarrow> (WalPayload \<times> bytes) res" where
  "read_payload TxnBegin d = Inr (BeginPayload, d)"
| "read_payload TxnCommit d = res_bind (r_u64 d) (\<lambda>(i, d). Inr (CommitPayload i, d))"
| "read_payload TxnEnd d = Inr (EndPayload, d)"
| "read_payload TxnAbort d =
     res_bind (r_u8 d) (\<lambda>(raw, d).
     res_bind (checked_enum raw 1 4 [ClientRequest, DeadlockVictim, StatementFailure, InternalError]) (\<lambda>reason.
       Inr (AbortPayload reason, d)))"
| "read_payload BTreeAction d =
     res_bind (read_undo d) (\<lambda>(undo, d).
     res_bind (read_effects d) (\<lambda>(effects, d). Inr (BTreeActionPayload undo effects, d)))"
| "read_payload Compensation d =
     res_bind (r_u64 d) (\<lambda>(undo_of, d).
     res_bind (r_u64 d) (\<lambda>(undo_next, d).
     res_bind (read_effects d) (\<lambda>(effects, d). Inr (CompensationPayload undo_of undo_next effects, d))))"
| "read_payload SystemAction d =
     res_bind (r_u8 d) (\<lambda>(raw, d).
     res_bind (checked_enum raw 1 3 [BTreeSplit, BTreeMerge, PageMaintenance]) (\<lambda>kind.
     res_bind (read_effects d) (\<lambda>(effects, d). Inr (SystemActionPayload kind effects, d))))"
| "read_payload (Unknown_type _) d = Inl Runtime_error"

definition payload_decode :: "WalRecordType \<Rightarrow> bytes \<Rightarrow> WalPayload res" where
  "payload_decode type d =
     res_bind (read_payload type d) (\<lambda>(result, d). res_bind (r_finish d) (\<lambda>_. Inr result))"

section \<open>Building records\<close>

definition make_record :: "WalRecordType \<Rightarrow> u64 \<Rightarrow> Lsn \<Rightarrow> WalPayload \<Rightarrow> PendingWalRecord res" where
  "make_record type txn prev payload =
     (let built = res_bind (payload_encode type payload) (\<lambda>d.
            Inr \<lparr>pw_type = type, pw_transaction_id = txn, pw_prev_lsn = prev, pw_data = d\<rparr>)
      in if type = SystemAction then
           (if txn \<noteq> 0 \<or> prev \<noteq> 0 then Inl Invalid_argument else built)
         else if txn = 0 then Inl Invalid_argument
         else if (if type = TxnBegin then prev \<noteq> 0 else prev = 0) then Inl Invalid_argument
         else built)"

definition record_begin :: "u64 \<Rightarrow> PendingWalRecord res" where
  "record_begin txn = make_record TxnBegin txn 0 BeginPayload"

definition record_btree_action :: "u64 \<Rightarrow> Lsn \<Rightarrow> UndoDescriptor \<Rightarrow> PageEffect list \<Rightarrow> PendingWalRecord res" where
  "record_btree_action txn prev undo effects = make_record BTreeAction txn prev (BTreeActionPayload undo effects)"

definition record_compensation :: "u64 \<Rightarrow> Lsn \<Rightarrow> Lsn \<Rightarrow> Lsn \<Rightarrow> PageEffect list \<Rightarrow> PendingWalRecord res" where
  "record_compensation txn prev undo_of undo_next effects =
     make_record Compensation txn prev (CompensationPayload undo_of undo_next effects)"

definition record_system_action :: "SystemActionKind \<Rightarrow> PageEffect list \<Rightarrow> PendingWalRecord res" where
  "record_system_action kind effects = make_record SystemAction 0 0 (SystemActionPayload kind effects)"

definition record_commit :: "u64 \<Rightarrow> Lsn \<Rightarrow> u64 \<Rightarrow> PendingWalRecord res" where
  "record_commit txn prev raft_index = make_record TxnCommit txn prev (CommitPayload raft_index)"

definition record_abort :: "u64 \<Rightarrow> Lsn \<Rightarrow> AbortReason \<Rightarrow> PendingWalRecord res" where
  "record_abort txn prev reason = make_record TxnAbort txn prev (AbortPayload reason)"

definition record_end :: "u64 \<Rightarrow> Lsn \<Rightarrow> PendingWalRecord res" where
  "record_end txn prev = make_record TxnEnd txn prev EndPayload"

definition record_decode :: "WalRecord \<Rightarrow> WalPayload res" where
  "record_decode r = payload_decode (w_type r) (w_data r)"

section \<open>Collecting one B-tree action\<close>

record PendingBTreeAction =
  pa_transaction_id :: u64
  pa_prev_lsn :: Lsn
  pa_undo :: "UndoDescriptor option"
  pa_effects :: "PageEffect list"

definition new_action :: "u64 \<Rightarrow> Lsn \<Rightarrow> PendingBTreeAction res" where
  "new_action txn prev =
     (if txn = 0 \<or> prev = 0 then Inl Invalid_argument
      else Inr \<lparr>pa_transaction_id = txn, pa_prev_lsn = prev, pa_undo = None, pa_effects = []\<rparr>)"

definition set_undo :: "PendingBTreeAction \<Rightarrow> UndoDescriptor \<Rightarrow> PendingBTreeAction res" where
  "set_undo a undo = (if pa_undo a \<noteq> None then Inl Logic_error else Inr (a\<lparr>pa_undo := Some undo\<rparr>))"

text \<open>\<open>std::find_if\<close> followed by the assignment through the iterator: the first effect on the same
  page is replaced in place.\<close>

fun merge_effect :: "PageEffect list \<Rightarrow> PageEffect \<Rightarrow> PageEffect list" where
  "merge_effect [] e = [e]"
| "merge_effect (x # xs) e =
     (if effect_page_num x = effect_page_num e then
        (if effect_kind x = EffectAllocate \<and> effect_kind e = EffectWrite
         then e\<lparr>effect_kind := EffectAllocate\<rparr> else e) # xs
      else x # merge_effect xs e)"

definition add_effect :: "PendingBTreeAction \<Rightarrow> PageEffect \<Rightarrow> PendingBTreeAction" where
  "add_effect a e = a\<lparr>pa_effects := merge_effect (pa_effects a) e\<rparr>"

definition build_action :: "PendingBTreeAction \<Rightarrow> PendingWalRecord res" where
  "build_action a =
     (case pa_undo a of None \<Rightarrow> Inl Logic_error
      | Some undo \<Rightarrow>
          if pa_effects a = [] then Inl Logic_error
          else record_btree_action (pa_transaction_id a) (pa_prev_lsn a) undo (pa_effects a))"

section \<open>The contract between writing and reading\<close>

text \<open>
  A field that accepts \<open>x\<close> appends \<open>image x\<close>, and the reader consumes exactly the
  images of accepted values.
\<close>

locale stream_field =
  fixes wr :: "bytes \<Rightarrow> 'a \<Rightarrow> bytes res" and rd :: "bytes \<Rightarrow> ('a \<times> bytes) res"
    and ok :: "'a \<Rightarrow> bool" and image :: "'a \<Rightarrow> bytes"
  assumes write_iff: "wr out x = Inr out' \<longleftrightarrow> ok x \<and> out' = out @ image x"
    and read_iff: "rd d = Inr (x, rest) \<longleftrightarrow> ok x \<and> d = image x @ rest"
begin

lemma write_then_read: "wr out x = Inr out' \<Longrightarrow> rd (drop (length out) out' @ rest) = Inr (x, rest)"
  by (simp add: write_iff read_iff)

lemma read_image: "ok x \<Longrightarrow> rd (image x @ rest) = Inr (x, rest)"
  by (simp add: read_iff)

lemma roundtrip: "(wr [] x = Inr d) = (rd d = Inr (x, []))"
  by (simp add: write_iff read_iff)

lemma read_unique: "rd d = Inr (x, []) \<Longrightarrow> rd d' = Inr (x, []) \<Longrightarrow> d = d'"
  by (simp add: read_iff)

end

lemma w_simps [simp]:
  "w_u8 out v = out @ [v]" "w_u32 out v32 = out @ be32 v32" "w_u64 out v64 = out @ be64 v64"
  "w_bytes out bs = out @ bs"
  using write_next[of "length out" out "be32 v32" 4] write_next[of "length out" out "be64 v64" 8]
  by (simp_all add: w_u8_def w_u32_def w_u64_def w_bytes_def put_be)

lemma r_u8_iff [simp]: "r_u8 d = Inr (v, rest) \<longleftrightarrow> d = v # rest"
  by (cases d) (auto simp: r_u8_def)

lemma r_u32_iff [simp]: "r_u32 d = Inr (v, rest) \<longleftrightarrow> d = be32 v @ rest"
proof
  assume "r_u32 d = Inr (v, rest)"
  then have "4 \<le> length d" "v = get_u32_be d 0" "rest = drop 4 d" by (auto simp: r_u32_def split: if_splits)
  then show "d = be32 v @ rest" using be32_get_slice[of 0 d] by simp
next
  assume "d = be32 v @ rest"
  then show "r_u32 d = Inr (v, rest)" using get_be(2)[of 0 "[]" v rest] by (simp add: r_u32_def)
qed

lemma r_u64_iff [simp]: "r_u64 d = Inr (v, rest) \<longleftrightarrow> d = be64 v @ rest"
proof
  assume "r_u64 d = Inr (v, rest)"
  then have "8 \<le> length d" "v = get_u64_be d 0" "rest = drop 8 d" by (auto simp: r_u64_def split: if_splits)
  then show "d = be64 v @ rest" using be64_get_slice[of 0 d] by simp
next
  assume "d = be64 v @ rest"
  then show "r_u64 d = Inr (v, rest)" using get_be(3)[of 0 "[]" v rest] by (simp add: r_u64_def)
qed

lemma get_be_whole: "get_u32_be (be32 a) 0 = a" "get_u64_be (be64 c) 0 = c"
  using get_be(2)[of 0 "[]" a "[]"] get_be(3)[of 0 "[]" c "[]"] by simp_all

lemma be_inject [simp]: "be32 a = be32 b \<longleftrightarrow> a = b" "be64 c = be64 d \<longleftrightarrow> c = d"
  by (metis get_be_whole)+

lemma r_bytes_iff [simp]: "r_bytes n d = Inr (bs, rest) \<longleftrightarrow> length bs = n \<and> d = bs @ rest"
  by (auto simp: r_bytes_def)

lemma u8_range:
  "(raw :: u8) \<noteq> 0 \<Longrightarrow> raw \<le> 3 \<Longrightarrow> raw = 1 \<or> raw = 2 \<or> raw = 3"
  "(raw :: u8) \<noteq> 0 \<Longrightarrow> raw \<le> 4 \<Longrightarrow> raw = 1 \<or> raw = 2 \<or> raw = 3 \<or> raw = 4"
  by (auto simp: word_le_nat_alt word_unat_eq_iff)

lemma checked_enum_iff [simp]:
  "checked_enum raw 1 3 [EffectWrite, EffectAllocate, EffectFree] = Inr ek \<longleftrightarrow> raw = effect_kind_code ek"
  "checked_enum raw 1 3 [ActionInsert, ActionUpdate, ActionDelete] = Inr ak \<longleftrightarrow> raw = action_kind_code ak"
  "checked_enum raw 1 3 [BTreeSplit, BTreeMerge, PageMaintenance] = Inr sk \<longleftrightarrow> raw = system_kind_code sk"
  "checked_enum raw 1 4 [ClientRequest, DeadlockVictim, StatementFailure, InternalError] = Inr ar \<longleftrightarrow>
     raw = abort_reason_code ar"
  subgoal using u8_range(1)[of raw] by (cases ek) (auto simp: checked_enum_def linorder_not_less)
  subgoal using u8_range(1)[of raw] by (cases ak) (auto simp: checked_enum_def linorder_not_less)
  subgoal using u8_range(1)[of raw] by (cases sk) (auto simp: checked_enum_def linorder_not_less)
  subgoal using u8_range(2)[of raw] by (cases ar) (auto simp: checked_enum_def linorder_not_less)
  done

lemma tag_of_iff [simp]:
  "key_type_of c = Some t \<longleftrightarrow> c = of_nat (key_tag t)" "value_type_of c = Some u \<longleftrightarrow> c = of_nat (value_tag u)"
  by (cases t; auto simp: key_type_of_def) (cases u; auto simp: value_type_of_def)

section \<open>Fields of the payload\<close>

lemma res_guards:
  "(if P then Inl e else r) = Inr y \<longleftrightarrow> \<not> P \<and> r = Inr y"
  "(case opt of None \<Rightarrow> Inl e | Some t \<Rightarrow> f t) = Inr y \<longleftrightarrow> (\<exists>t. opt = Some t \<and> f t = Inr y)"
  by (auto split: option.splits)

definition key_image :: "Key \<Rightarrow> bytes" where
  "key_image k = of_nat (key_tag (ktype k)) # be32 (ksize k) @ kdata k"

definition value_image :: "Value \<Rightarrow> bytes" where
  "value_image v = of_nat (value_tag (vtype v)) # be32 (vsize v) @ vdata v"

lemma valid_size_key: "validate_key k \<Longrightarrow> length (kdata k) = unat (ksize k)"
  by (simp add: validate_key_def split: if_splits)

lemma valid_size_value: "validate_value v \<Longrightarrow> length (vdata v) = unat (vsize v)"
  by (simp add: validate_value_def split: if_splits)

interpretation kf: stream_field write_key read_key validate_key key_image
proof unfold_locales
  fix d x rest
  show "read_key d = Inr (x, rest) \<longleftrightarrow> validate_key x \<and> d = key_image x @ rest"
    by (cases x) (auto simp: read_key_def key_image_def Let_def res_guards dest: valid_size_key)
qed (auto simp: write_key_def key_image_def)

interpretation vf: stream_field write_value read_value validate_value value_image
proof unfold_locales
  fix d x rest
  show "read_value d = Inr (x, rest) \<longleftrightarrow> validate_value x \<and> d = value_image x @ rest"
    by (cases x) (auto simp: read_value_def value_image_def Let_def res_guards dest: valid_size_value)
qed (auto simp: write_value_def value_image_def)

definition effect_ok :: "PageEffect \<Rightarrow> bool" where
  "effect_ok e = (validate_structure (after_image e) = PageSuccess \<and> page_num (after_image e) = effect_page_num e)"

definition effect_image :: "PageEffect \<Rightarrow> bytes" where
  "effect_image e = effect_kind_code (effect_kind e) # be32 (effect_page_num e) @ after_image e"

lemma structure_length: "validate_structure p = PageSuccess \<Longrightarrow> length p = V2_PAGE_SIZE"
  by (simp add: validate_structure_def split: if_splits)

interpretation ef: stream_field write_effect read_effect effect_ok effect_image
proof unfold_locales
  fix d x rest
  show "read_effect d = Inr (x, rest) \<longleftrightarrow> effect_ok x \<and> d = effect_image x @ rest"
    by (cases x) (auto simp: read_effect_def effect_image_def effect_ok_def res_guards structure_length)
qed (auto simp: write_effect_def effect_image_def effect_ok_def)

lemma write_effect_loop_iff:
  "write_effect_loop out es = Inr out' \<longleftrightarrow> (\<forall>e\<in>set es. effect_ok e) \<and> out' = out @ concat (map effect_image es)"
  by (induction es arbitrary: out) (auto simp: ef.write_iff)

lemma read_effect_loop_iff:
  "read_effect_loop n d = Inr (es, rest) \<longleftrightarrow>
     length es = n \<and> (\<forall>e\<in>set es. effect_ok e) \<and> d = concat (map effect_image es) @ rest"
proof (induction n arbitrary: d es)
  case (Suc n)
  then show ?case by (cases es) (auto simp: ef.read_iff)
qed auto

definition effects_ok :: "PageEffect list \<Rightarrow> bool" where
  "effects_ok es = (es \<noteq> [] \<and> length es < 2 ^ 32 \<and> (\<forall>e\<in>set es. effect_ok e))"

definition effects_image :: "PageEffect list \<Rightarrow> bytes" where
  "effects_image es = be32 (of_nat (length es)) @ concat (map effect_image es)"

lemma length_effect_images:
  "\<forall>e\<in>set es. effect_ok e \<Longrightarrow> length (concat (map effect_image es)) = (1 + 4 + V2_PAGE_SIZE) * length es"
  by (induction es) (auto simp: effect_image_def effect_ok_def structure_length)

interpretation esf: stream_field write_effects read_effects effects_ok effects_image
proof unfold_locales
  fix out x out'
  show "write_effects out x = Inr out' \<longleftrightarrow> effects_ok x \<and> out' = out @ effects_image x"
    by (auto simp: write_effects_def res_guards effects_ok_def effects_image_def write_effect_loop_iff)
next
  fix d rest and x :: "PageEffect list"
  have count: "unat (of_nat (length x) :: u32) = length x" if "length x < 2 ^ 32"
    using that by (intro unat_of_nat_lt) simp
  show "read_effects d = Inr (x, rest) \<longleftrightarrow> effects_ok x \<and> d = effects_image x @ rest" (is "?L \<longleftrightarrow> ?R")
  proof
    assume ?L
    then obtain c where d: "d = be32 c @ concat (map effect_image x) @ rest" "c \<noteq> 0" "length x = unat c"
      "\<forall>e\<in>set x. effect_ok e"
      by (auto simp: read_effects_def res_guards read_effect_loop_iff)
    have c: "of_nat (length x) = c" using d(3) by simp
    have "length x \<noteq> 0" using d(2,3) by (simp add: unsigned_eq_0_iff)
    moreover have "length x < 2 ^ 32" using unat_bound[of c] d(3) by simp
    ultimately show ?R using d(1,4) by (simp add: effects_ok_def effects_image_def c)
  next
    assume R: ?R
    define n where "n = length x"
    have e: "\<forall>e\<in>set x. effect_ok e" and n: "n \<noteq> 0" "unat (of_nat n :: u32) = n"
      using R count by (auto simp: effects_ok_def n_def)
    have "of_nat n \<noteq> (0 :: u32)" using n by (metis unsigned_0)
    moreover have "n \<le> (length (concat (map effect_image x)) + length rest) div (1 + 4 + V2_PAGE_SIZE)"
      unfolding length_effect_images[OF e] n_def[symmetric] by (simp add: less_eq_div_iff_mult_less_eq)
    ultimately show ?L
      using R e n
      by (simp add: read_effects_def res_guards read_effect_loop_iff effects_image_def effects_ok_def not_less flip: n_def)
  qed
qed

fun undo_ok :: "UndoDescriptor \<Rightarrow> bool" where
  "undo_ok (InsertUndo k) = validate_key k"
| "undo_ok (UpdateUndo k v) = (validate_key k \<and> validate_value v)"
| "undo_ok (DeleteUndo k v) = (validate_key k \<and> validate_value v)"

fun undo_image :: "UndoDescriptor \<Rightarrow> bytes" where
  "undo_image (InsertUndo k) = 1 # key_image k"
| "undo_image (UpdateUndo k v) = 2 # key_image k @ value_image v"
| "undo_image (DeleteUndo k v) = 3 # key_image k @ value_image v"

interpretation uf: stream_field "\<lambda>out undo. write_undo (w_u8 out (action_kind_code (action_kind undo))) undo"
  read_undo undo_ok undo_image
proof unfold_locales
  fix d x rest
  show "read_undo d = Inr (x, rest) \<longleftrightarrow> undo_ok x \<and> d = undo_image x @ rest"
  proof
    assume "read_undo d = Inr (x, rest)"
    then obtain kind key d' where "d = action_kind_code kind # key_image key @ d'" "validate_key key"
      "(case kind of ActionInsert \<Rightarrow> Inr (InsertUndo key, d')
        | ActionUpdate \<Rightarrow> res_bind (read_value d') (\<lambda>(val, d). Inr (UpdateUndo key val, d))
        | ActionDelete \<Rightarrow> res_bind (read_value d') (\<lambda>(val, d). Inr (DeleteUndo key val, d))) = Inr (x, rest)"
      by (auto simp: read_undo_def kf.read_iff)
    then show "undo_ok x \<and> d = undo_image x @ rest" by (cases kind) (auto simp: vf.read_iff)
  next
    assume "undo_ok x \<and> d = undo_image x @ rest"
    then show "read_undo d = Inr (x, rest)"
      by (cases x) (simp_all add: read_undo_def r_u8_def checked_enum_def kf.read_image vf.read_image)
  qed
next
  fix out x out'
  show "write_undo (w_u8 out (action_kind_code (action_kind x))) x = Inr out' \<longleftrightarrow>
      undo_ok x \<and> out' = out @ undo_image x"
    by (cases x) (auto simp: kf.write_iff vf.write_iff)
qed

fun payload_ok :: "WalPayload \<Rightarrow> bool" where
  "payload_ok (BTreeActionPayload undo es) = (undo_ok undo \<and> effects_ok es)"
| "payload_ok (CompensationPayload _ _ es) = effects_ok es"
| "payload_ok (SystemActionPayload _ es) = effects_ok es"
| "payload_ok _ = True"

fun payload_image :: "WalPayload \<Rightarrow> bytes" where
  "payload_image BeginPayload = []"
| "payload_image (BTreeActionPayload undo es) = undo_image undo @ effects_image es"
| "payload_image (CompensationPayload a b es) = be64 a @ be64 b @ effects_image es"
| "payload_image (SystemActionPayload k es) = system_kind_code k # effects_image es"
| "payload_image (CommitPayload i) = be64 i"
| "payload_image (AbortPayload r) = [abort_reason_code r]"
| "payload_image EndPayload = []"

lemma write_undo_iff:
  "write_undo (out @ [action_kind_code (action_kind u)]) u = Inr out' \<longleftrightarrow> undo_ok u \<and> out' = out @ undo_image u"
  using uf.write_iff[of out u out'] by simp

lemma write_payload_iff: "write_payload out p = Inr out' \<longleftrightarrow> payload_ok p \<and> out' = out @ payload_image p"
  by (cases p) (auto simp: esf.write_iff write_undo_iff)

lemma require_payload_type_iff:
  "require_payload_type t p = Inr u \<longleftrightarrow>
     (case p of BeginPayload \<Rightarrow> t = TxnBegin | BTreeActionPayload _ _ \<Rightarrow> t = BTreeAction
      | CompensationPayload _ _ _ \<Rightarrow> t = Compensation | SystemActionPayload _ _ \<Rightarrow> t = SystemAction
      | CommitPayload _ \<Rightarrow> t = TxnCommit | AbortPayload _ \<Rightarrow> t = TxnAbort | EndPayload \<Rightarrow> t = TxnEnd)"
  by (cases p; cases t) (simp_all add: require_payload_type_def)

definition payload_matches :: "WalRecordType \<Rightarrow> WalPayload \<Rightarrow> bool" where
  "payload_matches t p = (require_payload_type t p = Inr () \<and> payload_ok p)"

lemma r_be [simp]:
  "r_u8 (v # rest) = Inr (v, rest)" "r_u32 (be32 v32 @ rest) = Inr (v32, rest)"
  "r_u64 (be64 v64 @ rest) = Inr (v64, rest)"
  by simp_all

lemma checked_code [simp]:
  "checked_enum (system_kind_code sk) 1 3 [BTreeSplit, BTreeMerge, PageMaintenance] = Inr sk"
  "checked_enum (abort_reason_code ar) 1 4 [ClientRequest, DeadlockVictim, StatementFailure, InternalError] = Inr ar"
  by simp_all

lemma read_payload_iff:
  "read_payload t d = Inr (p, rest) \<longleftrightarrow> payload_matches t p \<and> d = payload_image p @ rest"
proof
  assume "read_payload t d = Inr (p, rest)"
  then show "payload_matches t p \<and> d = payload_image p @ rest"
    by (cases t) (auto simp: payload_matches_def require_payload_type_iff uf.read_iff esf.read_iff)
next
  assume "payload_matches t p \<and> d = payload_image p @ rest"
  then show "read_payload t d = Inr (p, rest)"
    by (cases p) (simp_all add: payload_matches_def require_payload_type_iff uf.read_image esf.read_image)
qed

section \<open>Properties\<close>

lemma payload_encode_iff: "payload_encode t p = Inr d \<longleftrightarrow> payload_matches t p \<and> d = payload_image p"
  by (auto simp: payload_encode_def payload_matches_def write_payload_iff)

lemma payload_decode_iff: "payload_decode t d = Inr p \<longleftrightarrow> payload_matches t p \<and> d = payload_image p"
  by (auto simp: payload_decode_def read_payload_iff r_finish_def res_guards)

text \<open>C12: the payload codec is a bijection between the payloads that fit the record type and the
  byte strings the decoder accepts for that type.\<close>

theorem payload_codec_bijection: "(payload_encode t p = Inr d) = (payload_decode t d = Inr p)"
  by (simp add: payload_encode_iff payload_decode_iff)

definition stamp :: "PendingWalRecord \<Rightarrow> Lsn \<Rightarrow> WalRecord" where
  "stamp p lsn = \<lparr>w_lsn = lsn, w_type = pw_type p, w_transaction_id = pw_transaction_id p,
     w_prev_lsn = pw_prev_lsn p, w_data = pw_data p\<rparr>"

lemma make_record_iff:
  "make_record t txn prev p = Inr r \<longleftrightarrow>
     (if t = SystemAction then txn = 0 \<and> prev = 0 else txn \<noteq> 0 \<and> (prev = 0) = (t = TxnBegin)) \<and>
     payload_encode t p = Inr (pw_data r) \<and>
     pw_type r = t \<and> pw_transaction_id r = txn \<and> pw_prev_lsn r = prev"
  by (cases r) (auto simp: make_record_def Let_def)

lemma matches_known: "payload_matches t p \<Longrightarrow> is_known_type t"
  by (cases p) (auto simp: payload_matches_def require_payload_type_iff)

lemma make_record_fields:
  assumes "make_record t txn prev p = Inr r" "lsn \<noteq> 0"
  shows "validate_fields (stamp r lsn) d = Inr ()"
proof -
  have "is_known_type t"
    using assms(1) matches_known by (auto simp: make_record_iff payload_encode_iff)
  then show ?thesis
    using assms by (auto simp: make_record_iff validate_fields_def stamp_def Let_def split: if_splits)
qed

text \<open>Whatever the record builders produce can be logged and recovered.  Once it has been given
  a nonzero LSN, and unless it exceeds the 32-bit size field, the record encodes, decodes to
  itself, and yields the payload it was built from.\<close>

theorem built_record_recoverable:
  assumes "make_record t txn prev p = Inr r" "lsn \<noteq> 0" "length (pw_data r) \<le> 2 ^ 32 - 1 - WAL_HEADER_SIZE"
  shows "\<exists>b. wal_encode (stamp r lsn) = Inr b \<and> wal_decode b = Inr (stamp r lsn) \<and>
    record_decode (stamp r lsn) = Inr p"
proof -
  obtain b where b: "wal_encode (stamp r lsn) = Inr b"
    using make_record_fields[OF assms(1,2)] assms(3)
    by (auto simp: wal_encode_image stamp_def WAL_HEADER_SIZE_def)
  then have "wal_decode b = Inr (stamp r lsn)"
    using wal_encode_image wal_decode_image by (metis image_checksum put_checksum_image)
  moreover have "record_decode (stamp r lsn) = Inr p"
    using assms(1) by (auto simp: record_decode_def stamp_def make_record_iff payload_encode_iff payload_decode_iff)
  ultimately show ?thesis using b by blast
qed

definition sample_commit :: PendingWalRecord where
  "sample_commit = \<lparr>pw_type = TxnCommit, pw_transaction_id = 4, pw_prev_lsn = 9, pw_data = be64 17\<rparr>"

theorem built_record_recoverable_witness:
  "make_record TxnCommit 4 9 (CommitPayload 17) = Inr sample_commit \<and>
   (\<exists>b. wal_encode (stamp sample_commit 10) = Inr b \<and> wal_decode b = Inr (stamp sample_commit 10) \<and>
     record_decode (stamp sample_commit 10) = Inr (CommitPayload 17))"
proof -
  have "make_record TxnCommit 4 9 (CommitPayload 17) = Inr sample_commit"
    by (simp add: make_record_def payload_encode_def require_payload_type_def sample_commit_def Let_def)
  then show ?thesis
    using built_record_recoverable[of TxnCommit 4 9 "CommitPayload 17" sample_commit 10]
    by (simp add: sample_commit_def WAL_HEADER_SIZE_def)
qed

text \<open>The effect an operation leaves on one page, from its effects on that page alone: the last
  image wins, and writes to a page it allocated keep the allocation.\<close>

fun page_outcome :: "PageEffect option \<Rightarrow> PageEffect \<Rightarrow> PageEffect option" where
  "page_outcome None e = Some e"
| "page_outcome (Some x) e =
     Some (if effect_kind x = EffectAllocate \<and> effect_kind e = EffectWrite
           then e\<lparr>effect_kind := EffectAllocate\<rparr> else e)"

definition effect_on :: "u32 \<Rightarrow> PageEffect list \<Rightarrow> PageEffect option" where
  "effect_on n es = List.find (\<lambda>e. effect_page_num e = n) es"

lemma merge_effect_pages:
  "set (map effect_page_num (merge_effect es e)) = insert (effect_page_num e) (set (map effect_page_num es))"
  by (induction es) auto

lemma merge_effect_distinct:
  "distinct (map effect_page_num es) \<Longrightarrow> distinct (map effect_page_num (merge_effect es e))"
proof (induction es)
  case (Cons x es)
  then show ?case using merge_effect_pages[of es e] by auto
qed simp

lemma effect_on_merge:
  "effect_on n (merge_effect es e) =
     (if effect_page_num e = n then page_outcome (effect_on n es) e else effect_on n es)"
  by (induction es) (auto simp: effect_on_def)

lemma effects_of_fold:
  "pa_effects (foldl add_effect a ops) = foldl merge_effect (pa_effects a) ops"
  by (induction ops arbitrary: a) (simp_all add: add_effect_def)

lemma fold_merge:
  "distinct (map effect_page_num es) \<Longrightarrow> distinct (map effect_page_num (foldl merge_effect es ops))"
  "effect_on n (foldl merge_effect es ops) =
     foldl page_outcome (effect_on n es) (filter (\<lambda>e. effect_page_num e = n) ops)"
  by (induction ops arbitrary: es) (simp_all add: merge_effect_distinct effect_on_merge)

lemma outcome_image:
  "hist \<noteq> [] \<Longrightarrow> \<exists>e. foldl page_outcome acc hist = Some e \<and> after_image e = after_image (last hist) \<and>
     (effect_kind e = effect_kind (last hist) \<or> effect_kind e = EffectAllocate \<and> effect_kind (last hist) = EffectWrite)"
proof (induction hist rule: rev_induct)
  case (snoc x xs)
  then show ?case by (cases "foldl page_outcome acc xs") auto
qed simp

text \<open>A B-tree action logs each page once.  Whatever effects were added, no two of
  those kept concern the same page, and the one kept for a page is the outcome of that page's own history: it
  is there exactly when the page was touched, its image is the last one written, and its kind is
  that of the last effect unless an allocated page was written again.\<close>

theorem action_effects_per_page:
  assumes "pa_effects a = []"
  shows "distinct (map effect_page_num (pa_effects (foldl add_effect a ops))) \<and>
    effect_on n (pa_effects (foldl add_effect a ops)) =
      foldl page_outcome None (filter (\<lambda>e. effect_page_num e = n) ops) \<and>
    (effect_on n (pa_effects (foldl add_effect a ops)) = None) = (n \<notin> effect_page_num ` set ops) \<and>
    (\<forall>e. effect_on n (pa_effects (foldl add_effect a ops)) = Some e \<longrightarrow>
       after_image e = after_image (last (filter (\<lambda>e. effect_page_num e = n) ops)))"
proof -
  let ?h = "filter (\<lambda>e. effect_page_num e = n) ops"
  have on: "effect_on n (pa_effects (foldl add_effect a ops)) = foldl page_outcome None ?h"
    using assms fold_merge(2)[of n "[]" ops] by (simp add: effects_of_fold effect_on_def)
  have "?h \<noteq> [] \<longleftrightarrow> n \<in> effect_page_num ` set ops" by (auto simp: filter_empty_conv)
  then show ?thesis
    unfolding on using assms fold_merge(1)[of "[]" ops] outcome_image[of ?h None]
    by (auto simp: effects_of_fold)
qed

definition sample_effect :: "PageEffectKind \<Rightarrow> u32 \<Rightarrow> u8 \<Rightarrow> PageEffect" where
  "sample_effect k n v = \<lparr>effect_kind = k, effect_page_num = n, after_image = [v]\<rparr>"

definition sample_action :: PendingBTreeAction where
  "sample_action = \<lparr>pa_transaction_id = 1, pa_prev_lsn = 1, pa_undo = None, pa_effects = []\<rparr>"

theorem action_effects_per_page_witness:
  "effect_on 7 (pa_effects (foldl add_effect sample_action
     [sample_effect EffectAllocate 7 1, sample_effect EffectWrite 3 2, sample_effect EffectWrite 7 4])) =
   Some (sample_effect EffectAllocate 7 4)"
  using action_effects_per_page[of sample_action
      "[sample_effect EffectAllocate 7 1, sample_effect EffectWrite 3 2, sample_effect EffectWrite 7 4]" 7]
  by (simp add: sample_action_def sample_effect_def)

end
