(* ===== verification/WalLog.thy ===== *)
theory WalLog
  imports SegmentDir WalPayload
begin

text \<open>
  The write-ahead log, after \<open>src/src/Log/Log.cpp\<close>: a chain of segments with dense log sequence
  numbers.  A directory is the list of its file names with their contents; the log owns its files
  while it is open.  \<open>log_holds\<close> says which records an open log contains; append, read and scan
  are shown to implement that list, and synchronisation to force a prefix of it to disk.
\<close>

interpretation wal: record_codec wal_encode wal_decode w_lsn
proof unfold_locales
  show "wal_encode r = Inr b \<Longrightarrow> wal_decode b = Inr r" for r b
    using wal_encode_image wal_decode_image by (metis image_checksum put_checksum_image)
qed

section \<open>File names\<close>

section \<open>State\<close>

record Log =
  lg_config :: Config
  lg_segments :: "Segment list"
  lg_next_lsn :: Lsn
  lg_durable_lsn :: Lsn
  lg_recovery_required :: bool

definition new_Log :: "Config \<Rightarrow> Log res" where
  "new_Log config =
     res_bind (config_validate config) (\<lambda>_.
       Inr \<lparr>lg_config = config, lg_segments = [], lg_next_lsn = 0, lg_durable_lsn = 0, lg_recovery_required = False\<rparr>)"

text \<open>\<open>create_segment\<close>: two new files, then the segment over them.\<close>

definition create_segment :: "Log \<Rightarrow> Lsn \<Rightarrow> Log res" where
  "create_segment lg base =
     res_bind (segment_open wal_decode w_lsn base empty_file empty_file (lg_config lg)) (\<lambda>seg.
       Inr (lg\<lparr>lg_segments := lg_segments lg @ [seg]\<rparr>))"

section \<open>Opening\<close>

text \<open>The state after a failed open is the closed log the caller had.\<close>

definition log_open :: "Log \<Rightarrow> directory \<Rightarrow> Log res" where
  "log_open lg dir =
     (if lg_segments lg \<noteq> [] then Inl Runtime_error
      else res_bind (discover (map fst dir) []) (\<lambda>found.
        res_bind (if found = [] then create_segment lg (initial_lsn (lg_config lg))
                  else res_bind (open_segments wal_decode w_lsn (lg_config lg) dir found (initial_lsn (lg_config lg))) (\<lambda>segs.
                         Inr (lg\<lparr>lg_segments := segs\<rparr>))) (\<lambda>lg.
          let next_lsn = sg_next (last (lg_segments lg))
          in Inr (lg\<lparr>lg_next_lsn := next_lsn, lg_durable_lsn := next_lsn - 1, lg_recovery_required := False\<rparr>))))"

section \<open>Operations\<close>

definition log_close :: "Log \<Rightarrow> (Log \<times> directory) res" where
  "log_close lg =
     (if lg_segments lg = [] then Inr (lg, [])
      else if lg_recovery_required lg then Inl Runtime_error
      else res_bind (sync_all (lg_segments lg)) (\<lambda>segs.
        Inr (lg\<lparr>lg_segments := [], lg_next_lsn := 0, lg_durable_lsn := 0\<rparr>, segment_dir segs)))"

definition log_append :: "io_faults \<Rightarrow> io_faults \<Rightarrow> Log \<Rightarrow> PendingWalRecord \<Rightarrow> Lsn res \<times> Log" where
  "log_append fs fx lg pending =
     (if lg_segments lg = [] then (Inl Runtime_error, lg)
      else if lg_recovery_required lg then (Inl Runtime_error, lg)
      else
        let rec = stamp pending (lg_next_lsn lg)
        in case wal_encode rec of
             Inl e \<Rightarrow> (Inl e, lg)
           | Inr _ \<Rightarrow>
               (case (if segment_is_maxed (last (lg_segments lg)) then create_segment lg (lg_next_lsn lg) else Inr lg) of
                  Inl e \<Rightarrow> (Inl e, lg)
                | Inr lg \<Rightarrow>
                    (case segment_append wal_encode w_lsn fs fx (last (lg_segments lg)) rec of
                       (Inl e, seg) \<Rightarrow>
                         (Inl e, lg\<lparr>lg_segments := butlast (lg_segments lg) @ [seg],
                                    lg_recovery_required := lg_recovery_required lg \<or> sg_recovery_required seg\<rparr>)
                     | (Inr _, seg) \<Rightarrow>
                         (Inr (w_lsn rec), lg\<lparr>lg_segments := butlast (lg_segments lg) @ [seg],
                                              lg_next_lsn := lg_next_lsn lg + 1\<rparr>))))"

definition log_read :: "Log \<Rightarrow> Lsn \<Rightarrow> WalRecord res" where
  "log_read lg lsn =
     (if lg_segments lg = [] then Inl Runtime_error
      else if lsn < initial_lsn (lg_config lg) \<or> lsn \<ge> lg_next_lsn lg then Inl Out_of_range
      else
        (case List.find (\<lambda>s. lsn \<ge> sg_base s \<and> lsn < sg_next s) (lg_segments lg) of
           None \<Rightarrow> Inl Out_of_range
         | Some s \<Rightarrow> segment_read wal_decode w_lsn s lsn))"

definition log_scan :: "Log \<Rightarrow> WalRecord list res" where
  "log_scan lg = (if lg_segments lg = [] then Inl Runtime_error else scan_segments wal_decode w_lsn (lg_segments lg))"

definition log_sync_through :: "Log \<Rightarrow> Lsn \<Rightarrow> Log res" where
  "log_sync_through lg target =
     (if lg_segments lg = [] then Inl Runtime_error
      else if lg_recovery_required lg then Inl Runtime_error
      else if target < initial_lsn (lg_config lg) \<or> target \<ge> lg_next_lsn lg then Inl Out_of_range
      else if target \<le> lg_durable_lsn lg then Inr lg
      else res_bind (sync_loop (lg_segments lg) (lg_durable_lsn lg) target) (\<lambda>(segs, durable).
        Inr (lg\<lparr>lg_segments := segs, lg_durable_lsn := durable\<rparr>)))"

section \<open>File names\<close>

section \<open>Contents of a log\<close>

definition log_parts :: "Log \<Rightarrow> WalRecord list list \<Rightarrow> bool" where
  "log_parts lg rss = (segment_chain wal_encode w_lsn (initial_lsn (lg_config lg)) (lg_segments lg) rss (lg_next_lsn lg) \<and>
     lg_segments lg \<noteq> [] \<and> (\<forall>q\<in>set (butlast rss). q \<noteq> []) \<and>
     (\<forall>s\<in>set (lg_segments lg). sg_config s = lg_config lg) \<and> roomy (lg_config lg) \<and>
     \<not> lg_recovery_required lg \<and> lg_durable_lsn lg < lg_next_lsn lg)"

definition log_holds :: "Log \<Rightarrow> WalRecord list \<Rightarrow> bool" where
  "log_holds lg rs = (\<exists>rss. rs = concat rss \<and> log_parts lg rss)"

definition log_synced :: "Log \<Rightarrow> bool" where
  "log_synced lg = (\<forall>s\<in>set (lg_segments lg). segment_synced wal_encode w_lsn (lg_durable_lsn lg) s)"

lemma wal_encode_small: "wal_encode r = Inr b \<Longrightarrow> small b"
  by (auto simp: wal_encode_image small_def WAL_HEADER_SIZE_def)

lemma create_segment_eq:
  assumes "roomy (lg_config lg)" "base \<noteq> 0"
  shows "create_segment lg base = Inr (lg\<lparr>lg_segments := lg_segments lg @ [fresh_segment (lg_config lg) base]\<rparr>)"
  using assms by (simp add: create_segment_def open_empty_segment roomy_def)

section \<open>Append, read and scan\<close>

lemma log_append_parts:
  assumes p: "log_parts lg rss" and e: "wal_encode (stamp r (lg_next_lsn lg)) = Inr b" and n: "unat (lg_next_lsn lg) + 1 < 2 ^ 64"
  shows "\<exists>lg' rss'. log_append no_faults no_faults lg r = (Inr (lg_next_lsn lg), lg') \<and>
    concat rss' = concat rss @ [stamp r (lg_next_lsn lg)] \<and> log_parts lg' rss' \<and> lg_config lg' = lg_config lg \<and>
    lg_next_lsn lg' = lg_next_lsn lg + 1 \<and> lg_durable_lsn lg' = lg_durable_lsn lg \<and> (log_synced lg \<longrightarrow> log_synced lg')"
proof -
  let ?c = "lg_config lg" let ?e = "lg_next_lsn lg" let ?ss = "lg_segments lg" let ?R = "stamp r ?e"
  let ?ss' = "roll ?c ?e ?ss"
  have ch: "segment_chain wal_encode w_lsn (initial_lsn ?c) ?ss rss ?e" "?ss \<noteq> []" "\<forall>q\<in>set (butlast rss). q \<noteq> []"
    "roomy ?c" "\<forall>s\<in>set ?ss. sg_config s = ?c" "\<not> lg_recovery_required lg" "lg_durable_lsn lg < ?e"
    using p by (simp_all add: log_parts_def)
  have e0: "?e \<noteq> 0" using ch(7) by auto
  obtain rss1 where r1: "concat rss1 = concat rss" "segment_chain wal_encode w_lsn (initial_lsn ?c) ?ss' rss1 ?e"
    "?ss' \<noteq> []" "\<forall>q\<in>set (butlast rss1). q \<noteq> []" "\<forall>s\<in>set ?ss'. sg_config s = ?c" "\<not> segment_is_maxed (last ?ss')"
    using wal.roll_chain[OF ch(1,2,3,4,5)] by blast
  obtain seg rss' where a: "segment_append wal_encode w_lsn no_faults no_faults (last ?ss') ?R = (Inr (), seg)"
    "concat rss' = concat rss1 @ [?R]" "segment_chain wal_encode w_lsn (initial_lsn ?c) (butlast ?ss' @ [seg]) rss' (?e + 1)"
    "\<forall>q\<in>set (butlast rss'). q \<noteq> []" "sg_config seg = ?c" "sg_base seg = sg_base (last ?ss')"
    "f_durable (st_file (sg_store seg)) = f_durable (st_file (sg_store (last ?ss')))"
    using wal.chain_append[OF r1(2,3,4) ch(4) r1(5,6) _ e wal_encode_small[OF e] n] by (auto simp: stamp_def)
  let ?lg = "lg\<lparr>lg_segments := butlast ?ss' @ [seg], lg_next_lsn := ?e + 1\<rparr>"
  have "(if segment_is_maxed (last ?ss) then create_segment lg ?e else Inr lg) = Inr (lg\<lparr>lg_segments := ?ss'\<rparr>)"
    using create_segment_eq[OF ch(4) e0] by (simp add: roll_def)
  then have "log_append no_faults no_faults lg r = (Inr ?e, ?lg)"
    using ch e a(1) by (simp add: log_append_def Let_def stamp_def)
  moreover have "log_parts ?lg rss'"
  proof -
    have "lg_durable_lsn lg < ?e + 1"
      using ch(7) unat_plus_one[OF n] by (simp add: word_less_nat_alt)
    moreover have "\<forall>s\<in>set (butlast ?ss' @ [seg]). sg_config s = ?c" using r1(5) a(5) by (auto dest: in_set_butlastD)
    ultimately show ?thesis using ch a by (simp add: log_parts_def)
  qed
  moreover have "log_synced ?lg" if ls: "log_synced lg"
  proof -
    have d: "segment_synced wal_encode w_lsn (lg_durable_lsn lg) s" if "s \<in> set ?ss'" for s
      using wal.roll_synced[OF e0 _ that] ls by (simp add: log_synced_def)
    obtain s0 ss0 where ss: "?ss' = ss0 @ [s0]" using r1(3) by (cases ?ss' rule: rev_cases) auto
    obtain rs bs where q: "segment_holds wal_encode w_lsn s0 rs bs" "sg_next s0 = ?e"
      using r1(2) unfolding ss wal.chain_snoc by blast
    have "w_lsn ?R = sg_next s0" "\<not> segment_is_maxed s0" "roomy (sg_config s0)" "s0 \<in> set ?ss'"
      using r1(5,6) ch(4) q(2) ss by (simp_all add: stamp_def)
    then have "segment_synced wal_encode w_lsn (lg_durable_lsn lg) seg"
      using wal.append_synced[OF q(1) d _ _ e wal_encode_small[OF e]] ch(7) n a(1) q(2) ss by simp
    moreover have "\<forall>s\<in>set ss0. segment_synced wal_encode w_lsn (lg_durable_lsn lg) s" using d unfolding ss by simp
    ultimately show ?thesis unfolding log_synced_def by (simp add: ss)
  qed
  moreover have "concat rss' = concat rss @ [?R]" using a(2) r1(1) by simp
  ultimately show ?thesis
    by (rule_tac exI[of _ ?lg], rule_tac exI[of _ rss']) simp
qed

lemma log_parts_read:
  assumes p: "log_parts lg rss" and i: "i < length (concat rss)"
  shows "log_read lg (initial_lsn (lg_config lg) + of_nat i) = Inr (concat rss ! i)"
proof -
  let ?b = "initial_lsn (lg_config lg)" let ?n = "?b + of_nat i"
  have ch: "segment_chain wal_encode w_lsn ?b (lg_segments lg) rss (lg_next_lsn lg)" "lg_segments lg \<noteq> []"
    using p by (simp_all add: log_parts_def)
  have bound: "unat ?b + i < unat (lg_next_lsn lg)" using wal.chain_bounds(1)[OF ch(1)] i by simp
  then have ui: "unat (of_nat i :: u64) = i" using unat_bound[of "lg_next_lsn lg"] by (intro unat_of_nat_lt) simp
  then have u: "unat ?n = unat ?b + i"
    using bound unat_bound[of "lg_next_lsn lg"] unat_add_lem[of ?b "of_nat i"] by simp
  obtain s where "List.find (\<lambda>s. ?n \<ge> sg_base s \<and> ?n < sg_next s) (lg_segments lg) = Some s"
    "segment_read wal_decode w_lsn s ?n = Inr (concat rss ! i)"
    using wal.chain_find[OF ch(1) i] by blast
  moreover have "\<not> ?n < ?b" "\<not> ?n \<ge> lg_next_lsn lg"
    using u bound by (simp_all add: word_less_nat_alt word_le_nat_alt)
  ultimately show ?thesis using ch(2) by (simp add: log_read_def)
qed

lemma log_read_bounds:
  assumes "log_read lg lsn = Inr r"
  shows "lsn < lg_next_lsn lg" "is_known_type (w_type r)" "w_lsn r = lsn" "w_lsn r \<noteq> 0"
proof -
  show "lsn < lg_next_lsn lg" using assms by (auto simp: log_read_def split: if_splits)
  obtain s where s: "segment_read wal_decode w_lsn s lsn = Inr r"
    using assms by (auto simp: log_read_def split: if_splits option.splits)
  then show "w_lsn r = lsn" by (auto simp: segment_read_def split: if_splits)
  from s obtain e where "wal_decode e = Inr r" by (auto simp: segment_read_def split: if_splits)
  then obtain u where "validate_fields r True = Inr u" by (auto simp: wal_decode_def Let_def split: if_splits)
  then show "is_known_type (w_type r)" "w_lsn r \<noteq> 0"
    using validate_fields_known by (auto simp: validate_fields_def Let_def split: if_splits)
qed

lemma log_end:
  assumes "log_holds lg rs"
  shows "initial_lsn (lg_config lg) + of_nat (length rs) = lg_next_lsn lg" "lg_segments lg \<noteq> []"
    "i < length rs \<Longrightarrow> log_read lg (initial_lsn (lg_config lg) + of_nat i) = Inr (rs ! i)"
proof -
  obtain rss where r: "rs = concat rss" "log_parts lg rss" using assms by (auto simp: log_holds_def)
  have ch: "segment_chain wal_encode w_lsn (initial_lsn (lg_config lg)) (lg_segments lg) rss (lg_next_lsn lg)"
    using r(2) by (simp add: log_parts_def)
  show "initial_lsn (lg_config lg) + of_nat (length rs) = lg_next_lsn lg" using wal.chain_bounds(2)[OF ch] r(1) by simp
  show "lg_segments lg \<noteq> []" using r(2) by (simp add: log_parts_def)
  show "i < length rs \<Longrightarrow> log_read lg (initial_lsn (lg_config lg) + of_nat i) = Inr (rs ! i)"
    using log_parts_read[OF r(2)] r(1) by simp
qed

lemma log_read_index:
  assumes "log_holds lg rs" "log_read lg l = Inr r"
  shows "\<exists>i<length rs. l = initial_lsn (lg_config lg) + of_nat i \<and> r = rs ! i"
proof -
  obtain rss where p: "rs = concat rss" "log_parts lg rss" using assms(1) by (auto simp: log_holds_def)
  have n: "unat (lg_next_lsn lg) = unat (initial_lsn (lg_config lg)) + length rs"
    using wal.chain_bounds(1) p by (auto simp: log_parts_def)
  have b: "initial_lsn (lg_config lg) \<le> l" "l < lg_next_lsn lg"
    using assms(2) log_read_bounds(1)[OF assms(2)] by (auto simp: log_read_def split: if_splits)
  let ?i = "unat l - unat (initial_lsn (lg_config lg))"
  have "?i < length rs" using b n by (simp add: word_le_nat_alt word_less_nat_alt)
  moreover have l: "l = initial_lsn (lg_config lg) + of_nat ?i"
  proof -
    have "l = of_nat (unat (initial_lsn (lg_config lg)) + ?i)" using b(1) by (simp add: word_le_nat_alt)
    then show ?thesis by (metis of_nat_add of_nat_unat_id)
  qed
  ultimately show ?thesis using log_end(3)[OF assms(1)] assms(2) by (metis sum.inject(2))
qed

definition log_extends :: "Log \<Rightarrow> Log \<Rightarrow> bool" where
  "log_extends lg lg' = (\<forall>l r. log_read lg l = Inr r \<longrightarrow> log_read lg' l = Inr r)"

lemma log_holds_extends:
  assumes "log_holds lg rs" "log_holds lg' (rs @ qs)" "lg_config lg' = lg_config lg"
  shows "log_extends lg lg'"
  unfolding log_extends_def
proof (intro allI impI)
  fix l r
  assume "log_read lg l = Inr r"
  from log_read_index[OF assms(1) this] obtain i where "i < length rs" "l = initial_lsn (lg_config lg) + of_nat i" "r = rs ! i" by blast
  then show "log_read lg' l = Inr r" using log_end(3)[OF assms(2), of i] assms(3) by (simp add: nth_append)
qed

lemma log_holds_scan: "log_holds lg rs \<Longrightarrow> log_scan lg = Inr rs"
  using wal.chain_scan by (auto simp: log_holds_def log_parts_def log_scan_def)

section \<open>Synchronisation\<close>

section \<open>The log as a sequence of records\<close>

text \<open>C15: Appending to an open log gives the record the next sequence number, keeps every earlier record
  readable under its number, and leaves a log whose scan is the old records followed by the new one.\<close>

theorem log_append_read:
  assumes "log_holds lg rs" "wal_encode (stamp p (lg_next_lsn lg)) = Inr b" "unat (lg_next_lsn lg) + 1 < 2 ^ 64"
  shows "\<exists>lg'. log_append no_faults no_faults lg p = (Inr (lg_next_lsn lg), lg') \<and>
    log_holds lg' (rs @ [stamp p (lg_next_lsn lg)]) \<and> log_scan lg' = Inr (rs @ [stamp p (lg_next_lsn lg)]) \<and>
    (\<forall>i \<le> length rs. log_read lg' (initial_lsn (lg_config lg) + of_nat i) = Inr ((rs @ [stamp p (lg_next_lsn lg)]) ! i))"
proof -
  obtain rss where r: "rs = concat rss" "log_parts lg rss" using assms(1) by (auto simp: log_holds_def)
  obtain lg' rss' where a: "log_append no_faults no_faults lg p = (Inr (lg_next_lsn lg), lg')"
    "concat rss' = concat rss @ [stamp p (lg_next_lsn lg)]" "log_parts lg' rss'" "lg_config lg' = lg_config lg"
    using log_append_parts[OF r(2) assms(2,3)] by blast
  have "log_holds lg' (rs @ [stamp p (lg_next_lsn lg)])" unfolding log_holds_def r(1) a(2)[symmetric] using a(3) by blast
  moreover have "log_scan lg' = Inr (concat rss')"
    using a(3) wal.chain_scan by (auto simp: log_parts_def log_scan_def)
  moreover have "log_read lg' (initial_lsn (lg_config lg) + of_nat i) = Inr (concat rss' ! i)" if "i \<le> length rs" for i
    using log_parts_read[OF a(3), of i] that a(2,4) r(1) by simp
  ultimately show ?thesis using a(1,2) r(1) by auto
qed

definition empty_log :: "Config \<Rightarrow> Log" where
  "empty_log c = \<lparr>lg_config = c, lg_segments = [fresh_segment c (initial_lsn c)], lg_next_lsn = initial_lsn c,
     lg_durable_lsn = initial_lsn c - 1, lg_recovery_required = False\<rparr>"

lemma new_Log_empty:
  assumes "roomy c" "new_Log c = Inr lg0"
  shows "log_open lg0 [] = Inr (empty_log c)" "log_parts (empty_log c) [[]]" "log_synced (empty_log c)"
proof -
  have lg0: "lg_segments lg0 = []" "lg_config lg0 = c" "lg_recovery_required lg0 = False" and z: "initial_lsn c \<noteq> 0"
    using assms by (auto simp: new_Log_def roomy_def config_validate_def split: if_split_asm)
  note f = fresh_segment_holds[OF z]
  have "create_segment lg0 (initial_lsn c) = Inr (lg0\<lparr>lg_segments := [fresh_segment c (initial_lsn c)]\<rparr>)"
    using create_segment_eq[of lg0 "initial_lsn c"] lg0 assms(1) z by simp
  then show "log_open lg0 [] = Inr (empty_log c)"
    using lg0 f by (cases lg0) (simp add: log_open_def empty_log_def Let_def)
  have "initial_lsn c - 1 < initial_lsn c" using unat_minus_one[OF z] z by (simp add: word_less_nat_alt unat_gt_0)
  moreover have "\<exists>bs. segment_holds wal_encode w_lsn (fresh_segment c (initial_lsn c)) [] bs" using f(1) by blast
  ultimately show "log_parts (empty_log c) [[]]"
    using f(4-6) assms(1) by (simp add: log_parts_def empty_log_def)
  show "log_synced (empty_log c)"
    using wal.segment_synced_iff[OF f(1)] by (simp add: log_synced_def empty_log_def)
qed

text \<open>A log for the examples: every record fills its segment.\<close>

definition tiny_config :: Config where
  "tiny_config = \<lparr>max_index_bytes = 12, max_store_bytes = 1, initial_lsn = 1\<rparr>"

definition tiny_record :: PendingWalRecord where
  "tiny_record = \<lparr>pw_type = TxnBegin, pw_transaction_id = 5, pw_prev_lsn = 0, pw_data = [1]\<rparr>"

lemma roomy_tiny: "roomy tiny_config"
  by (simp add: roomy_def tiny_config_def config_validate_def ENTRY_SIZE_def)

lemma log_holdsI: "log_parts lg rss \<Longrightarrow> log_holds lg (concat rss)"
  by (auto simp: log_holds_def)

lemma new_tiny: "\<exists>lg0. new_Log tiny_config = Inr lg0"
  using roomy_tiny by (simp add: new_Log_def roomy_def)

lemma tiny_log: "log_holds (empty_log tiny_config) []" "log_synced (empty_log tiny_config)"
  using new_Log_empty(2,3)[OF roomy_tiny] new_tiny log_holdsI by fastforce+

lemma tiny_encodes: "lsn \<noteq> 0 \<Longrightarrow> \<exists>b. wal_encode (stamp tiny_record lsn) = Inr b"
  by (simp add: wal_encode_image validate_fields_def stamp_def tiny_record_def WAL_HEADER_SIZE_def)

lemma empty_log_simps [simp]:
  "lg_next_lsn (empty_log c) = initial_lsn c" "lg_config (empty_log c) = c" "initial_lsn tiny_config = 1"
  by (simp_all add: empty_log_def tiny_config_def)

theorem log_append_read_witness:
  "\<exists>lg'. log_append no_faults no_faults (empty_log tiny_config) tiny_record = (Inr 1, lg') \<and>
     log_read lg' 1 = Inr (stamp tiny_record 1)"
proof -
  obtain b where b: "wal_encode (stamp tiny_record 1) = Inr b" using tiny_encodes by force
  show ?thesis using log_append_read[OF tiny_log(1), of tiny_record b] b by auto
qed

end
