(* ===== verification/WalDurability.thy ===== *)
theory WalDurability
  imports WalLog
begin

text \<open>
  Closing, reopening and crashing the write-ahead log of \<open>src/src/Log/Log.cpp\<close>.  Opening a directory
  is shown independent of the order in which it is listed; opening any prefix of the files of the last
  segment gives a prefix of the records that contains everything synchronised.  The theory also
  records two situations in which the log promises more than it keeps: a crash after a rollover,
  and a reopening after a crash of the process alone.
\<close>

section \<open>Reopening\<close>

lemma log_open_cut:
  assumes p: "log_parts lg rss" and new: "new_Log (lg_config lg) = Inr lg0" and cut: "cut_dir cs ci (lg_segments lg) dir"
    and sv: "\<forall>s\<in>set (lg_segments lg). survives wal_encode w_lsn d cs s"
    and whole: "\<forall>s\<in>set (butlast (lg_segments lg)). file_size (st_file (sg_store s)) \<le> cs (sg_base s)"
  shows "\<exists>lg' k. log_open lg0 dir = Inr lg' \<and> log_holds lg' (take k (concat rss)) \<and> lg_config lg' = lg_config lg \<and>
    (all_durable dir \<longrightarrow> log_synced lg') \<and> min (unat d + 1 - unat (initial_lsn (lg_config lg))) (length (concat rss)) \<le> k"
proof -
  let ?c = "lg_config lg" let ?b = "initial_lsn ?c" let ?ss = "lg_segments lg"
  have ch: "segment_chain wal_encode w_lsn ?b ?ss rss (lg_next_lsn lg)" "?ss \<noteq> []" "\<forall>q\<in>set (butlast rss). q \<noteq> []"
    "roomy ?c" "config_validate ?c = Inr ()"
    using p by (simp_all add: log_parts_def roomy_def)
  have lg0: "lg_segments lg0 = []" "lg_config lg0 = ?c" using new ch(5) by (auto simp: new_Log_def)
  have names: "mset (map fst dir) = mset (base_names (map sg_base ?ss))" using cut by (simp add: cut_dir_def)
  have found: "discover (map fst dir) [] = Inr (both_files ?ss)" by (rule wal.discover_cut_dir[OF ch(1,3) names])
  have "opened wal_encode w_lsn ?c (all_durable dir) ?b (concat rss) (unat d + 1 - unat ?b) (open_segments wal_decode w_lsn ?c dir (both_files ?ss) ?b)"
    using wal.open_cut_chain[OF ch(1,2,3,5) _ sv whole] cut by (auto simp: cut_dir_def)
  then obtain ss rss' k where o: "open_segments wal_decode w_lsn ?c dir (both_files ?ss) ?b = Inr ss"
    "segment_chain wal_encode w_lsn ?b ss rss' (sg_next (last ss))" "ss \<noteq> []"
    "concat rss' = take k (concat rss)" "\<forall>q\<in>set (butlast rss'). q \<noteq> []"
    "\<forall>s\<in>set ss. sg_config s = ?c \<and> (all_durable dir \<longrightarrow> (\<forall>d. segment_synced wal_encode w_lsn d s))"
    "min (unat d + 1 - unat ?b) (length (concat rss)) \<le> k"
    unfolding opened_def by blast
  let ?n = "sg_next (last ss)"
  let ?lg = "lg0\<lparr>lg_segments := ss, lg_next_lsn := ?n, lg_durable_lsn := ?n - 1, lg_recovery_required := False\<rparr>"
  have "?b \<noteq> 0" using ch(5) by (auto simp: config_validate_def split: if_split_asm)
  then have "?n \<noteq> 0" using wal.chain_bounds(1)[OF o(2)] by (auto simp: unat_eq_zero)
  then have lt: "?n - 1 < ?n" using unat_minus_one[of ?n] by (simp add: word_less_nat_alt unat_gt_0)
  have "both_files ?ss \<noteq> []" using ch(2) by simp
  then have "log_open lg0 dir = Inr ?lg"
    using found o(1) lg0 by (simp add: log_open_def Let_def split del: if_split)
  moreover have "log_parts ?lg rss'" using o lg0 ch(4) lt by (simp add: log_parts_def)
  then have "log_holds ?lg (take k (concat rss))" unfolding log_holds_def o(4)[symmetric] by blast
  moreover have "log_synced ?lg" if "all_durable dir" using that o(6) by (simp add: log_synced_def)
  ultimately show ?thesis using lg0 o(7) by (rule_tac exI[of _ ?lg], rule_tac exI[of _ k]) simp
qed

section \<open>Durability\<close>

text \<open>What the directory of a log may hold after a crash: of every file at least what was forced to
  disk, and the stores of the segments before the last one whole.\<close>

definition crash_image :: "Log \<Rightarrow> directory \<Rightarrow> bool" where
  "crash_image lg dir = (\<exists>cs ci. cut_dir cs ci (lg_segments lg) dir \<and> all_durable dir \<and>
     (\<forall>s\<in>set (lg_segments lg). f_durable (st_file (sg_store s)) \<le> cs (sg_base s)) \<and>
     (\<forall>s\<in>set (butlast (lg_segments lg)). file_size (st_file (sg_store s)) \<le> cs (sg_base s)))"

lemma log_sync_parts:
  assumes p: "log_parts lg rss" and sy: "log_synced lg" and t: "initial_lsn (lg_config lg) \<le> t" "t < lg_next_lsn lg"
  shows "\<exists>lg'. log_sync_through lg t = Inr lg' \<and> log_parts lg' rss \<and> log_synced lg' \<and> t \<le> lg_durable_lsn lg' \<and>
    lg_config lg' = lg_config lg \<and> lg_next_lsn lg' = lg_next_lsn lg"
proof -
  let ?c = "lg_config lg" let ?b = "initial_lsn ?c"
  have ch: "segment_chain wal_encode w_lsn ?b (lg_segments lg) rss (lg_next_lsn lg)" "lg_segments lg \<noteq> []"
    "lg_durable_lsn lg < lg_next_lsn lg" "\<not> lg_recovery_required lg"
    "\<forall>s\<in>set (lg_segments lg). segment_synced wal_encode w_lsn (lg_durable_lsn lg) s \<and> sg_config s = ?c"
    using p sy by (auto simp: log_parts_def log_synced_def)
  show ?thesis
  proof (cases "t \<le> lg_durable_lsn lg")
    case True
    then show ?thesis using p sy t ch by (rule_tac exI[of _ lg]) (simp add: log_sync_through_def not_less not_le)
  next
    case False
    obtain ss d where s: "sync_loop (lg_segments lg) (lg_durable_lsn lg) t = Inr (ss, d)"
      "segment_chain wal_encode w_lsn ?b ss rss (lg_next_lsn lg)" "\<forall>s\<in>set ss. segment_synced wal_encode w_lsn d s \<and> sg_config s = ?c"
      "d < lg_next_lsn lg" "t < lg_next_lsn lg \<longrightarrow> t \<le> d"
      using wal.sync_loop_chain[OF ch(1,5,3), of t] t(1) by (metis leD)
    have "ss \<noteq> []" using s(2) ch(1,2) by (cases rss; cases ss; cases "lg_segments lg") auto
    let ?lg = "lg\<lparr>lg_segments := ss, lg_durable_lsn := d\<rparr>"
    have "log_sync_through lg t = Inr ?lg" using ch False t s(1) by (simp add: log_sync_through_def not_less not_le)
    moreover have "log_parts ?lg rss" using p s \<open>ss \<noteq> []\<close> by (simp add: log_parts_def)
    moreover have "log_synced ?lg" using s(3) by (simp add: log_synced_def)
    ultimately show ?thesis using s(5) t by (rule_tac exI[of _ ?lg]) simp
  qed
qed

text \<open>Synchronisation, and what a crash can leave behind it.\<close>

lemma log_sync_crash:
  assumes "log_holds lg rs" "log_synced lg" "initial_lsn (lg_config lg) \<le> t" "t < lg_next_lsn lg"
  shows "\<exists>lg'. log_sync_through lg t = Inr lg' \<and> log_holds lg' rs \<and> log_synced lg' \<and> t \<le> lg_durable_lsn lg' \<and>
    (\<forall>dir lg0. crash_image lg' dir \<and> new_Log (lg_config lg) = Inr lg0 \<longrightarrow>
      (\<exists>lg'' k. log_open lg0 dir = Inr lg'' \<and> log_holds lg'' (take k rs) \<and> log_synced lg'' \<and>
        unat t - unat (initial_lsn (lg_config lg)) < k))"
proof -
  obtain rss where r: "rs = concat rss" "log_parts lg rss" using assms(1) by (auto simp: log_holds_def)
  obtain lg' where lg': "log_sync_through lg t = Inr lg'" "log_parts lg' rss" "log_synced lg'" "t \<le> lg_durable_lsn lg'"
    "lg_config lg' = lg_config lg" "lg_next_lsn lg' = lg_next_lsn lg"
    using log_sync_parts[OF r(2) assms(2,3,4)] by blast
  have "unat t - unat (initial_lsn (lg_config lg)) < length rs"
    using r assms(3,4) wal.chain_bounds(1) by (fastforce simp: log_parts_def word_le_nat_alt word_less_nat_alt)
  moreover have "unat t - unat (initial_lsn (lg_config lg)) < unat (lg_durable_lsn lg') + 1 - unat (initial_lsn (lg_config lg))"
    using assms(3) lg'(4) by (simp add: word_le_nat_alt)
  moreover have "\<exists>lg'' k. log_open lg0 dir = Inr lg'' \<and> log_holds lg'' (take k rs) \<and> log_synced lg'' \<and>
      min (unat (lg_durable_lsn lg') + 1 - unat (initial_lsn (lg_config lg))) (length rs) \<le> k"
    if crash: "crash_image lg' dir" and new: "new_Log (lg_config lg) = Inr lg0" for dir lg0
  proof -
    obtain cs ci where c: "cut_dir cs ci (lg_segments lg') dir" "all_durable dir"
      "\<forall>s\<in>set (lg_segments lg'). f_durable (st_file (sg_store s)) \<le> cs (sg_base s)"
      "\<forall>s\<in>set (butlast (lg_segments lg')). file_size (st_file (sg_store s)) \<le> cs (sg_base s)"
      using crash unfolding crash_image_def by blast
    have "\<forall>s\<in>set (lg_segments lg'). survives wal_encode w_lsn (lg_durable_lsn lg') cs s"
      using c(3) lg'(3) wal.synced_survives by (auto simp: log_synced_def)
    from log_open_cut[OF lg'(2) new[folded lg'(5)] c(1) this c(4)] show ?thesis
      using c(2) r(1) lg'(5) by auto
  qed
  moreover have "log_holds lg' rs" using lg'(2) r(1) by (auto simp: log_holds_def)
  ultimately show ?thesis using lg'(1,3,4) by (rule_tac exI[of _ lg']) (fastforce simp: min_def split: if_split_asm)
qed

lemma log_parts_length:
  assumes "log_parts lg rss"
  shows "unat (lg_next_lsn lg - 1) + 1 - unat (initial_lsn (lg_config lg)) = length (concat rss)"
proof -
  have "lg_next_lsn lg \<noteq> 0" using assms by (auto simp: log_parts_def)
  then show ?thesis
    using assms wal.chain_bounds(1) unat_minus_one[of "lg_next_lsn lg"] unat_gt_0[of "lg_next_lsn lg"]
    by (fastforce simp: log_parts_def)
qed

lemma log_parts_distinct: "log_parts lg rss \<Longrightarrow> distinct (map sg_base (lg_segments lg))"
  using sorted_less_distinct[OF wal.chain_bases_sorted] unfolding log_parts_def by blast

text \<open>Forcing the last record: after a crash the whole log is there.\<close>

lemma force_last:
  assumes "log_holds lg (rs @ [r])" "log_synced lg"
  shows "\<exists>lg'. log_sync_through lg (lg_next_lsn lg - 1) = Inr lg' \<and> log_holds lg' (rs @ [r]) \<and> log_synced lg' \<and>
    lg_next_lsn lg - 1 \<le> lg_durable_lsn lg' \<and>
    (\<forall>dir lg0. crash_image lg' dir \<and> new_Log (lg_config lg) = Inr lg0 \<longrightarrow>
      (\<exists>lg''. log_open lg0 dir = Inr lg'' \<and> log_holds lg'' (rs @ [r])))"
proof -
  let ?i = "initial_lsn (lg_config lg)" and ?l = "lg_next_lsn lg - 1" and ?rs = "rs @ [r]"
  obtain rss where p: "?rs = concat rss" "log_parts lg rss" using assms(1) unfolding log_holds_def by blast
  have n: "unat ?l + 1 - unat ?i = length ?rs" "lg_next_lsn lg \<noteq> 0"
    using log_parts_length[OF p(2)] p by (auto simp: log_parts_def)
  then have le: "?i \<le> ?l" by (simp add: word_le_nat_alt)
  have "?l < lg_next_lsn lg" using n(2) by (simp add: word_less_nat_alt unat_minus_one unat_gt_0)
  from log_sync_crash[OF assms le this] obtain lg' where lg': "log_sync_through lg ?l = Inr lg'" "log_holds lg' ?rs"
    "log_synced lg'" "?l \<le> lg_durable_lsn lg'"
    "\<forall>dir lg0. crash_image lg' dir \<and> new_Log (lg_config lg) = Inr lg0 \<longrightarrow>
      (\<exists>lg'' k. log_open lg0 dir = Inr lg'' \<and> log_holds lg'' (take k ?rs) \<and> log_synced lg'' \<and> unat ?l - unat ?i < k)"
    by blast
  have "take k ?rs = ?rs" if "unat ?l - unat ?i < k" for k using that n(1) by simp
  then show ?thesis using lg' by metis
qed


lemma log_open_whole:
  assumes p: "log_parts lg rss" and new: "new_Log (lg_config lg) = Inr lg0"
  shows "\<exists>lg'. log_open lg0 (segment_dir (lg_segments lg)) = Inr lg' \<and> log_holds lg' (concat rss) \<and>
    (all_durable (segment_dir (lg_segments lg)) \<longrightarrow> log_synced lg')"
proof -
  let ?ss = "lg_segments lg" let ?b = "initial_lsn (lg_config lg)" let ?d = "lg_next_lsn lg - 1"
  define n where "n = files_bound ?ss"
  note n = files_bound[of _ ?ss, folded n_def]
  have ch: "segment_chain wal_encode w_lsn ?b ?ss rss (lg_next_lsn lg)" "\<forall>q\<in>set (butlast rss). q \<noteq> []"
    "lg_durable_lsn lg < lg_next_lsn lg"
    using p by (simp_all add: log_parts_def)
  have "distinct (map sg_base ?ss)" by (rule log_parts_distinct[OF p])
  then have cut: "cut_dir (\<lambda>_. n) (\<lambda>_. n) ?ss (segment_dir ?ss)"
    using n by (simp add: cut_dir_def segment_dir_names segment_dir_file file_whole)
  have "unat ?d + 1 - unat ?b = length (concat rss)" by (rule log_parts_length[OF p])
  moreover have "\<forall>s\<in>set ?ss. survives wal_encode w_lsn ?d (\<lambda>_. n) s" using n(1) wal.whole_survives[of _ "\<lambda>_. n"] by blast
  moreover have "\<forall>s\<in>set (butlast ?ss). file_size (st_file (sg_store s)) \<le> n" using n(1) in_set_butlastD by metis
  ultimately obtain lg' k where "log_open lg0 (segment_dir ?ss) = Inr lg'" "log_holds lg' (take k (concat rss))"
    "all_durable (segment_dir ?ss) \<longrightarrow> log_synced lg'" "min (length (concat rss)) (length (concat rss)) \<le> k"
    using log_open_cut[OF p new cut, of ?d] by metis
  then show ?thesis by auto
qed

text \<open>Closing and reopening a log is a round trip: the close succeeds, opening the directory it
  leaves succeeds, and the reopened log holds the same records, all of them forced to disk.\<close>

theorem log_close_reopen:
  assumes "log_holds lg rs" "new_Log (lg_config lg) = Inr lg0"
  shows "\<exists>lg1 dir lg2. log_close lg = Inr (lg1, dir) \<and> log_open lg0 dir = Inr lg2 \<and> log_holds lg2 rs \<and>
    log_synced lg2 \<and> log_scan lg2 = Inr rs"
proof -
  obtain rss where r: "rs = concat rss" "log_parts lg rss" using assms(1) by (auto simp: log_holds_def)
  let ?b = "initial_lsn (lg_config lg)"
  have ch: "segment_chain wal_encode w_lsn ?b (lg_segments lg) rss (lg_next_lsn lg)" "lg_segments lg \<noteq> []"
    "\<not> lg_recovery_required lg" "\<forall>s\<in>set (lg_segments lg). sg_config s = lg_config lg"
    using r(2) by (simp_all add: log_parts_def)
  obtain ss where s: "sync_all (lg_segments lg) = Inr ss" "segment_chain wal_encode w_lsn ?b ss rss (lg_next_lsn lg)"
    "map sg_config ss = map sg_config (lg_segments lg)"
    "\<forall>s\<in>set ss. f_durable (st_file (sg_store s)) = file_size (st_file (sg_store s)) \<and>
       f_durable (ix_file (sg_index s)) = file_size (ix_file (sg_index s))"
    using wal.sync_all_chain[OF ch(1)] by blast
  let ?lg = "lg\<lparr>lg_segments := ss\<rparr>"
  have "set (map sg_config ss) = set (map sg_config (lg_segments lg))" using s(3) by simp
  then have "\<forall>s\<in>set ss. sg_config s = lg_config lg" using ch(4) by auto
  moreover have "ss \<noteq> []" using s(3) ch(2) by auto
  ultimately have p: "log_parts ?lg rss" using r(2) s(2) by (simp add: log_parts_def)
  have "all_durable (segment_dir ss)"
    using s(4) by (auto simp: all_durable_def segment_dir_def file_size_def)
  then obtain lg2 where o: "log_open lg0 (segment_dir ss) = Inr lg2" "log_holds lg2 rs" "log_synced lg2"
    using log_open_whole[OF p, of lg0] assms(2) r(1) by auto
  moreover have "log_close lg = Inr (lg\<lparr>lg_segments := [], lg_next_lsn := 0, lg_durable_lsn := 0\<rparr>, segment_dir ss)"
    using ch s(1) by (simp add: log_close_def)
  moreover have "log_scan lg2 = Inr rs" using o(2) by (rule log_holds_scan)
  ultimately show ?thesis by blast
qed

theorem log_close_reopen_witness:
  "\<exists>lg0 lg1 dir lg2. new_Log tiny_config = Inr lg0 \<and> log_close (empty_log tiny_config) = Inr (lg1, dir) \<and>
     log_open lg0 dir = Inr lg2 \<and> log_scan lg2 = Inr []"
proof -
  obtain lg0 where l: "new_Log tiny_config = Inr lg0" using new_tiny by blast
  then show ?thesis using log_close_reopen[OF tiny_log(1), of lg0] by auto
qed

section \<open>Failed appends\<close>

text \<open>The files a failed append leaves are a cut of those a successful one would have left.\<close>

lemma failed_append_files:
  assumes r: "log_parts lg rss" and e: "wal_encode (stamp p (lg_next_lsn lg)) = Inr b" and n: "unat (lg_next_lsn lg) + 1 < 2 ^ 64"
    and f: "log_append fs fx lg p = (Inl x, lg')"
  shows "lg_recovery_required lg' \<and> lg_segments lg' \<noteq> [] \<and>
    (\<exists>v rss' cs ci. log_parts v rss' \<and> concat rss' = concat rss @ [stamp p (lg_next_lsn lg)] \<and> lg_config v = lg_config lg \<and>
       cut_dir cs ci (lg_segments v) (segment_dir (lg_segments lg')) \<and>
       (\<forall>s\<in>set (lg_segments v). survives wal_encode w_lsn (lg_next_lsn lg - 1) cs s) \<and>
       (\<forall>s\<in>set (butlast (lg_segments v)). file_size (st_file (sg_store s)) \<le> cs (sg_base s)))"
proof -
  let ?c = "lg_config lg" let ?e = "lg_next_lsn lg" let ?ss = "lg_segments lg" let ?R = "stamp p ?e"
  let ?ss' = "roll ?c ?e ?ss" let ?b = "initial_lsn ?c"
  have ch: "segment_chain wal_encode w_lsn ?b ?ss rss ?e" "?ss \<noteq> []" "\<forall>q\<in>set (butlast rss). q \<noteq> []"
    "roomy ?c" "\<forall>s\<in>set ?ss. sg_config s = ?c" "\<not> lg_recovery_required lg" "lg_durable_lsn lg < ?e"
    using r by (simp_all add: log_parts_def)
  have e0: "?e \<noteq> 0" using ch(7) by auto
  obtain rss1 where r1: "concat rss1 = concat rss" "segment_chain wal_encode w_lsn ?b ?ss' rss1 ?e"
    "?ss' \<noteq> []" "\<forall>q\<in>set (butlast rss1). q \<noteq> []" "\<forall>s\<in>set ?ss'. sg_config s = ?c" "\<not> segment_is_maxed (last ?ss')"
    using wal.roll_chain[OF ch(1,2,3,4,5)] by blast
  obtain s0 ss0 where ss: "?ss' = ss0 @ [s0]" using r1(3) by (cases ?ss' rule: rev_cases) auto
  obtain rss0 qs bs where q: "rss1 = rss0 @ [qs]" "segment_chain wal_encode w_lsn ?b ss0 rss0 (sg_base s0)"
    "segment_holds wal_encode w_lsn s0 qs bs" "sg_next s0 = ?e"
    using r1(2) unfolding ss wal.chain_snoc by blast
  have cr: "(if segment_is_maxed (last ?ss) then create_segment lg ?e else Inr lg) = Inr (lg\<lparr>lg_segments := ?ss'\<rparr>)"
    using create_segment_eq[OF ch(4) e0] by (simp add: roll_def)
  then obtain s' where a: "segment_append wal_encode w_lsn fs fx s0 ?R = (Inl x, s')"
    "lg' = lg\<lparr>lg_segments := ss0 @ [s'], lg_recovery_required := sg_recovery_required s'\<rparr>"
    using e f ch(2,6) ss by (auto simp: log_append_def Let_def split: sum.split_asm prod.split_asm)
  have s0: "w_lsn ?R = sg_next s0" "\<not> segment_is_maxed s0" "roomy (sg_config s0)" "unat (sg_next s0) + 1 < 2 ^ 64"
    using r1(5,6) ch(4) q(4) ss n by (simp_all add: stamp_def)
  note fl = wal.failed_last_append[OF q(3) s0(1) e wal_encode_small[OF e] s0(2,3,4) a(1)]
  have req: "lg_recovery_required lg'" "lg_segments lg' = ss0 @ [s']" using fl(1) a(2) by simp_all
  obtain v k m where v: "segment_append wal_encode w_lsn no_faults no_faults s0 ?R = (Inr (), v)" "sg_base v = sg_base s0"
    "f_data (st_file (sg_store s')) = take k (f_data (st_file (sg_store v)))"
    "f_data (ix_file (sg_index s')) = take m (f_data (ix_file (sg_index v)))"
    "segment_holds wal_encode w_lsn v (qs @ [?R]) (bs @ [b])" "length (frames bs) \<le> k"
    using fl(3) by blast
  have len: "length qs = length bs" using q(3) encodings_nth(1)[of wal_encode qs bs] by (simp add: segment_holds_def)
  let ?v = "lg\<lparr>lg_segments := ss0 @ [v], lg_next_lsn := ?e + 1\<rparr>"
  have "log_append no_faults no_faults lg p = (Inr ?e, ?v)"
    using cr e ch(2,6) v(1) ss by (simp add: log_append_def Let_def stamp_def)
  then obtain rss' where p': "log_parts ?v rss'" "concat rss' = concat rss @ [?R]"
    using log_append_parts[OF r e n] by auto
  have dist: "distinct (map sg_base (ss0 @ [v]))" using log_parts_distinct[OF p'(1)] by simp
  then have d: "cut_dir (\<lambda>b. if b = sg_base v then k else files_bound ss0) (\<lambda>b. if b = sg_base v then m else files_bound ss0)
      (ss0 @ [v]) (segment_dir (ss0 @ [s']))" and nv: "\<forall>s\<in>set ss0. sg_base s \<noteq> sg_base v"
    using cut_replace_dir[OF dist _ v(3,4), unfolded append_Nil2] fl(2) v(2) by auto
  let ?cs = "\<lambda>b. if b = sg_base v then k else files_bound ss0"
  have w: "\<forall>s\<in>set ss0. file_size (st_file (sg_store s)) \<le> ?cs (sg_base s)" using files_bound(1) nv by simp
  have "survives wal_encode w_lsn (?e - 1) ?cs v"
  proof -
    have "unat (?e - 1) + 1 - unat (sg_base v) = length bs"
      using wal.holds_bounds(2)[OF q(3)] q(4) v(2) unat_minus_one[OF e0] unat_gt_0[of ?e] e0 len by simp
    then show ?thesis
      unfolding survives_def using v(6) wal.holds_unique[OF v(5)] by (metis (mono_tags, lifting) append_eq_conv_conj)
  qed
  then have "\<forall>s\<in>set (ss0 @ [v]). survives wal_encode w_lsn (?e - 1) ?cs s" using w wal.whole_survives[of _ ?cs] by simp
  with d w p' req show ?thesis
    by (intro conjI exI[of _ ?v] exI[of _ rss'] exI[where P = "\<lambda>cs. \<exists>ci. _ cs ci" and x = ?cs] exI[of _ "\<lambda>b. if b = sg_base v then m else files_bound ss0"]) auto
qed

text \<open>C14: An append that fails during the physical write leaves a log that refuses to append,
  synchronise or close, and whose files can be reopened: the reopened log holds the records before the
  append, with or without the record whose append failed, and nothing else.\<close>

theorem failed_append_recoverable:
  assumes "log_holds lg rs" "wal_encode (stamp p (lg_next_lsn lg)) = Inr b" "unat (lg_next_lsn lg) + 1 < 2 ^ 64"
    "log_append fs fx lg p = (Inl x, lg')" "new_Log (lg_config lg) = Inr lg0"
  shows "(\<forall>q f1 f2. log_append f1 f2 lg' q = (Inl Runtime_error, lg')) \<and> (\<forall>t. log_sync_through lg' t = Inl Runtime_error) \<and>
    log_close lg' = Inl Runtime_error \<and>
    (\<exists>lg''. log_open lg0 (segment_dir (lg_segments lg')) = Inr lg'' \<and>
       (log_holds lg'' rs \<or> log_holds lg'' (rs @ [stamp p (lg_next_lsn lg)])))"
proof -
  obtain rss where r: "rs = concat rss" "log_parts lg rss" using assms(1) by (auto simp: log_holds_def)
  obtain v rss' cs ci where v: "log_parts v rss'" "concat rss' = rs @ [stamp p (lg_next_lsn lg)]" "lg_config v = lg_config lg"
    "cut_dir cs ci (lg_segments v) (segment_dir (lg_segments lg'))"
    "\<forall>s\<in>set (lg_segments v). survives wal_encode w_lsn (lg_next_lsn lg - 1) cs s"
    "\<forall>s\<in>set (butlast (lg_segments v)). file_size (st_file (sg_store s)) \<le> cs (sg_base s)"
    and req: "lg_recovery_required lg'" "lg_segments lg' \<noteq> []"
    using failed_append_files[OF r(2) assms(2,3,4)] r(1) by blast
  have "unat (lg_next_lsn lg - 1) + 1 - unat (initial_lsn (lg_config v)) = length rs"
    using r log_parts_length[OF r(2)] v(3) by simp
  then obtain lg'' k where o: "log_open lg0 (segment_dir (lg_segments lg')) = Inr lg''"
    "log_holds lg'' (take k (rs @ [stamp p (lg_next_lsn lg)]))" "min (length rs) (length (concat rss')) \<le> k"
    using log_open_cut[OF v(1) _ v(4,5,6), of lg0] assms(5) v(2,3) by metis
  have "take k (rs @ [stamp p (lg_next_lsn lg)]) = rs \<or> take k (rs @ [stamp p (lg_next_lsn lg)]) = rs @ [stamp p (lg_next_lsn lg)]"
    using o(3) v(2) by (cases "k = length rs") auto
  then show ?thesis
    using o(1,2) req by (auto simp: log_append_def log_sync_through_def log_close_def)
qed

definition full_disk :: io_faults where
  "full_disk = \<lparr>io_write = Some 0, io_truncate = True, io_inspect = True\<rparr>"

lemma full_disk_fails:
  assumes "store_holds st rs" "small b"
  shows "\<exists>st'. store_append full_disk st b = (Inl Runtime_error, st')"
  using assms by (simp add: store_append_def full_disk_def store_holds_def scan_of_def write_exact_at_def fresh_be32 be32_def small_def Let_def)

lemma full_append_fails:
  assumes b: "wal_encode (stamp q 1) = Inr b"
  shows "\<exists>lg'. log_append full_disk no_faults (empty_log tiny_config) q = (Inl Runtime_error, lg')"
proof -
  let ?s = "fresh_segment tiny_config 1"
  have f: "segment_holds wal_encode w_lsn ?s [] []" "st_size (sg_store ?s) = 0" "ix_size (sg_index ?s) = 0"
    "sg_base ?s = 1" "sg_next ?s = 1" "sg_config ?s = tiny_config"
    using fresh_segment_holds[of 1] by simp_all
  have "store_holds (sg_store ?s) []" "\<not> sg_recovery_required ?s" using f(1) by (simp_all add: segment_holds_def)
  moreover obtain st where "store_append full_disk (sg_store ?s) b = (Inl Runtime_error, st)"
    using full_disk_fails[OF _ wal_encode_small[OF b]] calculation by blast
  ultimately have "segment_append wal_encode w_lsn full_disk no_faults ?s (stamp q 1) =
    (Inl Runtime_error, ?s\<lparr>sg_store := st, sg_recovery_required := True\<rparr>)"
    using f b by (simp add: segment_append_def Let_def) (simp add: stamp_def)
  then show ?thesis
    using f b by (simp add: log_append_def empty_log_def segment_is_maxed_def Let_def)
qed

theorem failed_append_recoverable_witness:
  "\<exists>lg0 lg' lg''. new_Log tiny_config = Inr lg0 \<and>
     log_append full_disk no_faults (empty_log tiny_config) tiny_record = (Inl Runtime_error, lg') \<and>
     log_close lg' = Inl Runtime_error \<and> log_open lg0 (segment_dir (lg_segments lg')) = Inr lg''"
proof -
  obtain b where b: "wal_encode (stamp tiny_record 1) = Inr b" using tiny_encodes by force
  obtain lg0 where l: "new_Log tiny_config = Inr lg0" using new_tiny by blast
  obtain lg' where a: "log_append full_disk no_faults (empty_log tiny_config) tiny_record = (Inl Runtime_error, lg')"
    using full_append_fails tiny_encodes[of 1] by (metis one_neq_zero)
  show ?thesis using failed_append_recoverable[OF tiny_log(1), of tiny_record b, OF _ _ a, of lg0] b l a by auto
qed

section \<open>Two gaps in the durability of the log\<close>


lemma tiny_first:
  "\<exists>lg1 s. log_append no_faults no_faults (empty_log tiny_config) tiny_record = (Inr 1, lg1) \<and> lg_segments lg1 = [s] \<and>
     log_parts lg1 [[stamp tiny_record 1]] \<and> log_synced lg1 \<and> lg_config lg1 = tiny_config \<and> lg_next_lsn lg1 = 2 \<and>
     segment_is_maxed s \<and> f_durable (st_file (sg_store s)) < file_size (st_file (sg_store s))"
proof -
  obtain b where b: "wal_encode (stamp tiny_record 1) = Inr b" using tiny_encodes by force
  let ?f = "fresh_segment tiny_config 1"
  obtain lg0 where l: "new_Log tiny_config = Inr lg0" using new_tiny by blast
  have f: "segment_holds wal_encode w_lsn ?f [] []" "st_size (sg_store ?f) = 0" "ix_size (sg_index ?f) = 0"
    "sg_base ?f = 1" "sg_next ?f = 1" "sg_config ?f = tiny_config"
    using fresh_segment_holds[of 1] by simp_all
  have nm: "\<not> segment_is_maxed ?f" by (simp add: segment_is_maxed_def f)
  obtain s where s: "segment_append wal_encode w_lsn no_faults no_faults ?f (stamp tiny_record 1) = (Inr (), s)"
    "segment_holds wal_encode w_lsn s [stamp tiny_record 1] [b]" "sg_config s = tiny_config"
    using wal.append_holds[OF f(1) _ b wal_encode_small[OF b] wal.room_for_one[OF f(1) nm _ wal_encode_small[OF b]]]
    by (auto simp: f roomy_tiny stamp_def)
  obtain lg1 rss where a: "log_append no_faults no_faults (empty_log tiny_config) tiny_record = (Inr 1, lg1)" "log_parts lg1 rss"
    "concat rss = [stamp tiny_record 1]" "lg_config lg1 = tiny_config" "lg_next_lsn lg1 = 2" "log_synced lg1"
    using log_append_parts[OF new_Log_empty(2)[OF roomy_tiny l], of tiny_record b] b new_Log_empty(3)[OF roomy_tiny l] by auto
  have sg: "lg_segments lg1 = [s]"
    using a(1) s(1) b nm by (simp add: log_append_def empty_log_def Let_def) auto
  have "rss = [[stamp tiny_record 1]]" using a(2,3) sg by (cases rss; cases "tl rss") (auto simp: log_parts_def)
  moreover have "f_durable (st_file (sg_store s)) = 0"
    using wal.append_keeps_durable[OF s(1)] by (simp add: fresh_segment_def store_open_def empty_file_def Let_def)
  moreover have "st_size (sg_store s) = 4 + length b" "file_size (st_file (sg_store s)) = 4 + length b"
    using s(2) by (simp_all add: segment_holds_def store_holds_def file_size_def)
  moreover have "max_store_bytes tiny_config = 1" by (simp add: tiny_config_def)
  ultimately show ?thesis using a sg s(3) by (auto simp: segment_is_maxed_def)
qed



text \<open>C17: Opening a directory whose files are complete, as a process that died without closing its log
  leaves them, forces nothing to disk: every store keeps exactly the forced part it had.  Yet the
  opened log reports every record as durable, and synchronising through any of them does nothing.\<close>

theorem reopen_claims_unforced:
  assumes "log_holds lg rs" "new_Log (lg_config lg) = Inr lg0"
  shows "\<exists>lg'. log_open lg0 (segment_dir (lg_segments lg)) = Inr lg' \<and> log_holds lg' rs \<and>
    lg_durable_lsn lg' = lg_next_lsn lg - 1 \<and>
    map (\<lambda>s. st_file (sg_store s)) (lg_segments lg') = map (\<lambda>s. st_file (sg_store s)) (lg_segments lg) \<and>
    (\<forall>t. initial_lsn (lg_config lg) \<le> t \<and> t < lg_next_lsn lg \<longrightarrow> log_sync_through lg' t = Inr lg')"
proof -
  let ?ss = "lg_segments lg" let ?c = "lg_config lg"
  obtain rss where r: "rs = concat rss" "log_parts lg rss" using assms(1) by (auto simp: log_holds_def)
  have ch: "segment_chain wal_encode w_lsn (initial_lsn ?c) ?ss rss (lg_next_lsn lg)" "\<forall>q\<in>set (butlast rss). q \<noteq> []"
    "config_validate ?c = Inr ()" "?ss \<noteq> []" "lg_durable_lsn lg < lg_next_lsn lg"
    using r(2) by (simp_all add: log_parts_def roomy_def)
  have lg0: "lg_segments lg0 = []" "lg_config lg0 = ?c" using assms(2) ch(3) by (auto simp: new_Log_def)
  have found: "discover (map fst (segment_dir ?ss)) [] = Inr (both_files ?ss)"
    by (rule wal.discover_cut_dir[OF ch(1,2)]) (simp add: segment_dir_names)
  obtain ss' where o: "open_segments wal_decode w_lsn ?c (segment_dir ?ss) (both_files ?ss) (initial_lsn ?c) = Inr ss'"
    "map (\<lambda>s. st_file (sg_store s)) ss' = map (\<lambda>s. st_file (sg_store s)) ?ss" "map sg_next ss' = map sg_next ?ss"
    using wal.open_intact_chain[OF ch(1,3)] segment_dir_file[OF log_parts_distinct[OF r(2)]] by blast
  have ne: "ss' \<noteq> []" using o(3) ch(4) by auto
  obtain s0 ss0 where ss: "?ss = ss0 @ [s0]" using ch(4) by (cases ?ss rule: rev_cases) auto
  have "sg_next s0 = lg_next_lsn lg" using ch(1) unfolding ss wal.chain_snoc by blast
  then have "last (map sg_next ss') = lg_next_lsn lg" unfolding o(3) by (simp add: ss)
  then have nx: "sg_next (last ss') = lg_next_lsn lg" using ne by (simp add: last_map)
  let ?n = "lg_next_lsn lg"
  let ?lg = "lg0\<lparr>lg_segments := ss', lg_next_lsn := ?n, lg_durable_lsn := ?n - 1, lg_recovery_required := False\<rparr>"
  have op: "log_open lg0 (segment_dir ?ss) = Inr ?lg"
    using found o(1) lg0 ch(4) nx by (simp add: log_open_def Let_def)
  moreover have "log_holds ?lg rs" using log_open_whole[OF r(2) assms(2)] op r(1) by auto
  moreover have "t \<le> ?n - 1" if "t < ?n" for t
  proof -
    have "?n \<noteq> 0" using that by auto
    then show ?thesis using that unat_minus_one[of ?n] by (simp add: word_less_nat_alt word_le_nat_alt)
  qed
  then have "\<forall>t. initial_lsn ?c \<le> t \<and> t < ?n \<longrightarrow> log_sync_through ?lg t = Inr ?lg"
    using ne lg0 by (auto simp: log_sync_through_def not_less not_le)
  ultimately show ?thesis using o(2) by (rule_tac exI[of _ ?lg]) simp
qed

theorem reopen_claims_unforced_witness:
  "\<exists>lg0 lg1 s lg2. new_Log tiny_config = Inr lg0 \<and>
     log_append no_faults no_faults (empty_log tiny_config) tiny_record = (Inr 1, lg1) \<and> lg_segments lg1 = [s] \<and>
     f_durable (st_file (sg_store s)) < file_size (st_file (sg_store s)) \<and>
     log_open lg0 (segment_dir (lg_segments lg1)) = Inr lg2 \<and> lg_durable_lsn lg2 = 1 \<and>
     map (\<lambda>s. st_file (sg_store s)) (lg_segments lg2) = [st_file (sg_store s)]"
proof -
  obtain lg0 where l: "new_Log tiny_config = Inr lg0" using new_tiny by blast
  obtain lg1 s where f: "log_append no_faults no_faults (empty_log tiny_config) tiny_record = (Inr 1, lg1)" "lg_segments lg1 = [s]"
    "log_parts lg1 [[stamp tiny_record 1]]" "lg_config lg1 = tiny_config" "lg_next_lsn lg1 = 2"
    "f_durable (st_file (sg_store s)) < file_size (st_file (sg_store s))"
    using tiny_first by blast
  obtain lg2 where "log_open lg0 (segment_dir (lg_segments lg1)) = Inr lg2" "lg_durable_lsn lg2 = 1"
     "map (\<lambda>s. st_file (sg_store s)) (lg_segments lg2) = [st_file (sg_store s)]"
    using reopen_claims_unforced[OF log_holdsI[OF f(3)], of lg0] l f(2,4,5) by auto
  with l f(1,2,6) show ?thesis
    by (rule_tac exI[of _ lg0], rule_tac exI[of _ lg1], rule_tac exI[of _ s], rule_tac exI[of _ lg2]) simp
qed

end
