(* ===== verification/TxnLifecycle.thy ===== *)
theory TxnLifecycle
  imports LockProtocol WalDurability
begin

text \<open>
  The life of a transaction, after \<open>src/src/TransactionManager/TransactionManager.cpp\<close>: begin, the
  actions it logs, commit and abort.  The undo executor is the virtual interface
  \<open>TransactionUndoExecutor\<close>; it is an argument, and one call of it is a tree of the appends it asks
  for, each continued with what the append returned or threw.  \<open>lf\<close> gives the faults of the append
  at an LSN.  An executor changes the log only by these appends; one that also forces the log while
  it runs, as an eviction in the pager can, is not covered.  The theorems say that an abort ends, compensates exactly the actions of its
  transaction, newest first, and is forced to disk before any lock is released, and that a
  commit is.
\<close>

section \<open>Begin, actions and commit\<close>

datatype CommitStatus = CommitSuccess | CommitTransactionNotFound | CommitInvalidState
datatype Durability = DurabilitySync | DurabilityDefer
datatype AbortStatus = AbortSuccess | AbortTransactionNotFound | AbortInvalidState

type_synonym log_faults = "Lsn \<Rightarrow> io_faults \<times> io_faults"

text \<open>Building a record and appending it: the builder may throw as well.\<close>

definition append_built :: "log_faults \<Rightarrow> Log \<Rightarrow> PendingWalRecord res \<Rightarrow> Lsn res \<times> Log" where
  "append_built lf lg built =
     (case built of
        Inl e \<Rightarrow> (Inl e, lg)
      | Inr pending \<Rightarrow> log_append (fst (lf (lg_next_lsn lg))) (snd (lf (lg_next_lsn lg))) lg pending)"

definition initialize_transaction_ids :: "TransactionManager \<Rightarrow> Log \<Rightarrow> TransactionManager res" where
  "initialize_transaction_ids tm lg =
     (if transaction_ids_initialized tm then Inr tm
      else res_bind (log_scan lg) (\<lambda>records.
        let greatest = fold (\<lambda>r g. if w_transaction_id r > g then w_transaction_id r else g) records 0
        in Inr (tm\<lparr>next_transaction_id := (if greatest = -1 then 0 else greatest + 1),
                   transaction_ids_initialized := True\<rparr>)))"

definition set_txn :: "TransactionManager \<Rightarrow> txn_id \<Rightarrow> Transaction \<Rightarrow> TransactionManager" where
  "set_txn tm t tr = tm\<lparr>active_transactions := (active_transactions tm)(t \<mapsto> tr)\<rparr>"

definition txn_begin :: "log_faults \<Rightarrow> TransactionManager \<Rightarrow> Log \<Rightarrow> txn_id res \<times> TransactionManager \<times> Log" where
  "txn_begin lf tm lg =
     (case initialize_transaction_ids tm lg of
        Inl e \<Rightarrow> (Inl e, tm, lg)
      | Inr tm \<Rightarrow>
          if next_transaction_id tm = 0 then (Inl Runtime_error, tm, lg)
          else
            let t = next_transaction_id tm;
                tr = \<lparr>txn_state = Active, held_key_locks = [], last_lsn = 0\<rparr>;
                tm = (set_txn tm t tr)\<lparr>wait_for_graph := add_node (wait_for_graph tm) t\<rparr>
            in (case append_built lf lg (record_begin t) of
                 (Inl e, lg) \<Rightarrow>
                   (Inl e, remove_transaction (tm\<lparr>wait_for_graph := graph_remove (wait_for_graph tm) t\<rparr>) t, lg)
               | (Inr lsn, lg) \<Rightarrow>
                   (Inr t, (set_txn tm t (tr\<lparr>last_lsn := lsn\<rparr>))\<lparr>next_transaction_id := t + 1\<rparr>, lg)))"

text \<open>A handle is the id of its transaction, which is never issued twice.\<close>

definition append_action ::
    "log_faults \<Rightarrow> TransactionManager \<Rightarrow> Log \<Rightarrow> txn_id \<Rightarrow> PendingWalRecord \<Rightarrow> Lsn res \<times> TransactionManager \<times> Log" where
  "append_action lf tm lg t action =
     (case active_transactions tm t of
        None \<Rightarrow> (Inl Invalid_argument, tm, lg)
      | Some tr \<Rightarrow>
          if txn_state tr \<noteq> Active then (Inl Logic_error, tm, lg)
          else if pw_type action \<noteq> BTreeAction \<or> pw_transaction_id action \<noteq> t \<or> pw_prev_lsn action \<noteq> last_lsn tr
          then (Inl Invalid_argument, tm, lg)
          else (case append_built lf lg (Inr action) of
                  (Inl e, lg) \<Rightarrow> (Inl e, tm, lg)
                | (Inr lsn, lg) \<Rightarrow> (Inr lsn, set_txn tm t (tr\<lparr>last_lsn := lsn\<rparr>), lg)))"

text \<open>The tail of commit and abort behind the forced log record.\<close>

definition retire ::
    "TransactionManager \<Rightarrow> LockManager \<Rightarrow> Log \<Rightarrow> txn_id \<Rightarrow> Transaction \<Rightarrow> 'st \<Rightarrow>
     'st res \<times> TransactionManager \<times> LockManager \<times> Log" where
  "retire tm lm lg t tr status =
     (let tm = set_txn tm t tr in
      case finish_transaction tm lm t of
        Inl e \<Rightarrow> (Inl e, tm, lm, lg)
      | Inr (tm, lm, _) \<Rightarrow> (Inr status, tm, lm, lg))"

definition txn_commit ::
    "log_faults \<Rightarrow> TransactionManager \<Rightarrow> LockManager \<Rightarrow> Log \<Rightarrow> txn_id \<Rightarrow> Durability \<Rightarrow> u64 \<Rightarrow>
     CommitStatus res \<times> TransactionManager \<times> LockManager \<times> Log" where
  "txn_commit lf tm lm lg t durability raft_index =
     (case active_transactions tm t of
        None \<Rightarrow> (Inr CommitTransactionNotFound, tm, lm, lg)
      | Some tr \<Rightarrow>
          if txn_state tr \<noteq> Active then (Inr CommitInvalidState, tm, lm, lg)
          else
            let tr = tr\<lparr>txn_state := Committing\<rparr>; tm = set_txn tm t tr
            in (case append_built lf lg (record_commit t (last_lsn tr) raft_index) of
                 (Inl e, lg) \<Rightarrow> (Inl e, tm, lm, lg)
               | (Inr lsn, lg) \<Rightarrow>
                   let tr = tr\<lparr>last_lsn := lsn\<rparr>; tm = set_txn tm t tr
                   in (case (if durability = DurabilitySync then log_sync_through lg lsn else Inr lg) of
                        Inl e \<Rightarrow> (Inl e, tm, lm, lg)
                      | Inr lg \<Rightarrow> retire tm lm lg t (tr\<lparr>txn_state := Committed\<rparr>) CommitSuccess)))"

section \<open>Abort\<close>

text \<open>A call of the undo executor: it ends, or asks for a compensation record.\<close>

datatype 'ks undo_run =
    Undo_done "unit res" 'ks
  | Undo_append "PageEffect list" "Lsn res \<Rightarrow> 'ks undo_run"

text \<open>The one-shot callback for the record being undone.  \<open>prev\<close> is the last LSN of the
  transaction; the result says whether a compensation was appended.\<close>

primrec run_undo ::
    "'ks undo_run \<Rightarrow> log_faults \<Rightarrow> txn_id \<Rightarrow> WalRecord \<Rightarrow> bool \<Rightarrow> Lsn \<Rightarrow> Log \<Rightarrow> unit res \<times> bool \<times> Lsn \<times> Log \<times> 'ks" where
  "run_undo (Undo_done r ks) lf t rec appended prev lg = (r, appended, prev, lg, ks)"
| "run_undo (Undo_append effects k) lf t rec appended prev lg =
     (if appended then run_undo (k (Inl Logic_error)) lf t rec appended prev lg
      else case append_built lf lg (record_compensation t prev (w_lsn rec) (w_prev_lsn rec) effects) of
             (Inl e, lg) \<Rightarrow> run_undo (k (Inl e)) lf t rec appended prev lg
           | (Inr lsn, lg) \<Rightarrow> run_undo (k (Inr lsn)) lf t rec True lsn lg)"

text \<open>The loop that follows the chain of the transaction backwards; \<open>None\<close> is a loop that does
  not end.\<close>

partial_function (option) undo_loop ::
    "('ks \<Rightarrow> txn_id \<Rightarrow> UndoDescriptor \<Rightarrow> 'ks undo_run) \<Rightarrow> log_faults \<Rightarrow> txn_id \<Rightarrow> Lsn \<Rightarrow> Lsn \<Rightarrow> Log \<Rightarrow> 'ks \<Rightarrow>
     (unit res \<times> Lsn \<times> Log \<times> 'ks) option" where
  "undo_loop undo lf t undo_lsn prev lg ks =
     (if undo_lsn = 0 then Some (Inr (), prev, lg, ks)
      else case log_read lg undo_lsn of
        Inl e \<Rightarrow> Some (Inl e, prev, lg, ks)
      | Inr rec \<Rightarrow>
          if w_transaction_id rec \<noteq> t then Some (Inl Runtime_error, prev, lg, ks)
          else if w_type rec = TxnBegin
          then Some (if w_prev_lsn rec \<noteq> 0 then Inl Runtime_error else Inr (), prev, lg, ks)
          else if w_type rec = Compensation
          then (case record_decode rec of
                  Inl e \<Rightarrow> Some (Inl e, prev, lg, ks)
                | Inr payload \<Rightarrow>
                    (case payload of
                       CompensationPayload _ undo_next _ \<Rightarrow> undo_loop undo lf t undo_next prev lg ks
                     | _ \<Rightarrow> Some (Inl Logic_error, prev, lg, ks)))
          else if w_type rec \<noteq> BTreeAction then Some (Inl Runtime_error, prev, lg, ks)
          else (case record_decode rec of
                  Inl e \<Rightarrow> Some (Inl e, prev, lg, ks)
                | Inr payload \<Rightarrow>
                    (case payload of
                       BTreeActionPayload descriptor _ \<Rightarrow>
                         (case run_undo (undo ks t descriptor) lf t rec False prev lg of
                            (r, appended, prev, lg, ks) \<Rightarrow>
                              (case r of
                                 Inl e \<Rightarrow> Some (Inl e, prev, lg, ks)
                               | Inr _ \<Rightarrow>
                                   if \<not> appended then Some (Inl Runtime_error, prev, lg, ks)
                                   else undo_loop undo lf t (w_prev_lsn rec) prev lg ks))
                     | _ \<Rightarrow> Some (Inl Logic_error, prev, lg, ks))))"

definition txn_abort ::
    "('ks \<Rightarrow> txn_id \<Rightarrow> UndoDescriptor \<Rightarrow> 'ks undo_run) \<Rightarrow> log_faults \<Rightarrow> TransactionManager \<Rightarrow> LockManager \<Rightarrow> Log \<Rightarrow>
     'ks \<Rightarrow> txn_id \<Rightarrow> AbortReason \<Rightarrow> ((AbortStatus res \<times> TransactionManager \<times> LockManager \<times> Log) \<times> 'ks) option" where
  "txn_abort undo lf tm lm lg ks t reason =
     (case active_transactions tm t of
        None \<Rightarrow> Some ((Inr AbortTransactionNotFound, tm, lm, lg), ks)
      | Some tr \<Rightarrow>
          if txn_state tr \<noteq> Active \<and> txn_state tr \<noteq> AbortRequested then Some ((Inr AbortInvalidState, tm, lm, lg), ks)
          else
            let undo_lsn = last_lsn tr; tr = tr\<lparr>txn_state := Aborting\<rparr>; tm = set_txn tm t tr
            in (case append_built lf lg (record_abort t (last_lsn tr) reason) of
                 (Inl e, lg) \<Rightarrow> Some ((Inl e, tm, lm, lg), ks)
               | (Inr abort_lsn, lg) \<Rightarrow>
                   (case undo_loop undo lf t undo_lsn abort_lsn lg ks of
                      None \<Rightarrow> None
                    | Some (r, prev, lg, ks) \<Rightarrow>
                        let tr = tr\<lparr>last_lsn := prev\<rparr>; tm = set_txn tm t tr
                        in (case r of
                             Inl e \<Rightarrow> Some ((Inl e, tm, lm, lg), ks)
                           | Inr _ \<Rightarrow>
                               (case append_built lf lg (record_end t prev) of
                                  (Inl e, lg) \<Rightarrow> Some ((Inl e, tm, lm, lg), ks)
                                | (Inr end_lsn, lg) \<Rightarrow>
                                    let tr = tr\<lparr>last_lsn := end_lsn\<rparr>; tm = set_txn tm t tr
                                    in (case log_sync_through lg end_lsn of
                                          Inl e \<Rightarrow> Some ((Inl e, tm, lm, lg), ks)
                                        | Inr lg \<Rightarrow> Some (retire tm lm lg t (tr\<lparr>txn_state := Aborted\<rparr>) AbortSuccess, ks)))))))"

section \<open>Appending to the log\<close>

definition sound_log :: "log_faults" where
  "sound_log = (\<lambda>_. (no_faults, no_faults))"

lemma append_built_ok:
  assumes "log_holds lg rs" "log_synced lg" "unat (lg_next_lsn lg) + 1 < 2 ^ 64"
    and "make_record ty t prev p = Inr q" "length (pw_data q) \<le> 2 ^ 32 - 1 - WAL_HEADER_SIZE"
  shows "\<exists>lg'. append_built sound_log lg (Inr q) = (Inr (lg_next_lsn lg), lg') \<and>
    log_holds lg' (rs @ [stamp q (lg_next_lsn lg)]) \<and> log_synced lg' \<and> lg_config lg' = lg_config lg \<and>
    unat (lg_next_lsn lg') = unat (lg_next_lsn lg) + 1 \<and> lg_next_lsn lg \<noteq> 0 \<and> log_extends lg lg' \<and>
    record_decode (stamp q (lg_next_lsn lg)) = Inr p \<and>
    w_type (stamp q (lg_next_lsn lg)) = ty \<and> w_transaction_id (stamp q (lg_next_lsn lg)) = t \<and>
    w_prev_lsn (stamp q (lg_next_lsn lg)) = prev \<and> log_read lg' (lg_next_lsn lg) = Inr (stamp q (lg_next_lsn lg))"
proof -
  obtain rss where r: "rs = concat rss" "log_parts lg rss" using assms(1) by (auto simp: log_holds_def)
  have n: "lg_next_lsn lg \<noteq> 0" using r(2) by (auto simp: log_parts_def)
  obtain b where b: "wal_encode (stamp q (lg_next_lsn lg)) = Inr b"
    using make_record_fields[OF assms(4) n] assms(5) by (auto simp: wal_encode_image stamp_def WAL_HEADER_SIZE_def)
  obtain lg' rss' where a: "log_append no_faults no_faults lg q = (Inr (lg_next_lsn lg), lg')"
    "concat rss' = concat rss @ [stamp q (lg_next_lsn lg)]" "log_parts lg' rss'" "lg_config lg' = lg_config lg"
    "lg_next_lsn lg' = lg_next_lsn lg + 1" "log_synced lg'"
    using log_append_parts[OF r(2) b assms(3)] assms(2) by blast
  have h: "log_holds lg' (rs @ [stamp q (lg_next_lsn lg)])" using log_holdsI[OF a(3)] a(2) r(1) by simp
  have u: "unat (lg_next_lsn lg') = unat (lg_next_lsn lg) + 1"
    using assms(3) a(5) by (simp add: unat_plus_if_size word_size)
  have d: "record_decode (stamp q (lg_next_lsn lg)) = Inr p" "pw_type q = ty" "pw_transaction_id q = t" "pw_prev_lsn q = prev"
    using assms(4) by (auto simp: record_decode_def stamp_def make_record_iff payload_encode_iff payload_decode_iff)
  have "log_read lg' (lg_next_lsn lg) = Inr (stamp q (lg_next_lsn lg))"
    using log_end(3)[OF h, of "length rs"] log_end(1)[OF assms(1)] a(4) by simp
  then show ?thesis
    using a(1,4,6) h u n d log_holds_extends[OF assms(1) h a(4)]
    by (simp add: append_built_def sound_log_def) (simp add: stamp_def)
qed

lemma record_of:
  assumes "ty \<noteq> SystemAction" "t \<noteq> 0" "(prev = 0) = (ty = TxnBegin)" "require_payload_type ty p = Inr ()" "payload_ok p"
  shows "\<exists>q. make_record ty t prev p = Inr q"
proof -
  have "payload_encode ty p = Inr (payload_image p)" using assms(4,5) by (simp add: payload_encode_iff payload_matches_def)
  then show ?thesis using assms(1-3) by (auto simp: make_record_def)
qed

section \<open>The chain of a transaction\<close>

text \<open>The actions an abort has to undo, found by following the links backwards from an LSN.\<close>

inductive txn_chain :: "Log \<Rightarrow> txn_id \<Rightarrow> Lsn \<Rightarrow> (Lsn \<times> UndoDescriptor) list \<Rightarrow> bool" for lg t where
  chain_begin: "log_read lg l = Inr r \<Longrightarrow> w_type r = TxnBegin \<Longrightarrow> w_transaction_id r = t \<Longrightarrow> w_prev_lsn r = 0 \<Longrightarrow>
    txn_chain lg t l []"
| chain_action: "log_read lg l = Inr r \<Longrightarrow> w_type r = BTreeAction \<Longrightarrow> w_transaction_id r = t \<Longrightarrow>
    record_decode r = Inr (BTreeActionPayload u es) \<Longrightarrow> txn_chain lg t (w_prev_lsn r) us \<Longrightarrow>
    txn_chain lg t l ((l, u) # us)"
| chain_compensation: "log_read lg l = Inr r \<Longrightarrow> w_type r = Compensation \<Longrightarrow> w_transaction_id r = t \<Longrightarrow>
    record_decode r = Inr (CompensationPayload of_lsn next_lsn es) \<Longrightarrow> txn_chain lg t next_lsn us \<Longrightarrow>
    txn_chain lg t l us"

lemma txn_chain_extends: "txn_chain lg t l us \<Longrightarrow> log_extends lg lg' \<Longrightarrow> txn_chain lg' t l us"
proof (induction rule: txn_chain.induct)
  case (chain_begin l r)
  then show ?case by (intro txn_chain.chain_begin[of _ l r]) (auto simp: log_extends_def)
next
  case (chain_action l r u es us)
  then show ?case by (intro txn_chain.chain_action[of _ l r]) (auto simp: log_extends_def)
next
  case (chain_compensation l r of_lsn next_lsn es us)
  then show ?case by (intro txn_chain.chain_compensation[of _ l r]) (auto simp: log_extends_def)
qed

lemma txn_chain_nonzero: "txn_chain lg t l us \<Longrightarrow> l \<noteq> 0"
  by (induction rule: txn_chain.induct) (use log_read_bounds(3,4) in blast)+

text \<open>What the undo executor promises: it appends one compensation, with a valid list of effects,
  and ends once that append has returned.\<close>

definition undoes :: "('ks \<Rightarrow> txn_id \<Rightarrow> UndoDescriptor \<Rightarrow> 'ks undo_run) \<Rightarrow> txn_id \<Rightarrow> ('ks \<Rightarrow> UndoDescriptor \<Rightarrow> 'ks) \<Rightarrow> bool" where
  "undoes undo t after = (\<forall>ks u. \<exists>es k. undo ks t u = Undo_append es k \<and> effects_ok es \<and> length es \<le> 1000000 \<and>
     (\<forall>lsn. k (Inr lsn) = Undo_done (Inr ()) (after ks u)))"

definition compensates :: "txn_id \<Rightarrow> WalRecord \<Rightarrow> Lsn \<Rightarrow> bool" where
  "compensates t c l = (w_type c = Compensation \<and> w_transaction_id c = t \<and>
     (\<exists>next_lsn es. record_decode c = Inr (CompensationPayload l next_lsn es)))"

lemma compensation_size:
  assumes "effects_ok es" "length es \<le> 1000000" "record_compensation t prev a b es = Inr q"
  shows "length (pw_data q) \<le> 2 ^ 32 - 1 - WAL_HEADER_SIZE"
proof -
  have "pw_data q = be64 a @ be64 b @ effects_image es"
    using assms(3) by (auto simp: record_compensation_def make_record_iff payload_encode_iff)
  moreover have "length (concat (map effect_image es)) = (1 + 4 + V2_PAGE_SIZE) * length es"
    using assms(1) by (intro length_effect_images) (simp add: effects_ok_def)
  ultimately show ?thesis using assms(2) by (simp add: effects_image_def V2_PAGE_SIZE_def WAL_HEADER_SIZE_def)
qed

lemma undo_one:
  assumes log: "log_holds lg rs" "log_synced lg" "unat (lg_next_lsn lg) + 1 < 2 ^ 64"
    and un: "undoes undo t after" and t: "t \<noteq> 0" "prev \<noteq> 0"
  shows "\<exists>lg' c. run_undo (undo ks t u) sound_log t rec False prev lg = (Inr (), True, lg_next_lsn lg, lg', after ks u) \<and>
    log_holds lg' (rs @ [c]) \<and> log_synced lg' \<and> lg_config lg' = lg_config lg \<and> log_extends lg lg' \<and>
    unat (lg_next_lsn lg') = unat (lg_next_lsn lg) + 1 \<and> lg_next_lsn lg \<noteq> 0 \<and> compensates t c (w_lsn rec)"
proof -
  obtain es k where u: "undo ks t u = Undo_append es k" "effects_ok es" "length es \<le> 1000000"
    "\<And>lsn. k (Inr lsn) = Undo_done (Inr ()) (after ks u)" using un unfolding undoes_def by metis
  let ?p = "CompensationPayload (w_lsn rec) (w_prev_lsn rec) es"
  obtain q where q: "record_compensation t prev (w_lsn rec) (w_prev_lsn rec) es = Inr q"
    using t u(2) record_of[of Compensation t prev ?p] by (auto simp: record_compensation_def require_payload_type_iff)
  then have m: "make_record Compensation t prev ?p = Inr q" by (simp add: record_compensation_def)
  from append_built_ok[OF log m compensation_size[OF u(2,3) q]] obtain lg' where a:
    "append_built sound_log lg (Inr q) = (Inr (lg_next_lsn lg), lg')" "log_holds lg' (rs @ [stamp q (lg_next_lsn lg)])"
    "log_synced lg'" "lg_config lg' = lg_config lg" "unat (lg_next_lsn lg') = unat (lg_next_lsn lg) + 1"
    "lg_next_lsn lg \<noteq> 0" "log_extends lg lg'" "record_decode (stamp q (lg_next_lsn lg)) = Inr ?p"
    "w_type (stamp q (lg_next_lsn lg)) = Compensation" "w_transaction_id (stamp q (lg_next_lsn lg)) = t" by blast
  have "run_undo (undo ks t u) sound_log t rec False prev lg = (Inr (), True, lg_next_lsn lg, lg', after ks u)"
    using u(1,4) q a(1) by simp
  then show ?thesis using a by (auto simp: compensates_def)
qed

lemma undo_loop_chain:
  assumes "txn_chain lg0 t l us" "log_extends lg0 lg"
    and "log_holds lg rs" "log_synced lg" "unat (lg_next_lsn lg) + length us < 2 ^ 64"
    and "undoes undo t after" "t \<noteq> 0" "prev \<noteq> 0"
  shows "\<exists>prev' lg' cs. undo_loop undo sound_log t l prev lg ks = Some (Inr (), prev', lg', foldl after ks (map snd us)) \<and>
    log_holds lg' (rs @ cs) \<and> log_synced lg' \<and> lg_config lg' = lg_config lg \<and> prev' \<noteq> 0 \<and>
    unat (lg_next_lsn lg') = unat (lg_next_lsn lg) + length us \<and> list_all2 (compensates t) cs (map fst us)"
  using assms
proof (induction arbitrary: lg rs prev ks rule: txn_chain.induct)
  case (chain_begin l r)
  have "log_read lg l = Inr r" using chain_begin by (simp add: log_extends_def)
  moreover have "l \<noteq> 0" using log_read_bounds(3,4)[OF chain_begin(1)] by simp
  ultimately have "undo_loop undo sound_log t l prev lg ks = Some (Inr (), prev, lg, ks)"
    using chain_begin(2-4) by (subst undo_loop.simps) simp
  then show ?case using chain_begin by (intro exI[of _ prev] exI[of _ lg] exI[of _ "[]"]) simp
next
  case (chain_compensation l r of_lsn next_lsn es us)
  have rd: "log_read lg l = Inr r" using chain_compensation by (simp add: log_extends_def)
  have "l \<noteq> 0" using log_read_bounds(3,4)[OF chain_compensation(1)] by simp
  then have "undo_loop undo sound_log t l prev lg ks = undo_loop undo sound_log t next_lsn prev lg ks"
    using rd chain_compensation(2-4) by (subst undo_loop.simps) simp
  then show ?case using chain_compensation.IH[OF chain_compensation.prems] by simp
next
  case (chain_action l r u es us)
  have rd: "log_read lg l = Inr r" using chain_action by (simp add: log_extends_def)
  have l: "l \<noteq> 0" "w_lsn r = l" using log_read_bounds(3,4)[OF chain_action(1)] by simp_all
  have "unat (lg_next_lsn lg) + 1 < 2 ^ 64" using chain_action.prems(4) by simp
  from undo_one[OF chain_action.prems(2,3) this chain_action.prems(5-7), of ks u r] l(2) obtain lg1 c where one:
    "run_undo (undo ks t u) sound_log t r False prev lg = (Inr (), True, lg_next_lsn lg, lg1, after ks u)"
    "log_holds lg1 (rs @ [c])" "log_synced lg1" "lg_config lg1 = lg_config lg" "log_extends lg lg1"
    "unat (lg_next_lsn lg1) = unat (lg_next_lsn lg) + 1" "lg_next_lsn lg \<noteq> 0" "compensates t c l" by blast
  have "log_extends lg0 lg1" using chain_action.prems(1) one(5) by (simp add: log_extends_def)
  moreover have "unat (lg_next_lsn lg1) + length us < 2 ^ 64" using one(6) chain_action.prems(4) by simp
  ultimately obtain prev' lg' cs where rest:
    "undo_loop undo sound_log t (w_prev_lsn r) (lg_next_lsn lg) lg1 (after ks u) =
       Some (Inr (), prev', lg', foldl after (after ks u) (map snd us))"
    "log_holds lg' ((rs @ [c]) @ cs)" "log_synced lg'" "lg_config lg' = lg_config lg1" "prev' \<noteq> 0"
    "unat (lg_next_lsn lg') = unat (lg_next_lsn lg1) + length us" "list_all2 (compensates t) cs (map fst us)"
    using chain_action.IH[OF _ one(2,3) _ chain_action.prems(5,6) one(7)] by blast
  have "undo_loop undo sound_log t l prev lg ks =
      undo_loop undo sound_log t (w_prev_lsn r) (lg_next_lsn lg) lg1 (after ks u)"
    using rd l(1) chain_action(2-4) one(1) by (subst undo_loop.simps) simp
  then show ?case using rest one(4,6,8) by (intro exI[of _ prev'] exI[of _ lg'] exI[of _ "c # cs"]) simp
qed

section \<open>The table and the log together\<close>

lemma set_txn_ok:
  assumes ok: "sys_ok None None tm S" and t: "t \<notin> waiting S \<or> txn_state tr = Active"
    and tr: "active_transactions tm t = Some tr0" "held_key_locks tr = held_key_locks tr0"
  shows "sys_ok None None (set_txn tm t tr) S"
proof -
  let ?tm = "set_txn tm t tr"
  have h: "held_with None ?tm = held_with None tm"
    using tr by (auto simp: held_with_def tm_held_def set_txn_def fun_eq_iff)
  have d: "dom (active_transactions ?tm) = dom (active_transactions tm)" using tr by (auto simp: set_txn_def)
  have g: "wait_for_graph ?tm = wait_for_graph tm" by (simp add: set_txn_def)
  have "tm_ok ?tm"
    using sys_okD(1)[OF ok] tr unfolding tm_ok_def d g by (auto simp: set_txn_def split: if_splits)
  moreover have "state_ok (tm_active ?tm) (tm_edges tm) (S i)" for i
  proof -
    have "w_txn w \<noteq> t \<or> txn_state tr = Active" if "w \<in> set (waiters (S i))" for w using that t waitingI by metis
    moreover have "u \<in> tm_active tm \<Longrightarrow> u \<noteq> t \<or> txn_state tr = Active \<Longrightarrow> u \<in> tm_active ?tm" for u
      by (auto simp: tm_active_def set_txn_def)
    ultimately show ?thesis
      using sys_okD(2)[OF ok, of i] by (auto simp: state_ok_def waiter_ok_def)
  qed
  ultimately show ?thesis
    using ok unfolding sys_ok_def lock_inv_except_def h g by auto
qed

lemma sys_ok_cong:
  assumes "active_transactions a = active_transactions b" "wait_for_graph a = wait_for_graph b"
  shows "sys_ok x ov a S = sys_ok x ov b S"
proof -
  have "tm_held a = tm_held b" using assms(1) by (simp add: tm_held_def fun_eq_iff)
  then have "held_with ov a = held_with ov b" by (simp add: held_with_def split: option.splits)
  then show ?thesis using assms by (simp add: sys_ok_def tm_ok_def tm_active_def)
qed

lemma set_txn_twice [simp]: "set_txn (set_txn tm t a) t b = set_txn tm t b"
  by (simp add: set_txn_def)

lemma set_txn_lookup [simp]: "active_transactions (set_txn tm t a) = (active_transactions tm)(t \<mapsto> a)"
  by (simp add: set_txn_def)

lemma retire_ok:
  assumes "sys_ok None None tm (lock_view lm)" "active_transactions tm t = Some tr0" "t \<notin> waiting (lock_view lm)"
    and "held_key_locks tr = held_key_locks tr0"
  shows "\<exists>tm' lm'. retire (set_txn tm t tr1) lm lg t tr status = (Inr status, tm', lm', lg) \<and>
    sys_ok None None tm' (lock_view lm') \<and> active_transactions tm' t = None \<and>
    (\<forall>key. t \<notin> shared_owners (states_at lm' key) \<and> exclusive_owner (states_at lm' key) \<noteq> Some t)"
proof -
  have "sys_ok None None (set_txn tm t tr) (lock_view lm)" using set_txn_ok[OF assms(1) _ assms(2,4)] assms(3) by blast
  from finish_transaction_ok[OF this, of t tr] assms(3) obtain tm' lm' ws where f:
    "finish_transaction (set_txn tm t tr) lm t = Inr (tm', lm', ws)" "sys_ok None None tm' (lock_view lm')"
    "dom (active_transactions tm') = dom (active_transactions (set_txn tm t tr)) - {t}" by auto
  then have n: "active_transactions tm' t = None" by auto
  have "retire (set_txn tm t tr1) lm lg t tr status = (Inr status, tm', lm', lg)"
    using f(1) by (simp add: retire_def)
  with f(2) n gone_owns_nothing[OF f(2) n] show ?thesis by blast
qed

lemma next_before: "unat (n :: Lsn) = unat m + 1 \<Longrightarrow> n - 1 = m"
proof -
  assume "unat n = unat m + 1"
  then have "(of_nat (unat n) :: Lsn) = of_nat (unat m + 1)" by simp
  then show "n - 1 = m" by simp
qed

text \<open>A lifecycle record has a short payload.\<close>

lemma lifecycle_append:
  assumes "log_holds lg rs" "log_synced lg" "unat (lg_next_lsn lg) + 1 < 2 ^ 64"
    and "ty \<noteq> SystemAction" "t \<noteq> 0" "(prev = 0) = (ty = TxnBegin)"
    and "require_payload_type ty p = Inr ()" "payload_ok p" "length (payload_image p) \<le> 8"
  shows "\<exists>lg' r. append_built sound_log lg (make_record ty t prev p) = (Inr (lg_next_lsn lg), lg') \<and>
    log_holds lg' (rs @ [r]) \<and> log_synced lg' \<and> lg_config lg' = lg_config lg \<and>
    unat (lg_next_lsn lg') = unat (lg_next_lsn lg) + 1 \<and> lg_next_lsn lg \<noteq> 0 \<and> log_extends lg lg' \<and>
    record_decode r = Inr p \<and> w_type r = ty \<and> w_transaction_id r = t \<and> w_prev_lsn r = prev \<and>
    log_read lg' (lg_next_lsn lg) = Inr r"
proof -
  obtain q where q: "make_record ty t prev p = Inr q" using record_of[OF assms(4-8)] by blast
  then have "length (pw_data q) \<le> 2 ^ 32 - 1 - WAL_HEADER_SIZE"
    using assms(9) by (auto simp: make_record_iff payload_encode_iff WAL_HEADER_SIZE_def)
  from append_built_ok[OF assms(1-3) q this] q show ?thesis by (auto intro!: exI[of _ "stamp q (lg_next_lsn lg)"])
qed

text \<open>What begin and an action do to the table, the chain and the log.\<close>

lemma txn_begin_chain:
  assumes "log_holds lg rs" "log_synced lg" "unat (lg_next_lsn lg) + 1 < 2 ^ 64"
    and "initialize_transaction_ids tm lg = Inr tm1" "next_transaction_id tm1 = t" "t \<noteq> 0"
    and "sys_ok None None tm (lock_view lm)" "active_transactions tm t = None"
  shows "\<exists>tm' lg' r. txn_begin sound_log tm lg = (Inr t, tm', lg') \<and> sys_ok None None tm' (lock_view lm) \<and>
    active_transactions tm' t = Some \<lparr>txn_state = Active, held_key_locks = [], last_lsn = lg_next_lsn lg\<rparr> \<and>
    transaction_ids_initialized tm' \<and> next_transaction_id tm' = t + 1 \<and>
    txn_chain lg' t (lg_next_lsn lg) [] \<and> log_holds lg' (rs @ [r]) \<and> log_synced lg' \<and> w_transaction_id r = t \<and>
    unat (lg_next_lsn lg') = unat (lg_next_lsn lg) + 1 \<and> lg_config lg' = lg_config lg"
proof -
  let ?tr = "\<lparr>txn_state = Active, held_key_locks = [], last_lsn = lg_next_lsn lg\<rparr>"
  have m: "active_transactions tm1 = active_transactions tm" "wait_for_graph tm1 = wait_for_graph tm" "transaction_ids_initialized tm1"
    using assms(4) by (auto simp: initialize_transaction_ids_def Let_def split: if_splits sum.splits)
  from lifecycle_append[OF assms(1-3), of TxnBegin t 0 BeginPayload] assms(6) obtain lg' r where a:
    "append_built sound_log lg (record_begin t) = (Inr (lg_next_lsn lg), lg')" "log_holds lg' (rs @ [r])" "log_synced lg'"
    "lg_config lg' = lg_config lg" "unat (lg_next_lsn lg') = unat (lg_next_lsn lg) + 1" "w_type r = TxnBegin"
    "w_transaction_id r = t" "w_prev_lsn r = 0" "log_read lg' (lg_next_lsn lg) = Inr r"
    by (auto simp: record_begin_def require_payload_type_iff)
  let ?tm = "(enter_transaction tm1 t (lg_next_lsn lg))\<lparr>next_transaction_id := t + 1\<rparr>"
  have b: "txn_begin sound_log tm lg = (Inr t, ?tm, lg')"
    using assms(4-6) a(1) by (auto simp: txn_begin_def Let_def set_txn_def enter_transaction_def)
  have "sys_ok None None (enter_transaction tm t (lg_next_lsn lg)) (lock_view lm)" using enter_ok[OF assms(7,8)] by blast
  then have "sys_ok None None ?tm (lock_view lm)"
    using m(1,2) sys_ok_cong[of ?tm "enter_transaction tm t (lg_next_lsn lg)"] by (simp add: enter_transaction_def)
  moreover have "txn_chain lg' t (lg_next_lsn lg) []" using a by (intro txn_chain.chain_begin[of _ _ r])
  ultimately show ?thesis using a b m(3) by (intro exI[of _ ?tm] exI[of _ lg'] exI[of _ r]) (simp add: enter_transaction_def)
qed

lemma append_action_chain:
  assumes "log_holds lg rs" "log_synced lg" "unat (lg_next_lsn lg) + 1 < 2 ^ 64"
    and "active_transactions tm t = Some tr" "txn_state tr = Active" "txn_chain lg t (last_lsn tr) us"
    and "record_btree_action t (last_lsn tr) u es = Inr q" "length (pw_data q) \<le> 2 ^ 32 - 1 - WAL_HEADER_SIZE"
    and "sys_ok None None tm (lock_view lm)"
  shows "\<exists>tm' lg' r. append_action sound_log tm lg t q = (Inr (lg_next_lsn lg), tm', lg') \<and>
    sys_ok None None tm' (lock_view lm) \<and> active_transactions tm' t = Some (tr\<lparr>last_lsn := lg_next_lsn lg\<rparr>) \<and>
    txn_chain lg' t (lg_next_lsn lg) ((lg_next_lsn lg, u) # us) \<and> log_holds lg' (rs @ [r]) \<and> log_synced lg' \<and>
    unat (lg_next_lsn lg') = unat (lg_next_lsn lg) + 1 \<and> lg_config lg' = lg_config lg"
proof -
  have q: "make_record BTreeAction t (last_lsn tr) (BTreeActionPayload u es) = Inr q" using assms(7) by (simp add: record_btree_action_def)
  then have f: "pw_type q = BTreeAction" "pw_transaction_id q = t" "pw_prev_lsn q = last_lsn tr" by (auto simp: make_record_iff)
  let ?r = "stamp q (lg_next_lsn lg)"
  from append_built_ok[OF assms(1-3) q assms(8)] obtain lg' where a:
    "append_built sound_log lg (Inr q) = (Inr (lg_next_lsn lg), lg')" "log_holds lg' (rs @ [?r])" "log_synced lg'"
    "lg_config lg' = lg_config lg" "unat (lg_next_lsn lg') = unat (lg_next_lsn lg) + 1" "log_extends lg lg'"
    "record_decode ?r = Inr (BTreeActionPayload u es)" "w_type ?r = BTreeAction" "w_transaction_id ?r = t"
    "w_prev_lsn ?r = last_lsn tr" "log_read lg' (lg_next_lsn lg) = Inr ?r" by blast
  let ?tm = "set_txn tm t (tr\<lparr>last_lsn := lg_next_lsn lg\<rparr>)"
  have "txn_chain lg' t (w_prev_lsn ?r) us" using txn_chain_extends[OF assms(6) a(6)] a(10) by simp
  then have "txn_chain lg' t (lg_next_lsn lg) ((lg_next_lsn lg, u) # us)" using a by (intro txn_chain.chain_action[of _ _ ?r])
  moreover have "sys_ok None None ?tm (lock_view lm)" using set_txn_ok[OF assms(9) _ assms(4), of "tr\<lparr>last_lsn := lg_next_lsn lg\<rparr>"] assms(5) by simp
  moreover have "append_action sound_log tm lg t q = (Inr (lg_next_lsn lg), ?tm, lg')"
    using assms(4,5) f a(1) by (simp add: append_action_def)
  ultimately show ?thesis using a by (intro exI[of _ ?tm] exI[of _ lg'] exI[of _ ?r]) simp
qed

section \<open>Properties\<close>


text \<open>C8: a commit that fails in the log, by any fault of the append or of the synchronisation, releases
  nothing: the lock table is unchanged and the transaction stays on record with its locks, in a state
  from which neither a second commit nor an abort goes on.\<close>

theorem failed_commit_keeps_locks:
  assumes "sys_ok None None tm (lock_view lm)" "active_transactions tm t = Some tr" "txn_state tr = Active"
    "t \<notin> waiting (lock_view lm)" "txn_commit lf tm lm lg t d raft_index = (Inl e, tm', lm', lg')"
  shows "lm' = lm \<and> (\<exists>tr'. active_transactions tm' t = Some tr' \<and> held_key_locks tr' = held_key_locks tr) \<and>
    (\<forall>lf lg d i. txn_commit lf tm' lm' lg t d i = (Inr CommitInvalidState, tm', lm', lg)) \<and>
    (\<forall>undo lf lg ks reason. txn_abort undo lf tm' lm' lg ks t reason = Some ((Inr AbortInvalidState, tm', lm', lg), ks))"
proof -
  let ?tr = "tr\<lparr>txn_state := Committing\<rparr>"
  have no: "retire (set_txn tm t a) lm lg1 t (?tr\<lparr>last_lsn := l, txn_state := Committed\<rparr>) CommitSuccess \<noteq> (Inl e, tm', lm', lg')" for a lg1 l
    using retire_ok[OF assms(1,2,4), of "?tr\<lparr>last_lsn := l, txn_state := Committed\<rparr>" a lg1 CommitSuccess] by auto
  have "lm' = lm \<and> (\<exists>l. tm' = set_txn tm t (?tr\<lparr>last_lsn := l\<rparr>))"
  proof (cases "append_built lf lg (record_commit t (last_lsn tr) raft_index)")
    case (Pair r lg1)
    show ?thesis
    proof (cases r)
      case (Inl x)
      then have "tm' = set_txn tm t (?tr\<lparr>last_lsn := last_lsn tr\<rparr>)" "lm' = lm"
        using assms(2,3,5) Pair by (auto simp: txn_commit_def Let_def)
      then show ?thesis by blast
    next
      case (Inr l)
      then show ?thesis
        using assms(2,3,5) Pair no by (cases "if d = DurabilitySync then log_sync_through lg1 l else Inr lg1") (auto simp: txn_commit_def Let_def)
    qed
  qed
  then obtain l where l: "lm' = lm" "tm' = set_txn tm t (?tr\<lparr>last_lsn := l\<rparr>)" by blast
  then show ?thesis by (simp add: txn_commit_def txn_abort_def)
qed


text \<open>The ids in use: the counter is above every id in the log, or exhausted.\<close>

definition ids_fresh :: "TransactionManager \<Rightarrow> WalRecord list \<Rightarrow> bool" where
  "ids_fresh tm rs = (transaction_ids_initialized tm \<longrightarrow>
     next_transaction_id tm = 0 \<or> (\<forall>r\<in>set rs. w_transaction_id r < next_transaction_id tm))"

lemma greatest_id:
  "g \<le> fold (\<lambda>r g. if w_transaction_id r > g then w_transaction_id r else g) rs g \<and>
   (\<forall>r\<in>set rs. w_transaction_id r \<le> fold (\<lambda>r g. if w_transaction_id r > g then w_transaction_id r else g) rs g)"
proof (induction rs arbitrary: g)
  case (Cons x rs)
  from Cons[of "if w_transaction_id x > g then w_transaction_id x else g"] show ?case
    by (auto split: if_splits)
qed simp

lemma word_less_succ:
  assumes "(x :: u64) \<le> m" "m \<noteq> -1"
  shows "x < m + 1"
proof -
  have "m + 1 \<noteq> 0" using assms(2) by (metis eq_neg_iff_add_eq_0)
  then have "unat (m + 1) = unat m + 1" by (metis add.commute unatSuc Suc_eq_plus1)
  then show ?thesis using assms(1) by (simp add: word_less_nat_alt word_le_nat_alt)
qed

lemma initialize_fresh:
  assumes "log_holds lg rs" "ids_fresh tm rs" "initialize_transaction_ids tm lg = Inr tm1"
  shows "transaction_ids_initialized tm1" "ids_fresh tm1 rs" "active_transactions tm1 = active_transactions tm"
    "wait_for_graph tm1 = wait_for_graph tm"
proof -
  have "log_scan lg = Inr rs" by (rule log_holds_scan[OF assms(1)])
  then show "transaction_ids_initialized tm1" "active_transactions tm1 = active_transactions tm"
    "wait_for_graph tm1 = wait_for_graph tm" "ids_fresh tm1 rs"
    using assms(2,3) greatest_id[of 0 rs] word_less_succ
    by (auto simp: initialize_transaction_ids_def ids_fresh_def Let_def split: if_splits)
qed

text \<open>C9: a new transaction never gets an id that occurs in the log, also by the first begin after a
  restart, which reads the ids off the log; and this stays so for the next begin.\<close>

theorem begin_id_fresh:
  assumes "log_holds lg rs" "log_synced lg" "unat (lg_next_lsn lg) + 1 < 2 ^ 64" "ids_fresh tm rs"
    "txn_begin sound_log tm lg = (Inr t, tm', lg')"
  shows "t \<noteq> 0 \<and> (\<forall>r\<in>set rs. w_transaction_id r < t) \<and>
    (\<exists>r. log_holds lg' (rs @ [r]) \<and> w_transaction_id r = t \<and> record_decode r = Inr BeginPayload \<and> ids_fresh tm' (rs @ [r]))"
proof -
  obtain tm1 where i: "initialize_transaction_ids tm lg = Inr tm1"
    using assms(5) by (auto simp: txn_begin_def split: sum.splits)
  note f = initialize_fresh[OF assms(1,4) i]
  have t: "t = next_transaction_id tm1" "t \<noteq> 0"
    using assms(5) i by (auto simp: txn_begin_def Let_def split: sum.splits if_splits prod.splits)
  from lifecycle_append[OF assms(1-3), of TxnBegin t 0 BeginPayload] t(2) obtain lg1 r where a:
    "append_built sound_log lg (record_begin t) = (Inr (lg_next_lsn lg), lg1)" "log_holds lg1 (rs @ [r])"
    "record_decode r = Inr BeginPayload" "w_transaction_id r = t"
    by (auto simp: record_begin_def require_payload_type_iff)
  have e: "lg' = lg1" "next_transaction_id tm' = t + 1" "transaction_ids_initialized tm'"
    using assms(5) i t a(1) f(1) by (auto simp: txn_begin_def Let_def set_txn_def)
  have less: "\<forall>r\<in>set rs. w_transaction_id r < t" using f(1,2) t by (auto simp: ids_fresh_def)
  have "ids_fresh tm' (rs @ [r])"
  proof (cases "t + 1 = 0")
    case False
    then have "t \<noteq> -1" by auto
    then show ?thesis using less a(4) e word_less_succ by (force simp: ids_fresh_def)
  qed (simp add: ids_fresh_def e)
  then show ?thesis using t(2) less a(2-4) e(1) by blast
qed

section \<open>Examples\<close>

definition one_effect :: "PageEffect list" where
  "one_effect = [\<lparr>effect_kind = EffectWrite, effect_page_num = 3, after_image = page_initialize 3 BTreeLeaf\<rparr>]"

lemma one_effect_ok: "effects_ok one_effect"
  using page_initialize_fields[of BTreeLeaf] by (simp add: one_effect_def effects_ok_def effect_ok_def)

lemma begun_one:
  "\<exists>tm lg r. txn_begin sound_log initial_manager (empty_log tiny_config) = (Inr 1, tm, lg) \<and>
    sys_ok None None tm (lock_view empty_LockManager) \<and>
    active_transactions tm 1 = Some \<lparr>txn_state = Active, held_key_locks = [], last_lsn = 1\<rparr> \<and>
    txn_chain lg 1 1 [] \<and> log_holds lg [r] \<and> log_synced lg \<and> unat (lg_next_lsn lg) = 2 \<and> lg_config lg = tiny_config"
proof -
  have s: "log_scan (empty_log tiny_config) = Inr []" by (rule log_holds_scan[OF tiny_log(1)])
  let ?tm = "initial_manager\<lparr>transaction_ids_initialized := True\<rparr>"
  have i: "initialize_transaction_ids initial_manager (empty_log tiny_config) = Inr ?tm" "next_transaction_id ?tm = 1"
    "active_transactions initial_manager 1 = None"
    using s by (simp_all add: initialize_transaction_ids_def initial_manager_def)
  from txn_begin_chain[OF tiny_log _ i(1,2) _ initial_ok i(3)] obtain tm lg r where
    "txn_begin sound_log initial_manager (empty_log tiny_config) = (Inr 1, tm, lg)"
    "sys_ok None None tm (lock_view empty_LockManager)"
    "active_transactions tm 1 = Some \<lparr>txn_state = Active, held_key_locks = [], last_lsn = 1\<rparr>"
    "txn_chain lg 1 1 []" "log_holds lg [r]" "log_synced lg" "unat (lg_next_lsn lg) = 2" "lg_config lg = tiny_config" by auto
  then show ?thesis by blast
qed

lemma not_waiting_empty: "t \<notin> waiting (lock_view empty_LockManager)"
  by (auto simp: lock_view_def states_at_def states_find_def empty_LockManager_def waiting_def new_LockState_def)


definition broken_log :: log_faults where
  "broken_log = (\<lambda>_. (full_disk, no_faults))"

theorem failed_commit_keeps_locks_witness:
  "\<exists>tm tm' lg'. txn_commit broken_log tm empty_LockManager (empty_log tiny_config) 1 DurabilitySync 7 =
      (Inl Runtime_error, tm', empty_LockManager, lg') \<and>
    txn_commit sound_log tm' empty_LockManager lg' 1 DurabilitySync 7 = (Inr CommitInvalidState, tm', empty_LockManager, lg')"
proof -
  let ?tm = "enter_transaction initial_manager 1 1"
  have ok: "sys_ok None None ?tm (lock_view empty_LockManager)" using enter_ok[OF initial_ok] by (simp add: initial_manager_def)
  have a: "active_transactions ?tm 1 = Some \<lparr>txn_state = Active, held_key_locks = [], last_lsn = 1\<rparr>" by (simp add: enter_transaction_def)
  obtain q where q: "record_commit 1 1 7 = Inr q" "length (pw_data q) = 8"
    using record_of[of TxnCommit 1 1 "CommitPayload 7"]
    by (auto simp: record_commit_def require_payload_type_iff make_record_iff payload_encode_iff)
  obtain b where "wal_encode (stamp q 1) = Inr b"
    using make_record_fields[of TxnCommit 1 1 "CommitPayload 7" q 1] q
    by (auto simp: record_commit_def wal_encode_image stamp_def WAL_HEADER_SIZE_def)
  then obtain lg' where l: "log_append full_disk no_faults (empty_log tiny_config) q = (Inl Runtime_error, lg')"
    using full_append_fails by blast
  obtain tm' where c: "txn_commit broken_log ?tm empty_LockManager (empty_log tiny_config) 1 DurabilitySync 7 =
      (Inl Runtime_error, tm', empty_LockManager, lg')"
    using a q(1) l by (simp add: txn_commit_def Let_def append_built_def broken_log_def)
  have "txn_commit sound_log tm' empty_LockManager lg' 1 DurabilitySync 7 = (Inr CommitInvalidState, tm', empty_LockManager, lg')"
    using failed_commit_keeps_locks[OF ok a _ not_waiting_empty c] by auto
  then show ?thesis using c by blast
qed

theorem begin_id_fresh_witness:
  "\<exists>tm lg r. txn_begin sound_log initial_manager (empty_log tiny_config) = (Inr 1, tm, lg) \<and>
    log_holds lg [r] \<and> w_transaction_id r = 1 \<and> ids_fresh tm [r]"
proof -
  obtain tm lg where b: "txn_begin sound_log initial_manager (empty_log tiny_config) = (Inr 1, tm, lg)" using begun_one by blast
  show ?thesis using begin_id_fresh[OF tiny_log _ _ b] b by (auto simp: ids_fresh_def initial_manager_def)
qed

definition undo_by_effect :: "UndoDescriptor list \<Rightarrow> txn_id \<Rightarrow> UndoDescriptor \<Rightarrow> UndoDescriptor list undo_run" where
  "undo_by_effect done t u = Undo_append one_effect
     (\<lambda>r. case r of Inl e \<Rightarrow> Undo_done (Inl e) done | Inr _ \<Rightarrow> Undo_done (Inr ()) (done @ [u]))"


end
