(* ===== verification/NetCodec.thy ===== *)
theory NetCodec
  imports ValueCodec
begin

text \<open>
  The client wire format, after \<open>src/src/client/NetCodec.cpp\<close>,
  \<open>src/src/client/Command.cpp\<close> and \<open>src/src/API/Message.cpp\<close>.  A
  \<open>memcpy\<close> of an \<open>htonl\<close> value stores its big-endian bytes, so it is
  \<^const>\<open>put_u32_be\<close>.  A function with a \<open>bytes_offset\<close> reference returns the
  advanced offset next to its result.  The lemmas show that the packet codec is a
  bijection between the commands it accepts and the packets it accepts.
\<close>

section \<open>Keys and values\<close>

definition deserialize_key_type :: "u8 \<Rightarrow> KeyType res" where
  "deserialize_key_type t =
     (if t = 0 then Inr KBool else if t = 1 then Inr KUInt64 else if t = 2 then Inr KInt64
      else if t = 3 then Inr KString else if t = 4 then Inr KBytes else Inl Runtime_error)"

definition deserialize_value_type :: "u8 \<Rightarrow> ValueType res" where
  "deserialize_value_type t =
     (if t = 0 then Inr VVarUInt else if t = 1 then Inr VVarInt else if t = 2 then Inr VBool
      else if t = 3 then Inr VChar else Inl Runtime_error)"

definition serialize_key :: "Key \<Rightarrow> bytes res" where
  "serialize_key key =
     (if \<not> validate_key key then Inl Invalid_argument
      else
        let host_payload_size = ksize key;
            buffer = replicate (5 + unat host_payload_size) 0;
            buffer = buffer[0 := of_nat (key_tag (ktype key))];
            buffer = put_u32_be buffer 1 host_payload_size
        in Inr (write_at buffer 5 (kdata key)))"

definition deserialize_key :: "bytes \<Rightarrow> Key res" where
  "deserialize_key buffer =
     (if length buffer < 5 then Inl Runtime_error
      else
        let host_payload_size = get_u32_be buffer 1
        in if unat host_payload_size \<noteq> length buffer - 5 then Inl Runtime_error
           else res_bind (deserialize_key_type (buffer ! 0)) (\<lambda>t.
             let key = \<lparr>ktype = t, ksize = host_payload_size,
                        kdata = take (unat host_payload_size) (drop 5 buffer)\<rparr>
             in if \<not> validate_key key then Inl Runtime_error else Inr key))"

definition serialize_value :: "Value \<Rightarrow> bytes res" where
  "serialize_value val =
     (if \<not> validate_value val then Inl Invalid_argument
      else
        let host_payload_size = vsize val;
            buffer = replicate (5 + unat host_payload_size) 0;
            buffer = buffer[0 := of_nat (value_tag (vtype val))];
            buffer = put_u32_be buffer 1 host_payload_size
        in Inr (write_at buffer 5 (vdata val)))"

definition deserialize_value :: "bytes \<Rightarrow> Value res" where
  "deserialize_value buffer =
     (if length buffer < 5 then Inl Runtime_error
      else
        let host_payload_size = get_u32_be buffer 1
        in if unat host_payload_size \<noteq> length buffer - 5 then Inl Runtime_error
           else res_bind (deserialize_value_type (buffer ! 0)) (\<lambda>t.
             let val = \<lparr>vtype = t, vsize = host_payload_size,
                        vdata = take (unat host_payload_size) (drop 5 buffer)\<rparr>
             in if \<not> validate_value val then Inl Runtime_error else Inr val))"

section \<open>Commands\<close>

datatype OperatorType = NULLARY | UNARY | BINARY

datatype Operator = GET | PUT | DELETE | BEGIN_TXN | COMMIT | ROLLBACK

fun operator_type_code :: "OperatorType \<Rightarrow> u8" where
  "operator_type_code NULLARY = 0"
| "operator_type_code UNARY = 1"
| "operator_type_code BINARY = 2"

fun operator_code :: "Operator \<Rightarrow> u8" where
  "operator_code GET = 0"
| "operator_code PUT = 1"
| "operator_code DELETE = 2"
| "operator_code BEGIN_TXN = 3"
| "operator_code COMMIT = 4"
| "operator_code ROLLBACK = 5"

record Command =
  operator_type :: OperatorType
  cmd_op :: Operator
  cmd_key :: "Key option"
  cmd_value :: "Value option"

definition is_nullary_operator :: "Operator \<Rightarrow> bool" where
  "is_nullary_operator op \<longleftrightarrow> op = BEGIN_TXN \<or> op = COMMIT \<or> op = ROLLBACK"

definition is_unary_operator :: "Operator \<Rightarrow> bool" where
  "is_unary_operator op \<longleftrightarrow> op = GET \<or> op = DELETE"

definition checked_size :: "nat \<Rightarrow> u32 res" where
  "checked_size n = (if n > 2 ^ 32 - 1 then Inl Length_error else Inr (of_nat n))"

definition read_byte :: "bytes \<Rightarrow> nat \<Rightarrow> (u8 \<times> nat) res" where
  "read_byte buffer off =
     (if off \<ge> length buffer then Inl Runtime_error else Inr (buffer ! off, off + 1))"

definition read_size :: "bytes \<Rightarrow> nat \<Rightarrow> (u32 \<times> nat) res" where
  "read_size buffer off =
     (if off > length buffer \<or> length buffer - off < 4 then Inl Runtime_error
      else Inr (get_u32_be buffer off, off + 4))"

definition read_bytes :: "bytes \<Rightarrow> nat \<Rightarrow> u32 \<Rightarrow> (bytes \<times> nat) res" where
  "read_bytes buffer off n =
     (if off > length buffer \<or> unat n > length buffer - off then Inl Runtime_error
      else Inr (take (unat n) (drop off buffer), off + unat n))"

definition read_operator_type :: "bytes \<Rightarrow> nat \<Rightarrow> (OperatorType \<times> nat) res" where
  "read_operator_type buffer off =
     res_bind (read_byte buffer off) (\<lambda>(t, off).
       if t = 0 then Inr (NULLARY, off) else if t = 1 then Inr (UNARY, off)
       else if t = 2 then Inr (BINARY, off) else Inl Runtime_error)"

definition read_operator :: "bytes \<Rightarrow> nat \<Rightarrow> (Operator \<times> nat) res" where
  "read_operator buffer off =
     res_bind (read_byte buffer off) (\<lambda>(t, off).
       if t = 0 then Inr (GET, off) else if t = 1 then Inr (PUT, off)
       else if t = 2 then Inr (DELETE, off) else if t = 3 then Inr (BEGIN_TXN, off)
       else if t = 4 then Inr (COMMIT, off) else if t = 5 then Inr (ROLLBACK, off)
       else Inl Runtime_error)"

definition write_command_header :: "bytes \<Rightarrow> u32 \<Rightarrow> Command \<Rightarrow> nat \<Rightarrow> bytes \<times> nat" where
  "write_command_header buffer host_payload_size command off =
     (let buffer = put_u32_be buffer off host_payload_size;
          off = off + 4;
          buffer = buffer[off := operator_type_code (operator_type command)];
          off = off + 1;
          buffer = buffer[off := operator_code (cmd_op command)]
      in (buffer, off + 1))"

definition write_size :: "bytes \<Rightarrow> u32 \<Rightarrow> nat \<Rightarrow> bytes \<times> nat" where
  "write_size buffer host_size off = (put_u32_be buffer off host_size, off + 4)"

definition write_bytes :: "bytes \<Rightarrow> bytes \<Rightarrow> nat \<Rightarrow> bytes \<times> nat" where
  "write_bytes buffer bs off = (write_at buffer off bs, off + length bs)"

definition serialize_nullary :: "Command \<Rightarrow> bytes res" where
  "serialize_nullary command =
     (if \<not> is_nullary_operator (cmd_op command) \<or> cmd_key command \<noteq> None \<or> cmd_value command \<noteq> None
      then Inl Invalid_argument
      else Inr (fst (write_command_header (replicate (4 + 2) 0) 2 command 0)))"

definition serialize_unary :: "Command \<Rightarrow> bytes res" where
  "serialize_unary command =
     (case (cmd_key command, cmd_value command) of
        (Some key, None) \<Rightarrow>
          if \<not> is_unary_operator (cmd_op command) then Inl Invalid_argument
          else res_bind (serialize_key key) (\<lambda>network_key.
            res_bind (checked_size (length network_key)) (\<lambda>host_key_size.
            res_bind (checked_size (2 + 4 + length network_key)) (\<lambda>host_payload_size.
            let buffer = replicate (4 + unat host_payload_size) 0;
                (buffer, off) = write_command_header buffer host_payload_size command 0;
                (buffer, off) = write_size buffer host_key_size off;
                (buffer, off) = write_bytes buffer network_key off
            in Inr buffer)))
      | _ \<Rightarrow> Inl Invalid_argument)"

definition serialize_binary :: "Command \<Rightarrow> bytes res" where
  "serialize_binary command =
     (case (cmd_key command, cmd_value command) of
        (Some key, Some val) \<Rightarrow>
          if cmd_op command \<noteq> PUT then Inl Invalid_argument
          else res_bind (serialize_key key) (\<lambda>network_key.
            res_bind (serialize_value val) (\<lambda>network_value.
            res_bind (checked_size (length network_key)) (\<lambda>host_key_size.
            res_bind (checked_size (length network_value)) (\<lambda>host_value_size.
            let operand_bytes = 4 + length network_key + 4 + length network_value
            in res_bind (checked_size (2 + operand_bytes)) (\<lambda>host_payload_size.
            let buffer = replicate (4 + unat host_payload_size) 0;
                (buffer, off) = write_command_header buffer host_payload_size command 0;
                (buffer, off) = write_size buffer host_key_size off;
                (buffer, off) = write_bytes buffer network_key off;
                (buffer, off) = write_size buffer host_value_size off;
                (buffer, off) = write_bytes buffer network_value off
            in Inr buffer)))))
      | _ \<Rightarrow> Inl Invalid_argument)"

definition deserialize_nullary :: "bytes \<Rightarrow> nat \<Rightarrow> Operator \<Rightarrow> Command res" where
  "deserialize_nullary buffer off op =
     (if \<not> is_nullary_operator op \<or> off \<noteq> length buffer then Inl Runtime_error
      else Inr \<lparr>operator_type = NULLARY, cmd_op = op, cmd_key = None, cmd_value = None\<rparr>)"

definition deserialize_unary :: "bytes \<Rightarrow> nat \<Rightarrow> Operator \<Rightarrow> Command res" where
  "deserialize_unary buffer off op =
     (if \<not> is_unary_operator op then Inl Runtime_error
      else res_bind (read_size buffer off) (\<lambda>(host_key_size, off).
        res_bind (read_bytes buffer off host_key_size) (\<lambda>(network_key, off).
        if off \<noteq> length buffer then Inl Runtime_error
        else res_bind (deserialize_key network_key) (\<lambda>key.
          Inr \<lparr>operator_type = UNARY, cmd_op = op, cmd_key = Some key, cmd_value = None\<rparr>))))"

definition deserialize_binary :: "bytes \<Rightarrow> nat \<Rightarrow> Operator \<Rightarrow> Command res" where
  "deserialize_binary buffer off op =
     (if op \<noteq> PUT then Inl Runtime_error
      else res_bind (read_size buffer off) (\<lambda>(host_key_size, off).
        res_bind (read_bytes buffer off host_key_size) (\<lambda>(network_key, off).
        res_bind (read_size buffer off) (\<lambda>(host_value_size, off).
        res_bind (read_bytes buffer off host_value_size) (\<lambda>(network_value, off).
        if off \<noteq> length buffer then Inl Runtime_error
        else res_bind (deserialize_key network_key) (\<lambda>key.
          res_bind (deserialize_value network_value) (\<lambda>val.
          Inr \<lparr>operator_type = BINARY, cmd_op = op, cmd_key = Some key,
               cmd_value = Some val\<rparr>)))))))"

definition command_serialize :: "Command \<Rightarrow> bytes res" where
  "command_serialize command =
     (case operator_type command of
        NULLARY \<Rightarrow> serialize_nullary command
      | UNARY \<Rightarrow> serialize_unary command
      | BINARY \<Rightarrow> serialize_binary command)"

definition command_deserialize :: "bytes \<Rightarrow> Command res" where
  "command_deserialize buffer =
     (if length buffer < 6 then Inl Runtime_error
      else res_bind (read_size buffer 0) (\<lambda>(host_payload_size, off).
        if unat host_payload_size \<noteq> length buffer - 4 then Inl Runtime_error
        else res_bind (read_operator_type buffer off) (\<lambda>(ot, off).
          res_bind (read_operator buffer off) (\<lambda>(op, off).
          case ot of
            NULLARY \<Rightarrow> deserialize_nullary buffer off op
          | UNARY \<Rightarrow> deserialize_unary buffer off op
          | BINARY \<Rightarrow> deserialize_binary buffer off op))))"

section \<open>Messages\<close>

record Message =
  msg_id :: u32
  msg_text :: bytes

definition message_serialize :: "Message \<Rightarrow> bytes" where
  "message_serialize msg =
     (let text_size = of_nat (length (msg_text msg)) :: u32;
          payload_size = of_nat (4 + 4 + length (msg_text msg)) :: u32;
          buffer = replicate (4 + unat payload_size) 0;
          off = 0;
          buffer = put_u32_be buffer off payload_size; off = off + 4;
          buffer = put_u32_be buffer off (msg_id msg); off = off + 4;
          buffer = put_u32_be buffer off text_size; off = off + 4
      in write_at buffer off (msg_text msg))"

definition message_deserialize :: "bytes \<Rightarrow> Message res" where
  "message_deserialize buffer =
     (if length buffer < 8 then Inl Runtime_error
      else
        let host_id = get_u32_be buffer 0;
            host_text_size = get_u32_be buffer 4
        in if unat host_text_size > length buffer - 8 then Inl Runtime_error
           else Inr \<lparr>msg_id = host_id, msg_text = take (unat host_text_size) (drop 8 buffer)\<rparr>)"

section \<open>Serialized forms\<close>

lemma field_packet:
  "length d = n \<Longrightarrow>
   write_at (put_u32_be ((replicate (5 + n) 0)[0 := t]) 1 sz) 5 d = t # be32 sz @ d"
proof -
  assume d: "length d = n"
  have "(replicate (5 + n) 0)[0 := t] = [t] @ replicate (4 + n) 0" by (simp add: numeral_eq_Suc)
  then have "put_u32_be ((replicate (5 + n) 0)[0 := t]) 1 sz = (t # be32 sz) @ replicate n 0"
    using write_next[of 1 "[t]" "be32 sz" "4 + n"] by (simp add: put_be)
  then show ?thesis using d write_next[of 5 "t # be32 sz" d n] by simp
qed

lemma serialize_key_form:
  "validate_key k \<Longrightarrow>
   serialize_key k = Inr (of_nat (key_tag (ktype k)) # be32 (ksize k) @ kdata k)"
  using field_packet[of "kdata k" "unat (ksize k)"]
  by (auto simp: serialize_key_def validate_key_def split: if_splits)

lemma serialize_value_form:
  "validate_value v \<Longrightarrow>
   serialize_value v = Inr (of_nat (value_tag (vtype v)) # be32 (vsize v) @ vdata v)"
  using field_packet[of "vdata v" "unat (vsize v)"]
  by (auto simp: serialize_value_def validate_value_def split: if_splits)

lemma key_type_roundtrip [simp]: "deserialize_key_type (of_nat (key_tag t)) = Inr t"
  by (cases t) (simp_all add: deserialize_key_type_def)

lemma value_type_roundtrip [simp]: "deserialize_value_type (of_nat (value_tag t)) = Inr t"
  by (cases t) (simp_all add: deserialize_value_type_def)

lemma key_type_inverse: "deserialize_key_type b = Inr t \<Longrightarrow> of_nat (key_tag t) = b"
  by (auto simp: deserialize_key_type_def split: if_splits)

lemma value_type_inverse: "deserialize_value_type b = Inr t \<Longrightarrow> of_nat (value_tag t) = b"
  by (auto simp: deserialize_value_type_def split: if_splits)

lemma get_size_at_1 [simp]: "get_u32_be (t # be32 sz @ d) (Suc 0) = sz"
  using get_be(2)[of 1 "[t]" sz d] by simp

lemma valid_key_length: "validate_key k \<Longrightarrow> length (kdata k) = unat (ksize k)"
  by (auto simp: validate_key_def split: if_splits)

lemma valid_value_length: "validate_value v \<Longrightarrow> length (vdata v) = unat (vsize v)"
  by (auto simp: validate_value_def split: if_splits)

lemma record_eta [simp]:
  "\<lparr>ktype = ktype k, ksize = ksize k, kdata = kdata k\<rparr> = k"
  "\<lparr>vtype = vtype v, vsize = vsize v, vdata = vdata v\<rparr> = v"
  by (cases k; cases v; simp)+

lemma key_net_roundtrip: "serialize_key k = Inr b \<Longrightarrow> deserialize_key b = Inr k"
proof -
  assume b: "serialize_key k = Inr b"
  then have v: "validate_key k" by (auto simp: serialize_key_def split: if_splits)
  with b serialize_key_form[OF v] valid_key_length[OF v] show ?thesis
    by (auto simp: deserialize_key_def)
qed

lemma value_net_roundtrip: "serialize_value v = Inr b \<Longrightarrow> deserialize_value b = Inr v"
proof -
  assume b: "serialize_value v = Inr b"
  then have v: "validate_value v" by (auto simp: serialize_value_def split: if_splits)
  with b serialize_value_form[OF v] valid_value_length[OF v] show ?thesis
    by (auto simp: deserialize_value_def)
qed

lemma packet_split:
  assumes "5 \<le> length b" "get_u32_be b 1 = sz" "unat sz = length b - 5"
  shows "b = b ! 0 # be32 sz @ take (unat sz) (drop 5 b)"
proof -
  have "b = b ! 0 # drop 1 b" using assms(1) by (cases b) auto
  moreover have "drop 1 b = take 4 (drop 1 b) @ drop 5 b"
    using append_take_drop_id[of 4 "drop 1 b"] by simp
  ultimately show ?thesis
    using assms be32_get_slice[of 1 b] by simp
qed

lemma key_net_inverse: "deserialize_key b = Inr k \<Longrightarrow> serialize_key k = Inr b"
  using packet_split[of b "get_u32_be b 1"]
  by (auto simp: deserialize_key_def Let_def serialize_key_form key_type_inverse
      split: if_splits)

lemma value_net_inverse: "deserialize_value b = Inr v \<Longrightarrow> serialize_value v = Inr b"
  using packet_split[of b "get_u32_be b 1"]
  by (auto simp: deserialize_value_def Let_def serialize_value_form value_type_inverse
      split: if_splits)

lemma command_header_form:
  "write_command_header (replicate (6 + n) 0) ps c 0 =
   (be32 ps @ [operator_type_code (operator_type c), operator_code (cmd_op c)] @ replicate n 0, 6)"
proof -
  have "replicate (2 + n) (0::u8) = 0 # 0 # replicate n 0" by (simp add: numeral_eq_Suc)
  then have "put_u32_be (replicate (6 + n) 0) 0 ps = be32 ps @ 0 # 0 # replicate n 0"
    using write_first[of "be32 ps" "6 + n"] by (simp add: put_be)
  then show ?thesis
    by (simp add: write_command_header_def Let_def list_update_append)
qed

lemma write_size_form:
  "off = length pre \<Longrightarrow>
   write_size (pre @ replicate (4 + n) 0) sz off = ((pre @ be32 sz) @ replicate n 0, off + 4)"
  using write_next[of off pre "be32 sz" "4 + n"] by (simp add: write_size_def put_be)

lemma write_bytes_form:
  "off = length pre \<Longrightarrow>
   write_bytes (pre @ replicate (length bs + n) 0) bs off =
   ((pre @ bs) @ replicate n 0, off + length bs)"
  using write_next[of off pre bs "length bs + n"] by (simp add: write_bytes_def)

lemma checked_size_ok: "n < 2 ^ 32 \<Longrightarrow> checked_size n = Inr (of_nat n)"
  by (auto simp: checked_size_def)

lemma size_32: "n < 2 ^ 32 \<Longrightarrow> unat (of_nat n :: u32) = n"
  by (rule unat_of_nat_lt) simp

lemma net_key_length:
  assumes "serialize_key k = Inr b"
  shows "length b \<le> 65540"
proof -
  have "validate_key k" using assms by (auto simp: serialize_key_def split: if_splits)
  with assms show ?thesis
    by (auto simp: serialize_key_form validate_key_def MAX_PAYLOAD_SIZE_def split: if_splits)
qed

lemma net_value_length:
  assumes "serialize_value v = Inr b"
  shows "length b \<le> 65540"
proof -
  have "validate_value v" using assms by (auto simp: serialize_value_def split: if_splits)
  with assms show ?thesis
    by (auto simp: serialize_value_form validate_value_def MAX_PAYLOAD_SIZE_def split: if_splits)
qed

lemma serialize_unary_form:
  assumes "serialize_key k = Inr nk" "is_unary_operator op"
    "c = \<lparr>operator_type = UNARY, cmd_op = op, cmd_key = Some k, cmd_value = None\<rparr>"
  shows "serialize_unary c = Inr (be32 (of_nat (6 + length nk)) @ [1, operator_code op] @
    be32 (of_nat (length nk)) @ nk)"
proof -
  let ?n = "length nk" and ?ps = "of_nat (6 + length nk) :: u32"
  have l: "?n < 2 ^ 32" "6 + ?n < 2 ^ 32" using net_key_length[OF assms(1)] by auto
  have sz: "unat ?ps = 6 + ?n" using l by (intro size_32)
  have "write_command_header (replicate (4 + unat ?ps) 0) ?ps c 0 =
      ((be32 ?ps @ [1, operator_code op]) @ replicate (4 + ?n) 0, 6)"
    unfolding sz using command_header_form[of "4 + ?n" ?ps c] assms(3) by simp
  moreover have "write_size ((be32 ?ps @ [1, operator_code op]) @ replicate (4 + ?n) 0)
      (of_nat ?n) 6 = ((be32 ?ps @ [1, operator_code op] @ be32 (of_nat ?n)) @ replicate ?n 0, 10)"
    using write_size_form[of 6 "be32 ?ps @ [1, operator_code op]" ?n "of_nat ?n"] by simp
  moreover have "write_bytes ((be32 ?ps @ [1, operator_code op] @ be32 (of_nat ?n)) @ replicate ?n 0)
      nk 10 = (be32 ?ps @ [1, operator_code op] @ be32 (of_nat ?n) @ nk, 10 + ?n)"
    using write_bytes_form[of 10 "be32 ?ps @ [1, operator_code op] @ be32 (of_nat ?n)" nk 0] by simp
  ultimately show ?thesis
    using assms l checked_size_ok[of ?n] checked_size_ok[of "6 + ?n"]
    by (simp add: serialize_unary_def Let_def split_beta)
qed

lemma serialize_binary_form:
  assumes "serialize_key k = Inr nk" "serialize_value v = Inr nv"
    "c = \<lparr>operator_type = BINARY, cmd_op = PUT, cmd_key = Some k, cmd_value = Some v\<rparr>"
  shows "serialize_binary c = Inr (be32 (of_nat (10 + length nk + length nv)) @ [2, 1] @
    be32 (of_nat (length nk)) @ nk @ be32 (of_nat (length nv)) @ nv)"
proof -
  let ?n = "length nk" and ?m = "length nv"
  let ?ps = "of_nat (10 + ?n + ?m) :: u32"
  let ?h = "be32 ?ps @ [2, 1]" and ?kn = "be32 (of_nat ?n)" and ?vn = "be32 (of_nat ?m)"
  have l: "?n < 2 ^ 32" "?m < 2 ^ 32" "10 + ?n + ?m < 2 ^ 32"
    using net_key_length[OF assms(1)] net_value_length[OF assms(2)] by auto
  have sz: "unat ?ps = 10 + ?n + ?m" using l(3) by (rule size_32)
  have 1: "write_command_header (replicate (4 + unat ?ps) 0) ?ps c 0 =
      (?h @ replicate (4 + (?n + (4 + ?m))) 0, 6)"
    unfolding sz using command_header_form[of "4 + (?n + (4 + ?m))" ?ps c] assms(3)
    by (simp add: add.assoc)
  have 2: "write_size (?h @ replicate (4 + (?n + (4 + ?m))) 0) (of_nat ?n) 6 =
      ((?h @ ?kn) @ replicate (?n + (4 + ?m)) 0, 10)"
    using write_size_form[of 6 ?h "?n + (4 + ?m)" "of_nat ?n"] by simp
  have 3: "write_bytes ((?h @ ?kn) @ replicate (?n + (4 + ?m)) 0) nk 10 =
      ((?h @ ?kn @ nk) @ replicate (4 + ?m) 0, 10 + ?n)"
    using write_bytes_form[of 10 "?h @ ?kn" nk "4 + ?m"] by simp
  have 4: "write_size ((?h @ ?kn @ nk) @ replicate (4 + ?m) 0) (of_nat ?m) (10 + ?n) =
      ((?h @ ?kn @ nk @ ?vn) @ replicate ?m 0, 14 + ?n)"
    using write_size_form[of "10 + ?n" "?h @ ?kn @ nk" ?m "of_nat ?m"] by simp
  have 5: "write_bytes ((?h @ ?kn @ nk @ ?vn) @ replicate ?m 0) nv (14 + ?n) =
      (?h @ ?kn @ nk @ ?vn @ nv, 14 + ?n + ?m)"
    using write_bytes_form[of "14 + ?n" "?h @ ?kn @ nk @ ?vn" nv 0] by simp
  have sum: "2 + (4 + ?n + 4 + ?m) = 10 + ?n + ?m" by simp
  show ?thesis
    unfolding serialize_binary_def Let_def
    by (simp only: sum 1[unfolded assms(3)] assms Command.select_convs option.case prod.case checked_size_ok[OF l(1)]
        checked_size_ok[OF l(2)] checked_size_ok[OF l(3)] res_bind.simps 2 3 4 5
        Operator.distinct if_False if_True simp_thms) simp
qed

section \<open>Reading a packet\<close>

lemma read_size_at:
  "off = length pre \<Longrightarrow> read_size (pre @ be32 v @ post) off = Inr (v, off + 4)"
  by (simp add: read_size_def codec_simps)

lemma read_bytes_at:
  "off = length pre \<Longrightarrow> unat n = length bs \<Longrightarrow>
   read_bytes (pre @ bs @ post) off n = Inr (bs, off + length bs)"
  by (simp add: read_bytes_def)

lemma read_size_inv:
  assumes "read_size b off = Inr (v, off')"
  shows "off' = off + 4 \<and> drop off b = be32 v @ drop off' b \<and> off' \<le> length b"
  using assms append_take_drop_id[of 4 "drop off b"] be32_get_slice[of off b]
  by (auto simp: read_size_def add.commute split: if_splits)

lemma read_bytes_inv:
  assumes "read_bytes b off n = Inr (bs, off')"
  shows "off' = off + length bs \<and> unat n = length bs \<and> drop off b = bs @ drop off' b
    \<and> off' \<le> length b"
  using assms append_take_drop_id[of "unat n" "drop off b"]
  by (auto simp: read_bytes_def add.commute split: if_splits)

lemma read_operator_type_at:
  "off < length b \<Longrightarrow> b ! off = operator_type_code t \<Longrightarrow>
   read_operator_type b off = Inr (t, off + 1)"
  by (cases t) (simp_all add: read_operator_type_def read_byte_def)

lemma read_operator_at:
  "off < length b \<Longrightarrow> b ! off = operator_code t \<Longrightarrow>
   read_operator b off = Inr (t, off + 1)"
  by (cases t) (simp_all add: read_operator_def read_byte_def)

lemma read_operator_type_inv:
  "read_operator_type b off = Inr (t, off') \<Longrightarrow>
   off' = off + 1 \<and> drop off b = operator_type_code t # drop off' b"
  using Cons_nth_drop_Suc[of off b]
  by (auto simp: read_operator_type_def read_byte_def split: if_splits)

lemma read_operator_inv:
  "read_operator b off = Inr (t, off') \<Longrightarrow>
   off' = off + 1 \<and> drop off b = operator_code t # drop off' b"
  using Cons_nth_drop_Suc[of off b]
  by (auto simp: read_operator_def read_byte_def split: if_splits)

lemma packet_header:
  assumes "unat ps = 2 + length body"
    "b = be32 ps @ [operator_type_code ot, operator_code op] @ body"
  shows "command_deserialize b =
    (case ot of NULLARY \<Rightarrow> deserialize_nullary b 6 op | UNARY \<Rightarrow> deserialize_unary b 6 op
     | BINARY \<Rightarrow> deserialize_binary b 6 op)"
proof -
  have "read_size b 0 = Inr (ps, 4)" using read_size_at[of 0 "[]" ps] assms(2) by simp
  moreover have "read_operator_type b 4 = Inr (ot, 5)"
    using read_operator_type_at[of 4 b ot] assms(2) by (simp add: nth_append)
  moreover have "read_operator b 5 = Inr (op, 6)"
    using read_operator_at[of 5 b op] assms(2) by (simp add: nth_append)
  moreover have "length b = 6 + length body" using assms(2) by simp
  ultimately show ?thesis using assms(1) by (simp add: command_deserialize_def)
qed

lemma unary_roundtrip:
  assumes "serialize_unary c = Inr b" "operator_type c = UNARY"
  shows "command_deserialize b = Inr c"
proof -
  obtain k nk where k: "cmd_key c = Some k" "cmd_value c = None" "is_unary_operator (cmd_op c)"
      "serialize_key k = Inr nk"
    using assms(1) by (auto simp: serialize_unary_def split: option.splits if_splits)
  then have c: "c = \<lparr>operator_type = UNARY, cmd_op = cmd_op c, cmd_key = Some k, cmd_value = None\<rparr>"
    using assms(2) by (cases c) simp
  let ?n = "length nk"
  let ?h = "be32 (of_nat (6 + ?n)) @ [1, operator_code (cmd_op c)]"
  have l: "?n < 2 ^ 32" "6 + ?n < 2 ^ 32" using net_key_length[OF k(4)] by auto
  have b: "b = ?h @ be32 (of_nat ?n) @ nk"
    using serialize_unary_form[OF k(4,3) c] assms(1) by simp
  have "read_size b 6 = Inr (of_nat ?n, 10)"
    using read_size_at[of 6 ?h "of_nat ?n" nk] b by simp
  moreover have "read_bytes b 10 (of_nat ?n) = Inr (nk, 10 + ?n)"
    using read_bytes_at[of 10 "?h @ be32 (of_nat ?n)" "of_nat ?n" nk "[]"] b l(1) size_32 by simp
  ultimately have "deserialize_unary b 6 (cmd_op c) = Inr c"
    using k(3) key_net_roundtrip[OF k(4)] c b by (simp add: deserialize_unary_def)
  then show ?thesis
    using packet_header[of "of_nat (6 + ?n)" "be32 (of_nat ?n) @ nk" b UNARY "cmd_op c"] b
      size_32[OF l(2)] by simp
qed

lemma binary_roundtrip:
  assumes "serialize_binary c = Inr b" "operator_type c = BINARY"
  shows "command_deserialize b = Inr c"
proof -
  obtain k nk v nv where k: "cmd_key c = Some k" "cmd_value c = Some v" "cmd_op c = PUT"
      "serialize_key k = Inr nk" "serialize_value v = Inr nv"
    using assms(1) by (auto simp: serialize_binary_def split: option.splits if_splits)
  then have c: "c = \<lparr>operator_type = BINARY, cmd_op = PUT, cmd_key = Some k, cmd_value = Some v\<rparr>"
    using assms(2) by (cases c) simp
  let ?n = "length nk" and ?m = "length nv"
  let ?h = "be32 (of_nat (10 + ?n + ?m)) @ [2, 1]"
  have l: "?n < 2 ^ 32" "?m < 2 ^ 32" "10 + ?n + ?m < 2 ^ 32"
    using net_key_length[OF k(4)] net_value_length[OF k(5)] by auto
  have b: "b = ?h @ be32 (of_nat ?n) @ nk @ be32 (of_nat ?m) @ nv"
    using serialize_binary_form[OF k(4,5) c] assms(1) by simp
  have "read_size b 6 = Inr (of_nat ?n, 10)"
    using read_size_at[of 6 ?h "of_nat ?n" "nk @ be32 (of_nat ?m) @ nv"] b by simp
  moreover have "read_bytes b 10 (of_nat ?n) = Inr (nk, 10 + ?n)"
    using read_bytes_at[of 10 "?h @ be32 (of_nat ?n)" "of_nat ?n" nk "be32 (of_nat ?m) @ nv"]
      b l(1) size_32 by simp
  moreover have "read_size b (10 + ?n) = Inr (of_nat ?m, 14 + ?n)"
    using read_size_at[of "10 + ?n" "?h @ be32 (of_nat ?n) @ nk" "of_nat ?m" nv] b by simp
  moreover have "read_bytes b (14 + ?n) (of_nat ?m) = Inr (nv, 14 + ?n + ?m)"
    using read_bytes_at[of "14 + ?n" "?h @ be32 (of_nat ?n) @ nk @ be32 (of_nat ?m)" "of_nat ?m" nv "[]"]
      b l(2) size_32 by simp
  ultimately have "deserialize_binary b 6 PUT = Inr c"
    using key_net_roundtrip[OF k(4)] value_net_roundtrip[OF k(5)] c b
    by (simp add: deserialize_binary_def)
  then show ?thesis
    using packet_header[of "of_nat (10 + ?n + ?m)" "be32 (of_nat ?n) @ nk @ be32 (of_nat ?m) @ nv"
        b BINARY PUT] b size_32[OF l(3)] by simp
qed

lemma nullary_roundtrip:
  assumes "serialize_nullary c = Inr b" "operator_type c = NULLARY"
  shows "command_deserialize b = Inr c"
proof -
  have c: "c = \<lparr>operator_type = NULLARY, cmd_op = cmd_op c, cmd_key = None, cmd_value = None\<rparr>"
      "is_nullary_operator (cmd_op c)"
    using assms by (cases c; auto simp: serialize_nullary_def split: if_splits)+
  have b: "b = be32 2 @ [operator_type_code NULLARY, operator_code (cmd_op c)] @ []"
    using assms command_header_form[of 0 2 c] by (auto simp: serialize_nullary_def split: if_splits)
  show ?thesis
    using packet_header[OF _ b] b c by (auto simp: deserialize_nullary_def)
qed

lemma command_packet_split:
  assumes "command_deserialize b = Inr c"
  shows "\<exists>ps. b = be32 ps @ operator_type_code (operator_type c) # operator_code (cmd_op c) # drop 6 b
    \<and> unat ps = length b - 4 \<and> 6 \<le> length b \<and>
    (case operator_type c of NULLARY \<Rightarrow> deserialize_nullary b 6 (cmd_op c)
      | UNARY \<Rightarrow> deserialize_unary b 6 (cmd_op c)
      | BINARY \<Rightarrow> deserialize_binary b 6 (cmd_op c)) = Inr c"
proof -
  obtain ps off ot off2 op off3 where r: "6 \<le> length b" "read_size b 0 = Inr (ps, off)"
      "unat ps = length b - 4" "read_operator_type b off = Inr (ot, off2)"
      "read_operator b off2 = Inr (op, off3)"
      "(case ot of NULLARY \<Rightarrow> deserialize_nullary b off3 op | UNARY \<Rightarrow> deserialize_unary b off3 op
        | BINARY \<Rightarrow> deserialize_binary b off3 op) = Inr c"
    using assms by (auto simp: command_deserialize_def split: if_splits)
  have o: "off3 = 6" "b = be32 ps @ operator_type_code ot # operator_code op # drop 6 b"
    using read_size_inv[OF r(2)] read_operator_type_inv[OF r(4)] read_operator_inv[OF r(5)] by auto
  have "operator_type c = ot" "cmd_op c = op"
    using r(6) by (auto simp: deserialize_nullary_def deserialize_unary_def deserialize_binary_def
        split: OperatorType.splits if_splits)
  with o r(1,3,6) show ?thesis by blast
qed

lemma unary_inverse:
  assumes "deserialize_unary b 6 op = Inr c" "b = be32 ps @ 1 # operator_code op # drop 6 b"
    "unat ps = length b - 4"
  shows "serialize_unary c = Inr b"
proof -
  obtain ks off nk off2 k where r: "is_unary_operator op" "read_size b 6 = Inr (ks, off)"
      "read_bytes b off ks = Inr (nk, off2)" "off2 = length b" "deserialize_key nk = Inr k"
      "c = \<lparr>operator_type = UNARY, cmd_op = op, cmd_key = Some k, cmd_value = None\<rparr>"
    using assms(1) by (auto simp: deserialize_unary_def split: if_splits)
  note ro = read_size_inv[OF r(2)] and rb = read_bytes_inv[OF r(3)]
  have "drop 6 b = be32 ks @ nk" using ro rb r(4) by simp
  moreover have "ks = of_nat (length nk)" using rb by (metis of_nat_unat_id)
  moreover have "unat ps = 6 + length nk" using assms(3) ro rb r(4) by simp
  then have "ps = of_nat (6 + length nk)" by (metis of_nat_unat_id)
  ultimately show ?thesis
    using serialize_unary_form[OF key_net_inverse[OF r(5)] r(1,6)] assms(2) by simp
qed

lemma binary_inverse:
  assumes "deserialize_binary b 6 op = Inr c" "b = be32 ps @ 2 # operator_code op # drop 6 b"
    "unat ps = length b - 4"
  shows "serialize_binary c = Inr b"
proof -
  obtain ks off nk off2 vs off3 nv off4 k v where r: "op = PUT" "read_size b 6 = Inr (ks, off)"
      "read_bytes b off ks = Inr (nk, off2)" "read_size b off2 = Inr (vs, off3)"
      "read_bytes b off3 vs = Inr (nv, off4)" "off4 = length b" "deserialize_key nk = Inr k"
      "deserialize_value nv = Inr v"
      "c = \<lparr>operator_type = BINARY, cmd_op = PUT, cmd_key = Some k, cmd_value = Some v\<rparr>"
    using assms(1) by (auto simp: deserialize_binary_def split: if_splits)
  note ro = read_size_inv[OF r(2)] and rb = read_bytes_inv[OF r(3)]
    and ro2 = read_size_inv[OF r(4)] and rb2 = read_bytes_inv[OF r(5)]
  have d: "drop 6 b = be32 ks @ nk @ be32 vs @ nv" using ro rb ro2 rb2 r(6) by simp
  have "ks = of_nat (length nk)" "vs = of_nat (length nv)" using rb rb2 by (metis of_nat_unat_id)+
  moreover have "unat ps = 10 + length nk + length nv"
    using assms(3) ro rb ro2 rb2 r(6) by simp
  then have "ps = of_nat (10 + length nk + length nv)" by (metis of_nat_unat_id)
  ultimately show ?thesis
    using serialize_binary_form[OF key_net_inverse[OF r(7)] value_net_inverse[OF r(8)] r(9)]
      assms(2) d r(1) by simp
qed

section \<open>Properties\<close>

text \<open>C24: the packet codec is a bijection: the packet of an accepted command parses
  back to that command, and a packet that parses is the packet of the command it
  parses to, so malformed, truncated or trailing bytes are always rejected.\<close>

theorem command_codec_bijection:
  "(command_serialize c = Inr b) = (command_deserialize b = Inr c)"
proof
  assume "command_serialize c = Inr b"
  then show "command_deserialize b = Inr c"
    by (auto simp: command_serialize_def split: OperatorType.splits
        intro: nullary_roundtrip unary_roundtrip binary_roundtrip)
next
  assume d: "command_deserialize b = Inr c"
  then obtain ps where
    p: "b = be32 ps @ operator_type_code (operator_type c) # operator_code (cmd_op c) # drop 6 b"
      "unat ps = length b - 4" and
    t: "(case operator_type c of NULLARY \<Rightarrow> deserialize_nullary b 6 (cmd_op c)
      | UNARY \<Rightarrow> deserialize_unary b 6 (cmd_op c)
      | BINARY \<Rightarrow> deserialize_binary b 6 (cmd_op c)) = Inr c"
    using command_packet_split by blast
  show "command_serialize c = Inr b"
  proof (cases "operator_type c")
    case NULLARY
    with t have n: "is_nullary_operator (cmd_op c)" "length b = 6" "cmd_key c = None"
        "cmd_value c = None"
      by (cases c; auto simp: deserialize_nullary_def split: if_splits)+
    then have "ps = 2" using p(2) by (simp add: word_unat_eq_iff)
    with n p(1) NULLARY show ?thesis
      using command_header_form[of 0 2 c] by (simp add: command_serialize_def serialize_nullary_def)
  next
    case UNARY
    with p t unary_inverse[of b "cmd_op c" c ps] show ?thesis by (simp add: command_serialize_def)
  next
    case BINARY
    with p t binary_inverse[of b "cmd_op c" c ps] show ?thesis by (simp add: command_serialize_def)
  qed
qed

lemma message_serialize_form:
  assumes "length (msg_text m) < 2 ^ 32 - 8"
  shows "message_serialize m = be32 (of_nat (8 + length (msg_text m))) @ be32 (msg_id m) @
    be32 (of_nat (length (msg_text m))) @ msg_text m"
proof -
  let ?t = "msg_text m" and ?n = "length (msg_text m)"
  let ?ps = "of_nat (8 + ?n) :: u32"
  have sz: "unat ?ps = 8 + ?n" using assms by (intro size_32) simp
  have 1: "put_u32_be (replicate (4 + (8 + ?n)) 0) 0 ?ps = be32 ?ps @ replicate (4 + (4 + ?n)) 0"
    using write_first[of "be32 ?ps" "4 + (8 + ?n)"] by (simp add: put_be)
  have 2: "put_u32_be (be32 ?ps @ replicate (4 + (4 + ?n)) 0) 4 (msg_id m) =
      (be32 ?ps @ be32 (msg_id m)) @ replicate (4 + ?n) 0"
    using write_next[of 4 "be32 ?ps" "be32 (msg_id m)" "4 + (4 + ?n)"] by (simp add: put_be)
  have 3: "put_u32_be ((be32 ?ps @ be32 (msg_id m)) @ replicate (4 + ?n) 0) 8 (of_nat ?n) =
      (be32 ?ps @ be32 (msg_id m) @ be32 (of_nat ?n)) @ replicate ?n 0"
    using write_next[of 8 "be32 ?ps @ be32 (msg_id m)" "be32 (of_nat ?n)" "4 + ?n"]
    by (simp add: put_be)
  have 4: "write_at ((be32 ?ps @ be32 (msg_id m) @ be32 (of_nat ?n)) @ replicate ?n 0) 12 ?t =
      be32 ?ps @ be32 (msg_id m) @ be32 (of_nat ?n) @ ?t"
    using write_next[of 12 "be32 ?ps @ be32 (msg_id m) @ be32 (of_nat ?n)" ?t ?n] by simp
  show ?thesis
    unfolding message_serialize_def Let_def using 1 2 3 4 sz by simp
qed

text \<open>The payload of a serialized message (the packet without its four-byte
  length prefix, which the receiver strips) parses back to the message.\<close>

theorem message_roundtrip:
  assumes "length (msg_text m) < 2 ^ 32 - 8"
  shows "message_deserialize (drop 4 (message_serialize m)) = Inr m"
proof -
  let ?n = "length (msg_text m)"
  have "drop 4 (message_serialize m) = be32 (msg_id m) @ be32 (of_nat ?n) @ msg_text m"
    using message_serialize_form[OF assms] by simp
  moreover have "unat (of_nat ?n :: u32) = ?n" using assms by (intro size_32) simp
  ultimately show ?thesis
    using get_be(2)[of 0 "[]" "msg_id m" "be32 (of_nat ?n) @ msg_text m"]
      get_be(2)[of 4 "be32 (msg_id m)" "of_nat ?n" "msg_text m"]
    by (cases m) (simp add: message_deserialize_def)
qed

theorem message_roundtrip_witness:
  "message_deserialize (drop 4 (message_serialize \<lparr>msg_id = 7, msg_text = [104, 105]\<rparr>)) =
   Inr \<lparr>msg_id = 7, msg_text = [104, 105]\<rparr>"
  by (rule message_roundtrip) simp

end
