(* ===== verification/NodeAddress.thy ===== *)
theory NodeAddress
  imports SegmentDir
begin

text \<open>
  Node addresses and the cluster configuration, after \<open>src/src/Raft/NodeAddress.cpp\<close> and
  \<open>src/src/Raft/ClusterConfig.cpp\<close>.  Addresses are written as \<open>host:port\<close>; the text of an address is
  read back, but reading a text and writing it again may change its spelling.
\<close>

record NodeAddress =
  host :: string
  port :: u16

record ClusterMember =
  raft_addr :: NodeAddress
  database_server :: NodeAddress

text \<open>\<open>std::to_string\<close> on a port.\<close>

fun decimal :: "nat \<Rightarrow> string" where
  "decimal n = (if n < 10 then [digit n] else decimal (n div 10) @ [digit (n mod 10)])"

declare decimal.simps [simp del]

definition to_string :: "NodeAddress \<Rightarrow> string" where
  "to_string a = host a @ '':'' @ decimal (unat (port a))"

definition rfind :: "char \<Rightarrow> string \<Rightarrow> nat option" where
  "rfind c s = (if c \<in> set s then Some (length s - 1 - length (takeWhile (\<lambda>x. x \<noteq> c) (rev s))) else None)"

text \<open>\<open>std::from_chars\<close> on an \<open>unsigned int\<close>: digits only, an error when the number does not fit 32 bits.\<close>

definition from_chars :: "string \<Rightarrow> nat option" where
  "from_chars s = (if s = [] \<or> \<not> list_all is_digit s \<or> decimal_value s \<ge> 2 ^ 32 then None else Some (decimal_value s))"

definition from_string :: "string \<Rightarrow> NodeAddress res" where
  "from_string txt =
     (case rfind (CHR '':'') txt of
        None \<Rightarrow> Inl Invalid_argument
      | Some separator \<Rightarrow>
          if separator = 0 \<or> separator + 1 = length txt then Inl Invalid_argument
          else
            (case from_chars (drop (separator + 1) txt) of
               None \<Rightarrow> Inl Invalid_argument
             | Some p \<Rightarrow>
                 if p > 65535 then Inl Invalid_argument
                 else Inr \<lparr>host = take separator txt, port = of_nat p\<rparr>))"

section \<open>Cluster configuration\<close>

definition strip_comment :: "string \<Rightarrow> string" where
  "strip_comment line = takeWhile (\<lambda>c. c \<noteq> CHR ''#'') line"

definition is_space :: "char \<Rightarrow> bool" where
  "is_space c = (c = CHR '' '' \<or> (9 \<le> (of_char c :: nat) \<and> (of_char c :: nat) \<le> 13))"

text \<open>Repeated extraction of a word from the stream over the line.\<close>

function line_fields :: "string \<Rightarrow> string list" where
  "line_fields s =
     (let s = dropWhile is_space s
      in if s = [] then [] else takeWhile (\<lambda>c. \<not> is_space c) s # line_fields (dropWhile (\<lambda>c. \<not> is_space c) s))"
  by pat_completeness auto
termination
proof (relation "measure length")
  fix s x :: string
  assume x: "x = dropWhile is_space s" and "\<not> x = []"
  then have "\<not> is_space (hd x)" using hd_dropWhile[of is_space s] by auto
  moreover obtain y ys where "x = y # ys" using \<open>\<not> x = []\<close> by (cases x) auto
  ultimately have "length (dropWhile (\<lambda>c. \<not> is_space c) x) < length x"
    using length_dropWhile_le[of "\<lambda>c. \<not> is_space c" ys] by simp
  also have "length x \<le> length s" using x length_dropWhile_le by simp
  finally show "(dropWhile (\<lambda>c. \<not> is_space c) x, s) \<in> measure length" by simp
qed simp

declare line_fields.simps [simp del]

text \<open>\<open>std::getline\<close> until the end of the file.\<close>

function file_lines :: "string \<Rightarrow> string list" where
  "file_lines s =
     (if s = [] then []
      else takeWhile (\<lambda>c. c \<noteq> CHR ''\<newline>'') s # file_lines (drop 1 (dropWhile (\<lambda>c. c \<noteq> CHR ''\<newline>'') s)))"
  by pat_completeness auto
termination
proof (relation "measure length")
  fix s :: string
  assume "s \<noteq> []"
  then show "(drop 1 (dropWhile (\<lambda>c. c \<noteq> CHR ''\<newline>'') s), s) \<in> measure length"
    using length_dropWhile_le[of "\<lambda>c. c \<noteq> CHR ''\<newline>''" s] by (cases s) (auto simp: le_imp_less_Suc le_diff_conv)
qed simp

declare file_lines.simps [simp del]

text \<open>One line: the members, the raft addresses and the client addresses read so far.\<close>

type_synonym config_state = "ClusterMember list \<times> string set \<times> string set"

definition config_line :: "config_state \<Rightarrow> string \<Rightarrow> config_state res" where
  "config_line st line =
     (case st of (cluster, raft_addresses, client_addresses) \<Rightarrow>
       (case line_fields (strip_comment line) of
         [] \<Rightarrow> Inr st
       | [raft_text, client_text] \<Rightarrow>
           (case from_string raft_text of Inl _ \<Rightarrow> Inl Runtime_error
            | Inr r \<Rightarrow>
                (case from_string client_text of Inl _ \<Rightarrow> Inl Runtime_error
                 | Inr d \<Rightarrow>
                     if raft_text \<in> raft_addresses then Inl Runtime_error
                     else if client_text \<in> client_addresses then Inl Runtime_error
                     else Inr (cluster @ [\<lparr>raft_addr = r, database_server = d\<rparr>],
                               insert raft_text raft_addresses, insert client_text client_addresses)))
       | _ \<Rightarrow> Inl Runtime_error))"

fun config_lines :: "config_state \<Rightarrow> string list \<Rightarrow> config_state res" where
  "config_lines st [] = Inr st"
| "config_lines st (line # lines) = res_bind (config_line st line) (\<lambda>st. config_lines st lines)"

text \<open>The argument is the content of the file, if it can be read.\<close>

definition parse_cluster_config :: "string option \<Rightarrow> ClusterMember list res" where
  "parse_cluster_config file =
     (case file of None \<Rightarrow> Inl Runtime_error
      | Some content \<Rightarrow>
          res_bind (config_lines ([], {}, {}) (file_lines content)) (\<lambda>(cluster, _, _).
            if cluster = [] then Inl Runtime_error else Inr cluster))"

section \<open>Addresses\<close>

lemma decimal_digits: "list_all is_digit (decimal n)" "decimal n \<noteq> []"
proof -
  show "list_all is_digit (decimal n)"
  proof (induction n rule: decimal.induct)
    case (1 n)
    have "is_digit (digit (n mod 10))" "n < 10 \<Longrightarrow> is_digit (digit n)" by (simp_all add: is_digit_def)
    then show ?case using 1 by (subst decimal.simps) simp
  qed
  show "decimal n \<noteq> []" by (subst decimal.simps) simp
qed

lemma decimal_value_snoc: "decimal_value (s @ [c]) = decimal_value s * 10 + (of_char c - 48)"
  by (simp add: decimal_value_def)

lemma decimal_value_decimal: "decimal_value (decimal n) = n"
proof (induction n rule: decimal.induct)
  case (1 n)
  then show ?case
    by (subst decimal.simps) (simp add: decimal_value_snoc, simp add: decimal_value_def)
qed

lemma colon_not_digit: "list_all is_digit s \<Longrightarrow> CHR '':'' \<notin> set s"
  by (induction s) (auto simp: is_digit_def)

lemma rfind_last:
  assumes "c \<notin> set b"
  shows "rfind c (a @ [c] @ b) = Some (length a)"
proof -
  have "takeWhile (\<lambda>x. x \<noteq> c) (rev (a @ [c] @ b)) = rev b"
    using assms by (subst rev_append, subst rev_append, subst append_assoc, subst takeWhile_append2) auto
  then show ?thesis by (simp add: rfind_def)
qed

lemma from_string_colon:
  assumes "h \<noteq> []" "d \<noteq> []" "list_all is_digit d"
  shows "from_string (h @ '':'' @ d) =
    (if decimal_value d \<le> 65535 then Inr \<lparr>host = h, port = of_nat (decimal_value d)\<rparr> else Inl Invalid_argument)"
  using assms rfind_last[OF colon_not_digit[OF assms(3)], of h]
  by (auto simp: from_string_def from_chars_def)

lemma address_read_back: "host a \<noteq> [] \<Longrightarrow> from_string (to_string a) = Inr a"
  using from_string_colon[of "host a" "decimal (unat (port a))", OF _ decimal_digits(2) decimal_digits(1)]
    unat_bound[of "port a"]
  unfolding to_string_def decimal_value_decimal by (cases a) simp

lemma to_string_inject:
  assumes "to_string a = to_string b" "host a \<noteq> []" "host b \<noteq> []"
  shows "a = b"
  using address_read_back[OF assms(2)] address_read_back[OF assms(3)] unfolding assms(1) by simp

lemma from_string_host: "from_string s = Inr a \<Longrightarrow> host a \<noteq> []"
  by (auto simp: from_string_def rfind_def split: option.split_asm if_split_asm)

text \<open>An address with a host is read back from its text, and reading never yields an address without a
  host.  The converse direction, that a text is written back as it was spelled, fails when the port has
  leading zeros.\<close>

theorem address_roundtrip:
  "(\<forall>a. host a \<noteq> [] \<longleftrightarrow> from_string (to_string a) = Inr a)
   \<and> (\<forall>s a. from_string s = Inr a \<longrightarrow> from_string (to_string a) = Inr a)
   \<and> from_string ''h:080'' = Inr \<lparr>host = ''h'', port = 80\<rparr>
   \<and> to_string \<lparr>host = ''h'', port = 80\<rparr> = ''h:80''"
proof (intro conjI allI impI)
  show "host a \<noteq> [] \<longleftrightarrow> from_string (to_string a) = Inr a" for a
    using address_read_back from_string_host by blast
  show "from_string (to_string a) = Inr a" if "from_string s = Inr a" for s a
    by (rule address_read_back[OF from_string_host[OF that]])
  show "from_string ''h:080'' = Inr \<lparr>host = ''h'', port = 80\<rparr>"
    by (simp add: from_string_def rfind_def from_chars_def is_digit_def decimal_value_def)
  show "to_string \<lparr>host = ''h'', port = 80\<rparr> = ''h:80''"
    by code_simp
qed

theorem address_roundtrip_witness:
  "from_string ''h:080'' = Inr \<lparr>host = ''h'', port = 80\<rparr> \<and>
   from_string (to_string \<lparr>host = ''h'', port = 80\<rparr>) = Inr \<lparr>host = ''h'', port = 80\<rparr>"
  using address_roundtrip by blast

section \<open>Configurations\<close>

lemma config_line_members:
  assumes "config_line (c, rs, cs) line = Inr (c', rs', cs')"
    and "\<forall>m \<in> set c. host (raft_addr m) \<noteq> [] \<and> host (database_server m) \<noteq> []"
  shows "\<forall>m \<in> set c'. host (raft_addr m) \<noteq> [] \<and> host (database_server m) \<noteq> []"
  using assms
  by (auto simp: config_line_def from_string_host split: list.split_asm sum.split_asm if_split_asm)

lemma config_lines_members:
  assumes "config_lines (c, rs, cs) ls = Inr (c', rs', cs')"
    and "\<forall>m \<in> set c. host (raft_addr m) \<noteq> [] \<and> host (database_server m) \<noteq> []"
  shows "\<forall>m \<in> set c'. host (raft_addr m) \<noteq> [] \<and> host (database_server m) \<noteq> []"
  using assms
proof (induction ls arbitrary: c rs cs)
  case (Cons l ls)
  obtain c1 rs1 cs1 where one: "config_line (c, rs, cs) l = Inr (c1, rs1, cs1)"
    and rest: "config_lines (c1, rs1, cs1) ls = Inr (c', rs', cs')"
    using Cons.prems(1) by (cases "config_line (c, rs, cs) l") auto
  show ?case by (rule Cons.IH[OF rest config_line_members[OF one Cons.prems(2)]])
qed simp

lemma config_hosts:
  assumes "parse_cluster_config f = Inr c" "m \<in> set c"
  shows "host (raft_addr m) \<noteq> []" "host (database_server m) \<noteq> []" "c \<noteq> []"
proof -
  obtain content rs cs where p: "config_lines ([], {}, {}) (file_lines content) = Inr (c, rs, cs)" and "c \<noteq> []"
    using assms(1) by (auto simp: parse_cluster_config_def split: option.split_asm if_split_asm)
  then show "host (raft_addr m) \<noteq> []" "host (database_server m) \<noteq> []" "c \<noteq> []"
    using config_lines_members[OF p] assms(2) by auto
qed

end
