(* ===== verification/RaftHardState.thy ===== *)
theory RaftHardState
  imports NodeAddress Endian
begin

text \<open>
  The durable term and vote, after \<open>src/src/Raft/RaftHardStateStore.cpp\<close>.  The store keeps the file as it reads
  now (\<open>hs_file\<close>) apart from what a power failure may leave behind (\<open>hs_forced\<close>): renaming the temporary file
  changes the first, synchronising the directory makes the second follow.  The fault of a call is an
  argument.  The lemmas show that the codec is a bijection, that terms never go back and votes never change
  within a term, and what a crash can and cannot lose.
\<close>

record RaftHardState =
  hs_term :: u64
  hs_voted_for :: "string option"

abbreviation no_hard_state :: RaftHardState where
  "no_hard_state \<equiv> \<lparr>hs_term = 0, hs_voted_for = None\<rparr>"

definition TERM_SIZE :: nat where "TERM_SIZE = 8"
definition HAS_VOTE_SIZE :: nat where "HAS_VOTE_SIZE = 1"
definition VOTE_LENGTH_SIZE :: nat where "VOTE_LENGTH_SIZE = 4"
definition HEADER_SIZE :: nat where "HEADER_SIZE = TERM_SIZE + HAS_VOTE_SIZE + VOTE_LENGTH_SIZE"

lemmas hard_state_sizes = TERM_SIZE_def HAS_VOTE_SIZE_def VOTE_LENGTH_SIZE_def HEADER_SIZE_def

text \<open>The characters of a \<open>std::string\<close> as bytes, and back.\<close>

definition string_bytes :: "string \<Rightarrow> bytes" where
  "string_bytes s = map of_char s"

definition bytes_string :: "bytes \<Rightarrow> string" where
  "bytes_string b = map (\<lambda>w. char_of (unat w)) b"

definition decode_state :: "bytes \<Rightarrow> RaftHardState res" where
  "decode_state encoded =
     (if length encoded < HEADER_SIZE then Inl Runtime_error
      else
        let term = get_u64_be encoded 0;
            has_vote = encoded ! TERM_SIZE
        in if has_vote > 1 then Inl Runtime_error
           else
             let vote_length = get_u32_be encoded (TERM_SIZE + HAS_VOTE_SIZE)
             in if length encoded \<noteq> HEADER_SIZE + unat vote_length then Inl Runtime_error
                else if has_vote = 0 \<and> vote_length \<noteq> 0 then Inl Runtime_error
                else if has_vote = 1 \<and> vote_length = 0 then Inl Runtime_error
                else if term = 0 \<and> has_vote = 1 then Inl Runtime_error
                else Inr \<lparr>hs_term = term,
                          hs_voted_for = (if has_vote = 1 then Some (bytes_string (drop HEADER_SIZE encoded)) else None)\<rparr>)"

definition encode_state :: "u64 \<Rightarrow> string option \<Rightarrow> bytes res" where
  "encode_state term voted_for =
     (if term = 0 \<and> voted_for \<noteq> None then Inl Invalid_argument
      else if voted_for = Some [] then Inl Invalid_argument
      else
        let vote_size = (case voted_for of Some v \<Rightarrow> length v | None \<Rightarrow> 0)
        in if vote_size > unat (- 1 :: u32) then Inl Invalid_argument
           else
             let encoded = replicate (HEADER_SIZE + vote_size) 0;
                 encoded = put_u64_be encoded 0 term;
                 encoded = encoded[TERM_SIZE := (if voted_for \<noteq> None then 1 else 0)];
                 encoded = put_u32_be encoded (TERM_SIZE + HAS_VOTE_SIZE) (of_nat vote_size)
             in Inr (case voted_for of Some v \<Rightarrow> write_at encoded HEADER_SIZE (string_bytes v) | None \<Rightarrow> encoded))"

section \<open>The store\<close>

record RaftHardStateStore =
  hs_directory :: string
  hs_state :: RaftHardState
  hs_file :: "bytes option"
  hs_forced :: "bytes option"

datatype persist_fault =
    No_fault
  | Temporary_fails
  | Directory_sync_fails

definition hs_open :: "string \<Rightarrow> RaftHardStateStore \<Rightarrow> unit res \<times> RaftHardStateStore" where
  "hs_open directory st =
     (if directory = [] then (Inl Invalid_argument, st)
      else if hs_directory st \<noteq> [] then (Inl Runtime_error, st)
      else
        case (case hs_file st of None \<Rightarrow> Inr no_hard_state | Some encoded \<Rightarrow> decode_state encoded) of
          Inl e \<Rightarrow> (Inl e, st)
        | Inr loaded \<Rightarrow> (Inr (), st\<lparr>hs_directory := directory, hs_state := loaded\<rparr>))"

definition hs_close :: "RaftHardStateStore \<Rightarrow> RaftHardStateStore" where
  "hs_close st = st\<lparr>hs_directory := [], hs_state := no_hard_state\<rparr>"

definition hs_is_open :: "RaftHardStateStore \<Rightarrow> bool" where
  "hs_is_open st = (hs_directory st \<noteq> [])"

definition hs_load :: "RaftHardStateStore \<Rightarrow> RaftHardState res" where
  "hs_load st = (if hs_directory st = [] then Inl Runtime_error else Inr (hs_state st))"

definition persist :: "persist_fault \<Rightarrow> RaftHardStateStore \<Rightarrow> u64 \<Rightarrow> string option \<Rightarrow> unit res \<times> RaftHardStateStore" where
  "persist fault st term voted_for =
     (if hs_directory st = [] then (Inl Runtime_error, st)
      else if term < hs_term (hs_state st) then (Inl Invalid_argument, st)
      else if term = hs_term (hs_state st) \<and> hs_voted_for (hs_state st) \<noteq> None \<and> hs_voted_for (hs_state st) \<noteq> voted_for
      then (Inl Invalid_argument, st)
      else
        case encode_state term voted_for of
          Inl e \<Rightarrow> (Inl e, st)
        | Inr encoded \<Rightarrow>
            if fault = Temporary_fails then (Inl System_error, st)
            else
              let st = st\<lparr>hs_file := Some encoded, hs_state := \<lparr>hs_term = term, hs_voted_for = voted_for\<rparr>\<rparr>
              in if fault = Directory_sync_fails then (Inl System_error, st)
                 else (Inr (), st\<lparr>hs_forced := Some encoded\<rparr>))"

text \<open>The process ends; then the machine may lose what was not forced.\<close>

definition hs_power_loss :: "bool \<Rightarrow> RaftHardStateStore \<Rightarrow> RaftHardStateStore" where
  "hs_power_loss keep st =
     (let kept = (if keep then hs_file st else hs_forced st)
      in (hs_close st)\<lparr>hs_file := kept, hs_forced := kept\<rparr>)"

section \<open>The codec\<close>

lemma char_byte [simp]: "char_of (unat (of_char c :: u8)) = c"
proof -
  have "(of_char c :: u8) = of_nat (of_char c)" by (simp add: of_nat_of_char)
  then have "unat (of_char c :: u8) = of_char c" by (simp add: unat_of_nat take_bit_nat_eq_self)
  then show ?thesis by simp
qed

lemma byte_char [simp]: "(of_char (char_of (unat (w :: u8)) :: char) :: u8) = w"
proof -
  have "(of_char (char_of (unat w)) :: nat) = unat w"
    using unat_bound[of w] by simp
  then have "(of_nat (of_char (char_of (unat w))) :: u8) = w" by simp
  then show ?thesis by (simp only: of_nat_of_char)
qed

lemma string_bytes_inverse [simp]:
  "bytes_string (string_bytes s) = s" "string_bytes (bytes_string b) = b"
  "length (string_bytes s) = length s" "length (bytes_string b) = length b"
  "bytes_string b = [] \<longleftrightarrow> b = []"
  by (simp_all add: bytes_string_def string_bytes_def comp_def)

definition hard_state_ok :: "u64 \<Rightarrow> string option \<Rightarrow> bool" where
  "hard_state_ok t v = (case v of None \<Rightarrow> True | Some s \<Rightarrow> t \<noteq> 0 \<and> s \<noteq> [] \<and> length s < 2 ^ 32)"

definition hard_state_image :: "u64 \<Rightarrow> string option \<Rightarrow> bytes" where
  "hard_state_image t v =
     be64 t @ [if v = None then 0 else 1] @ be32 (of_nat (case v of None \<Rightarrow> 0 | Some s \<Rightarrow> length s)) @
     (case v of None \<Rightarrow> [] | Some s \<Rightarrow> string_bytes s)"

lemma encode_state_buffer:
  "put_u32_be ((put_u64_be (replicate (13 + n) 0) 0 t)[8 := f]) 9 (of_nat n) = (be64 t @ [f] @ be32 (of_nat n)) @ replicate n 0"
proof -
  have "put_u64_be (replicate (13 + n) 0) 0 t = be64 t @ replicate (5 + n) 0"
    by (simp only: put_be write_first length_be) simp
  moreover have "(be64 t @ replicate (5 + n) 0)[8 := f] = (be64 t @ [f]) @ replicate (4 + n) 0"
    by (simp add: list_update_append numeral_eq_Suc)
  moreover have "put_u32_be ((be64 t @ [f]) @ replicate (4 + n) 0) 9 (of_nat n) = (be64 t @ [f] @ be32 (of_nat n)) @ replicate n 0"
    by (simp only: put_be, subst write_next) simp_all
  ultimately show ?thesis by simp
qed

lemma encode_state_iff:
  "encode_state t v = Inr b \<longleftrightarrow> hard_state_ok t v \<and> b = hard_state_image t v"
proof (cases v)
  case None
  then show ?thesis
    using encode_state_buffer[of 0 t 0]
    by (auto simp: encode_state_def hard_state_sizes hard_state_ok_def hard_state_image_def)
next
  case (Some s)
  have "write_at ((be64 t @ [1] @ be32 (of_nat (length s))) @ replicate (length s) 0) 13 (string_bytes s) = hard_state_image t v"
    by (subst write_next) (simp_all add: hard_state_image_def Some)
  then show ?thesis unfolding Some
    using encode_state_buffer[of "length s" t 1]
    by (auto simp: encode_state_def hard_state_sizes hard_state_ok_def unsigned_minus_1_eq_mask mask_eq_exp_minus_1 Let_def
        split: if_split_asm)
qed

lemma image_split:
  assumes "13 \<le> length b"
  shows "b = be64 (get_u64_be b 0) @ [b ! 8] @ be32 (get_u32_be b 9) @ drop 13 b"
proof -
  have "drop 9 b = take 4 (drop 9 b) @ drop 13 b" using append_take_drop_id[of 4 "drop 9 b", symmetric] by simp
  moreover have "drop 8 b = take 1 (drop 8 b) @ drop 9 b" using append_take_drop_id[of 1 "drop 8 b", symmetric] by simp
  ultimately have "b = take 8 b @ take 1 (drop 8 b) @ take 4 (drop 9 b) @ drop 13 b"
    using append_take_drop_id[of 8 b, symmetric] by metis
  moreover have "take 1 (drop 8 b) = [b ! 8]" using assms by (simp add: take_Suc hd_drop_conv_nth)
  ultimately show ?thesis using be64_get_slice[of 0 b] be32_get_slice[of 9 b] assms by simp
qed

lemma decode_state_image:
  assumes "hard_state_ok t v"
  shows "decode_state (hard_state_image t v) = Inr \<lparr>hs_term = t, hs_voted_for = v\<rparr>"
proof -
  let ?b = "hard_state_image t v" let ?s = "case v of None \<Rightarrow> [] | Some s \<Rightarrow> s"
  have b: "?b = be64 t @ [if v = None then 0 else 1] @ be32 (of_nat (length ?s)) @ string_bytes ?s"
    by (cases v) (simp_all add: hard_state_image_def string_bytes_def)
  have "get_u64_be ?b 0 = t" unfolding b using get_be(3)[of 0 "[]"] by simp
  moreover have "?b ! 8 = (if v = None then 0 else 1)" unfolding b by (simp add: nth_append)
  moreover have "get_u32_be ?b 9 = of_nat (length ?s)"
    unfolding b using get_be(2)[of 9 "be64 t @ [if v = None then 0 else 1]"] by simp
  moreover have "drop 13 ?b = string_bytes ?s" "length ?b = 13 + length ?s" unfolding b by simp_all
  moreover have l: "length ?s < 2 ^ 32" using assms by (simp add: hard_state_ok_def split: option.splits)
  moreover have u: "unat (of_nat (length ?s) :: u32) = length ?s" using l by (simp add: unat_of_nat_lt)
  moreover have "(of_nat (length ?s) :: u32) = 0 \<longleftrightarrow> ?s = []"
    using arg_cong[of "of_nat (length ?s) :: u32" 0 unat] unfolding u by auto
  ultimately show ?thesis
    using assms by (cases v) (simp_all add: decode_state_def hard_state_sizes hard_state_ok_def)
qed

lemma decode_state_iff:
  "decode_state b = Inr h \<longleftrightarrow> hard_state_ok (hs_term h) (hs_voted_for h) \<and> b = hard_state_image (hs_term h) (hs_voted_for h)"
proof
  assume d: "decode_state b = Inr h"
  let ?v = "b ! 8" let ?n = "get_u32_be b 9"
  have len: "length b = 13 + unat ?n" "?v \<le> 1" "?v = 0 \<Longrightarrow> ?n = 0" "?v = 1 \<Longrightarrow> ?n \<noteq> 0 \<and> get_u64_be b 0 \<noteq> 0"
    "h = \<lparr>hs_term = get_u64_be b 0, hs_voted_for = (if ?v = 1 then Some (bytes_string (drop 13 b)) else None)\<rparr>"
    using d by (auto simp: decode_state_def hard_state_sizes Let_def split: if_split_asm)
  have "?v = 0 \<or> ?v = 1" using len(2) by (metis antisym_conv2 word_less_1)
  moreover have "of_nat (length (drop 13 b)) = ?n" "length (drop 13 b) < 2 ^ 32" using len(1) unat_bound[of ?n] by simp_all
  moreover have "?n \<noteq> 0 \<Longrightarrow> drop 13 b \<noteq> []" using len(1) by (simp add: unsigned_eq_0_iff)
  ultimately show "hard_state_ok (hs_term h) (hs_voted_for h) \<and> b = hard_state_image (hs_term h) (hs_voted_for h)"
    using image_split[of b] len by (auto simp: hard_state_ok_def hard_state_image_def)
next
  assume "hard_state_ok (hs_term h) (hs_voted_for h) \<and> b = hard_state_image (hs_term h) (hs_voted_for h)"
  then show "decode_state b = Inr h" using decode_state_image by simp
qed

section \<open>Persisting\<close>

text \<open>What the store holds in memory is in the file, and what the forced copy holds is not newer.\<close>

definition hard_state_older :: "RaftHardState \<Rightarrow> RaftHardState \<Rightarrow> bool" where
  "hard_state_older h k =
     (hs_term h < hs_term k \<or> hs_term h = hs_term k \<and> (hs_voted_for h = None \<or> hs_voted_for h = hs_voted_for k))"

definition file_state :: "bytes option \<Rightarrow> RaftHardState res" where
  "file_state f = (case f of None \<Rightarrow> Inr no_hard_state | Some b \<Rightarrow> decode_state b)"

definition store_ok :: "RaftHardStateStore \<Rightarrow> bool" where
  "store_ok st =
     (hs_is_open st \<and> file_state (hs_file st) = Inr (hs_state st) \<and>
      (\<exists>h. file_state (hs_forced st) = Inr h \<and> hard_state_older h (hs_state st)))"

lemma hard_state_older_refl [simp]: "hard_state_older h h"
  by (simp add: hard_state_older_def)

lemma hard_state_older_trans: "hard_state_older h k \<Longrightarrow> hard_state_older k l \<Longrightarrow> hard_state_older h l"
  by (auto simp: hard_state_older_def)

lemma persist_ok:
  assumes "persist fault st t v = (Inr (), st')"
  shows "hs_state st' = \<lparr>hs_term = t, hs_voted_for = v\<rparr>" "file_state (hs_forced st') = Inr (hs_state st')"
    "file_state (hs_file st') = Inr (hs_state st')" "hs_directory st' = hs_directory st"
  using assms decode_state_image
  by (auto simp: persist_def file_state_def Let_def encode_state_iff split: if_split_asm sum.split_asm)

text \<open>Whatever the fault, the store stays well formed and its state only moves forward.\<close>

lemma persist_keeps:
  assumes "persist fault st t v = (r, st')" "store_ok st"
  shows "store_ok st'" "hard_state_older (hs_state st) (hs_state st')" "hs_directory st' = hs_directory st"
    "st' = st \<or> hs_state st' = \<lparr>hs_term = t, hs_voted_for = v\<rparr>"
proof -
  obtain h where h: "file_state (hs_forced st) = Inr h" "hard_state_older h (hs_state st)"
    using assms(2) by (auto simp: store_ok_def)
  let ?new = "\<lparr>hs_term = t, hs_voted_for = v\<rparr>"
  consider "st' = st" | e where "encode_state t v = Inr e" "hard_state_older (hs_state st) ?new"
    "st' = st\<lparr>hs_file := Some e, hs_state := ?new\<rparr> \<or> st' = st\<lparr>hs_file := Some e, hs_state := ?new, hs_forced := Some e\<rparr>"
    using assms(1) less_linear[of t "hs_term (hs_state st)"]
    by (auto simp: persist_def hard_state_older_def Let_def split: if_split_asm sum.split_asm)
  then have "store_ok st' \<and> hard_state_older (hs_state st) (hs_state st') \<and> hs_directory st' = hs_directory st \<and>
    (st' = st \<or> hs_state st' = ?new)"
  proof cases
    case 2
    then have d: "decode_state e = Inr ?new" using decode_state_image by (simp add: encode_state_iff)
    have "hard_state_older h ?new" using hard_state_older_trans[OF h(2) 2(2)] .
    then show ?thesis using 2(2,3) d h(1) assms(2) by (auto simp: store_ok_def file_state_def hs_is_open_def)
  qed (use assms(2) in simp)
  then show "store_ok st'" "hard_state_older (hs_state st) (hs_state st')" "hs_directory st' = hs_directory st"
    "st' = st \<or> hs_state st' = ?new" by blast+
qed

lemma reopen_after_loss:
  assumes "store_ok st" "dir \<noteq> []"
  obtains st' where "hs_open dir (hs_power_loss keep st) = (Inr (), st')" "store_ok st'"
    "hard_state_older (hs_state st') (hs_state st)" "file_state (hs_forced st') = Inr (hs_state st')"
    "\<And>h. file_state (hs_forced st) = Inr h \<Longrightarrow> hard_state_older h (hs_state st')"
proof -
  let ?f = "if keep then hs_file st else hs_forced st"
  obtain h where h: "file_state (hs_forced st) = Inr h" "hard_state_older h (hs_state st)"
    using assms(1) by (auto simp: store_ok_def)
  obtain k where k: "file_state ?f = Inr k" "hard_state_older k (hs_state st)" "hard_state_older h k"
    using assms(1) h by (cases keep) (auto simp: store_ok_def)
  let ?st = "\<lparr>hs_directory = dir, hs_state = k, hs_file = ?f, hs_forced = ?f\<rparr>"
  have "hs_open dir (hs_power_loss keep st) = (Inr (), ?st)"
    using k(1) assms(2) by (simp add: hs_open_def hs_power_loss_def hs_close_def file_state_def Let_def split: option.splits)
  then show thesis using k h assms(2) by (rule_tac that[of ?st]) (auto simp: store_ok_def hs_is_open_def)
qed

end
