(* ===== verification/RaftState.thy ===== *)
theory RaftState
  imports RaftHardState
begin

text \<open>
  The in-memory Raft state, after \<open>src/src/Raft/RaftState.cpp\<close> and \<open>src/include/Raft/RaftState.h\<close>.  The object is
  always used under its mutex, so every method is one atomic step; a method that throws leaves the state it
  had reached.  Time and the random draw of the election timer are arguments, as is the fault of a call to
  the hard-state store.  Condition variables only wake threads and have no state here.
\<close>

datatype State = Leader | Follower | Candidate

record RaftState =
  rs_store :: RaftHardStateStore
  rs_state :: State
  rs_current_term :: u64
  rs_voted_for :: "NodeAddress option"
  rs_leader_raft_address :: "NodeAddress option"
  rs_self_raft_address :: NodeAddress
  rs_peers :: "NodeAddress list"
  rs_cluster_nodes :: "(NodeAddress \<times> NodeAddress) list"
  rs_cluster_size :: nat
  rs_send_next :: "NodeAddress \<rightharpoonup> u64"
  rs_replicated_index :: "NodeAddress \<rightharpoonup> u64"
  rs_votes :: "NodeAddress list"
  rs_commit_index :: u64
  rs_last_applied :: u64
  rs_election_deadline :: nat
  rs_shutting_down :: bool

text \<open>The clock in milliseconds and the value the engine draws for the distribution.\<close>

type_synonym timer = "nat \<times> nat"

definition ELECTION_TIMEOUT_MIN :: nat where "ELECTION_TIMEOUT_MIN = 150"
definition ELECTION_TIMEOUT_MAX :: nat where "ELECTION_TIMEOUT_MAX = 300"

definition timer_ok :: "timer \<Rightarrow> bool" where
  "timer_ok tm = (ELECTION_TIMEOUT_MIN \<le> snd tm \<and> snd tm \<le> ELECTION_TIMEOUT_MAX)"

definition reset_election_timer :: "timer \<Rightarrow> RaftState \<Rightarrow> RaftState" where
  "reset_election_timer tm rs = rs\<lparr>rs_election_deadline := fst tm + snd tm\<rparr>"

text \<open>The loop of the constructor over the rows of the configuration: this node's address, the peers and the
  address map so far.\<close>

fun place_members ::
  "NodeAddress \<Rightarrow> ClusterMember list \<Rightarrow> NodeAddress option \<times> NodeAddress list \<times> (NodeAddress \<times> NodeAddress) list \<Rightarrow>
   NodeAddress option \<times> NodeAddress list \<times> (NodeAddress \<times> NodeAddress) list" where
  "place_members self_client [] acc = acc"
| "place_members self_client (m # ms) (self, peers, nodes) =
     (if raft_addr m \<in> fst ` set nodes then place_members self_client ms (self, peers, nodes)
      else
        let nodes' = nodes @ [(raft_addr m, database_server m)]
        in if database_server m = self_client then place_members self_client ms (Some (raft_addr m), peers, nodes')
           else place_members self_client ms (self, peers @ [raft_addr m], nodes'))"

text \<open>The vote read from the store.\<close>

definition loaded_vote :: "RaftHardState \<Rightarrow> NodeAddress option res" where
  "loaded_vote hs =
     (case hs_voted_for hs of None \<Rightarrow> Inr None | Some v \<Rightarrow> res_bind (from_string v) (\<lambda>a. Inr (Some a)))"

definition new_RaftState ::
  "ClusterMember list \<Rightarrow> NodeAddress \<Rightarrow> RaftHardStateStore \<Rightarrow> u64 \<Rightarrow> timer \<Rightarrow> RaftState res" where
  "new_RaftState cluster self_client store last_applied tm =
     (case place_members self_client cluster (None, [], []) of
        (None, _, _) \<Rightarrow> Inl Invalid_argument
      | (Some self, peers, nodes) \<Rightarrow>
          res_bind (hs_load store) (\<lambda>hs.
          res_bind (loaded_vote hs) (\<lambda>voted.
            Inr (reset_election_timer tm
              \<lparr>rs_store = store, rs_state = Follower, rs_current_term = hs_term hs, rs_voted_for = voted,
               rs_leader_raft_address = None, rs_self_raft_address = self, rs_peers = peers,
               rs_cluster_nodes = nodes, rs_cluster_size = length nodes, rs_send_next = Map.empty,
               rs_replicated_index = Map.empty, rs_votes = [], rs_commit_index = last_applied,
               rs_last_applied = last_applied, rs_election_deadline = 0, rs_shutting_down = False\<rparr>))))"

definition advance_term ::
  "persist_fault \<Rightarrow> RaftState \<Rightarrow> u64 \<Rightarrow> NodeAddress option \<Rightarrow> unit res \<times> RaftState" where
  "advance_term fault rs new_term new_vote =
     (if new_term \<le> rs_current_term rs then (Inl Invalid_argument, rs)
      else
        case persist fault (rs_store rs) new_term (map_option to_string new_vote) of
          (Inl e, st) \<Rightarrow> (Inl e, rs\<lparr>rs_store := st\<rparr>)
        | (Inr _, st) \<Rightarrow>
            (Inr (), rs\<lparr>rs_store := st, rs_voted_for := new_vote, rs_votes := [],
                       rs_leader_raft_address := None, rs_current_term := new_term\<rparr>))"

definition grant_vote ::
  "persist_fault \<Rightarrow> RaftState \<Rightarrow> NodeAddress \<Rightarrow> u64 \<Rightarrow> u64 \<Rightarrow> u64 \<Rightarrow> u64 \<Rightarrow> bool res \<times> RaftState" where
  "grant_vote fault rs candidate candidate_last_log_index candidate_last_log_term own_last_log_index own_last_log_term =
     (if rs_voted_for rs \<noteq> None \<and> rs_voted_for rs \<noteq> Some candidate then (Inr False, rs)
      else
        let up_to_date = (candidate_last_log_term > own_last_log_term \<or>
              candidate_last_log_term = own_last_log_term \<and> candidate_last_log_index \<ge> own_last_log_index)
        in if \<not> up_to_date then (Inr False, rs)
           else if rs_voted_for rs \<noteq> Some candidate then
             case persist fault (rs_store rs) (rs_current_term rs) (Some (to_string candidate)) of
               (Inl e, st) \<Rightarrow> (Inl e, rs\<lparr>rs_store := st\<rparr>)
             | (Inr _, st) \<Rightarrow> (Inr True, rs\<lparr>rs_store := st, rs_voted_for := Some candidate\<rparr>)
           else (Inr True, rs))"

definition become_candidate :: "persist_fault \<Rightarrow> timer \<Rightarrow> RaftState \<Rightarrow> unit res \<times> RaftState" where
  "become_candidate fault tm rs =
     (case advance_term fault rs (rs_current_term rs + 1) (Some (rs_self_raft_address rs)) of
        (Inl e, rs) \<Rightarrow> (Inl e, rs)
      | (Inr _, rs) \<Rightarrow> (Inr (), reset_election_timer tm (rs\<lparr>rs_state := Candidate\<rparr>)))"

text \<open>\<open>emplace\<close> keeps an entry that is already there.\<close>

definition emplace :: "'k \<Rightarrow> 'v \<Rightarrow> ('k \<rightharpoonup> 'v) \<Rightarrow> 'k \<rightharpoonup> 'v" where
  "emplace k v m = (if m k = None then m(k \<mapsto> v) else m)"

definition become_leader :: "RaftState \<Rightarrow> u64 \<Rightarrow> RaftState" where
  "become_leader rs last_log_index =
     rs\<lparr>rs_send_next := fold (\<lambda>peer. emplace peer (last_log_index + 1)) (rs_peers rs) Map.empty,
        rs_replicated_index := fold (\<lambda>peer. emplace peer 0) (rs_peers rs) Map.empty,
        rs_leader_raft_address := Some (rs_self_raft_address rs),
        rs_state := Leader\<rparr>"

definition become_follower ::
  "persist_fault \<Rightarrow> timer \<Rightarrow> RaftState \<Rightarrow> u64 \<Rightarrow> NodeAddress option \<Rightarrow> unit res \<times> RaftState" where
  "become_follower fault tm rs new_term leader =
     (case (if new_term > rs_current_term rs then advance_term fault rs new_term None else (Inr (), rs)) of
        (Inl e, rs) \<Rightarrow> (Inl e, rs)
      | (Inr _, rs) \<Rightarrow>
          (Inr (), reset_election_timer tm (rs\<lparr>rs_leader_raft_address := leader, rs_state := Follower\<rparr>)))"

definition leader_client_address :: "RaftState \<Rightarrow> NodeAddress option res" where
  "leader_client_address rs =
     (case rs_leader_raft_address rs of
        None \<Rightarrow> Inr None
      | Some l \<Rightarrow> (case map_of (rs_cluster_nodes rs) l of None \<Rightarrow> Inl Out_of_range | Some a \<Rightarrow> Inr (Some a)))"

definition is_peer :: "RaftState \<Rightarrow> NodeAddress \<Rightarrow> bool" where
  "is_peer rs address = (address \<noteq> rs_self_raft_address rs \<and> map_of (rs_cluster_nodes rs) address \<noteq> None)"

definition map_at :: "('k \<rightharpoonup> 'v) \<Rightarrow> 'k \<Rightarrow> 'v res" where
  "map_at m k = (case m k of None \<Rightarrow> Inl Out_of_range | Some v \<Rightarrow> Inr v)"

definition send_next :: "RaftState \<Rightarrow> NodeAddress \<Rightarrow> u64 res" where
  "send_next rs peer = map_at (rs_send_next rs) peer"

definition replicated_index :: "RaftState \<Rightarrow> NodeAddress \<Rightarrow> u64 res" where
  "replicated_index rs peer = map_at (rs_replicated_index rs) peer"

definition set_leader_raft_address :: "RaftState \<Rightarrow> NodeAddress \<Rightarrow> RaftState" where
  "set_leader_raft_address rs leader = rs\<lparr>rs_leader_raft_address := Some leader\<rparr>"

definition set_send_next :: "RaftState \<Rightarrow> NodeAddress \<Rightarrow> u64 \<Rightarrow> RaftState res" where
  "set_send_next rs peer index =
     res_bind (map_at (rs_send_next rs) peer) (\<lambda>_. Inr (rs\<lparr>rs_send_next := (rs_send_next rs)(peer \<mapsto> index)\<rparr>))"

definition set_replicated_index :: "RaftState \<Rightarrow> NodeAddress \<Rightarrow> u64 \<Rightarrow> RaftState res" where
  "set_replicated_index rs peer index =
     res_bind (map_at (rs_replicated_index rs) peer) (\<lambda>_. Inr (rs\<lparr>rs_replicated_index := (rs_replicated_index rs)(peer \<mapsto> index)\<rparr>))"

text \<open>The two assertions are \<open>None\<close> when they fail.\<close>

definition set_commit_index :: "RaftState \<Rightarrow> u64 \<Rightarrow> RaftState option" where
  "set_commit_index rs index = (if index \<ge> rs_commit_index rs then Some (rs\<lparr>rs_commit_index := index\<rparr>) else None)"

definition set_last_applied :: "RaftState \<Rightarrow> u64 \<Rightarrow> RaftState option" where
  "set_last_applied rs index =
     (if index \<ge> rs_last_applied rs \<and> index \<le> rs_commit_index rs then Some (rs\<lparr>rs_last_applied := index\<rparr>) else None)"

definition record_vote :: "RaftState \<Rightarrow> NodeAddress \<Rightarrow> bool \<times> RaftState" where
  "record_vote rs peer =
     (let rs = rs\<lparr>rs_votes := List.insert peer (rs_votes rs)\<rparr>
      in (length (rs_votes rs) + 1 \<ge> rs_cluster_size rs div 2 + 1, rs))"

section \<open>What the transitions keep\<close>

text \<open>The term and vote in memory, as the store would write them.\<close>

definition mem_state :: "RaftState \<Rightarrow> RaftHardState" where
  "mem_state rs = \<lparr>hs_term = rs_current_term rs, hs_voted_for = map_option to_string (rs_voted_for rs)\<rparr>"

definition canonical :: "RaftHardState \<Rightarrow> bool" where
  "canonical h = (\<forall>v. hs_voted_for h = Some v \<longrightarrow> (\<exists>a. host a \<noteq> [] \<and> v = to_string a))"

text \<open>The term and vote in memory are exactly what is forced to disk.\<close>

definition rs_durable :: "RaftState \<Rightarrow> bool" where
  "rs_durable rs =
     (store_ok (rs_store rs) \<and> file_state (hs_forced (rs_store rs)) = Inr (mem_state rs) \<and>
      canonical (hs_state (rs_store rs)) \<and> canonical (mem_state rs))"

definition same_config :: "RaftState \<Rightarrow> RaftState \<Rightarrow> bool" where
  "same_config rs rs' =
     (rs_self_raft_address rs' = rs_self_raft_address rs \<and> rs_peers rs' = rs_peers rs \<and>
      rs_cluster_nodes rs' = rs_cluster_nodes rs \<and> rs_cluster_size rs' = rs_cluster_size rs)"

text \<open>No step towards leadership: the node follows, or its role, term and votes are as before.\<close>

definition steady :: "RaftState \<Rightarrow> RaftState \<Rightarrow> bool" where
  "steady rs rs' =
     (rs_state rs' = Follower \<or>
      rs_state rs' = rs_state rs \<and> rs_current_term rs' = rs_current_term rs \<and> rs_votes rs' = rs_votes rs)"

lemma same_config_refl [simp]: "same_config rs rs"
  by (simp add: same_config_def)

lemma same_config_trans: "same_config rs rs1 \<Longrightarrow> same_config rs1 rs2 \<Longrightarrow> same_config rs rs2"
  by (simp add: same_config_def)

lemma steady_refl [simp]: "steady rs rs"
  by (simp add: steady_def)

lemma steady_trans: "steady rs rs1 \<Longrightarrow> steady rs1 rs2 \<Longrightarrow> steady rs rs2"
  by (auto simp: steady_def)

lemma reset_election_timer_simps [simp]:
  "rs_durable (reset_election_timer tm rs) = rs_durable rs" "mem_state (reset_election_timer tm rs) = mem_state rs"
  "same_config rs' (reset_election_timer tm rs) = same_config rs' rs" "steady rs' (reset_election_timer tm rs) = steady rs' rs"
  "rs_state (reset_election_timer tm rs) = rs_state rs" "rs_current_term (reset_election_timer tm rs) = rs_current_term rs"
  "rs_voted_for (reset_election_timer tm rs) = rs_voted_for rs" "rs_votes (reset_election_timer tm rs) = rs_votes rs"
  "rs_store (reset_election_timer tm rs) = rs_store rs" "rs_commit_index (reset_election_timer tm rs) = rs_commit_index rs"
  by (simp_all add: reset_election_timer_def rs_durable_def mem_state_def same_config_def steady_def)

text \<open>A failed call of the store changes nothing that is forced.\<close>

lemma failed_persist:
  assumes "persist fault st t v = (Inl e, st')"
  shows "hs_forced st' = hs_forced st"
  using assms by (auto simp: persist_def Let_def split: if_split_asm sum.split_asm)

lemma canonical_vote:
  "\<forall>c. v = Some c \<longrightarrow> host c \<noteq> [] \<Longrightarrow> canonical \<lparr>hs_term = t, hs_voted_for = map_option to_string v\<rparr>"
  by (auto simp: canonical_def)

lemma durable_failed:
  assumes "rs_durable rs" "persist fault (rs_store rs) t (map_option to_string v) = (Inl e, st)" "\<forall>c. v = Some c \<longrightarrow> host c \<noteq> []"
  shows "rs_durable (rs\<lparr>rs_store := st\<rparr>)"
  using assms(1) persist_keeps[OF assms(2)] failed_persist[OF assms(2)] canonical_vote[OF assms(3), of t]
  by (auto simp: rs_durable_def mem_state_def)

lemma durable_persisted:
  assumes "rs_durable rs" "persist fault (rs_store rs) t (map_option to_string v) = (Inr (), st)" "\<forall>c. v = Some c \<longrightarrow> host c \<noteq> []"
    and "rs_store rs' = st" "mem_state rs' = \<lparr>hs_term = t, hs_voted_for = map_option to_string v\<rparr>"
  shows "rs_durable rs'"
  using assms(1,4,5) persist_keeps[OF assms(2)] persist_ok[OF assms(2)] canonical_vote[OF assms(3), of t]
  by (auto simp: rs_durable_def)

lemma advance_term_ok:
  assumes "advance_term fault rs t v = (r, rs')" "rs_durable rs" "\<forall>c. v = Some c \<longrightarrow> host c \<noteq> []"
  shows "rs_durable rs'" "same_config rs rs'"
    "case r of Inl _ \<Rightarrow> rs_state rs' = rs_state rs \<and> mem_state rs' = mem_state rs \<and> rs_votes rs' = rs_votes rs \<and>
        rs_commit_index rs' = rs_commit_index rs
     | Inr _ \<Rightarrow> t > rs_current_term rs \<and> rs_state rs' = rs_state rs \<and> rs_current_term rs' = t \<and> rs_voted_for rs' = v \<and>
        rs_votes rs' = [] \<and> rs_commit_index rs' = rs_commit_index rs"
proof -
  let ?p = "persist fault (rs_store rs) t (map_option to_string v)"
  obtain q st where p: "?p = (q, st)" by fastforce
  consider e where "r = Inl e" "rs' = rs"
    | e st where "?p = (Inl e, st)" "r = Inl e" "rs' = rs\<lparr>rs_store := st\<rparr>"
    | st where "?p = (Inr (), st)" "r = Inr ()" "t > rs_current_term rs"
        "rs' = rs\<lparr>rs_store := st, rs_voted_for := v, rs_votes := [], rs_leader_raft_address := None, rs_current_term := t\<rparr>"
    using assms(1) p by (cases q; cases "t \<le> rs_current_term rs") (auto simp: advance_term_def)
  then have "rs_durable rs' \<and> same_config rs rs' \<and>
    (case r of Inl _ \<Rightarrow> rs_state rs' = rs_state rs \<and> mem_state rs' = mem_state rs \<and> rs_votes rs' = rs_votes rs \<and>
        rs_commit_index rs' = rs_commit_index rs
     | Inr _ \<Rightarrow> t > rs_current_term rs \<and> rs_state rs' = rs_state rs \<and> rs_current_term rs' = t \<and> rs_voted_for rs' = v \<and>
        rs_votes rs' = [] \<and> rs_commit_index rs' = rs_commit_index rs)"
  proof cases
    case 2
    then show ?thesis using durable_failed[OF assms(2) 2(1) assms(3)] by (simp add: same_config_def mem_state_def)
  next
    case 3
    have "rs_durable rs'" by (rule durable_persisted[OF assms(2) 3(1) assms(3)]) (simp_all add: 3(4) mem_state_def)
    then show ?thesis using 3(2-) by (simp add: same_config_def)
  qed (use assms(2) in simp)
  then show "rs_durable rs'" "same_config rs rs'"
    "case r of Inl _ \<Rightarrow> rs_state rs' = rs_state rs \<and> mem_state rs' = mem_state rs \<and> rs_votes rs' = rs_votes rs \<and>
        rs_commit_index rs' = rs_commit_index rs
     | Inr _ \<Rightarrow> t > rs_current_term rs \<and> rs_state rs' = rs_state rs \<and> rs_current_term rs' = t \<and> rs_voted_for rs' = v \<and>
        rs_votes rs' = [] \<and> rs_commit_index rs' = rs_commit_index rs"
    by blast+
qed

lemma become_follower_ok:
  assumes "become_follower fault tm rs t l = (r, rs')" "rs_durable rs"
  shows "rs_durable rs'" "same_config rs rs'" "steady rs rs'" "hard_state_older (mem_state rs) (mem_state rs')"
    "r = Inr () \<Longrightarrow> rs_state rs' = Follower \<and> rs_current_term rs' = max t (rs_current_term rs)"
    "rs_commit_index rs' = rs_commit_index rs"
proof -
  obtain q rs1 where a: "(if t > rs_current_term rs then advance_term fault rs t None else (Inr (), rs)) = (q, rs1)"
    by fastforce
  have d: "rs_durable rs1" "same_config rs rs1"
    using a advance_term_ok[of fault rs t None q rs1] assms(2) by (auto split: if_split_asm)
  have m: "case q of Inl _ \<Rightarrow> rs_state rs1 = rs_state rs \<and> mem_state rs1 = mem_state rs \<and> rs_votes rs1 = rs_votes rs \<and>
        rs_commit_index rs1 = rs_commit_index rs
     | Inr _ \<Rightarrow> hard_state_older (mem_state rs) (mem_state rs1) \<and> rs_current_term rs1 = max t (rs_current_term rs) \<and>
        rs_commit_index rs1 = rs_commit_index rs"
    using a advance_term_ok(3)[of fault rs t None q rs1] assms(2)
    by (auto simp: hard_state_older_def mem_state_def max_def not_less split: if_split_asm sum.splits)
  have r: "r = q" and rs': "rs' = (case q of Inl _ \<Rightarrow> rs1
      | Inr _ \<Rightarrow> reset_election_timer tm (rs1\<lparr>rs_leader_raft_address := l, rs_state := Follower\<rparr>))"
    using assms(1) a by (auto simp: become_follower_def split: sum.split_asm)
  have f: "rs_durable (rs1\<lparr>rs_leader_raft_address := l, rs_state := Follower\<rparr>)"
    "mem_state (rs1\<lparr>rs_leader_raft_address := l, rs_state := Follower\<rparr>) = mem_state rs1"
    "same_config rs (rs1\<lparr>rs_leader_raft_address := l, rs_state := Follower\<rparr>)"
    using d by (simp_all add: rs_durable_def mem_state_def same_config_def)
  show "rs_durable rs'" "same_config rs rs'" "steady rs rs'" "hard_state_older (mem_state rs) (mem_state rs')"
    "r = Inr () \<Longrightarrow> rs_state rs' = Follower \<and> rs_current_term rs' = max t (rs_current_term rs)"
    "rs_commit_index rs' = rs_commit_index rs"
    using d f m r rs' by (auto simp: steady_def mem_state_def split: sum.splits)
qed

lemma grant_vote_ok:
  assumes "grant_vote fault rs c li lt oi ot = (r, rs')" "rs_durable rs" "host c \<noteq> []"
  shows "rs_durable rs'" "same_config rs rs'" "steady rs rs'" "hard_state_older (mem_state rs) (mem_state rs')"
    "rs_current_term rs' = rs_current_term rs" "r = Inr True \<Longrightarrow> rs_voted_for rs' = Some c"
proof -
  let ?p = "persist fault (rs_store rs) (rs_current_term rs) (map_option to_string (Some c))"
  obtain q st where p: "?p = (q, st)" by fastforce
  consider "rs' = rs" "r \<noteq> Inr True \<or> rs_voted_for rs = Some c"
    | e st where "?p = (Inl e, st)" "r = Inl e" "rs' = rs\<lparr>rs_store := st\<rparr>"
    | st where "?p = (Inr (), st)" "rs_voted_for rs = None" "rs' = rs\<lparr>rs_store := st, rs_voted_for := Some c\<rparr>"
    using assms(1) p by (cases "rs_voted_for rs"; cases q) (auto simp: grant_vote_def Let_def split: if_split_asm)
  then have "rs_durable rs' \<and> same_config rs rs' \<and> steady rs rs' \<and> hard_state_older (mem_state rs) (mem_state rs') \<and>
    rs_current_term rs' = rs_current_term rs \<and> (r = Inr True \<longrightarrow> rs_voted_for rs' = Some c)"
  proof cases
    case 2
    then show ?thesis
      using durable_failed[OF assms(2) 2(1)] assms(3) by (simp add: same_config_def steady_def mem_state_def hard_state_older_def)
  next
    case 3
    have "rs_durable rs'" by (rule durable_persisted[OF assms(2) 3(1)]) (use assms(3) in \<open>simp_all add: 3(3) mem_state_def\<close>)
    then show ?thesis using 3 by (simp add: same_config_def steady_def mem_state_def hard_state_older_def)
  qed (use assms(2) in auto)
  then show "rs_durable rs'" "same_config rs rs'" "steady rs rs'" "hard_state_older (mem_state rs) (mem_state rs')"
    "rs_current_term rs' = rs_current_term rs" "r = Inr True \<Longrightarrow> rs_voted_for rs' = Some c" by blast+
qed

lemma become_candidate_ok:
  assumes "become_candidate fault tm rs = (r, rs')" "rs_durable rs" "host (rs_self_raft_address rs) \<noteq> []"
  shows "rs_durable rs'" "same_config rs rs'"
    "case r of Inl _ \<Rightarrow> steady rs rs' \<and> mem_state rs' = mem_state rs
     | Inr _ \<Rightarrow> rs_current_term rs < rs_current_term rs' \<and> rs_voted_for rs' = Some (rs_self_raft_address rs) \<and>
         rs_votes rs' = [] \<and> rs_state rs' = Candidate"
proof -
  obtain q rs1 where a: "advance_term fault rs (rs_current_term rs + 1) (Some (rs_self_raft_address rs)) = (q, rs1)" by fastforce
  note k = advance_term_ok[OF a assms(2)]
  have "r = q" "rs' = (case q of Inl _ \<Rightarrow> rs1 | Inr _ \<Rightarrow> reset_election_timer tm (rs1\<lparr>rs_state := Candidate\<rparr>))"
    using assms(1) a by (auto simp: become_candidate_def split: sum.split_asm)
  moreover have "rs_durable (rs1\<lparr>rs_state := Candidate\<rparr>) = rs_durable rs1" "same_config rs (rs1\<lparr>rs_state := Candidate\<rparr>) = same_config rs rs1"
    by (simp_all add: rs_durable_def mem_state_def same_config_def)
  ultimately show "rs_durable rs'" "same_config rs rs'"
    "case r of Inl _ \<Rightarrow> steady rs rs' \<and> mem_state rs' = mem_state rs
     | Inr _ \<Rightarrow> rs_current_term rs < rs_current_term rs' \<and> rs_voted_for rs' = Some (rs_self_raft_address rs) \<and>
         rs_votes rs' = [] \<and> rs_state rs' = Candidate"
    using k assms(3) by (auto simp: steady_def mem_state_def split: sum.splits)
qed

section \<open>Construction\<close>

fun placed :: "NodeAddress option \<times> NodeAddress list \<times> (NodeAddress \<times> NodeAddress) list \<Rightarrow> bool" where
  "placed (self, peers, nodes) =
     (distinct (map fst nodes) \<and> distinct peers \<and> set peers \<subseteq> fst ` set nodes \<and>
      (\<forall>s. self = Some s \<longrightarrow> s \<in> fst ` set nodes \<and> s \<notin> set peers))"

lemma place_members_placed:
  assumes "placed (self, peers, nodes)" "place_members sc ms (self, peers, nodes) = (self', peers', nodes')"
  shows "placed (self', peers', nodes') \<and> fst ` set nodes' = fst ` set nodes \<union> raft_addr ` set ms"
  using assms
proof (induction ms arbitrary: self peers nodes)
  case (Cons m ms)
  let ?n = "nodes @ [(raft_addr m, database_server m)]"
  consider (old) "raft_addr m \<in> fst ` set nodes" "place_members sc ms (self, peers, nodes) = (self', peers', nodes')"
    | (me) "raft_addr m \<notin> fst ` set nodes" "place_members sc ms (Some (raft_addr m), peers, ?n) = (self', peers', nodes')"
    | (peer) "raft_addr m \<notin> fst ` set nodes" "place_members sc ms (self, peers @ [raft_addr m], ?n) = (self', peers', nodes')"
    using Cons.prems(2) by (auto simp: Let_def split: if_split_asm)
  then show ?case
  proof cases
    case old
    then show ?thesis using Cons.IH[OF Cons.prems(1) old(2)] by auto
  next
    case me
    have p: "placed (Some (raft_addr m), peers, ?n)" using Cons.prems(1) me(1) by (auto simp: subset_iff image_iff)
    then show ?thesis using Cons.IH[OF p me(2)] by auto
  next
    case peer
    have p: "placed (self, peers @ [raft_addr m], ?n)" using Cons.prems(1) peer(1) by (auto simp: subset_iff image_iff)
    then show ?thesis using Cons.IH[OF p peer(2)] by auto
  qed
qed simp

definition config_ok :: "ClusterMember list \<Rightarrow> RaftState \<Rightarrow> bool" where
  "config_ok ms rs =
     (rs_self_raft_address rs \<in> raft_addr ` set ms \<and> rs_self_raft_address rs \<notin> set (rs_peers rs) \<and>
      set (rs_peers rs) \<subseteq> raft_addr ` set ms \<and> fst ` set (rs_cluster_nodes rs) = raft_addr ` set ms \<and>
      rs_cluster_size rs = card (raft_addr ` set ms))"

lemma config_ok_same: "same_config rs rs' \<Longrightarrow> config_ok ms rs' = config_ok ms rs"
  by (simp add: config_ok_def same_config_def)

lemma new_RaftState_ok:
  assumes "new_RaftState ms sc store la tm = Inr rs"
  shows "config_ok ms rs" "rs_state rs = Follower" "rs_store rs = store" "rs_commit_index rs = la" "rs_last_applied rs = la"
    "store_ok store \<Longrightarrow> file_state (hs_forced store) = Inr (hs_state store) \<Longrightarrow> canonical (hs_state store) \<Longrightarrow> rs_durable rs"
proof -
  obtain self peers nodes hs voted where p: "place_members sc ms (None, [], []) = (Some self, peers, nodes)"
    "hs_load store = Inr hs"
    "loaded_vote hs = Inr voted"
    and rs: "rs = reset_election_timer tm
      \<lparr>rs_store = store, rs_state = Follower, rs_current_term = hs_term hs, rs_voted_for = voted,
       rs_leader_raft_address = None, rs_self_raft_address = self, rs_peers = peers, rs_cluster_nodes = nodes,
       rs_cluster_size = length nodes, rs_send_next = Map.empty, rs_replicated_index = Map.empty, rs_votes = [],
       rs_commit_index = la, rs_last_applied = la, rs_election_deadline = 0, rs_shutting_down = False\<rparr>"
    using assms by (auto simp: new_RaftState_def split: prod.split_asm option.split_asm)
  have "placed (Some self, peers, nodes)" "fst ` set nodes = raft_addr ` set ms"
    using place_members_placed[OF _ p(1)] by auto
  moreover from this have "length nodes = card (raft_addr ` set ms)" using distinct_card[of "map fst nodes"] by simp
  ultimately show "config_ok ms rs" by (auto simp: config_ok_def rs reset_election_timer_def)
  show "rs_state rs = Follower" "rs_store rs = store" "rs_commit_index rs = la" "rs_last_applied rs = la"
    by (simp_all add: rs reset_election_timer_def)
  show "rs_durable rs" if s: "store_ok store" "file_state (hs_forced store) = Inr (hs_state store)" "canonical (hs_state store)"
  proof -
    have hs: "hs = hs_state store" using p(2) by (simp add: hs_load_def split: if_split_asm)
    have "map_option to_string voted = hs_voted_for hs"
      using p(3) s(3) address_read_back unfolding hs canonical_def loaded_vote_def by (auto split: option.split_asm)
    then have "mem_state rs = hs_state store" by (simp add: rs mem_state_def hs reset_election_timer_def)
    then show ?thesis using s by (simp add: rs_durable_def rs reset_election_timer_def)
  qed
qed

lemma is_peer_member: "config_ok ms rs \<Longrightarrow> is_peer rs a \<longleftrightarrow> a \<in> raft_addr ` set ms \<and> a \<noteq> rs_self_raft_address rs"
  by (auto simp: config_ok_def is_peer_def map_of_eq_None_iff)

end
