(* ===== verification/RaftEntry.thy ===== *)
theory RaftEntry
  imports WalPayload
begin

text \<open>
  Entries of the Raft log and their byte format, after \<open>src/include/Raft/RaftEntry.h\<close> and
  \<open>src/src/Raft/RaftEntryCodec.cpp\<close>.  \<open>Writer\<close> and \<open>Reader\<close> are the ones of the payload codec: the
  bytes written so far and the bytes not read yet.  The codec is shown to be a bijection between
  the entries that satisfy the header and payload checks and the byte strings the decoder accepts.
\<close>

datatype RaftMutationType = MutPut | MutDelete

datatype MutationPayload = PutMutation Key Value | DeleteMutation Key

record MutationOp =
  mo_type :: RaftMutationType
  mo_operation :: MutationPayload

record RaftMutationEntry =
  re_term :: u64
  re_idx :: u64
  re_operations :: "MutationOp list"

fun mutation_code :: "RaftMutationType \<Rightarrow> u8" where
  "mutation_code MutPut = 0"
| "mutation_code MutDelete = 1"

definition raft_write_key :: "bytes \<Rightarrow> Key \<Rightarrow> bytes res" where
  "raft_write_key out key =
     (if \<not> validate_key key then Inl Invalid_argument
      else Inr (w_bytes (w_u32 (w_u8 out (of_nat (key_tag (ktype key)))) (ksize key)) (kdata key)))"

definition raft_read_key :: "bytes \<Rightarrow> (Key \<times> bytes) res" where
  "raft_read_key d =
     res_bind (r_u8 d) (\<lambda>(t, d).
     res_bind (r_u32 d) (\<lambda>(n, d).
     res_bind (r_bytes (unat n) d) (\<lambda>(bs, d).
       case key_type_of t of None \<Rightarrow> Inl Runtime_error
       | Some t \<Rightarrow>
           let key = \<lparr>ktype = t, ksize = n, kdata = bs\<rparr>
           in if \<not> validate_key key then Inl Runtime_error else Inr (key, d))))"

definition raft_write_value :: "bytes \<Rightarrow> Value \<Rightarrow> bytes res" where
  "raft_write_value out val =
     (if \<not> validate_value val then Inl Invalid_argument
      else Inr (w_bytes (w_u32 (w_u8 out (of_nat (value_tag (vtype val)))) (vsize val)) (vdata val)))"

definition raft_read_value :: "bytes \<Rightarrow> (Value \<times> bytes) res" where
  "raft_read_value d =
     res_bind (r_u8 d) (\<lambda>(t, d).
     res_bind (r_u32 d) (\<lambda>(n, d).
     res_bind (r_bytes (unat n) d) (\<lambda>(bs, d).
       case value_type_of t of None \<Rightarrow> Inl Runtime_error
       | Some t \<Rightarrow>
           let val = \<lparr>vtype = t, vsize = n, vdata = bs\<rparr>
           in if \<not> validate_value val then Inl Runtime_error else Inr (val, d))))"

definition raft_validate_header :: "RaftMutationEntry \<Rightarrow> bool \<Rightarrow> unit res" where
  "raft_validate_header entry decoding =
     (let fail = Inl (if decoding then Runtime_error else Invalid_argument)
      in if re_term entry = 0 then fail
         else if re_idx entry = 0 then fail
         else Inr ())"

section \<open>Encoding\<close>

definition write_mutation :: "bytes \<Rightarrow> MutationOp \<Rightarrow> bytes res" where
  "write_mutation out m =
     (let out = w_u8 out (mutation_code (mo_type m))
      in case mo_type m of
           MutPut \<Rightarrow>
             (case mo_operation m of
                PutMutation k v \<Rightarrow> res_bind (raft_write_key out k) (\<lambda>out. raft_write_value out v)
              | DeleteMutation _ \<Rightarrow> Inl Invalid_argument)
         | MutDelete \<Rightarrow>
             (case mo_operation m of
                DeleteMutation k \<Rightarrow> raft_write_key out k
              | PutMutation _ _ \<Rightarrow> Inl Invalid_argument))"

fun write_mutations :: "bytes \<Rightarrow> MutationOp list \<Rightarrow> bytes res" where
  "write_mutations out [] = Inr out"
| "write_mutations out (m # ms) = res_bind (write_mutation out m) (\<lambda>out. write_mutations out ms)"

definition raft_encode :: "RaftMutationEntry \<Rightarrow> bytes res" where
  "raft_encode entry =
     res_bind (raft_validate_header entry False) (\<lambda>_.
       if length (re_operations entry) > 2 ^ 32 - 1 then Inl Invalid_argument
       else
         write_mutations
           (w_u32 (w_u64 (w_u64 [] (re_term entry)) (re_idx entry)) (of_nat (length (re_operations entry))))
           (re_operations entry))"

section \<open>Decoding\<close>

definition read_mutation :: "bytes \<Rightarrow> (MutationOp \<times> bytes) res" where
  "read_mutation d =
     res_bind (r_u8 d) (\<lambda>(type, d).
       if type = mutation_code MutPut then
         res_bind (raft_read_key d) (\<lambda>(key, d).
         res_bind (raft_read_value d) (\<lambda>(val, d).
           Inr (\<lparr>mo_type = MutPut, mo_operation = PutMutation key val\<rparr>, d)))
       else if type = mutation_code MutDelete then
         res_bind (raft_read_key d) (\<lambda>(key, d).
           Inr (\<lparr>mo_type = MutDelete, mo_operation = DeleteMutation key\<rparr>, d))
       else Inl Runtime_error)"

fun read_mutations :: "nat \<Rightarrow> bytes \<Rightarrow> (MutationOp list \<times> bytes) res" where
  "read_mutations 0 d = Inr ([], d)"
| "read_mutations (Suc n) d =
     res_bind (read_mutation d) (\<lambda>(m, d). res_bind (read_mutations n d) (\<lambda>(ms, d). Inr (m # ms, d)))"

definition MINIMUM_OPERATION_SIZE :: nat where "MINIMUM_OPERATION_SIZE = 1 + 1 + 4"

definition raft_decode :: "bytes \<Rightarrow> RaftMutationEntry res" where
  "raft_decode d =
     res_bind (r_u64 d) (\<lambda>(term, d).
     res_bind (r_u64 d) (\<lambda>(idx, d).
     let entry = \<lparr>re_term = term, re_idx = idx, re_operations = []\<rparr>
     in res_bind (raft_validate_header entry True) (\<lambda>_.
        res_bind (r_u32 d) (\<lambda>(count, d).
          if unat count > length d div MINIMUM_OPERATION_SIZE then Inl Runtime_error
          else
            res_bind (read_mutations (unat count) d) (\<lambda>(ms, d).
            res_bind (r_finish d) (\<lambda>_.
              Inr (entry\<lparr>re_operations := ms\<rparr>)))))))"

section \<open>The codec is a bijection\<close>

interpretation rkf: stream_field raft_write_key raft_read_key validate_key key_image
proof -
  have "raft_write_key = write_key" "raft_read_key = read_key"
    by (simp_all add: fun_eq_iff raft_write_key_def write_key_def raft_read_key_def read_key_def)
  then show "stream_field raft_write_key raft_read_key validate_key key_image"
    using kf.stream_field_axioms by simp
qed

interpretation rvf: stream_field raft_write_value raft_read_value validate_value value_image
proof -
  have "raft_write_value = write_value" "raft_read_value = read_value"
    by (simp_all add: fun_eq_iff raft_write_value_def write_value_def raft_read_value_def read_value_def)
  then show "stream_field raft_write_value raft_read_value validate_value value_image"
    using vf.stream_field_axioms by simp
qed

fun mutation_ok :: "MutationOp \<Rightarrow> bool" where
  "mutation_ok m = (case mo_operation m of
     PutMutation k v \<Rightarrow> mo_type m = MutPut \<and> validate_key k \<and> validate_value v
   | DeleteMutation k \<Rightarrow> mo_type m = MutDelete \<and> validate_key k)"

definition mutation_image :: "MutationOp \<Rightarrow> bytes" where
  "mutation_image m = (case mo_operation m of
     PutMutation k v \<Rightarrow> 0 # key_image k @ value_image v
   | DeleteMutation k \<Rightarrow> 1 # key_image k)"

declare mutation_ok.simps [simp del]

interpretation mf: stream_field write_mutation read_mutation mutation_ok mutation_image
proof unfold_locales
  fix out x out'
  show "write_mutation out x = Inr out' \<longleftrightarrow> mutation_ok x \<and> out' = out @ mutation_image x"
    by (cases "mo_operation x"; cases "mo_type x")
      (auto simp: write_mutation_def mutation_ok.simps mutation_image_def rkf.write_iff rvf.write_iff)
next
  fix d x rest
  show "read_mutation d = Inr (x, rest) \<longleftrightarrow> mutation_ok x \<and> d = mutation_image x @ rest"
  proof
    assume "read_mutation d = Inr (x, rest)"
    then show "mutation_ok x \<and> d = mutation_image x @ rest"
      by (auto simp: read_mutation_def mutation_ok.simps mutation_image_def rkf.read_iff rvf.read_iff split: if_split_asm)
  next
    assume "mutation_ok x \<and> d = mutation_image x @ rest"
    then show "read_mutation d = Inr (x, rest)"
      by (cases x; cases "mo_operation x")
        (simp_all add: read_mutation_def mutation_ok.simps mutation_image_def rkf.read_image rvf.read_image)
  qed
qed

lemma write_mutations_iff:
  "write_mutations out ms = Inr out' \<longleftrightarrow> (\<forall>m\<in>set ms. mutation_ok m) \<and> out' = out @ concat (map mutation_image ms)"
  by (induction ms arbitrary: out) (auto simp: mf.write_iff)

lemma read_mutations_iff:
  "read_mutations n d = Inr (ms, rest) \<longleftrightarrow>
     length ms = n \<and> (\<forall>m\<in>set ms. mutation_ok m) \<and> d = concat (map mutation_image ms) @ rest"
proof (induction n arbitrary: d ms)
  case (Suc n)
  then show ?case by (cases ms) (auto simp: mf.read_iff)
qed auto

lemma length_mutation_images: "6 * length ms \<le> length (concat (map mutation_image ms))"
  by (induction ms) (auto simp: mutation_image_def key_image_def split: MutationPayload.splits)

definition entry_ok :: "RaftMutationEntry \<Rightarrow> bool" where
  "entry_ok e = (re_term e \<noteq> 0 \<and> re_idx e \<noteq> 0 \<and> length (re_operations e) < 2 ^ 32 \<and>
     (\<forall>m\<in>set (re_operations e). mutation_ok m))"

definition entry_image :: "RaftMutationEntry \<Rightarrow> bytes" where
  "entry_image e = be64 (re_term e) @ be64 (re_idx e) @ be32 (of_nat (length (re_operations e))) @
     concat (map mutation_image (re_operations e))"

lemma raft_encode_iff: "raft_encode e = Inr b \<longleftrightarrow> entry_ok e \<and> b = entry_image e"
  by (auto simp: raft_encode_def raft_validate_header_def write_mutations_iff entry_ok_def entry_image_def Let_def)

lemma raft_decode_iff: "raft_decode b = Inr e \<longleftrightarrow> entry_ok e \<and> b = entry_image e"
proof
  assume "raft_decode b = Inr e"
  then obtain t i c ms where b: "b = be64 t @ be64 i @ be32 c @ concat (map mutation_image ms)" "t \<noteq> 0" "i \<noteq> 0"
    "length ms = unat c" "\<forall>m\<in>set ms. mutation_ok m" "e = \<lparr>re_term = t, re_idx = i, re_operations = ms\<rparr>"
    by (auto simp: raft_decode_def raft_validate_header_def read_mutations_iff r_finish_def res_guards Let_def)
  then have "of_nat (length ms) = c" "length ms < 2 ^ 32" using unat_bound[of c] by simp_all
  then show "entry_ok e \<and> b = entry_image e" using b by (simp add: entry_ok_def entry_image_def)
next
  assume R: "entry_ok e \<and> b = entry_image e"
  define ms where "ms = re_operations e"
  have c: "unat (of_nat (length ms) :: u32) = length ms"
    using R by (intro unat_of_nat_lt) (simp add: entry_ok_def ms_def)
  have "length ms \<le> length (concat (map mutation_image ms)) div MINIMUM_OPERATION_SIZE"
    using length_mutation_images[of ms] by (simp add: less_eq_div_iff_mult_less_eq MINIMUM_OPERATION_SIZE_def mult.commute)
  moreover have "read_mutations (length ms) (concat (map mutation_image ms)) = Inr (ms, [])"
    using R by (simp add: read_mutations_iff entry_ok_def ms_def)
  moreover obtain t i where e: "e = \<lparr>re_term = t, re_idx = i, re_operations = ms\<rparr>" by (cases e) (simp add: ms_def)
  ultimately show "raft_decode b = Inr e"
    using R c by (simp add: raft_decode_def entry_image_def raft_validate_header_def entry_ok_def r_finish_def not_less)
qed

text \<open>The codec of Raft entries is a bijection: a byte string is the encoding of an entry exactly
  when it decodes to that entry.\<close>

theorem raft_codec_bijection: "(raft_encode e = Inr b) = (raft_decode b = Inr e)"
  by (simp add: raft_encode_iff raft_decode_iff)

end
