(* ===== verification/RaftProto.thy ===== *)
theory RaftProto
  imports RaftEntry
begin

text \<open>
  Raft entries on the wire, after \<open>src/src/Raft/RaftProtoCodec.cpp\<close> and the messages of
  \<open>src/proto/raft.proto\<close>.  A message is the record of its fields; a sub-message may be absent and then reads as
  its default; the enumeration is open, so its field is any 32-bit number.  Entries that satisfy the
  checks of the log survive the journey, and every entry that is accepted is well formed.
\<close>

record ProtoKey =
  pk_type :: u32
  pk_data :: bytes

record ProtoValue =
  pv_type :: u32
  pv_data :: bytes

record Mutation =
  mu_type :: u32
  mu_key :: "ProtoKey option"
  mu_value :: "ProtoValue option"

record ProtoEntry =
  pe_term :: u64
  pe_idx :: u64
  pe_operations :: "Mutation list"

definition MUTATION_UNSPECIFIED :: u32 where "MUTATION_UNSPECIFIED = 0"
definition MUTATION_PUT :: u32 where "MUTATION_PUT = 1"
definition MUTATION_DELETE :: u32 where "MUTATION_DELETE = 2"

definition MutationType_IsValid :: "u32 \<Rightarrow> bool" where
  "MutationType_IsValid t = (t = MUTATION_UNSPECIFIED \<or> t = MUTATION_PUT \<or> t = MUTATION_DELETE)"

section \<open>To the wire\<close>

definition to_proto_key :: "Key \<Rightarrow> ProtoKey" where
  "to_proto_key key = \<lparr>pk_type = of_nat (key_tag (ktype key)), pk_data = kdata key\<rparr>"

definition to_proto_value :: "Value \<Rightarrow> ProtoValue" where
  "to_proto_value val = \<lparr>pv_type = of_nat (value_tag (vtype val)), pv_data = vdata val\<rparr>"

text \<open>\<open>std::get\<close> on the other alternative throws; this is \<open>None\<close>.\<close>

definition to_proto_mutation :: "MutationOp \<Rightarrow> Mutation option" where
  "to_proto_mutation m =
     (case mo_type m of
        MutPut \<Rightarrow>
          (case mo_operation m of
             PutMutation k v \<Rightarrow> Some \<lparr>mu_type = MUTATION_PUT, mu_key = Some (to_proto_key k), mu_value = Some (to_proto_value v)\<rparr>
           | DeleteMutation _ \<Rightarrow> None)
      | MutDelete \<Rightarrow>
          (case mo_operation m of
             DeleteMutation k \<Rightarrow> Some \<lparr>mu_type = MUTATION_DELETE, mu_key = Some (to_proto_key k), mu_value = None\<rparr>
           | PutMutation _ _ \<Rightarrow> None))"

definition to_proto :: "RaftMutationEntry \<Rightarrow> ProtoEntry option" where
  "to_proto entry =
     (if \<exists>m\<in>set (re_operations entry). to_proto_mutation m = None then None
      else Some \<lparr>pe_term = re_term entry, pe_idx = re_idx entry,
                 pe_operations = map (\<lambda>m. the (to_proto_mutation m)) (re_operations entry)\<rparr>)"

section \<open>From the wire\<close>

definition from_proto_key :: "ProtoKey \<Rightarrow> Key res" where
  "from_proto_key key =
     (if pk_type key > of_nat (key_tag KBytes) then Inl Out_of_range
      else if length (pk_data key) > unat (- 1 :: u32) then Inl Length_error
      else
        case key_type_of (ucast (pk_type key)) of
          None \<Rightarrow> Inl Out_of_range
        | Some t \<Rightarrow>
            let decoded = \<lparr>ktype = t, ksize = of_nat (length (pk_data key)), kdata = pk_data key\<rparr>
            in if \<not> validate_key decoded then Inl Invalid_argument else Inr decoded)"

definition from_proto_value :: "ProtoValue \<Rightarrow> Value res" where
  "from_proto_value val =
     (if pv_type val > of_nat (value_tag VChar) then Inl Out_of_range
      else if length (pv_data val) > unat (- 1 :: u32) then Inl Length_error
      else
        case value_type_of (ucast (pv_type val)) of
          None \<Rightarrow> Inl Out_of_range
        | Some t \<Rightarrow>
            let decoded = \<lparr>vtype = t, vsize = of_nat (length (pv_data val)), vdata = pv_data val\<rparr>
            in if \<not> validate_value decoded then Inl Invalid_argument else Inr decoded)"

definition from_proto_mutation :: "Mutation \<Rightarrow> MutationOp res" where
  "from_proto_mutation m =
     (if \<not> MutationType_IsValid (mu_type m) then Inl Out_of_range
      else
        res_bind (from_proto_key (case mu_key m of Some k \<Rightarrow> k | None \<Rightarrow> \<lparr>pk_type = 0, pk_data = []\<rparr>)) (\<lambda>key.
          if mu_type m = MUTATION_PUT then
            (case mu_value m of
               None \<Rightarrow> Inl Invalid_argument
             | Some v \<Rightarrow> res_bind (from_proto_value v) (\<lambda>val.
                 Inr \<lparr>mo_type = MutPut, mo_operation = PutMutation key val\<rparr>))
          else if mu_type m = MUTATION_DELETE then
            Inr \<lparr>mo_type = MutDelete, mo_operation = DeleteMutation key\<rparr>
          else Inl Out_of_range))"

fun from_proto_mutations :: "Mutation list \<Rightarrow> MutationOp list res" where
  "from_proto_mutations [] = Inr []"
| "from_proto_mutations (m # ms) =
     res_bind (from_proto_mutation m) (\<lambda>x. res_bind (from_proto_mutations ms) (\<lambda>xs. Inr (x # xs)))"

definition from_proto :: "ProtoEntry \<Rightarrow> RaftMutationEntry res" where
  "from_proto entry =
     res_bind (from_proto_mutations (pe_operations entry)) (\<lambda>ops.
       Inr \<lparr>re_term = pe_term entry, re_idx = pe_idx entry, re_operations = ops\<rparr>)"

section \<open>The journey\<close>

lemma wire_tag:
  "t \<le> of_nat n \<Longrightarrow> n < 256 \<Longrightarrow> (ucast t :: u8) = of_nat k \<Longrightarrow> k < 256 \<Longrightarrow> t = (of_nat k :: u32)"
proof -
  assume a: "t \<le> of_nat n" "n < 256" "(ucast t :: u8) = of_nat k" "k < 256"
  have "unat t \<le> n" using a(1,2) by (simp add: word_le_nat_alt unat_of_nat take_bit_nat_eq_self)
  then have "unat (ucast t :: u8) = unat t" using a(2) by (simp add: unsigned_ucast_eq take_bit_nat_eq_self)
  then have "unat t = k" using a(3,4) by (simp add: unat_of_nat take_bit_nat_eq_self)
  then show ?thesis by (metis of_nat_unat_id)
qed

lemma small_tags: "key_tag t < 5" "value_tag u < 4"
  by (cases t; simp) (cases u; simp)

lemma valid_lengths:
  "validate_key k \<Longrightarrow> ksize k = of_nat (length (kdata k)) \<and> length (kdata k) < 2 ^ 32"
  "validate_value v \<Longrightarrow> vsize v = of_nat (length (vdata v)) \<and> length (vdata v) < 2 ^ 32"
  using unat_bound[of "ksize k"] unat_bound[of "vsize v"]
  by (auto simp: validate_key_def validate_value_def split: if_split_asm) (metis of_nat_unat_id)+

lemma from_proto_key_iff: "from_proto_key p = Inr k \<longleftrightarrow> validate_key k \<and> p = to_proto_key k"
proof
  assume "from_proto_key p = Inr k"
  then obtain t where t: "pk_type p \<le> of_nat (key_tag KBytes)" "(ucast (pk_type p) :: u8) = of_nat (key_tag t)"
    "k = \<lparr>ktype = t, ksize = of_nat (length (pk_data p)), kdata = pk_data p\<rparr>" "validate_key k"
    by (auto simp: from_proto_key_def res_guards Let_def not_less)
  then have "pk_type p = of_nat (key_tag t)" using wire_tag[OF t(1) _ t(2)] small_tags(1)[of t] by simp
  then show "validate_key k \<and> p = to_proto_key k" using t by (simp add: to_proto_key_def)
next
  assume a: "validate_key k \<and> p = to_proto_key k"
  have "(of_nat (key_tag (ktype k)) :: u32) \<le> of_nat (key_tag KBytes)" by (cases "ktype k") simp_all
  moreover have "(ucast (of_nat (key_tag (ktype k)) :: u32) :: u8) = of_nat (key_tag (ktype k))" by (cases "ktype k") simp_all
  ultimately show "from_proto_key p = Inr k"
    using a valid_lengths(1)[of k]
    by (cases k) (auto simp: from_proto_key_def to_proto_key_def res_guards Let_def unsigned_minus_1_eq_mask mask_eq_exp_minus_1)
qed

lemma from_proto_value_iff: "from_proto_value p = Inr v \<longleftrightarrow> validate_value v \<and> p = to_proto_value v"
proof
  assume "from_proto_value p = Inr v"
  then obtain t where t: "pv_type p \<le> of_nat (value_tag VChar)" "(ucast (pv_type p) :: u8) = of_nat (value_tag t)"
    "v = \<lparr>vtype = t, vsize = of_nat (length (pv_data p)), vdata = pv_data p\<rparr>" "validate_value v"
    by (auto simp: from_proto_value_def res_guards Let_def not_less)
  then have "pv_type p = of_nat (value_tag t)" using wire_tag[OF t(1) _ t(2)] small_tags(2)[of t] by simp
  then show "validate_value v \<and> p = to_proto_value v" using t by (simp add: to_proto_value_def)
next
  assume a: "validate_value v \<and> p = to_proto_value v"
  have "(of_nat (value_tag (vtype v)) :: u32) \<le> of_nat (value_tag VChar)" by (cases "vtype v") simp_all
  moreover have "(ucast (of_nat (value_tag (vtype v)) :: u32) :: u8) = of_nat (value_tag (vtype v))" by (cases "vtype v") simp_all
  ultimately show "from_proto_value p = Inr v"
    using a valid_lengths(2)[of v]
    by (cases v) (auto simp: from_proto_value_def to_proto_value_def res_guards Let_def unsigned_minus_1_eq_mask mask_eq_exp_minus_1)
qed

lemma from_proto_mutation_ok: "from_proto_mutation p = Inr m \<Longrightarrow> mutation_ok m"
  by (auto simp: from_proto_mutation_def res_guards from_proto_key_iff from_proto_value_iff mutation_ok.simps split: if_split_asm)

lemma mutation_journey:
  "mutation_ok m \<longleftrightarrow> (\<exists>p. to_proto_mutation m = Some p \<and> from_proto_mutation p = Inr m)"
proof
  assume "mutation_ok m"
  then show "\<exists>p. to_proto_mutation m = Some p \<and> from_proto_mutation p = Inr m"
    by (cases m; cases "mo_operation m")
      (auto simp: mutation_ok.simps to_proto_mutation_def from_proto_mutation_def MutationType_IsValid_def
        MUTATION_PUT_def MUTATION_DELETE_def from_proto_key_iff from_proto_value_iff)
qed (use from_proto_mutation_ok in blast)

lemma from_proto_mutations_iff:
  "from_proto_mutations ps = Inr ms \<longleftrightarrow> list_all2 (\<lambda>p m. from_proto_mutation p = Inr m) ps ms"
  by (induction ps arbitrary: ms) (auto simp: list_all2_Cons1)

text \<open>An entry can be sent and is received unchanged exactly when its mutations are the ones the log accepts,
  and the receiver accepts nothing else.\<close>

theorem proto_journey:
  "((\<forall>m\<in>set (re_operations e). mutation_ok m) \<longleftrightarrow> (\<exists>p. to_proto e = Some p \<and> from_proto p = Inr e)) \<and>
   (from_proto q = Inr e \<longrightarrow> (\<exists>p. to_proto e = Some p \<and> from_proto p = Inr e))"
proof -
  have ok: "\<forall>m\<in>set (re_operations e). mutation_ok m" if "from_proto q = Inr e" for q
    using that from_proto_mutation_ok
    by (auto simp: from_proto_def from_proto_mutations_iff list_all2_conv_all_nth in_set_conv_nth) blast
  moreover have "\<exists>p. to_proto e = Some p \<and> from_proto p = Inr e" if a: "\<forall>m\<in>set (re_operations e). mutation_ok m"
  proof -
    have j: "\<exists>p. to_proto_mutation m = Some p \<and> from_proto_mutation p = Inr m" if "m \<in> set (re_operations e)" for m
      using a that mutation_journey by blast
    then have "from_proto_mutations (map (\<lambda>m. the (to_proto_mutation m)) (re_operations e)) = Inr (re_operations e)"
      by (auto simp: from_proto_mutations_iff list_all2_conv_all_nth) (metis nth_mem option.sel)
    then show ?thesis using j by (fastforce simp: to_proto_def from_proto_def)
  qed
  ultimately show ?thesis by blast
qed

definition sample_mutation :: MutationOp where
  "sample_mutation = \<lparr>mo_type = MutDelete, mo_operation = DeleteMutation \<lparr>ktype = KBool, ksize = 1, kdata = [1]\<rparr>\<rparr>"

theorem proto_journey_witness:
  "\<exists>p. to_proto \<lparr>re_term = 1, re_idx = 1, re_operations = [sample_mutation]\<rparr> = Some p \<and>
     from_proto p = Inr \<lparr>re_term = 1, re_idx = 1, re_operations = [sample_mutation]\<rparr>"
proof -
  have "\<forall>m\<in>set (re_operations \<lparr>re_term = 1, re_idx = 1, re_operations = [sample_mutation]\<rparr>). mutation_ok m"
    by (simp add: sample_mutation_def mutation_ok.simps validate_key_def MAX_PAYLOAD_SIZE_def)
  then show ?thesis using proto_journey by blast
qed

end
