(* ===== verification/RaftLog.thy ===== *)
theory RaftLog
  imports SegmentDir RaftEntry
begin

text \<open>
  The Raft log, after \<open>src/src/Raft/RaftSegment.cpp\<close> and \<open>src/src/Raft/RaftLog.cpp\<close>.  A Raft segment
  is the segment of the write-ahead log with the codec of Raft entries, plus the lookup of a term and
  the truncation of a suffix.  \<open>raft_log_holds\<close> says which entries an open log contains; every
  operation is shown to implement the corresponding operation on that list.
\<close>

interpretation raft: record_codec raft_encode raft_decode re_idx
  by unfold_locales (simp add: raft_encode_iff raft_decode_iff)

section \<open>Segments\<close>

definition raft_segment_recover :: "Segment \<Rightarrow> Segment res" where
  "raft_segment_recover = segment_recover raft_decode re_idx"

definition raft_segment_open :: "u64 \<Rightarrow> disk_file \<Rightarrow> disk_file \<Rightarrow> Config \<Rightarrow> Segment res" where
  "raft_segment_open base store_fd index_fd config =
     (let seg = \<lparr>sg_config = config, sg_base = base, sg_next = base, sg_recovery_required = False,
                 sg_store = store_open store_fd, sg_index = index_open index_fd\<rparr>
      in res_bind (config_validate config) (\<lambda>_.
         if base = 0 then Inl Invalid_argument else raft_segment_recover seg))"

definition raft_segment_append :: "io_faults \<Rightarrow> io_faults \<Rightarrow> Segment \<Rightarrow> RaftMutationEntry \<Rightarrow> unit res \<times> Segment" where
  "raft_segment_append = segment_append raft_encode re_idx"

definition raft_segment_read :: "Segment \<Rightarrow> u64 \<Rightarrow> RaftMutationEntry res" where
  "raft_segment_read = segment_read raft_decode re_idx"

definition raft_segment_scan :: "Segment \<Rightarrow> RaftMutationEntry list res" where
  "raft_segment_scan = segment_scan raft_decode re_idx"

definition raft_segment_term_at :: "Segment \<Rightarrow> u64 \<Rightarrow> u64 res" where
  "raft_segment_term_at seg index =
     (if index < sg_base seg \<or> index \<ge> sg_next seg then Inl Out_of_range
      else
        let ordinal = ucast (index - sg_base seg)
        in res_bind (index_read (sg_index seg) ordinal) (\<lambda>off.
           res_bind (store_read_prefix (sg_store seg) (unat off) 8) (\<lambda>prefix.
             Inr (get_u64_be prefix 0))))"

section \<open>State\<close>

record RaftLog =
  rl_config :: Config
  rl_segments :: "Segment list"
  rl_next_index :: u64
  rl_last_term :: u64
  rl_durable_index :: u64
  rl_recovery_required :: bool
  rl_directory_dirty :: bool

definition new_RaftLog :: "Config \<Rightarrow> RaftLog res" where
  "new_RaftLog config =
     res_bind (config_validate config) (\<lambda>_.
       if initial_lsn config \<noteq> 1 then Inl Invalid_argument
       else Inr \<lparr>rl_config = config, rl_segments = [], rl_next_index = 0, rl_last_term = 0,
                 rl_durable_index = 0, rl_recovery_required = False, rl_directory_dirty = False\<rparr>)"

definition raft_create_segment :: "RaftLog \<Rightarrow> u64 \<Rightarrow> RaftLog res" where
  "raft_create_segment rl base =
     res_bind (raft_segment_open base empty_file empty_file (rl_config rl)) (\<lambda>seg.
       Inr (rl\<lparr>rl_segments := rl_segments rl @ [seg]\<rparr>))"

section \<open>Opening and closing\<close>

text \<open>The backward search for the last segment that has an entry.\<close>

fun last_term_of :: "Segment list \<Rightarrow> u64 res" where
  "last_term_of [] = Inr 0"
| "last_term_of (s # ss) =
     (if sg_next s > sg_base s then raft_segment_term_at s (sg_next s - 1) else last_term_of ss)"

text \<open>Index files without a store are deleted before the segments are opened.\<close>

definition drop_orphans :: "directory \<Rightarrow> (u64 \<times> SegmentFiles) list \<Rightarrow> directory \<times> (u64 \<times> SegmentFiles) list" where
  "drop_orphans dir found =
     (let orphans = map (\<lambda>(base, _). segment_stem base @ ''.index'') (filter (\<lambda>(_, fs). \<not> sf_store fs) found)
      in (filter (\<lambda>(name, _). name \<notin> set orphans) dir, filter (\<lambda>(_, fs). sf_store fs) found))"

definition raft_log_open :: "RaftLog \<Rightarrow> directory \<Rightarrow> RaftLog res" where
  "raft_log_open rl dir =
     (if rl_segments rl \<noteq> [] then Inl Runtime_error
      else res_bind (discover (map fst dir) []) (\<lambda>found.
        let (dir, found) = drop_orphans dir found
        in res_bind (if found = [] then raft_create_segment rl 1
                     else res_bind (open_segments raft_decode re_idx (rl_config rl) dir found 1) (\<lambda>segs.
                            Inr (rl\<lparr>rl_segments := segs\<rparr>))) (\<lambda>rl.
           let next_index = sg_next (last (rl_segments rl))
           in res_bind (if next_index > 1 then last_term_of (rev (rl_segments rl)) else Inr 0) (\<lambda>last_term.
                Inr (rl\<lparr>rl_next_index := next_index, rl_last_term := last_term, rl_durable_index := next_index - 1,
                        rl_recovery_required := False, rl_directory_dirty := False\<rparr>)))))"

definition raft_log_close :: "RaftLog \<Rightarrow> (RaftLog \<times> directory) res" where
  "raft_log_close rl =
     (if rl_segments rl = [] then Inr (rl, [])
      else if rl_recovery_required rl then Inl Runtime_error
      else res_bind (sync_all (rl_segments rl)) (\<lambda>segs.
        Inr (rl\<lparr>rl_segments := [], rl_next_index := 0, rl_last_term := 0, rl_durable_index := 0,
                rl_directory_dirty := False\<rparr>, segment_dir segs)))"

section \<open>Appending\<close>

text \<open>The common tail of both appends: roll over if the last segment is full, write the entry, and
  advance.\<close>

definition raft_log_push :: "io_faults \<Rightarrow> io_faults \<Rightarrow> RaftLog \<Rightarrow> RaftMutationEntry \<Rightarrow> unit res \<times> RaftLog" where
  "raft_log_push fs fx rl entry =
     (case (if segment_is_maxed (last (rl_segments rl)) then raft_create_segment rl (rl_next_index rl) else Inr rl) of
        Inl e \<Rightarrow> (Inl e, rl)
      | Inr rl \<Rightarrow>
          (case raft_segment_append fs fx (last (rl_segments rl)) entry of
             (Inl e, seg) \<Rightarrow>
               (Inl e, rl\<lparr>rl_segments := butlast (rl_segments rl) @ [seg],
                          rl_recovery_required := rl_recovery_required rl \<or> sg_recovery_required seg\<rparr>)
           | (Inr _, seg) \<Rightarrow>
               (Inr (), rl\<lparr>rl_segments := butlast (rl_segments rl) @ [seg],
                           rl_next_index := rl_next_index rl + 1, rl_last_term := re_term entry\<rparr>)))"

definition raft_log_append :: "io_faults \<Rightarrow> io_faults \<Rightarrow> RaftLog \<Rightarrow> u64 \<Rightarrow> MutationOp list \<Rightarrow> u64 res \<times> RaftLog" where
  "raft_log_append fs fx rl term operations =
     (if rl_segments rl = [] then (Inl Runtime_error, rl)
      else if rl_recovery_required rl then (Inl Runtime_error, rl)
      else
        let entry = \<lparr>re_term = term, re_idx = rl_next_index rl, re_operations = operations\<rparr>
        in case raft_encode entry of
             Inl e \<Rightarrow> (Inl e, rl)
           | Inr _ \<Rightarrow>
               (case raft_log_push fs fx rl entry of
                  (Inl e, rl) \<Rightarrow> (Inl e, rl)
                | (Inr _, rl) \<Rightarrow> (Inr (re_idx entry), rl)))"

fun check_batch :: "u64 \<Rightarrow> RaftMutationEntry list \<Rightarrow> unit res" where
  "check_batch expected [] = Inr ()"
| "check_batch expected (entry # entries) =
     (if re_idx entry \<noteq> expected then Inl Invalid_argument
      else res_bind (raft_encode entry) (\<lambda>_. check_batch (expected + 1) entries))"

fun append_batch :: "(u64 \<Rightarrow> io_faults \<times> io_faults) \<Rightarrow> RaftLog \<Rightarrow> RaftMutationEntry list \<Rightarrow> unit res \<times> RaftLog" where
  "append_batch fl rl [] = (Inr (), rl)"
| "append_batch fl rl (entry # entries) =
     (case raft_log_push (fst (fl (re_idx entry))) (snd (fl (re_idx entry))) rl entry of
        (Inl e, rl) \<Rightarrow> (Inl e, rl)
      | (Inr _, rl) \<Rightarrow> append_batch fl rl entries)"

definition append_from_leader ::
  "(u64 \<Rightarrow> io_faults \<times> io_faults) \<Rightarrow> RaftLog \<Rightarrow> u64 \<Rightarrow> RaftMutationEntry list \<Rightarrow> unit res \<times> RaftLog" where
  "append_from_leader fl rl first_index entries =
     (if rl_segments rl = [] then (Inl Runtime_error, rl)
      else if rl_recovery_required rl then (Inl Runtime_error, rl)
      else if first_index \<noteq> rl_next_index rl then (Inl Invalid_argument, rl)
      else
        case check_batch first_index entries of
          Inl e \<Rightarrow> (Inl e, rl)
        | Inr _ \<Rightarrow> append_batch fl rl entries)"

section \<open>Reading\<close>

definition raft_log_read :: "RaftLog \<Rightarrow> u64 \<Rightarrow> RaftMutationEntry res" where
  "raft_log_read rl index =
     (if rl_segments rl = [] then Inl Runtime_error
      else if index = 0 \<or> index \<ge> rl_next_index rl then Inl Out_of_range
      else
        (case List.find (\<lambda>s. index \<ge> sg_base s \<and> index < sg_next s) (rl_segments rl) of
           None \<Rightarrow> Inl Out_of_range
         | Some s \<Rightarrow> raft_segment_read s index))"

fun scan_from_loop :: "Segment list \<Rightarrow> u64 \<Rightarrow> RaftMutationEntry list res" where
  "scan_from_loop [] index = Inr []"
| "scan_from_loop (s # ss) index =
     (if sg_next s \<le> index then scan_from_loop ss index
      else res_bind (raft_segment_scan s) (\<lambda>part.
           res_bind (scan_from_loop ss index) (\<lambda>rest.
             Inr (drop (unat (max index (sg_base s) - sg_base s)) part @ rest))))"

definition raft_log_scan_from :: "RaftLog \<Rightarrow> u64 \<Rightarrow> RaftMutationEntry list res" where
  "raft_log_scan_from rl index =
     (if rl_segments rl = [] then Inl Runtime_error
      else if index = 0 \<or> index > rl_next_index rl then Inl Out_of_range
      else scan_from_loop (rl_segments rl) index)"

definition raft_last_index :: "RaftLog \<Rightarrow> u64" where
  "raft_last_index rl = (if rl_next_index rl = 0 then 0 else rl_next_index rl - 1)"

definition raft_last_term :: "RaftLog \<Rightarrow> u64" where
  "raft_last_term rl = rl_last_term rl"

definition raft_term_at :: "RaftLog \<Rightarrow> u64 \<Rightarrow> u64 res" where
  "raft_term_at rl index =
     (if rl_segments rl = [] then Inl Runtime_error
      else if index = 0 \<or> index \<ge> rl_next_index rl then Inr 0
      else
        (case List.find (\<lambda>s. index \<ge> sg_base s \<and> index < sg_next s) (rl_segments rl) of
           None \<Rightarrow> Inr 0
         | Some s \<Rightarrow> raft_segment_term_at s index))"

section \<open>Truncation and synchronisation\<close>

text \<open>The first segment in which the boundary lies or at whose end it lies.\<close>

fun truncation_target :: "Segment list \<Rightarrow> u64 \<Rightarrow> nat" where
  "truncation_target [] from_index = 0"
| "truncation_target (s # ss) from_index =
     (if from_index \<ge> sg_base s \<and> from_index \<le> sg_next s then 0 else Suc (truncation_target ss from_index))"

definition retained_term :: "RaftLog \<Rightarrow> u64 \<Rightarrow> u64 res" where
  "retained_term rl from_index =
     (if from_index > 1 then
        (let retained_index = from_index - 1
         in case List.find (\<lambda>s. retained_index \<ge> sg_base s \<and> retained_index < sg_next s) (rl_segments rl) of
              None \<Rightarrow> Inr 0
            | Some s \<Rightarrow> raft_segment_term_at s retained_index)
      else Inr 0)"

text \<open>The first argument says whether deleting the files of the dropped segments fails.\<close>

definition raft_truncate_suffix :: "bool \<Rightarrow> RaftLog \<Rightarrow> u64 \<Rightarrow> unit res \<times> RaftLog" where
  "raft_truncate_suffix remove_fails rl from_index =
     (if rl_segments rl = [] then (Inl Runtime_error, rl)
      else if rl_recovery_required rl then (Inl Runtime_error, rl)
      else if from_index = 0 \<or> from_index > rl_next_index rl then (Inl Out_of_range, rl)
      else if from_index = rl_next_index rl then (Inr (), rl)
      else
        case retained_term rl from_index of
          Inl e \<Rightarrow> (Inl e, rl)
        | Inr retained_last_term \<Rightarrow>
            let segs = rl_segments rl; target = truncation_target segs from_index
            in if target = length segs then (Inl Runtime_error, rl)
               else
                 (case segment_truncate_suffix (segs ! target) from_index of
                    (Inl e, seg) \<Rightarrow> (Inl e, rl\<lparr>rl_segments := segs[target := seg], rl_recovery_required := True\<rparr>)
                  | (Inr _, seg) \<Rightarrow>
                      let removed = length segs - Suc target;
                          rl = rl\<lparr>rl_segments := take target segs @ [seg]\<rparr>
                      in if removed > 0 \<and> remove_fails
                         then (Inl Runtime_error, rl\<lparr>rl_recovery_required := True\<rparr>)
                         else (Inr (), rl\<lparr>rl_next_index := from_index, rl_last_term := retained_last_term,
                                          rl_durable_index := min (rl_durable_index rl) (from_index - 1),
                                          rl_directory_dirty := rl_directory_dirty rl \<or> removed > 0\<rparr>)))"

definition raft_sync_through :: "RaftLog \<Rightarrow> u64 \<Rightarrow> RaftLog res" where
  "raft_sync_through rl index =
     (if rl_segments rl = [] then Inl Runtime_error
      else if rl_recovery_required rl then Inl Runtime_error
      else if index = 0 \<or> index \<ge> rl_next_index rl then Inl Out_of_range
      else if index \<le> rl_durable_index rl \<and> \<not> rl_directory_dirty rl then Inr rl
      else res_bind (sync_loop (rl_segments rl) (rl_durable_index rl) index) (\<lambda>(segs, durable).
        Inr (rl\<lparr>rl_segments := segs, rl_durable_index := durable, rl_directory_dirty := False\<rparr>)))"

section \<open>Contents of a log\<close>

definition term_of_last :: "RaftMutationEntry list \<Rightarrow> u64" where
  "term_of_last es = (if es = [] then 0 else re_term (last es))"

definition raft_parts :: "RaftLog \<Rightarrow> RaftMutationEntry list list \<Rightarrow> bool" where
  "raft_parts rl ess = (segment_chain raft_encode re_idx 1 (rl_segments rl) ess (rl_next_index rl) \<and>
     rl_segments rl \<noteq> [] \<and> (\<forall>q\<in>set (butlast ess). q \<noteq> []) \<and>
     (\<forall>s\<in>set (rl_segments rl). sg_config s = rl_config rl) \<and> roomy (rl_config rl) \<and> initial_lsn (rl_config rl) = 1 \<and>
     \<not> rl_recovery_required rl \<and> rl_durable_index rl < rl_next_index rl \<and>
     rl_last_term rl = term_of_last (concat ess))"

definition raft_log_holds :: "RaftLog \<Rightarrow> RaftMutationEntry list \<Rightarrow> bool" where
  "raft_log_holds rl es = (\<exists>ess. es = concat ess \<and> raft_parts rl ess)"

lemma raft_parts_bounds:
  assumes "raft_parts rl ess"
  shows "unat (rl_next_index rl) = 1 + length (concat ess)" "rl_next_index rl = 1 + of_nat (length (concat ess))"
    "numbered re_idx 1 (concat ess)"
  using assms raft.chain_bounds[of 1 "rl_segments rl" ess "rl_next_index rl"]
    raft.chain_numbered[of 1 "rl_segments rl" ess "rl_next_index rl"]
  by (simp_all add: raft_parts_def)

text \<open>The index of the \<open>i\<close>-th entry.\<close>

lemma raft_index:
  assumes "raft_parts rl ess" "i \<le> length (concat ess)"
  shows "unat (1 + of_nat i :: u64) = 1 + i" "1 + of_nat i \<noteq> (0 :: u64)"
proof -
  have "1 + i < 2 ^ 64" using raft_parts_bounds(1)[OF assms(1)] assms(2) unat_bound[of "rl_next_index rl"] by simp
  then show u: "unat (1 + of_nat i :: u64) = 1 + i"
    using unat_of_nat_lt[of "1 + i", where 'a = 64] by simp
  show "1 + of_nat i \<noteq> (0 :: u64)"
  proof
    assume "1 + of_nat i = (0 :: u64)"
    then have "unat (1 + of_nat i :: u64) = 0" by simp
    then show False using u by simp
  qed
qed

lemma raft_index_of:
  assumes "raft_parts rl ess" "n \<noteq> 0" "n \<le> rl_next_index rl"
  shows "\<exists>i. n = 1 + of_nat i \<and> i \<le> length (concat ess) \<and> i = unat n - 1"
proof -
  have "n = 1 + of_nat (unat n - 1)" using assms(2) by (simp add: of_nat_diff Suc_leI unat_gt_0)
  moreover have "unat n - 1 \<le> length (concat ess)"
    using assms(3) raft_parts_bounds(1)[OF assms(1)] by (simp add: word_le_nat_alt)
  ultimately show ?thesis by blast
qed

section \<open>Reading\<close>

lemma entry_prefix: "raft_encode e = Inr b \<Longrightarrow> 8 \<le> length b \<and> get_u64_be (take 8 b) 0 = re_term e"
  by (auto simp: raft_encode_iff entry_image_def get_be_whole)

lemma raft_segment_term_holds:
  assumes h: "segment_holds raft_encode re_idx seg rs bs" and i: "i < length rs"
  shows "raft_segment_term_at seg (sg_base seg + of_nat i) = Inr (re_term (rs ! i))"
proof -
  note l = raft.locate_holds[OF h i]
  have e: "raft_encode (rs ! i) = Inr (bs ! i)" and st: "store_holds (sg_store seg) bs"
    using h encodings_nth(2)[of raft_encode rs bs i] l(5) by (simp_all add: segment_holds_def)
  note p = entry_prefix[OF e]
  show ?thesis
    using l p store_read_holds(2)[OF st l(5), of 8] by (simp add: raft_segment_term_at_def Let_def)
qed

lemma raft_find_term:
  assumes "segment_chain raft_encode re_idx b ss ess e" "i < length (concat ess)"
  shows "(case List.find (\<lambda>s. b + of_nat i \<ge> sg_base s \<and> b + of_nat i < sg_next s) ss of
      None \<Rightarrow> Inr 0 | Some s \<Rightarrow> raft_segment_term_at s (b + of_nat i)) = Inr (re_term (concat ess ! i))"
  using raft.chain_locate[OF assms] raft_segment_term_holds by fastforce

lemma raft_term_at_holds:
  assumes p: "raft_parts rl ess"
  shows "raft_term_at rl n = Inr (if n = 0 \<or> n \<ge> rl_next_index rl then 0 else re_term (concat ess ! (unat n - 1)))"
proof (cases "n = 0 \<or> n \<ge> rl_next_index rl")
  case True
  then show ?thesis using p by (simp add: raft_term_at_def raft_parts_def)
next
  case False
  then obtain i where i: "n = 1 + of_nat i" "i = unat n - 1" using raft_index_of[OF p, of n] by auto
  have lt: "i < length (concat ess)"
    using False i(2) raft_parts_bounds(1)[OF p] unat_gt_0[of n] by (auto simp: word_le_nat_alt)
  have ch: "segment_chain raft_encode re_idx 1 (rl_segments rl) ess (rl_next_index rl)" "rl_segments rl \<noteq> []"
    using p by (simp_all add: raft_parts_def)
  show ?thesis
    using raft_find_term[OF ch(1) lt, folded i(1)] ch(2) False unfolding raft_term_at_def i(2)[symmetric] by simp
qed

lemma raft_read_holds:
  assumes p: "raft_parts rl ess" and i: "i < length (concat ess)"
  shows "raft_log_read rl (1 + of_nat i) = Inr (concat ess ! i)"
proof -
  have ch: "segment_chain raft_encode re_idx 1 (rl_segments rl) ess (rl_next_index rl)" "rl_segments rl \<noteq> []"
    using p by (simp_all add: raft_parts_def)
  note ix = raft_index[OF p, of i]
  have "\<not> rl_next_index rl \<le> 1 + of_nat i"
    using raft_parts_bounds(1)[OF p] i ix(1) by (simp add: word_le_nat_alt)
  then show ?thesis
    using raft.chain_find[OF ch(1) i] ch(2) ix(2) i by (auto simp: raft_log_read_def raft_segment_read_def)
qed

lemma scan_from_chain:
  assumes "segment_chain raft_encode re_idx b ss ess e"
  shows "scan_from_loop ss n = Inr (drop (unat n - unat b) (concat ess))"
  using assms
proof (induction ss arbitrary: b ess)
  case Nil
  then show ?case by (cases ess) simp_all
next
  case (Cons s ss)
  obtain rs q bs where q: "ess = rs # q" "sg_base s = b" "segment_holds raft_encode re_idx s rs bs"
    "segment_chain raft_encode re_idx (sg_next s) ss q e"
    using Cons.prems by (rule chain_ConsE)
  note h = raft.holds_bounds(2)[OF q(3)]
  show ?case
  proof (cases "sg_next s \<le> n")
    case True
    then show ?thesis using Cons.IH[OF q(4)] h q(1,2) by (simp add: word_le_nat_alt)
  next
    case False
    then have "unat n - unat (sg_next s) = 0" by (simp add: word_le_nat_alt)
    moreover have "unat (max n b - b) = unat n - unat b"
      by (simp add: max_def unat_sub word_le_nat_alt)
    moreover have "unat n - unat b \<le> length rs" using False h q(2) by (simp add: word_le_nat_alt)
    ultimately show ?thesis
      using Cons.IH[OF q(4)] False raft.scan_holds[OF q(3)] q(1,2) by (simp add: raft_segment_scan_def)
  qed
qed

lemma raft_scan_holds:
  assumes p: "raft_parts rl ess" and i: "i \<le> length (concat ess)"
  shows "raft_log_scan_from rl (1 + of_nat i) = Inr (drop i (concat ess))"
proof -
  have ch: "segment_chain raft_encode re_idx 1 (rl_segments rl) ess (rl_next_index rl)" "rl_segments rl \<noteq> []"
    using p by (simp_all add: raft_parts_def)
  note ix = raft_index[OF p i]
  have "\<not> 1 + of_nat i > rl_next_index rl"
    using raft_parts_bounds(1)[OF p] i ix(1) by (simp add: word_less_nat_alt)
  then show ?thesis
    using scan_from_chain[OF ch(1), of "1 + of_nat i"] ch(2) ix by (simp add: raft_log_scan_from_def)
qed

section \<open>Appending\<close>

definition raft_synced :: "RaftLog \<Rightarrow> bool" where
  "raft_synced rl = (\<forall>s\<in>set (rl_segments rl). segment_synced raft_encode re_idx (rl_durable_index rl) s)"

lemma raft_segment_open_generic: "raft_segment_open = segment_open raft_decode re_idx"
  by (intro ext) (simp add: raft_segment_open_def segment_open_def raft_segment_recover_def)

lemma raft_create_segment_eq:
  assumes "roomy (rl_config rl)" "base \<noteq> 0"
  shows "raft_create_segment rl base = Inr (rl\<lparr>rl_segments := rl_segments rl @ [fresh_segment (rl_config rl) base]\<rparr>)"
  using assms by (simp add: raft_create_segment_def raft_segment_open_generic open_empty_segment roomy_def)

lemma raft_push_parts:
  assumes p: "raft_parts rl ess" and e: "raft_encode x = Inr b" "re_idx x = rl_next_index rl" "small b"
    and n: "unat (rl_next_index rl) + 1 < 2 ^ 64"
  shows "\<exists>rl' ess'. raft_log_push no_faults no_faults rl x = (Inr (), rl') \<and> concat ess' = concat ess @ [x] \<and>
    raft_parts rl' ess' \<and> rl_config rl' = rl_config rl \<and> rl_next_index rl' = rl_next_index rl + 1 \<and>
    rl_durable_index rl' = rl_durable_index rl \<and> rl_directory_dirty rl' = rl_directory_dirty rl \<and>
    (raft_synced rl \<longrightarrow> raft_synced rl')"
proof -
  let ?c = "rl_config rl" let ?e = "rl_next_index rl" let ?ss = "rl_segments rl" let ?ss' = "roll ?c ?e ?ss"
  have ch: "segment_chain raft_encode re_idx 1 ?ss ess ?e" "?ss \<noteq> []" "\<forall>q\<in>set (butlast ess). q \<noteq> []"
    "roomy ?c" "\<forall>s\<in>set ?ss. sg_config s = ?c" "\<not> rl_recovery_required rl" "rl_durable_index rl < ?e"
    using p by (simp_all add: raft_parts_def)
  have e0: "?e \<noteq> 0" using ch(7) by auto
  obtain ess1 where r1: "concat ess1 = concat ess" "segment_chain raft_encode re_idx 1 ?ss' ess1 ?e"
    "?ss' \<noteq> []" "\<forall>q\<in>set (butlast ess1). q \<noteq> []" "\<forall>s\<in>set ?ss'. sg_config s = ?c" "\<not> segment_is_maxed (last ?ss')"
    using raft.roll_chain[OF ch(1,2,3,4,5)] by blast
  obtain seg ess' where a: "segment_append raft_encode re_idx no_faults no_faults (last ?ss') x = (Inr (), seg)"
    "concat ess' = concat ess1 @ [x]" "segment_chain raft_encode re_idx 1 (butlast ?ss' @ [seg]) ess' (?e + 1)"
    "\<forall>q\<in>set (butlast ess'). q \<noteq> []" "sg_config seg = ?c"
    using raft.chain_append[OF r1(2,3,4) ch(4) r1(5,6) e(2,1,3) n] by blast
  let ?rl = "rl\<lparr>rl_segments := butlast ?ss' @ [seg], rl_next_index := ?e + 1, rl_last_term := re_term x\<rparr>"
  have "(if segment_is_maxed (last ?ss) then raft_create_segment rl ?e else Inr rl) = Inr (rl\<lparr>rl_segments := ?ss'\<rparr>)"
    using raft_create_segment_eq[OF ch(4) e0] by (simp add: roll_def)
  then have "raft_log_push no_faults no_faults rl x = (Inr (), ?rl)"
    using a(1) by (simp add: raft_log_push_def raft_segment_append_def)
  moreover have "raft_parts ?rl ess'"
  proof -
    have "rl_durable_index rl < ?e + 1" using ch(7) unat_plus_one[OF n] by (simp add: word_less_nat_alt)
    moreover have "\<forall>s\<in>set (butlast ?ss' @ [seg]). sg_config s = ?c" using r1(5) a(5) by (auto dest: in_set_butlastD)
    ultimately show ?thesis using p ch a by (simp add: raft_parts_def term_of_last_def)
  qed
  moreover have "raft_synced ?rl" if ls: "raft_synced rl"
  proof -
    have d: "segment_synced raft_encode re_idx (rl_durable_index rl) s" if "s \<in> set ?ss'" for s
      using raft.roll_synced[OF e0 _ that] ls by (simp add: raft_synced_def)
    obtain s0 ss0 where ss: "?ss' = ss0 @ [s0]" using r1(3) by (cases ?ss' rule: rev_cases) auto
    obtain rs bs where q: "segment_holds raft_encode re_idx s0 rs bs" "sg_next s0 = ?e"
      using r1(2) unfolding ss raft.chain_snoc by blast
    have "\<not> segment_is_maxed s0" "roomy (sg_config s0)" "s0 \<in> set ?ss'" "re_idx x = sg_next s0"
      using r1(5,6) ch(4) q(2) ss e(2) by simp_all
    then have "segment_synced raft_encode re_idx (rl_durable_index rl) seg"
      using raft.append_synced[OF q(1) d _ _ e(1,3)] ch(7) n a(1) q(2) ss by simp
    moreover have "\<forall>s\<in>set ss0. segment_synced raft_encode re_idx (rl_durable_index rl) s" using d unfolding ss by simp
    ultimately show ?thesis unfolding raft_synced_def by (simp add: ss)
  qed
  moreover have "concat ess' = concat ess @ [x]" using a(2) r1(1) by simp
  ultimately show ?thesis by (rule_tac exI[of _ ?rl], rule_tac exI[of _ ess']) simp
qed

lemma check_batch_nth:
  assumes "check_batch n es = Inr ()" "i < length es"
  shows "re_idx (es ! i) = n + of_nat i" "\<exists>b. raft_encode (es ! i) = Inr b"
  using assms
proof (induction es arbitrary: n i)
  case (Cons x es)
  { case 1 then show ?case using Cons.IH(1) by (cases i) (auto split: if_split_asm) }
  { case 2 then show ?case using Cons.IH(2) by (cases i) (auto split: if_split_asm) }
qed simp_all

lemma append_batch_parts:
  assumes "raft_parts rl ess" "check_batch (rl_next_index rl) es = Inr ()" "\<forall>x\<in>set es. \<forall>b. raft_encode x = Inr b \<longrightarrow> small b"
    "unat (rl_next_index rl) + length es < 2 ^ 64"
  shows "\<exists>rl' ess'. append_batch (\<lambda>_. (no_faults, no_faults)) rl es = (Inr (), rl') \<and> concat ess' = concat ess @ es \<and>
    raft_parts rl' ess' \<and> rl_config rl' = rl_config rl \<and> rl_durable_index rl' = rl_durable_index rl \<and>
    rl_directory_dirty rl' = rl_directory_dirty rl \<and> (raft_synced rl \<longrightarrow> raft_synced rl')"
  using assms
proof (induction es arbitrary: rl ess)
  case Nil
  then show ?case by (rule_tac exI[of _ rl], rule_tac exI[of _ ess]) simp
next
  case (Cons x es)
  obtain b where b: "raft_encode x = Inr b" "re_idx x = rl_next_index rl" "check_batch (rl_next_index rl + 1) es = Inr ()"
    using Cons.prems(2) by (auto split: if_split_asm)
  have n: "unat (rl_next_index rl) + 1 < 2 ^ 64" using Cons.prems(4) by simp
  obtain rl1 ess1 where r: "raft_log_push no_faults no_faults rl x = (Inr (), rl1)" "concat ess1 = concat ess @ [x]"
    "raft_parts rl1 ess1" "rl_config rl1 = rl_config rl" "rl_next_index rl1 = rl_next_index rl + 1"
    "rl_durable_index rl1 = rl_durable_index rl" "rl_directory_dirty rl1 = rl_directory_dirty rl"
    "raft_synced rl \<longrightarrow> raft_synced rl1"
    using raft_push_parts[OF Cons.prems(1) b(1,2) _ n] Cons.prems(3) b(1) by auto
  have "unat (rl_next_index rl1) + length es < 2 ^ 64" using Cons.prems(4) r(5) unat_plus_one[OF n] by simp
  then obtain rl2 ess2 where "append_batch (\<lambda>_. (no_faults, no_faults)) rl1 es = (Inr (), rl2)" "concat ess2 = concat ess1 @ es"
    "raft_parts rl2 ess2" "rl_config rl2 = rl_config rl1" "rl_durable_index rl2 = rl_durable_index rl1"
    "rl_directory_dirty rl2 = rl_directory_dirty rl1" "raft_synced rl1 \<longrightarrow> raft_synced rl2"
    using Cons.IH[OF r(3)] b(3) r(5) Cons.prems(3) by auto
  then show ?case using r by (rule_tac exI[of _ rl2], rule_tac exI[of _ ess2]) simp
qed

section \<open>Truncation\<close>

lemma frames_take_mono:
  assumes "a \<le> b"
  shows "length (frames (take a bs)) \<le> length (frames (take b bs))"
  using length_frames_take[of a "take b bs"] assms by (simp add: min_def)

lemma truncate_durable:
  assumes "segment_truncate_suffix seg n = (Inr (), seg')"
  shows "min (file_size (st_file (sg_store seg'))) (f_durable (st_file (sg_store seg))) \<le> f_durable (st_file (sg_store seg'))"
proof (cases "n = sg_next seg")
  case True
  then show ?thesis using assms by (auto simp: segment_truncate_suffix_def split: if_split_asm)
next
  case False
  then obtain st ix where "store_truncate_to (sg_store seg) (unat (n - sg_base seg)) = Inr st"
    "seg' = seg\<lparr>sg_store := st, sg_index := ix, sg_next := n\<rparr>"
    using assms by (auto simp: segment_truncate_suffix_def Let_def split: if_split_asm sum.split_asm)
  then show ?thesis
    by (auto simp: store_truncate_to_def truncate_file_def file_size_def split: if_split_asm)
qed

context record_codec
begin

lemma truncate_synced:
  assumes h: "segment_holds enc num seg rs bs" and sy: "segment_synced enc num d seg" and k: "k \<le> length rs" and d: "d' \<le> d"
    and t: "segment_truncate_suffix seg (sg_base seg + of_nat k) = (Inr (), seg')"
  shows "segment_synced enc num d' seg'"
proof -
  have h': "segment_holds enc num seg' (take k rs) (take k bs)" "sg_base seg' = sg_base seg"
    using truncate_holds[OF h k] t by auto
  let ?m = "unat d' + 1 - unat (sg_base seg)" let ?n = "unat d + 1 - unat (sg_base seg)"
  have "?m \<le> ?n" using d by (simp add: word_le_nat_alt)
  then have "length (frames (take ?m (take k bs))) \<le> length (frames (take ?n bs))"
    using frames_take_mono[of "min ?m k" ?n bs] by simp
  moreover have "length (frames (take ?m (take k bs))) \<le> file_size (st_file (sg_store seg'))"
    using h'(1) length_frames_take[of ?m "take k bs"] by (simp add: segment_holds_def store_holds_def file_size_def)
  ultimately show ?thesis
    using truncate_durable[OF t] sy unfolding segment_synced_iff[OF h] segment_synced_iff[OF h'(1)] h'(2) by linarith
qed

lemma synced_mono:
  assumes sy: "segment_synced enc num d s" and d: "d' \<le> d"
  shows "segment_synced enc num d' s"
  unfolding segment_synced_def
proof (intro allI impI)
  fix rs bs assume h: "segment_holds enc num s rs bs"
  let ?m = "unat d' + 1 - unat (sg_base s)" let ?n = "unat d + 1 - unat (sg_base s)"
  have "?m \<le> ?n" using d by (simp add: word_le_nat_alt)
  then have "length (frames (take ?m bs)) \<le> length (frames (take ?n bs))" by (rule frames_take_mono)
  then show "length (frames (take ?m bs)) \<le> f_durable (st_file (sg_store s))"
    using sy unfolding segment_synced_iff[OF h] by linarith
qed

lemma chain_target:
  assumes "segment_chain enc num b ss rss e" "i \<le> length (concat rss)" "ss \<noteq> []"
  shows "\<exists>ss1 s ss2 rss1 rs rss2 bs j. ss = ss1 @ s # ss2 \<and> truncation_target ss (b + of_nat i) = length ss1 \<and>
    rss = rss1 @ rs # rss2 \<and> segment_chain enc num b ss1 rss1 (sg_base s) \<and> segment_holds enc num s rs bs \<and> j \<le> length rs \<and>
    b + of_nat i = sg_base s + of_nat j \<and> i = length (concat rss1) + j"
  using assms
proof (induction ss arbitrary: b rss i)
  case (Cons s ss)
  obtain rs q bs where q: "rss = rs # q" "sg_base s = b" "segment_holds enc num s rs bs" "segment_chain enc num (sg_next s) ss q e"
    using Cons.prems(1) by (rule chain_ConsE)
  note h = holds_bounds[OF q(3)]
  have big: "unat b + i < 2 ^ 64"
    using chain_bounds(1)[OF Cons.prems(1)] Cons.prems(2) unat_bound[of e] by simp
  then have ui: "unat (of_nat i :: u64) = i" by (intro unat_of_nat_lt) simp
  have u: "unat (b + of_nat i) = unat b + i" using big ui unat_add_lem[of b "of_nat i"] by simp
  show ?case
  proof (cases "i \<le> length rs")
    case True
    then have "b + of_nat i \<ge> sg_base s \<and> b + of_nat i \<le> sg_next s"
      using u h(2) q(2) by (simp add: word_le_nat_alt)
    moreover have "segment_chain enc num b [] [] (sg_base s)" using q(2) by simp
    ultimately show ?thesis using q True
      by (rule_tac exI[of _ "[]"], rule_tac exI[of _ s], rule_tac exI[of _ ss], rule_tac exI[of _ "[]"],
          rule_tac exI[of _ rs], rule_tac exI[of _ q], rule_tac exI[of _ bs], rule_tac exI[of _ i]) simp
  next
    case False
    then have nf: "\<not> b + of_nat i \<le> sg_next s" using u h(2) q(2) by (simp add: word_le_nat_alt)
    have j: "i - length rs \<le> length (concat q)" "b + of_nat i = sg_next s + of_nat (i - length rs)"
      using False Cons.prems(2) q(1,2) h(5) by (auto simp: of_nat_diff)
    have "ss \<noteq> []" using q(4) j(1) False Cons.prems(2) q(1) by (cases q) auto
    then obtain ss1 s' ss2 rss1 rs' rss2 bs' j' where r: "ss = ss1 @ s' # ss2"
      "truncation_target ss (sg_next s + of_nat (i - length rs)) = length ss1"
      "q = rss1 @ rs' # rss2" "segment_chain enc num (sg_next s) ss1 rss1 (sg_base s')" "segment_holds enc num s' rs' bs'" "j' \<le> length rs'"
      "sg_next s + of_nat (i - length rs) = sg_base s' + of_nat j'" "i - length rs = length (concat rss1) + j'"
      using Cons.IH[OF q(4) j(1)] by blast
    have "segment_chain enc num b (s # ss1) (rs # rss1) (sg_base s')" using q(2,3) r(4) by auto
    then show ?thesis using r nf q(1) False unfolding j(2)
      by (rule_tac exI[of _ "s # ss1"], rule_tac exI[of _ s'], rule_tac exI[of _ ss2], rule_tac exI[of _ "rs # rss1"],
          rule_tac exI[of _ rs'], rule_tac exI[of _ rss2], rule_tac exI[of _ bs'], rule_tac exI[of _ j']) simp
  qed
qed simp

end

lemma retained_term_holds:
  assumes p: "raft_parts rl ess" and i: "i < length (concat ess)"
  shows "retained_term rl (1 + of_nat i) = Inr (term_of_last (take i (concat ess)))"
proof (cases i)
  case 0
  then show ?thesis by (simp add: retained_term_def term_of_last_def)
next
  case (Suc k)
  have ch: "segment_chain raft_encode re_idx 1 (rl_segments rl) ess (rl_next_index rl)" using p by (simp add: raft_parts_def)
  have k: "k < length (concat ess)" using i Suc by simp
  have gt: "1 + of_nat i > (1 :: u64)" using raft_index(1)[OF p, of i] i Suc by (simp add: word_less_nat_alt)
  have e: "1 + of_nat i - 1 = (1 + of_nat k :: u64)" using Suc by simp
  have "take i (concat ess) = take k (concat ess) @ [concat ess ! k]" using take_Suc_conv_app_nth[OF k] Suc by simp
  then have "term_of_last (take i (concat ess)) = re_term (concat ess ! k)" by (simp add: term_of_last_def)
  then show ?thesis
    using raft_find_term[OF ch k] gt unfolding retained_term_def Let_def e by simp
qed

lemma raft_truncate_parts:
  assumes p: "raft_parts rl ess" and i: "i \<le> length (concat ess)"
  shows "\<exists>rl' ess'. raft_truncate_suffix False rl (1 + of_nat i) = (Inr (), rl') \<and> concat ess' = take i (concat ess) \<and>
    raft_parts rl' ess' \<and> rl_config rl' = rl_config rl \<and> rl_next_index rl' = 1 + of_nat i \<and>
    rl_durable_index rl' = min (rl_durable_index rl) (of_nat i) \<and> (raft_synced rl \<longrightarrow> raft_synced rl')"
proof (cases "i = length (concat ess)")
  case True
  note b = raft_parts_bounds[OF p]
  have "rl_durable_index rl < 1 + of_nat i" using p b(2) True by (simp add: raft_parts_def)
  then have "min (rl_durable_index rl) (of_nat i) = rl_durable_index rl"
    using b(1) True raft_index(1)[OF p i] unat_of_nat_lt[of i, where 'a = 64] unat_bound[of "rl_next_index rl"]
    by (simp add: min_def word_less_nat_alt word_le_nat_alt)
  then show ?thesis
    using p b(2) True raft_index(2)[OF p i]
    by (rule_tac exI[of _ rl], rule_tac exI[of _ ess]) (simp add: raft_truncate_suffix_def raft_parts_def)
next
  case False
  then have lt: "i < length (concat ess)" using i by simp
  let ?ss = "rl_segments rl" let ?n = "1 + of_nat i :: u64"
  note ix = raft_index[OF p i]
  have ch: "segment_chain raft_encode re_idx 1 ?ss ess (rl_next_index rl)" "?ss \<noteq> []" "\<forall>q\<in>set (butlast ess). q \<noteq> []"
    "\<forall>s\<in>set ?ss. sg_config s = rl_config rl" "\<not> rl_recovery_required rl" "rl_durable_index rl < rl_next_index rl"
    using p by (simp_all add: raft_parts_def)
  obtain ss1 s ss2 ess1 rs ess2 bs j where t: "?ss = ss1 @ s # ss2" "truncation_target ?ss ?n = length ss1"
    "ess = ess1 @ rs # ess2" "segment_chain raft_encode re_idx 1 ss1 ess1 (sg_base s)" "segment_holds raft_encode re_idx s rs bs"
    "j \<le> length rs" "?n = sg_base s + of_nat j" "i = length (concat ess1) + j"
    using raft.chain_target[OF ch(1) i ch(2)] by blast
  obtain seg where g: "segment_truncate_suffix s ?n = (Inr (), seg)" "segment_holds raft_encode re_idx seg (take j rs) (take j bs)"
    "sg_base seg = sg_base s" "sg_config seg = sg_config s"
    using raft.truncate_holds[OF t(5,6)] unfolding t(7) by blast
  have nx: "sg_next seg = ?n" using raft.holds_bounds(5)[OF g(2)] g(3) t(6,7) by (simp add: min_def)
  have bound: "\<not> rl_next_index rl < ?n" "?n \<noteq> rl_next_index rl"
    using raft_parts_bounds(1)[OF p] ix(1) lt by (auto simp: word_less_nat_alt)
  let ?rl = "rl\<lparr>rl_segments := ss1 @ [seg], rl_next_index := ?n, rl_last_term := term_of_last (take i (concat ess)),
    rl_durable_index := min (rl_durable_index rl) (of_nat i), rl_directory_dirty := rl_directory_dirty rl \<or> ss2 \<noteq> []\<rparr>"
  have "raft_truncate_suffix False rl ?n = (Inr (), ?rl)"
    using ch(2,5) bound ix(2) t(1,2) g(1) retained_term_holds[OF p lt]
    by (simp add: raft_truncate_suffix_def Let_def nth_append)
  moreover have chain: "segment_chain raft_encode re_idx 1 (ss1 @ [seg]) (ess1 @ [take j rs]) ?n"
    unfolding raft.chain_snoc by (rule exI[of _ ess1], rule exI[of _ "take j rs"]) (use t(4) g(2,3) nx in auto)
  moreover have cc: "concat (ess1 @ [take j rs]) = take i (concat ess)" using t(3,6,8) by simp
  moreover have "raft_parts ?rl (ess1 @ [take j rs])"
  proof -
    have "\<forall>q\<in>set ess1. q \<noteq> []" using ch(3) t(3) by (simp add: butlast_append)
    moreover have "unat (of_nat i :: u64) = i" using ix(1) unat_bound[of ?n] by (intro unat_of_nat_lt) simp
    then have "of_nat i < ?n" using ix(1) by (simp add: word_less_nat_alt)
    then have "min (rl_durable_index rl) (of_nat i) < ?n" by (rule min.strict_coboundedI2)
    moreover have "\<forall>s\<in>set (ss1 @ [seg]). sg_config s = rl_config rl" using ch(4) g(4) t(1) by simp
    ultimately show ?thesis using p chain cc by (simp add: raft_parts_def)
  qed
  moreover have "raft_synced ?rl" if "raft_synced rl"
  proof -
    have d: "segment_synced raft_encode re_idx (rl_durable_index rl) q" if "q \<in> set ?ss" for q
      using \<open>raft_synced rl\<close> that by (simp add: raft_synced_def)
    have le: "min (rl_durable_index rl) (of_nat i) \<le> rl_durable_index rl" by simp
    have "segment_synced raft_encode re_idx (min (rl_durable_index rl) (of_nat i)) seg"
      using raft.truncate_synced[OF t(5) d t(6) le] g(1) t(1,7) by simp
    moreover have "segment_synced raft_encode re_idx (min (rl_durable_index rl) (of_nat i)) q" if "q \<in> set ss1" for q
      using raft.synced_mono[OF d le] that t(1) by simp
    ultimately show ?thesis by (simp add: raft_synced_def)
  qed
  ultimately show ?thesis by (rule_tac exI[of _ ?rl], rule_tac exI[of _ "ess1 @ [take j rs]"]) simp
qed

section \<open>Synchronisation\<close>

lemma raft_sync_parts:
  assumes p: "raft_parts rl ess" and sy: "raft_synced rl" and t: "t \<noteq> 0" "t < rl_next_index rl"
  shows "\<exists>rl'. raft_sync_through rl t = Inr rl' \<and> raft_parts rl' ess \<and> raft_synced rl' \<and> t \<le> rl_durable_index rl' \<and>
    rl_config rl' = rl_config rl \<and> rl_next_index rl' = rl_next_index rl"
proof -
  have ch: "segment_chain raft_encode re_idx 1 (rl_segments rl) ess (rl_next_index rl)" "rl_segments rl \<noteq> []"
    "rl_durable_index rl < rl_next_index rl" "\<not> rl_recovery_required rl"
    "\<forall>s\<in>set (rl_segments rl). segment_synced raft_encode re_idx (rl_durable_index rl) s \<and> sg_config s = rl_config rl"
    using p sy by (auto simp: raft_parts_def raft_synced_def)
  show ?thesis
  proof (cases "t \<le> rl_durable_index rl \<and> \<not> rl_directory_dirty rl")
    case True
    then show ?thesis using p sy t ch by (rule_tac exI[of _ rl]) (simp add: raft_sync_through_def not_le)
  next
    case False
    have "\<not> t < 1" using t(1) by (simp add: word_less_nat_alt unsigned_eq_0_iff)
    then obtain ss d where s: "sync_loop (rl_segments rl) (rl_durable_index rl) t = Inr (ss, d)"
      "segment_chain raft_encode re_idx 1 ss ess (rl_next_index rl)"
      "\<forall>s\<in>set ss. segment_synced raft_encode re_idx d s \<and> sg_config s = rl_config rl"
      "d < rl_next_index rl" "t < rl_next_index rl \<longrightarrow> t \<le> d"
      using raft.sync_loop_chain[OF ch(1,5,3), of t] by metis
    have "ss \<noteq> []" using s(2) ch(1,2) by (cases ess; cases ss; cases "rl_segments rl") auto
    let ?rl = "rl\<lparr>rl_segments := ss, rl_durable_index := d, rl_directory_dirty := False\<rparr>"
    have "raft_sync_through rl t = Inr ?rl" using ch False t s(1) by (auto simp: raft_sync_through_def not_le)
    moreover have "raft_parts ?rl ess" using p s \<open>ss \<noteq> []\<close> by (simp add: raft_parts_def)
    moreover have "raft_synced ?rl" using s(3) by (simp add: raft_synced_def)
    ultimately show ?thesis using s(5) t by (rule_tac exI[of _ ?rl]) simp
  qed
qed

section \<open>Reopening\<close>

lemma drop_orphans_none: "drop_orphans dir (both_files ss) = (dir, both_files ss)"
  by (auto simp: drop_orphans_def filter_id_conv filter_empty_conv Let_def)

lemma last_term_of_chain:
  assumes "segment_chain raft_encode re_idx b ss ess e"
  shows "last_term_of (rev ss) = Inr (term_of_last (concat ess))"
  using assms
proof (induction ss arbitrary: e ess rule: rev_induct)
  case Nil
  then show ?case by (cases ess) (simp_all add: term_of_last_def)
next
  case (snoc s ss)
  obtain ess1 rs bs where q: "ess = ess1 @ [rs]" "segment_chain raft_encode re_idx b ss ess1 (sg_base s)"
    "segment_holds raft_encode re_idx s rs bs"
    using snoc.prems unfolding raft.chain_snoc by blast
  note h = raft.holds_bounds[OF q(3)]
  show ?case
  proof (cases "rs = []")
    case True
    then show ?thesis using snoc.IH[OF q(2)] h(5) q(1) by simp
  next
    case False
    then have gt: "sg_base s < sg_next s" using h(2) by (simp add: word_less_nat_alt)
    have "sg_next s - 1 = sg_base s + of_nat (length rs - 1)" using h(5) False by (simp add: of_nat_diff Suc_leI)
    then have "raft_segment_term_at s (sg_next s - 1) = Inr (re_term (rs ! (length rs - 1)))"
      using raft_segment_term_holds[OF q(3), of "length rs - 1"] False by simp
    moreover have "rs ! (length rs - 1) = last rs" using last_conv_nth[OF False] by simp
    ultimately show ?thesis using gt False q(1) by (simp add: term_of_last_def)
  qed
qed

lemma new_RaftLog_fields:
  "new_RaftLog c = Inr rl0 \<Longrightarrow> rl_segments rl0 = [] \<and> rl_config rl0 = c \<and> config_validate c = Inr () \<and> initial_lsn c = 1"
  by (auto simp: new_RaftLog_def split: if_split_asm)

lemma raft_open_segments:
  assumes found: "discover (map fst dir) [] = Inr (both_files ss0)" "ss0 \<noteq> []" and c: "new_RaftLog c = Inr rl0" "roomy c"
    and op: "open_segments raft_decode re_idx c dir (both_files ss0) 1 = Inr ss"
    and ch: "segment_chain raft_encode re_idx 1 ss ess (sg_next (last ss))" "ss \<noteq> []" "\<forall>q\<in>set (butlast ess). q \<noteq> []"
      "\<forall>s\<in>set ss. sg_config s = c"
  shows "\<exists>rl. raft_log_open rl0 dir = Inr rl \<and> raft_parts rl ess \<and> rl_segments rl = ss \<and> rl_config rl = c"
proof -
  note f = new_RaftLog_fields[OF c(1)]
  let ?n = "sg_next (last ss)"
  let ?rl = "rl0\<lparr>rl_segments := ss, rl_next_index := ?n, rl_last_term := term_of_last (concat ess),
    rl_durable_index := ?n - 1, rl_recovery_required := False, rl_directory_dirty := False\<rparr>"
  have n: "unat ?n = 1 + length (concat ess)" using raft.chain_bounds(1)[OF ch(1)] by simp
  have lt: "(if ?n > 1 then last_term_of (rev ss) else Inr 0) = Inr (term_of_last (concat ess))"
  proof (cases "?n > 1")
    case False
    then have "concat ess = []" using n by (simp add: word_less_nat_alt)
    then show ?thesis using False by (simp add: term_of_last_def)
  qed (use last_term_of_chain[OF ch(1)] in simp)
  have "both_files ss0 \<noteq> []" using found(2) by simp
  then have "raft_log_open rl0 dir = Inr ?rl"
    using found(1) f op lt by (simp add: raft_log_open_def drop_orphans_none Let_def split del: if_split cong: if_cong)
  moreover have "?n \<noteq> 0" using n by (auto simp: unsigned_eq_0_iff)
  then have "?n - 1 < ?n" using unat_minus_one[of ?n] n by (simp add: word_less_nat_alt)
  then have "raft_parts ?rl ess" using f c(2) ch by (simp add: raft_parts_def)
  ultimately show ?thesis using f by (rule_tac exI[of _ ?rl]) simp
qed

lemma raft_parts_distinct: "raft_parts rl ess \<Longrightarrow> distinct (map sg_base (rl_segments rl))"
  using sorted_less_distinct[OF raft.chain_bases_sorted] unfolding raft_parts_def by blast

lemma raft_open_cut:
  assumes p: "raft_parts rl ess" and new: "new_RaftLog (rl_config rl) = Inr rl0" and cut: "cut_dir cs ci (rl_segments rl) dir"
    and sv: "\<forall>s\<in>set (rl_segments rl). survives raft_encode re_idx d cs s"
    and whole: "\<forall>s\<in>set (butlast (rl_segments rl)). file_size (st_file (sg_store s)) \<le> cs (sg_base s)"
  shows "\<exists>rl' k. raft_log_open rl0 dir = Inr rl' \<and> raft_log_holds rl' (take k (concat ess)) \<and> rl_config rl' = rl_config rl \<and>
    (all_durable dir \<longrightarrow> raft_synced rl') \<and> min (unat d) (length (concat ess)) \<le> k"
proof -
  let ?c = "rl_config rl" let ?ss = "rl_segments rl"
  have ch: "segment_chain raft_encode re_idx 1 ?ss ess (rl_next_index rl)" "?ss \<noteq> []" "\<forall>q\<in>set (butlast ess). q \<noteq> []"
    "roomy ?c" "config_validate ?c = Inr ()"
    using p by (simp_all add: raft_parts_def roomy_def)
  have names: "mset (map fst dir) = mset (base_names (map sg_base ?ss))" using cut by (simp add: cut_dir_def)
  have "opened raft_encode re_idx ?c (all_durable dir) 1 (concat ess) (unat d + 1 - unat (1 :: u64))
      (open_segments raft_decode re_idx ?c dir (both_files ?ss) 1)"
    using raft.open_cut_chain[OF ch(1,2,3,5) _ sv whole] cut by (auto simp: cut_dir_def)
  then obtain ss ess' k where o: "open_segments raft_decode re_idx ?c dir (both_files ?ss) 1 = Inr ss"
    "segment_chain raft_encode re_idx 1 ss ess' (sg_next (last ss))" "ss \<noteq> []"
    "concat ess' = take k (concat ess)" "\<forall>q\<in>set (butlast ess'). q \<noteq> []"
    "\<forall>s\<in>set ss. sg_config s = ?c \<and> (all_durable dir \<longrightarrow> (\<forall>d. segment_synced raft_encode re_idx d s))"
    "min (unat d) (length (concat ess)) \<le> k"
    unfolding opened_def by auto
  then obtain rl' where r: "raft_log_open rl0 dir = Inr rl'" "raft_parts rl' ess'" "rl_segments rl' = ss" "rl_config rl' = ?c"
    using raft_open_segments[OF raft.discover_cut_dir[OF ch(1,3) names] ch(2) new ch(4) o(1,2,3,5)] by blast
  have "raft_log_holds rl' (take k (concat ess))" unfolding raft_log_holds_def o(4)[symmetric] using r(2) by blast
  moreover have "raft_synced rl'" if "all_durable dir" using that o(6) r(3) by (simp add: raft_synced_def)
  ultimately show ?thesis using r(1,4) o(7) by blast
qed

section \<open>The log as a list of entries\<close>

text \<open>What the service relies on: the log is a list, truncation keeps a prefix of it, and a batch extends it.\<close>

locale entry_log =
  fixes holds :: "'l \<Rightarrow> RaftMutationEntry list \<Rightarrow> bool"
    and term_at :: "'l \<Rightarrow> u64 \<Rightarrow> u64 res"
    and truncate :: "'l \<Rightarrow> u64 \<Rightarrow> unit res \<times> 'l"
    and append :: "'l \<Rightarrow> u64 \<Rightarrow> RaftMutationEntry list \<Rightarrow> unit res \<times> 'l"
  assumes bound: "holds l es \<Longrightarrow> 1 + length es < 2 ^ 64"
    and term_law: "holds l es \<Longrightarrow> term_at l n = Inr (if n = 0 \<or> unat n > length es then 0 else re_term (es ! (unat n - 1)))"
    and truncate_law: "holds l es \<Longrightarrow> i \<le> length es \<Longrightarrow>
      \<exists>l'. truncate l (1 + of_nat i) = (Inr (), l') \<and> holds l' (take i es)"
    and append_law: "holds l es \<Longrightarrow> check_batch (1 + of_nat (length es)) xs = Inr () \<Longrightarrow>
      \<forall>x\<in>set xs. \<forall>b. raft_encode x = Inr b \<longrightarrow> small b \<Longrightarrow> 1 + length es + length xs < 2 ^ 64 \<Longrightarrow>
      \<exists>l'. append l (1 + of_nat (length es)) xs = (Inr (), l') \<and> holds l' (es @ xs)"
    and append_reject: "holds l es \<Longrightarrow> n \<noteq> 1 + of_nat (length es) \<or> check_batch n xs \<noteq> Inr () \<Longrightarrow>
      \<exists>e. append l n xs = (Inl e, l)"
begin

text \<open>Replacing everything behind a prefix.\<close>

lemma replace_suffix:
  assumes "holds l es" "i \<le> length es" "check_batch (1 + of_nat i) xs = Inr ()"
    "\<forall>x\<in>set xs. \<forall>b. raft_encode x = Inr b \<longrightarrow> small b" "1 + i + length xs < 2 ^ 64"
  obtains l1 l2 where "truncate l (1 + of_nat i) = (Inr (), l1)" "holds l1 (take i es)"
    "append l1 (1 + of_nat i) xs = (Inr (), l2)" "holds l2 (take i es @ xs)"
proof -
  obtain l1 where l1: "truncate l (1 + of_nat i) = (Inr (), l1)" "holds l1 (take i es)"
    using truncate_law[OF assms(1,2)] by blast
  have len: "length (take i es) = i" using assms(2) by simp
  obtain l2 where "append l1 (1 + of_nat i) xs = (Inr (), l2)" "holds l2 (take i es @ xs)"
    using append_law[OF l1(2), unfolded len, OF assms(3,4,5)] by blast
  with l1 show thesis by (rule that)
qed

text \<open>A rejected batch after a truncation: the suffix is gone all the same.\<close>

lemma truncated_then_rejected:
  assumes "holds l es" "i \<le> length es" "check_batch (1 + of_nat i) xs \<noteq> Inr ()"
  obtains l1 e where "truncate l (1 + of_nat i) = (Inr (), l1)" "append l1 (1 + of_nat i) xs = (Inl e, l1)" "holds l1 (take i es)"
proof -
  obtain l1 where l1: "truncate l (1 + of_nat i) = (Inr (), l1)" "holds l1 (take i es)"
    using truncate_law[OF assms(1,2)] by blast
  moreover obtain e where "append l1 (1 + of_nat i) xs = (Inl e, l1)" using append_reject[OF l1(2)] assms(3) by blast
  ultimately show thesis by (rule_tac that)
qed

end

lemma raft_holdsI: "raft_parts rl ess \<Longrightarrow> raft_log_holds rl (concat ess)"
  by (auto simp: raft_log_holds_def)

abbreviation durable_log :: "RaftLog \<Rightarrow> RaftMutationEntry list \<Rightarrow> bool" where
  "durable_log rl es \<equiv> raft_log_holds rl es \<and> raft_synced rl"

interpretation el: entry_log durable_log raft_term_at "raft_truncate_suffix False"
  "append_from_leader (\<lambda>_. (no_faults, no_faults))"
proof unfold_locales
  fix rl es
  assume "durable_log rl es"
  then obtain ess where p: "es = concat ess" "raft_parts rl ess" and sy: "raft_synced rl" by (auto simp: raft_log_holds_def)
  note b = raft_parts_bounds[OF p(2), folded p(1)]
  have open_log: "rl_segments rl \<noteq> []" "\<not> rl_recovery_required rl" using p(2) by (simp_all add: raft_parts_def)
  show "1 + length es < 2 ^ 64" using b(1) unat_bound[of "rl_next_index rl"] by simp
  show "raft_term_at rl n = Inr (if n = 0 \<or> unat n > length es then 0 else re_term (es ! (unat n - 1)))" for n
    using raft_term_at_holds[OF p(2), of n] b(1) p(1) by (auto simp: word_le_nat_alt)
  show "\<exists>rl'. raft_truncate_suffix False rl (1 + of_nat i) = (Inr (), rl') \<and> durable_log rl' (take i es)" if "i \<le> length es" for i
    using raft_truncate_parts[OF p(2), of i] that p(1) raft_holdsI sy by metis
  show "\<exists>rl'. append_from_leader (\<lambda>_. (no_faults, no_faults)) rl (1 + of_nat (length es)) xs = (Inr (), rl') \<and> durable_log rl' (es @ xs)"
    if c: "check_batch (1 + of_nat (length es)) xs = Inr ()" and sm: "\<forall>x\<in>set xs. \<forall>b. raft_encode x = Inr b \<longrightarrow> small b"
      and l: "1 + length es + length xs < 2 ^ 64" for xs
  proof -
    obtain rl' ess' where "append_batch (\<lambda>_. (no_faults, no_faults)) rl xs = (Inr (), rl')" "concat ess' = concat ess @ xs"
      "raft_parts rl' ess'" "raft_synced rl'"
      using append_batch_parts[OF p(2), of xs] c sm l b sy by auto
    then show ?thesis
      using open_log c b(2) p(1) raft_holdsI[of rl' ess'] by (simp add: append_from_leader_def)
  qed
  show "\<exists>e. append_from_leader (\<lambda>_. (no_faults, no_faults)) rl n xs = (Inl e, rl)"
    if "n \<noteq> 1 + of_nat (length es) \<or> check_batch n xs \<noteq> Inr ()" for n xs
    using that open_log b(2) by (cases "check_batch n xs") (auto simp: append_from_leader_def)
qed

text \<open>C26: The Raft log implements a list of entries that starts at index one.  Its last index and term, its
  reads, scans and term lookups are those of the list; truncation keeps the prefix before the boundary;
  a batch whose indexes are dense and whose entries encode extends the list, and any other batch is
  refused without a change.\<close>

theorem raft_log_refines_list:
  assumes "raft_log_holds rl es" "raft_synced rl"
  shows "raft_last_index rl = of_nat (length es) \<and> raft_last_term rl = term_of_last es \<and>
    (\<forall>i < length es. raft_log_read rl (1 + of_nat i) = Inr (es ! i) \<and> raft_term_at rl (1 + of_nat i) = Inr (re_term (es ! i))) \<and>
    (\<forall>i \<le> length es. raft_log_scan_from rl (1 + of_nat i) = Inr (drop i es) \<and>
      (\<exists>rl'. raft_truncate_suffix False rl (1 + of_nat i) = (Inr (), rl') \<and> raft_log_holds rl' (take i es) \<and> raft_synced rl')) \<and>
    (\<forall>n xs. n \<noteq> 1 + of_nat (length es) \<or> check_batch n xs \<noteq> Inr () \<longrightarrow>
      (\<exists>e. append_from_leader (\<lambda>_. (no_faults, no_faults)) rl n xs = (Inl e, rl))) \<and>
    (\<forall>xs. check_batch (1 + of_nat (length es)) xs = Inr () \<and> (\<forall>x\<in>set xs. \<forall>b. raft_encode x = Inr b \<longrightarrow> small b) \<and>
        1 + length es + length xs < 2 ^ 64 \<longrightarrow>
      (\<exists>rl'. append_from_leader (\<lambda>_. (no_faults, no_faults)) rl (1 + of_nat (length es)) xs = (Inr (), rl') \<and>
        raft_log_holds rl' (es @ xs) \<and> raft_synced rl'))"
proof -
  obtain ess where p: "es = concat ess" "raft_parts rl ess" using assms(1) by (auto simp: raft_log_holds_def)
  note b = raft_parts_bounds[OF p(2), folded p(1)]
  have d: "durable_log rl es" using assms by blast
  have "raft_last_index rl = of_nat (length es)" using b(1,2) by (auto simp: raft_last_index_def)
  moreover have "raft_last_term rl = term_of_last es" using p by (simp add: raft_last_term_def raft_parts_def)
  moreover have "raft_log_read rl (1 + of_nat i) = Inr (es ! i)" "raft_term_at rl (1 + of_nat i) = Inr (re_term (es ! i))"
    if "i < length es" for i
    using raft_read_holds[OF p(2), of i] el.term_law[OF d, of "1 + of_nat i"] raft_index[OF p(2), of i] that p(1) by auto
  moreover have "raft_log_scan_from rl (1 + of_nat i) = Inr (drop i es)" if "i \<le> length es" for i
    using raft_scan_holds[OF p(2), of i] that p(1) by simp
  ultimately show ?thesis using el.truncate_law[OF d] el.append_law[OF d] el.append_reject[OF d] by blast
qed

definition empty_raft_log :: "Config \<Rightarrow> RaftLog" where
  "empty_raft_log c = \<lparr>rl_config = c, rl_segments = [fresh_segment c 1], rl_next_index = 1, rl_last_term = 0,
     rl_durable_index = 0, rl_recovery_required = False, rl_directory_dirty = False\<rparr>"

lemma empty_raft_log_holds:
  assumes "roomy c" "initial_lsn c = 1"
  shows "raft_parts (empty_raft_log c) [[]]" "raft_synced (empty_raft_log c)"
proof -
  have f: "segment_holds raft_encode re_idx (fresh_segment c 1) [] []" "sg_base (fresh_segment c 1) = 1"
    "sg_next (fresh_segment c 1) = 1" "sg_config (fresh_segment c 1) = c"
    using fresh_segment_holds[of 1] by simp_all
  then have "\<exists>bs. segment_holds raft_encode re_idx (fresh_segment c 1) [] bs" by blast
  then show "raft_parts (empty_raft_log c) [[]]"
    using f assms by (simp add: raft_parts_def empty_raft_log_def term_of_last_def)
  show "raft_synced (empty_raft_log c)"
    using raft.segment_synced_iff[OF f(1)] by (simp add: raft_synced_def empty_raft_log_def)
qed

lemma new_raft_log_opens:
  assumes "roomy c" "new_RaftLog c = Inr rl0"
  shows "raft_log_open rl0 [] = Inr (empty_raft_log c)"
proof -
  have c: "rl_segments rl0 = []" "rl_config rl0 = c"
    "rl_recovery_required rl0 = False" "rl_directory_dirty rl0 = False"
    using assms(2) by (auto simp: new_RaftLog_def split: if_split_asm)
  then show ?thesis
    using raft_create_segment_eq[of rl0 1] assms(1) fresh_segment_holds(5)[of 1 c]
    by (cases rl0) (simp add: raft_log_open_def drop_orphans_def empty_raft_log_def Let_def)
qed

definition tiny_raft_config :: Config where
  "tiny_raft_config = \<lparr>max_index_bytes = 12, max_store_bytes = 1, initial_lsn = 1\<rparr>"

definition tiny_entry :: "u64 \<Rightarrow> u64 \<Rightarrow> RaftMutationEntry" where
  "tiny_entry t i = \<lparr>re_term = t, re_idx = i, re_operations = []\<rparr>"

lemma tiny_raft: "roomy tiny_raft_config" "initial_lsn tiny_raft_config = 1"
  by (simp_all add: roomy_def tiny_raft_config_def config_validate_def ENTRY_SIZE_def)

lemma tiny_raft_log: "raft_log_holds (empty_raft_log tiny_raft_config) []" "raft_synced (empty_raft_log tiny_raft_config)"
  using raft_holdsI[OF empty_raft_log_holds(1)[OF tiny_raft]] empty_raft_log_holds(2)[OF tiny_raft] by simp_all

lemma tiny_entry_encodes:
  "t \<noteq> 0 \<Longrightarrow> i \<noteq> 0 \<Longrightarrow> raft_encode (tiny_entry t i) = Inr (entry_image (tiny_entry t i))"
  "small (entry_image (tiny_entry t i))"
  by (simp_all add: raft_encode_iff entry_ok_def tiny_entry_def entry_image_def small_def)

theorem raft_log_refines_list_witness:
  "\<exists>rl'. append_from_leader (\<lambda>_. (no_faults, no_faults)) (empty_raft_log tiny_raft_config) 1 [tiny_entry 3 1, tiny_entry 3 2] = (Inr (), rl') \<and>
     raft_log_holds rl' [tiny_entry 3 1, tiny_entry 3 2]"
proof -
  have "check_batch 1 [tiny_entry 3 1, tiny_entry 3 2] = Inr ()"
    by (simp add: tiny_entry_encodes) (simp add: tiny_entry_def)
  moreover have "\<forall>x\<in>set [tiny_entry 3 1, tiny_entry 3 2]. \<forall>b. raft_encode x = Inr b \<longrightarrow> small b"
    by (simp add: tiny_entry_encodes)
  ultimately show ?thesis
    using raft_log_refines_list[OF tiny_raft_log, THEN conjunct2, THEN conjunct2, THEN conjunct2, THEN conjunct2, THEN conjunct2,
        rule_format, of "[tiny_entry 3 1, tiny_entry 3 2]"] by (auto simp del: check_batch.simps)
qed

section \<open>Truncation is not atomic\<close>

text \<open>The directory after the first step of a truncation: the segment that holds the boundary is cut, the
  segments behind it are still there.\<close>

definition interrupted_truncation :: "RaftLog \<Rightarrow> u64 \<Rightarrow> directory" where
  "interrupted_truncation rl n =
     (let segs = rl_segments rl; t = truncation_target segs n
      in segment_dir (segs[t := snd (segment_truncate_suffix (segs ! t) n)]))"

text \<open>C27: A truncation that reaches back into an earlier segment cuts that segment before it deletes the
  later ones.  If the process stops in between, the log cannot be opened any more.\<close>

theorem interrupted_truncation_blocks_open:
  assumes "raft_log_holds rl es" "i < length es" "new_RaftLog (rl_config rl) = Inr rl0"
    "Suc (truncation_target (rl_segments rl) (1 + of_nat i)) < length (rl_segments rl)"
    "1 + of_nat i \<noteq> sg_next (rl_segments rl ! truncation_target (rl_segments rl) (1 + of_nat i))"
  shows "raft_log_open rl0 (interrupted_truncation rl (1 + of_nat i)) = Inl Runtime_error"
proof -
  let ?ss = "rl_segments rl" let ?c = "rl_config rl" let ?n = "1 + of_nat i :: u64"
  obtain ess where p: "es = concat ess" "raft_parts rl ess" using assms(1) by (auto simp: raft_log_holds_def)
  have ch: "segment_chain raft_encode re_idx 1 ?ss ess (rl_next_index rl)" "?ss \<noteq> []" "\<forall>q\<in>set (butlast ess). q \<noteq> []"
    "config_validate ?c = Inr ()"
    using p by (simp_all add: raft_parts_def roomy_def)
  have il: "i \<le> length (concat ess)" using assms(2) p(1) by simp
  obtain ss1 s ss2 rs bs j where t: "?ss = ss1 @ s # ss2" "truncation_target ?ss ?n = length ss1"
    "segment_holds raft_encode re_idx s rs bs" "j \<le> length rs" "?n = sg_base s + of_nat j"
    using raft.chain_target[OF ch(1) il ch(2)] by blast
  have "Suc (length ss1) < length ?ss" using assms(4) unfolding t(2) .
  then have ss2: "ss2 \<noteq> []" using t(1) by auto
  have "?n \<noteq> sg_next (?ss ! length ss1)" using assms(5) unfolding t(2) .
  then have "?n \<noteq> sg_next s" by (simp add: t(1))
  then have jl: "j < length rs" using t(4,5) raft.holds_bounds(5)[OF t(3)] by (cases "j = length rs") auto
  obtain g where g: "segment_truncate_suffix s ?n = (Inr (), g)" "segment_holds raft_encode re_idx g (take j rs) (take j bs)" "sg_base g = sg_base s"
    using raft.truncate_holds[OF t(3,4)] unfolding t(5) by blast
  have lb: "length rs = length bs" using t(3) encodings_nth(1)[of raft_encode rs bs] by (simp add: segment_holds_def)
  have fr: "take (length (frames (take j bs))) (frames bs) = frames (take j bs)"
    by (metis append_eq_conv_conj append_take_drop_id frames_simps(3))
  have files: "f_data (st_file (sg_store g)) = take (length (frames (take j bs))) (f_data (st_file (sg_store s)))"
    "f_data (ix_file (sg_index g)) = take (12 * j) (f_data (ix_file (sg_index s)))"
    using g(2) t(3) fr by (simp_all add: segment_holds_def store_holds_def index_holds_def take_index_image take_offsets)
  let ?dir = "segment_dir (ss1 @ g # ss2)" let ?len = "length (frames (take j bs))"
  have dir: "interrupted_truncation rl ?n = ?dir"
    using t(1,2) g(1) by (simp add: interrupted_truncation_def Let_def)
  have dist: "distinct (map sg_base (ss1 @ s # ss2))" using raft_parts_distinct[OF p(2)] t(1) by simp
  let ?cs = "\<lambda>b. if b = sg_base s then ?len else files_bound (ss1 @ ss2)"
  let ?ci = "\<lambda>b. if b = sg_base s then 12 * j else files_bound (ss1 @ ss2)"
  have cut: "cut_dir ?cs ?ci ?ss ?dir" unfolding t(1) by (rule cut_replace_dir(1)[OF dist g(3) files])
  have "?len < length (frames bs)"
  proof -
    have "frames bs = frames (take j bs) @ frames (drop j bs)" by (metis append_take_drop_id frames_simps(3))
    moreover have "drop j bs = bs ! j # drop (Suc j) bs" using jl lb by (simp add: Cons_nth_drop_Suc)
    ultimately show ?thesis by simp
  qed
  then have "?cs (sg_base s) < file_size (st_file (sg_store s))" using t(3) by (simp add: segment_holds_def store_holds_def file_size_def)
  moreover have "s \<in> set (butlast ?ss)" using ss2 by (simp add: t(1) butlast_append)
  ultimately have "open_segments raft_decode re_idx ?c ?dir (both_files ?ss) 1 = Inl Runtime_error"
    using raft.open_broken_chain[OF ch(1,3,4), of ?dir ?cs ?ci] cut unfolding cut_dir_def by blast
  moreover have "discover (map fst ?dir) [] = Inr (both_files ?ss)"
    using raft.discover_cut_dir[OF ch(1,3)] cut unfolding cut_dir_def by blast
  ultimately show ?thesis
    using new_RaftLog_fields[OF assms(3)] ch(2) unfolding dir by (simp add: raft_log_open_def drop_orphans_none)
qed

lemma two_segments:
  "\<exists>rl s t. raft_log_holds rl [tiny_entry 3 1] \<and> rl_config rl = tiny_raft_config \<and> rl_segments rl = [s, t] \<and>
     sg_base s = 1 \<and> sg_next s = 2"
proof -
  let ?f = "fresh_segment tiny_raft_config 1" let ?t = "fresh_segment tiny_raft_config 2" let ?x = "tiny_entry 3 1"
  have f: "segment_holds raft_encode re_idx ?f [] []" "sg_base ?f = 1" "sg_next ?f = 1" "sg_config ?f = tiny_raft_config"
    "\<not> segment_is_maxed ?f"
    using fresh_segment_holds[of 1] by (simp_all add: segment_is_maxed_def)
  have t: "segment_holds raft_encode re_idx ?t [] []" "sg_base ?t = 2" "sg_next ?t = 2" "sg_config ?t = tiny_raft_config"
    using fresh_segment_holds[of 2] by simp_all
  note e = tiny_entry_encodes[of 3 1]
  obtain s where s: "segment_holds raft_encode re_idx s [?x] [entry_image ?x]" "sg_base s = 1" "sg_config s = tiny_raft_config"
    using raft.append_holds[OF f(1) _ e(1) e(2) raft.room_for_one[OF f(1) f(5) _ e(2)]] f tiny_raft(1)
    by (auto simp: tiny_entry_def)
  have n: "sg_next s = 2" using raft.holds_bounds(5)[OF s(1)] s(2) by simp
  let ?rl = "\<lparr>rl_config = tiny_raft_config, rl_segments = [s, ?t], rl_next_index = 2, rl_last_term = 3,
     rl_durable_index = 0, rl_recovery_required = False, rl_directory_dirty = False\<rparr>"
  have "\<exists>bs. segment_holds raft_encode re_idx s [?x] bs" "\<exists>bs. segment_holds raft_encode re_idx ?t [] bs"
    using s(1) t(1) by blast+
  then have "raft_parts ?rl [[?x], []]"
    using s t n tiny_raft by (simp add: raft_parts_def term_of_last_def tiny_entry_def)
  then have "raft_log_holds ?rl [?x]" using raft_holdsI by fastforce
  then show ?thesis using s(2) n by (rule_tac exI[of _ ?rl]) simp
qed

theorem interrupted_truncation_blocks_open_witness:
  "\<exists>rl rl0. raft_log_holds rl [tiny_entry 3 1] \<and> new_RaftLog (rl_config rl) = Inr rl0 \<and>
     raft_log_open rl0 (interrupted_truncation rl 1) = Inl Runtime_error"
proof -
  obtain rl s t where r: "raft_log_holds rl [tiny_entry 3 1]" "rl_config rl = tiny_raft_config" "rl_segments rl = [s, t]"
    "sg_base s = 1" "sg_next s = 2"
    using two_segments by blast
  have "\<exists>rl0. new_RaftLog tiny_raft_config = Inr rl0" using tiny_raft by (simp add: new_RaftLog_def roomy_def)
  then obtain rl0 where "new_RaftLog tiny_raft_config = Inr rl0" by blast
  then show ?thesis using interrupted_truncation_blocks_open[OF r(1), of 0 rl0] r by auto
qed

end
