(* ===== verification/RaftNode.thy ===== *)
theory RaftNode
  imports RaftState RaftProto RaftLog
begin

text \<open>
  The Raft service and the election of one node, after \<open>src/src/Raft/RaftServiceImpl.cpp\<close> and
  \<open>src/src/Raft/RaftElection.cpp\<close>.  A handler runs under the state mutex, so it is one step from a state and a log to
  a reply, a state and a log.  An exception that leaves a handler ends the call without a reply; the state and the
  log it had reached stay.  The faults of the hard-state store and of the log files are arguments.
\<close>

record RequestVoteRequest =
  rv_term :: u64
  rv_candidate :: string
  rv_last_log_idx :: u64
  rv_last_log_term :: u64

record RequestVoteResponse =
  rvr_term :: u64
  rvr_vote_granted :: bool

record AppendEntriesRequest =
  ae_term :: u64
  ae_leader :: string
  ae_prev_log_idx :: u64
  ae_prev_log_term :: u64
  ae_entries :: "ProtoEntry list"
  ae_leader_commit_idx :: u64

record AppendEntriesResponse =
  aer_term :: u64
  aer_success :: bool

datatype 'r rpc = Rpc_ok 'r | Rpc_invalid_argument | Rpc_thrown exn

section \<open>Votes\<close>

definition RequestVote ::
  "persist_fault \<times> persist_fault \<Rightarrow> timer \<times> timer \<Rightarrow> RaftState \<Rightarrow> RaftLog \<Rightarrow> RequestVoteRequest \<Rightarrow>
   RequestVoteResponse rpc \<times> RaftState" where
  "RequestVote faults tms rs rl request =
     (case from_string (rv_candidate request) of
        Inl _ \<Rightarrow> (Rpc_invalid_argument, rs)
      | Inr candidate \<Rightarrow>
          if \<not> is_peer rs candidate then (Rpc_invalid_argument, rs)
          else if rv_term request < rs_current_term rs
          then (Rpc_ok \<lparr>rvr_term = rs_current_term rs, rvr_vote_granted = False\<rparr>, rs)
          else
            (case (if rv_term request > rs_current_term rs
                  then become_follower (fst faults) (fst tms) rs (rv_term request) None else (Inr (), rs)) of
              (Inl e, rs) \<Rightarrow> (Rpc_thrown e, rs)
            | (Inr _, rs) \<Rightarrow>
                (case grant_vote (snd faults) rs candidate (rv_last_log_idx request) (rv_last_log_term request)
                        (raft_last_index rl) (raft_last_term rl) of
                   (Inl e, rs) \<Rightarrow> (Rpc_thrown e, rs)
                 | (Inr granted, rs) \<Rightarrow>
                     let rs = (if granted then reset_election_timer (snd tms) rs else rs)
                     in (Rpc_ok \<lparr>rvr_term = rs_current_term rs, rvr_vote_granted = granted\<rparr>, rs))))"

section \<open>Entries\<close>

fun from_proto_all :: "ProtoEntry list \<Rightarrow> RaftMutationEntry list res" where
  "from_proto_all [] = Inr []"
| "from_proto_all (p # ps) = res_bind (from_proto p) (\<lambda>x. res_bind (from_proto_all ps) (\<lambda>xs. Inr (x # xs)))"

text \<open>The search for the first entry that is missing or conflicts; a conflict truncates the log.\<close>

fun append_scan :: "bool \<Rightarrow> RaftLog \<Rightarrow> u64 \<Rightarrow> RaftMutationEntry list \<Rightarrow> nat \<Rightarrow> nat res \<times> RaftLog" where
  "append_scan remove_fails rl prev_index [] k = (Inr k, rl)"
| "append_scan remove_fails rl prev_index (x # xs) k =
     (let idx = prev_index + 1 + of_nat k
      in case raft_term_at rl idx of
           Inl e \<Rightarrow> (Inl e, rl)
         | Inr existing \<Rightarrow>
             if existing = 0 then (Inr k, rl)
             else if existing \<noteq> re_term x then
               (case raft_truncate_suffix remove_fails rl idx of
                  (Inl e, rl) \<Rightarrow> (Inl e, rl)
                | (Inr _, rl) \<Rightarrow> (Inr k, rl))
             else append_scan remove_fails rl prev_index xs (k + 1))"

record append_faults =
  af_persist :: persist_fault
  af_remove_fails :: bool
  af_append :: "u64 \<Rightarrow> io_faults \<times> io_faults"

text \<open>Recording the sender as leader.\<close>

definition follow_leader ::
  "persist_fault \<Rightarrow> timer \<Rightarrow> RaftState \<Rightarrow> u64 \<Rightarrow> NodeAddress \<Rightarrow> unit res \<times> RaftState" where
  "follow_leader fault tm rs term leader =
     (if term > rs_current_term rs \<or> rs_state rs \<noteq> Follower
      then become_follower fault tm rs term (Some leader)
      else (Inr (), reset_election_timer tm (set_leader_raft_address rs leader)))"

text \<open>Truncating, appending and synchronising: the log part of the handler.\<close>

definition store_entries ::
  "append_faults \<Rightarrow> RaftLog \<Rightarrow> u64 \<Rightarrow> RaftMutationEntry list \<Rightarrow> unit res \<times> RaftLog" where
  "store_entries faults rl prev_index entries =
     (case append_scan (af_remove_fails faults) rl prev_index entries 0 of
        (Inl e, rl) \<Rightarrow> (Inl e, rl)
      | (Inr new_from, rl) \<Rightarrow>
          (case (if new_from < length entries
                 then append_from_leader (af_append faults) rl (prev_index + 1 + of_nat new_from) (drop new_from entries)
                 else (Inr (), rl)) of
             (Inl e, rl) \<Rightarrow> (Inl e, rl)
           | (Inr _, rl) \<Rightarrow>
               let last_new_index = prev_index + of_nat (length entries)
               in if last_new_index > 0
                  then (case raft_sync_through rl last_new_index of Inl e \<Rightarrow> (Inl e, rl) | Inr rl \<Rightarrow> (Inr (), rl))
                  else (Inr (), rl)))"

definition advance_commit :: "RaftState \<Rightarrow> u64 \<Rightarrow> u64 \<Rightarrow> RaftState" where
  "advance_commit rs leader_commit last_new_index =
     (let commit_bound = min leader_commit last_new_index
      in if commit_bound > rs_commit_index rs
         then (case set_commit_index rs commit_bound of Some rs' \<Rightarrow> rs' | None \<Rightarrow> rs)
         else rs)"

definition AppendEntries ::
  "append_faults \<Rightarrow> timer \<Rightarrow> RaftState \<Rightarrow> RaftLog \<Rightarrow> AppendEntriesRequest \<Rightarrow>
   AppendEntriesResponse rpc \<times> RaftState \<times> RaftLog" where
  "AppendEntries faults tm rs rl request =
     (case from_string (ae_leader request) of
        Inl _ \<Rightarrow> (Rpc_invalid_argument, rs, rl)
      | Inr leader \<Rightarrow>
        (case from_proto_all (ae_entries request) of
           Inl _ \<Rightarrow> (Rpc_invalid_argument, rs, rl)
         | Inr entries \<Rightarrow>
             if \<not> is_peer rs leader then (Rpc_invalid_argument, rs, rl)
             else if ae_term request < rs_current_term rs
             then (Rpc_ok \<lparr>aer_term = rs_current_term rs, aer_success = False\<rparr>, rs, rl)
             else
               (case follow_leader (af_persist faults) tm rs (ae_term request) leader of
                 (Inl e, rs) \<Rightarrow> (Rpc_thrown e, rs, rl)
               | (Inr _, rs) \<Rightarrow>
                   let prev_index = ae_prev_log_idx request;
                       matches = (if prev_index > 0
                         then res_bind (raft_term_at rl prev_index) (\<lambda>t. Inr (t = ae_prev_log_term request)) else Inr True)
                   in (case matches of
                        Inl e \<Rightarrow> (Rpc_thrown e, rs, rl)
                      | Inr False \<Rightarrow> (Rpc_ok \<lparr>aer_term = rs_current_term rs, aer_success = False\<rparr>, rs, rl)
                      | Inr True \<Rightarrow>
                          (case store_entries faults rl prev_index entries of
                             (Inl e, rl) \<Rightarrow> (Rpc_thrown e, rs, rl)
                           | (Inr _, rl) \<Rightarrow>
                               let rs = advance_commit rs (ae_leader_commit_idx request) (prev_index + of_nat (length entries))
                               in (Rpc_ok \<lparr>aer_term = rs_current_term rs, aer_success = True\<rparr>, rs, rl))))))"

section \<open>Campaigns\<close>

datatype run_action = Stop | Again | Campaign

text \<open>One turn of the election thread: the state and clock when it has waited for not being leader, and those when
  it has waited for the deadline.\<close>

definition run_turn :: "nat \<Rightarrow> RaftState \<Rightarrow> nat \<Rightarrow> RaftState \<Rightarrow> run_action" where
  "run_turn now rs now' rs' =
     (if rs_shutting_down rs then Stop
      else if now < rs_election_deadline rs then
        (if rs_shutting_down rs' then Stop
         else if rs_state rs' = Leader \<or> now' < rs_election_deadline rs' then Again
         else Campaign)
      else Campaign)"

datatype campaign_start = Skipped | Won | Ask RequestVoteRequest "NodeAddress list"

definition campaign_begin :: "persist_fault \<Rightarrow> timer \<Rightarrow> RaftState \<Rightarrow> RaftLog \<Rightarrow> campaign_start res \<times> RaftState" where
  "campaign_begin fault tm rs rl =
     (if rs_shutting_down rs \<or> rs_state rs = Leader then (Inr Skipped, rs)
      else
        case become_candidate fault tm rs of
          (Inl e, rs) \<Rightarrow> (Inl e, rs)
        | (Inr _, rs) \<Rightarrow>
            let sent_term = rs_current_term rs;
                majority = rs_cluster_size rs div 2 + 1;
                last_log_index = raft_last_index rl;
                last_log_term = raft_last_term rl
            in if majority \<le> 1 then (Inr Won, become_leader rs last_log_index)
               else (Inr (Ask \<lparr>rv_term = sent_term, rv_candidate = to_string (rs_self_raft_address rs),
                               rv_last_log_idx = last_log_index, rv_last_log_term = last_log_term\<rparr> (rs_peers rs)), rs))"

definition campaign_reply ::
  "persist_fault \<Rightarrow> timer \<Rightarrow> RaftState \<Rightarrow> RaftLog \<Rightarrow> u64 \<Rightarrow> NodeAddress \<Rightarrow> RequestVoteResponse \<Rightarrow> bool res \<times> RaftState" where
  "campaign_reply fault tm rs rl sent_term peer response =
     (if rvr_term response > rs_current_term rs then
        (case become_follower fault tm rs (rvr_term response) None of
           (Inl e, rs) \<Rightarrow> (Inl e, rs)
         | (Inr _, rs) \<Rightarrow> (Inr False, rs))
      else if sent_term \<noteq> rs_current_term rs \<or> rs_state rs \<noteq> Candidate then (Inr False, rs)
      else if \<not> rvr_vote_granted response then (Inr False, rs)
      else
        case record_vote rs peer of
          (True, rs) \<Rightarrow> (Inr True, become_leader rs (raft_last_index rl))
        | (False, rs) \<Rightarrow> (Inr False, rs))"

section \<open>What a node keeps\<close>

text \<open>The facts about one step of a node that the cluster needs.\<close>

definition node_step_ok :: "RaftState \<Rightarrow> RaftState \<Rightarrow> bool" where
  "node_step_ok rs rs' = (rs_durable rs' \<and> same_config rs rs' \<and> hard_state_older (mem_state rs) (mem_state rs'))"

lemma node_step_refl: "rs_durable rs \<Longrightarrow> node_step_ok rs rs"
  by (simp add: node_step_ok_def)

lemma node_step_trans: "node_step_ok rs rs1 \<Longrightarrow> node_step_ok rs1 rs2 \<Longrightarrow> node_step_ok rs rs2"
  unfolding node_step_ok_def using hard_state_older_trans same_config_trans by blast

lemma follower_step:
  assumes "become_follower fault tm rs t l = (r, rs')" "rs_durable rs"
  shows "node_step_ok rs rs'" "steady rs rs'"
  using become_follower_ok[OF assms] by (simp_all add: node_step_ok_def)

lemma timer_term: "rs_current_term (if b then reset_election_timer tm rs else rs) = rs_current_term rs"
  by simp

lemma RequestVote_ok:
  assumes "RequestVote faults tms rs rl req = (r, rs')" "rs_durable rs"
  shows "node_step_ok rs rs'" "steady rs rs'"
    "r = Rpc_ok resp \<Longrightarrow> rvr_vote_granted resp \<Longrightarrow> \<exists>c. from_string (rv_candidate req) = Inr c \<and> rvr_term resp = rv_term req \<and>
       rs_current_term rs' = rv_term req \<and> rs_voted_for rs' = Some c"
proof -
  let ?ok = "node_step_ok rs rs' \<and> steady rs rs' \<and> (r = Rpc_ok resp \<and> rvr_vote_granted resp \<longrightarrow>
    (\<exists>c. from_string (rv_candidate req) = Inr c \<and> rvr_term resp = rv_term req \<and>
       rs_current_term rs' = rv_term req \<and> rs_voted_for rs' = Some c))"
  have same: ?ok if "rs' = rs" "\<forall>x. r = Rpc_ok x \<longrightarrow> \<not> rvr_vote_granted x"
    using that node_step_refl[OF assms(2)] by auto
  have ?ok
  proof (cases "from_string (rv_candidate req)")
    case (Inl e)
    then show ?thesis using assms(1) by (intro same) (simp_all add: RequestVote_def)
  next
    case (Inr c)
    show ?thesis
    proof (cases "is_peer rs c \<and> \<not> rv_term req < rs_current_term rs")
      case False
      then show ?thesis using assms(1) Inr by (intro same) (auto simp: RequestVote_def split: if_split_asm)
    next
      case True
      let ?f = "if rv_term req > rs_current_term rs then become_follower (fst faults) (fst tms) rs (rv_term req) None else (Inr (), rs)"
      obtain q rs1 where f: "?f = (q, rs1)" by fastforce
      have one: "node_step_ok rs rs1" "steady rs rs1" "q = Inr () \<Longrightarrow> rs_current_term rs1 = rv_term req"
        using f True follower_step[OF _ assms(2)] become_follower_ok(5)[OF _ assms(2)] node_step_refl[OF assms(2)]
        by (auto split: if_split_asm simp: max_def)
      let ?g = "grant_vote (snd faults) rs1 c (rv_last_log_idx req) (rv_last_log_term req) (raft_last_index rl) (raft_last_term rl)"
      obtain g rs2 where g: "?g = (g, rs2)" by fastforce
      have "rs_durable rs1" using one(1) by (simp add: node_step_ok_def)
      note k = grant_vote_ok[OF g this from_string_host[OF Inr]]
      have two: "node_step_ok rs rs2" "steady rs rs2"
        using node_step_trans[OF one(1), of rs2] steady_trans[OF one(2) k(3)] k by (simp_all add: node_step_ok_def)
      have three: "node_step_ok rs (reset_election_timer (snd tms) rs2)" using two(1) by (simp add: node_step_ok_def)
      have e: "(r, rs') = (case q of Inl e \<Rightarrow> (Rpc_thrown e, rs1) | Inr _ \<Rightarrow> (case g of Inl e \<Rightarrow> (Rpc_thrown e, rs2)
          | Inr b \<Rightarrow> (Rpc_ok \<lparr>rvr_term = rs_current_term rs2, rvr_vote_granted = b\<rparr>,
              if b then reset_election_timer (snd tms) rs2 else rs2)))"
        using assms(1) Inr True f g by (cases q; cases g) (simp_all add: RequestVote_def Let_def timer_term)
      show ?thesis
      proof (cases q)
        case (Inl x)
        then show ?thesis using e one by simp
      next
        case q: (Inr x)
        have v: "from_string (rv_candidate req) = Inr c" "rs_current_term rs2 = rv_term req" "g = Inr True \<Longrightarrow> rs_voted_for rs2 = Some c"
          using Inr one(3) q k(5,6) by simp_all
        show ?thesis
        proof (cases g)
          case (Inl y)
          then show ?thesis using e two q by simp
        next
          case g: (Inr b)
          show ?thesis using e two three v unfolding q g by (cases b) auto
        qed
      qed
    qed
  qed
  then show "node_step_ok rs rs'" "steady rs rs'"
    "r = Rpc_ok resp \<Longrightarrow> rvr_vote_granted resp \<Longrightarrow> \<exists>c. from_string (rv_candidate req) = Inr c \<and> rvr_term resp = rv_term req \<and>
       rs_current_term rs' = rv_term req \<and> rs_voted_for rs' = Some c" by blast+
qed

lemma follow_leader_ok:
  assumes "follow_leader fault tm rs t l = (r, rs')" "rs_durable rs"
  shows "node_step_ok rs rs'" "steady rs rs'" "rs_commit_index rs' = rs_commit_index rs"
proof -
  have "node_step_ok rs rs' \<and> steady rs rs' \<and> rs_commit_index rs' = rs_commit_index rs"
  proof (cases "t > rs_current_term rs \<or> rs_state rs \<noteq> Follower")
    case True
    then have "become_follower fault tm rs t (Some l) = (r, rs')" using assms(1) by (simp add: follow_leader_def)
    then show ?thesis using follower_step[OF _ assms(2)] become_follower_ok(6)[OF _ assms(2)] by blast
  next
    case False
    then have rs': "rs' = reset_election_timer tm (rs\<lparr>rs_leader_raft_address := Some l\<rparr>)"
      using assms(1) by (simp add: follow_leader_def set_leader_raft_address_def)
    show ?thesis using assms(2) unfolding rs'
      by (simp add: node_step_ok_def) (simp add: rs_durable_def mem_state_def same_config_def steady_def)
  qed
  then show "node_step_ok rs rs'" "steady rs rs'" "rs_commit_index rs' = rs_commit_index rs" by blast+
qed

lemma commit_step:
  "node_step_ok rs (rs'\<lparr>rs_commit_index := c\<rparr>) = node_step_ok rs rs'" "steady rs (rs'\<lparr>rs_commit_index := c\<rparr>) = steady rs rs'"
  by (simp_all add: node_step_ok_def rs_durable_def mem_state_def same_config_def steady_def)

lemma advance_commit_eq: "advance_commit rs a b = rs\<lparr>rs_commit_index := max (rs_commit_index rs) (min a b)\<rparr>"
proof -
  define m where "m = min a b"
  have "(if m > rs_commit_index rs then case set_commit_index rs m of Some rs' \<Rightarrow> rs' | None \<Rightarrow> rs else rs)
      = rs\<lparr>rs_commit_index := max (rs_commit_index rs) m\<rparr>"
    by (cases "m > rs_commit_index rs") (simp_all add: set_commit_index_def max_absorb1 max_absorb2)
  then show ?thesis unfolding advance_commit_def Let_def m_def .
qed

lemma AppendEntries_state:
  assumes "AppendEntries faults tm rs rl req = (r, rs', rl')"
  shows "rs' = rs \<or> (\<exists>leader q rs1 c. follow_leader (af_persist faults) tm rs (ae_term req) leader = (q, rs1) \<and>
    rs' = rs1\<lparr>rs_commit_index := max (rs_commit_index rs1) c\<rparr>)"
proof (cases "from_string (ae_leader req)"; cases "from_proto_all (ae_entries req)")
  fix leader entries
  assume pre: "from_string (ae_leader req) = Inr leader" "from_proto_all (ae_entries req) = Inr entries"
  let ?prev = "ae_prev_log_idx req"
  obtain q rs1 where f: "follow_leader (af_persist faults) tm rs (ae_term req) leader = (q, rs1)" by fastforce
  define m where "m = (if ?prev > 0 then res_bind (raft_term_at rl ?prev) (\<lambda>t. Inr (t = ae_prev_log_term req)) else Inr True)"
  obtain u rl1 where se: "store_entries faults rl ?prev entries = (u, rl1)" by fastforce
  have "rs1 = rs1\<lparr>rs_commit_index := max (rs_commit_index rs1) 0\<rparr>" by (simp add: max_absorb1)
  then have keep: ?thesis if "rs' = rs1" using that f by blast
  have raise: ?thesis if "rs' = advance_commit rs1 a b" for a b using that f unfolding advance_commit_eq by blast
  show ?thesis
  proof (cases "\<not> is_peer rs leader \<or> ae_term req < rs_current_term rs")
    case True
    then show ?thesis using assms pre by (auto simp: AppendEntries_def split: if_split_asm)
  next
    case False
    note e = assms[unfolded AppendEntries_def Let_def, folded m_def]
    show ?thesis
    proof (cases q)
      case (Inl x)
      then show ?thesis using e pre f False by (intro keep) simp
    next
      case q: (Inr x)
      show ?thesis
      proof (cases m)
        case (Inl y)
        then show ?thesis using e pre f False q by (intro keep) simp
      next
        case m: (Inr b)
        show ?thesis
        proof (cases "b \<and> u = Inr ()")
          case True
          then have "rs' = advance_commit rs1 (ae_leader_commit_idx req) (?prev + of_nat (length entries))"
            using e pre f False q m se by simp
          then show ?thesis by (rule raise)
        next
          case no: False
          then show ?thesis using e pre f False q m se by (intro keep; cases b; cases u) simp_all
        qed
      qed
    qed
  qed
qed (use assms in \<open>simp_all add: AppendEntries_def\<close>)

lemma AppendEntries_ok:
  assumes "AppendEntries faults tm rs rl req = (r, rs', rl')" "rs_durable rs"
  shows "node_step_ok rs rs'" "steady rs rs'" "rs_commit_index rs \<le> rs_commit_index rs'"
proof -
  have "node_step_ok rs rs' \<and> steady rs rs' \<and> rs_commit_index rs \<le> rs_commit_index rs'"
    using AppendEntries_state[OF assms(1)]
  proof
    assume "rs' = rs"
    then show ?thesis using node_step_refl[OF assms(2)] by simp
  next
    assume "\<exists>leader q rs1 c. follow_leader (af_persist faults) tm rs (ae_term req) leader = (q, rs1) \<and>
      rs' = rs1\<lparr>rs_commit_index := max (rs_commit_index rs1) c\<rparr>"
    then obtain leader q rs1 c where f: "follow_leader (af_persist faults) tm rs (ae_term req) leader = (q, rs1)"
      and rs': "rs' = rs1\<lparr>rs_commit_index := max (rs_commit_index rs1) c\<rparr>" by blast
    show ?thesis using follow_leader_ok[OF f assms(2)] by (simp add: rs' commit_step)
  qed
  then show "node_step_ok rs rs'" "steady rs rs'" "rs_commit_index rs \<le> rs_commit_index rs'" by blast+
qed

lemma become_leader_simps [simp]:
  "rs_current_term (become_leader rs i) = rs_current_term rs" "rs_votes (become_leader rs i) = rs_votes rs"
  "rs_state (become_leader rs i) = Leader" "same_config rs' (become_leader rs i) = same_config rs' rs"
  "mem_state (become_leader rs i) = mem_state rs" "rs_durable (become_leader rs i) = rs_durable rs"
  "rs_voted_for (become_leader rs i) = rs_voted_for rs" "rs_cluster_size (become_leader rs i) = rs_cluster_size rs"
  by (simp_all add: become_leader_def same_config_def mem_state_def rs_durable_def)

lemma campaign_begin_ok:
  assumes "campaign_begin fault tm rs rl = (r, rs')" "rs_durable rs" "host (rs_self_raft_address rs) \<noteq> []"
  shows "node_step_ok rs rs'"
    "(r = Inr Skipped \<or> (\<exists>e. r = Inl e)) \<and> steady rs rs' \<or>
     (r \<noteq> Inr Skipped \<and> (\<exists>x. r = Inr x) \<and> rs_current_term rs < rs_current_term rs' \<and>
      rs_voted_for rs' = Some (rs_self_raft_address rs) \<and> rs_votes rs' = [] \<and>
      (if r = Inr Won then rs_cluster_size rs \<le> 1 else rs_state rs' = Candidate))"
proof -
  let ?R = "node_step_ok rs rs' \<and>
    ((r = Inr Skipped \<or> (\<exists>e. r = Inl e)) \<and> steady rs rs' \<or>
     (r \<noteq> Inr Skipped \<and> (\<exists>x. r = Inr x) \<and> rs_current_term rs < rs_current_term rs' \<and>
      rs_voted_for rs' = Some (rs_self_raft_address rs) \<and> rs_votes rs' = [] \<and>
      (if r = Inr Won then rs_cluster_size rs \<le> 1 else rs_state rs' = Candidate)))"
  have ?R
  proof (cases "rs_shutting_down rs \<or> rs_state rs = Leader")
    case True
    then show ?thesis using assms(1) node_step_refl[OF assms(2)] by (auto simp: campaign_begin_def)
  next
    case False
    obtain q rs1 where c: "become_candidate fault tm rs = (q, rs1)" by fastforce
    note k = become_candidate_ok[OF c assms(2,3)]
    have sz: "rs_cluster_size rs1 = rs_cluster_size rs" using k(2) by (simp add: same_config_def)
    have old: "hard_state_older (mem_state rs) (mem_state rs1)"
      using k(3) by (auto simp: hard_state_older_def mem_state_def split: sum.split_asm)
    show ?thesis
    proof (cases q)
      case (Inl e)
      then show ?thesis using assms(1) c k old False by (auto simp: campaign_begin_def node_step_ok_def)
    next
      case (Inr u)
      then show ?thesis
        using assms(1) c k old False sz by (auto simp: campaign_begin_def node_step_ok_def Let_def split: if_split_asm)
    qed
  qed
  then show "node_step_ok rs rs'"
    "(r = Inr Skipped \<or> (\<exists>e. r = Inl e)) \<and> steady rs rs' \<or>
     (r \<noteq> Inr Skipped \<and> (\<exists>x. r = Inr x) \<and> rs_current_term rs < rs_current_term rs' \<and>
      rs_voted_for rs' = Some (rs_self_raft_address rs) \<and> rs_votes rs' = [] \<and>
      (if r = Inr Won then rs_cluster_size rs \<le> 1 else rs_state rs' = Candidate))" by blast+
qed

lemma campaign_reply_ok:
  assumes "campaign_reply fault tm rs rl t p resp = (r, rs')" "rs_durable rs"
  shows "node_step_ok rs rs'"
    "r \<noteq> Inr True \<and> steady rs rs' \<or>
     (rvr_vote_granted resp \<and> t = rs_current_term rs \<and> rs_state rs = Candidate \<and> rs_current_term rs' = t \<and>
      rs_votes rs' = List.insert p (rs_votes rs) \<and>
      (r = Inr True \<longrightarrow> length (rs_votes rs') + 1 \<ge> rs_cluster_size rs div 2 + 1) \<and>
      (rs_state rs' = Leader \<longrightarrow> r = Inr True))"
proof -
  let ?V = "rs\<lparr>rs_votes := List.insert p (rs_votes rs)\<rparr>"
  have v: "rs_durable ?V" "mem_state ?V = mem_state rs" "same_config rs ?V"
    using assms(2) by (simp_all add: rs_durable_def mem_state_def same_config_def)
  let ?R = "node_step_ok rs rs' \<and>
    (r \<noteq> Inr True \<and> steady rs rs' \<or>
     (rvr_vote_granted resp \<and> t = rs_current_term rs \<and> rs_state rs = Candidate \<and> rs_current_term rs' = t \<and>
      rs_votes rs' = List.insert p (rs_votes rs) \<and>
      (r = Inr True \<longrightarrow> length (rs_votes rs') + 1 \<ge> rs_cluster_size rs div 2 + 1) \<and>
      (rs_state rs' = Leader \<longrightarrow> r = Inr True)))"
  have ?R
  proof (cases "rvr_term resp > rs_current_term rs")
    case True
    obtain q rs1 where f: "become_follower fault tm rs (rvr_term resp) None = (q, rs1)" by fastforce
    then have "rs' = rs1 \<and> r \<noteq> Inr True" using assms(1) True by (cases q) (auto simp: campaign_reply_def)
    then show ?thesis using follower_step[OF f assms(2)] by simp
  next
    case False
    then show ?thesis
      using assms(1) v node_step_refl[OF assms(2)]
      by (cases "fst (record_vote rs p)")
        (auto simp: campaign_reply_def record_vote_def node_step_ok_def Let_def split: if_split_asm)
  qed
  then show "node_step_ok rs rs'"
    "r \<noteq> Inr True \<and> steady rs rs' \<or>
     (rvr_vote_granted resp \<and> t = rs_current_term rs \<and> rs_state rs = Candidate \<and> rs_current_term rs' = t \<and>
      rs_votes rs' = List.insert p (rs_votes rs) \<and>
      (r = Inr True \<longrightarrow> length (rs_votes rs') + 1 \<ge> rs_cluster_size rs div 2 + 1) \<and>
      (rs_state rs' = Leader \<longrightarrow> r = Inr True))" by blast+
qed

end
