(* ===== verification/RaftCluster.thy ===== *)
theory RaftCluster
  imports RaftNode
begin

text \<open>
  A cluster of nodes that elect leaders.  Each node runs the handlers and campaigns of the previous theory on its
  own state, log and disk; the disk may fail at any call and the machine may lose power at any time, which loses
  whatever was not forced.  Requests may be anything: lost, repeated, reordered or forged.  Only replies are
  genuine, that is, produced by the node they come from for the request they answer.  Whatever happens, no term has
  two leaders.
\<close>

datatype phase = Up RaftState | Down RaftHardStateStore

record node =
  nd_phase :: phase
  nd_log :: RaftLog

text \<open>The replies sent so far, and two histories: the votes given (voter, term, candidate) and the elections won
  (term, leader).\<close>

record cluster =
  cl_nodes :: "NodeAddress \<Rightarrow> node"
  cl_replies :: "(NodeAddress \<times> RequestVoteRequest \<times> RequestVoteResponse) set"
  cl_granted :: "(NodeAddress \<times> u64 \<times> NodeAddress) set"
  cl_elected :: "(u64 \<times> NodeAddress) set"

definition node_store :: "node \<Rightarrow> RaftHardStateStore" where
  "node_store n = (case nd_phase n of Up rs \<Rightarrow> rs_store rs | Down st \<Rightarrow> st)"

text \<open>What a handled vote request adds to the histories.\<close>

definition vote_given :: "NodeAddress \<Rightarrow> RequestVoteRequest \<Rightarrow> RequestVoteResponse rpc \<Rightarrow> (NodeAddress \<times> u64 \<times> NodeAddress) set" where
  "vote_given a req r =
     {(a, rvr_term resp, c) | resp c. r = Rpc_ok resp \<and> rvr_vote_granted resp \<and> from_string (rv_candidate req) = Inr c}"

definition own_vote :: "NodeAddress \<Rightarrow> campaign_start res \<Rightarrow> RaftState \<Rightarrow> (NodeAddress \<times> u64 \<times> NodeAddress) set" where
  "own_vote a r rs = (case r of Inl _ \<Rightarrow> {} | Inr Skipped \<Rightarrow> {} | Inr _ \<Rightarrow> {(a, rs_current_term rs, a)})"

inductive cluster_step :: "ClusterMember list \<Rightarrow> cluster \<Rightarrow> cluster \<Rightarrow> bool" for members where
  start: "nd_phase (cl_nodes s a) = Down st \<Longrightarrow> hs_open dir st = (Inr (), st') \<Longrightarrow>
    new_RaftState members sc st' la tm = Inr rs \<Longrightarrow> rs_self_raft_address rs = a \<Longrightarrow>
    cluster_step members s (s\<lparr>cl_nodes := (cl_nodes s)(a := \<lparr>nd_phase = Up rs, nd_log = rl\<rparr>)\<rparr>)"
| power_loss: "nd_phase (cl_nodes s a) = Up rs \<Longrightarrow>
    cluster_step members s
      (s\<lparr>cl_nodes := (cl_nodes s)(a := (cl_nodes s a)\<lparr>nd_phase := Down (hs_power_loss keep (rs_store rs))\<rparr>)\<rparr>)"
| log_written: "cluster_step members s (s\<lparr>cl_nodes := (cl_nodes s)(a := (cl_nodes s a)\<lparr>nd_log := rl\<rparr>)\<rparr>)"
| vote: "nd_phase (cl_nodes s a) = Up rs \<Longrightarrow> RequestVote faults tms rs (nd_log (cl_nodes s a)) req = (r, rs') \<Longrightarrow>
    cluster_step members s
      (s\<lparr>cl_nodes := (cl_nodes s)(a := (cl_nodes s a)\<lparr>nd_phase := Up rs'\<rparr>),
         cl_replies := cl_replies s \<union> {(a, req, resp) | resp. r = Rpc_ok resp},
         cl_granted := cl_granted s \<union> vote_given a req r\<rparr>)"
| append: "nd_phase (cl_nodes s a) = Up rs \<Longrightarrow> AppendEntries afaults tm rs (nd_log (cl_nodes s a)) areq = (ar, rs', rl') \<Longrightarrow>
    cluster_step members s (s\<lparr>cl_nodes := (cl_nodes s)(a := \<lparr>nd_phase = Up rs', nd_log = rl'\<rparr>)\<rparr>)"
| campaign: "nd_phase (cl_nodes s a) = Up rs \<Longrightarrow> campaign_begin fault tm rs (nd_log (cl_nodes s a)) = (cr, rs') \<Longrightarrow>
    cluster_step members s
      (s\<lparr>cl_nodes := (cl_nodes s)(a := (cl_nodes s a)\<lparr>nd_phase := Up rs'\<rparr>),
         cl_granted := cl_granted s \<union> own_vote a cr rs',
         cl_elected := cl_elected s \<union> (if cr = Inr Won then {(rs_current_term rs', a)} else {})\<rparr>)"
| reply: "nd_phase (cl_nodes s a) = Up rs \<Longrightarrow> (p, req, resp) \<in> cl_replies s \<Longrightarrow> p \<in> set (rs_peers rs) \<Longrightarrow>
    rv_candidate req = to_string (rs_self_raft_address rs) \<Longrightarrow>
    campaign_reply fault tm rs (nd_log (cl_nodes s a)) (rv_term req) p resp = (b, rs') \<Longrightarrow>
    cluster_step members s
      (s\<lparr>cl_nodes := (cl_nodes s)(a := (cl_nodes s a)\<lparr>nd_phase := Up rs'\<rparr>),
         cl_elected := cl_elected s \<union> (if b = Inr True then {(rs_current_term rs', a)} else {})\<rparr>)"

definition new_store :: RaftHardStateStore where
  "new_store = \<lparr>hs_directory = [], hs_state = no_hard_state, hs_file = None, hs_forced = None\<rparr>"

inductive reachable :: "ClusterMember list \<Rightarrow> cluster \<Rightarrow> bool" for members where
  initial: "(\<And>a. nd_phase (cl_nodes s a) = Down new_store) \<Longrightarrow> cl_replies s = {} \<Longrightarrow> cl_granted s = {} \<Longrightarrow> cl_elected s = {} \<Longrightarrow>
    reachable members s"
| step: "reachable members s \<Longrightarrow> cluster_step members s s' \<Longrightarrow> reachable members s'"

inductive_cases cluster_stepE: "cluster_step members s s'"

section \<open>Votes\<close>

text \<open>The contract between the disks of the nodes and the votes that were given: every vote is covered by what its
  voter has forced to disk, and no voter has voted twice in a term.  It is kept when a node's forced state moves
  forward and the node gives only votes that are then on its disk.\<close>

definition forced_state :: "node \<Rightarrow> RaftHardState res" where
  "forced_state n = file_state (hs_forced (node_store n))"

definition grants_ok :: "(NodeAddress \<times> u64 \<times> NodeAddress) set \<Rightarrow> (NodeAddress \<Rightarrow> RaftHardState res) \<Rightarrow> bool" where
  "grants_ok G F =
     ((\<forall>p t c. (p, t, c) \<in> G \<longrightarrow> host c \<noteq> [] \<and>
        (\<exists>h. F p = Inr h \<and> hard_state_older \<lparr>hs_term = t, hs_voted_for = Some (to_string c)\<rparr> h)) \<and>
      (\<forall>p t c d. (p, t, c) \<in> G \<longrightarrow> (p, t, d) \<in> G \<longrightarrow> c = d))"

lemma grants_okD:
  assumes "grants_ok G F" "(p, t, c) \<in> G"
  obtains h where "host c \<noteq> []" "F p = Inr h" "hard_state_older \<lparr>hs_term = t, hs_voted_for = Some (to_string c)\<rparr> h"
  using assms unfolding grants_ok_def by blast

lemma grants_unique: "grants_ok G F \<Longrightarrow> (p, t, c) \<in> G \<Longrightarrow> (p, t, d) \<in> G \<Longrightarrow> c = d"
  unfolding grants_ok_def by blast

lemma grants_grow:
  assumes g: "grants_ok G F" and F: "F a = Inr h" "hard_state_older h h'"
    and new: "\<And>p t c. (p, t, c) \<in> G' \<Longrightarrow> p = a \<and> t = hs_term h' \<and> hs_voted_for h' = Some (to_string c) \<and> host c \<noteq> []"
  shows "grants_ok (G \<union> G') (F(a := Inr h'))"
proof -
  have old: "host c \<noteq> [] \<and> (\<exists>k. (F(a := Inr h')) p = Inr k \<and> hard_state_older \<lparr>hs_term = t, hs_voted_for = Some (to_string c)\<rparr> k)"
    if o: "(p, t, c) \<in> G" for p t c
  proof -
    obtain k where k: "host c \<noteq> []" "F p = Inr k" "hard_state_older \<lparr>hs_term = t, hs_voted_for = Some (to_string c)\<rparr> k"
      by (rule grants_okD[OF g o])
    show ?thesis
    proof (cases "p = a")
      case True
      then have "k = h" using k(2) F(1) by simp
      then have "hard_state_older \<lparr>hs_term = t, hs_voted_for = Some (to_string c)\<rparr> h'"
        using k(3) hard_state_older_trans[OF _ F(2)] by simp
      then show ?thesis using k(1) True by simp
    next
      case False
      then show ?thesis using k by simp
    qed
  qed
  have both: "c = d" if c: "(p, t, c) \<in> G \<union> G'" and d: "(p, t, d) \<in> G \<union> G'" for p t c d
  proof (cases "(p, t, c) \<in> G \<and> (p, t, d) \<in> G")
    case True
    then show ?thesis using grants_unique[OF g] by blast
  next
    case False
    then have p: "p = a \<and> t = hs_term h'" using c d new by blast
    have v: "hs_voted_for h' = Some (to_string x) \<and> host x \<noteq> []" if x: "(p, t, x) \<in> G \<union> G'" for x
    proof (cases "(p, t, x) \<in> G'")
      case True
      then show ?thesis using new by blast
    next
      case no: False
      then show ?thesis using old[of p t x] x p by (auto simp: hard_state_older_def)
    qed
    show ?thesis using v[OF c] v[OF d] to_string_inject[of c d] by simp
  qed
  have fresh: "host c \<noteq> [] \<and> (\<exists>k. (F(a := Inr h')) p = Inr k \<and> hard_state_older \<lparr>hs_term = t, hs_voted_for = Some (to_string c)\<rparr> k)"
    if "(p, t, c) \<in> G'" for p t c
    using new[OF that] by (simp add: hard_state_older_def)
  show ?thesis unfolding grants_ok_def using old fresh both by blast
qed

section \<open>The invariant\<close>

definition votes_ok :: "ClusterMember list \<Rightarrow> (NodeAddress \<times> u64 \<times> NodeAddress) set \<Rightarrow> NodeAddress \<Rightarrow> RaftState \<Rightarrow> bool" where
  "votes_ok members G a rs =
     ((a, rs_current_term rs, a) \<in> G \<and> distinct (rs_votes rs) \<and>
      (\<forall>v\<in>set (rs_votes rs). v \<noteq> a \<and> v \<in> raft_addr ` set members \<and> (v, rs_current_term rs, a) \<in> G))"

definition running_ok :: "ClusterMember list \<Rightarrow> cluster \<Rightarrow> NodeAddress \<Rightarrow> RaftState \<Rightarrow> bool" where
  "running_ok members s a rs =
     (rs_durable rs \<and> config_ok members rs \<and> rs_self_raft_address rs = a \<and>
      (rs_state rs \<noteq> Follower \<longrightarrow> votes_ok members (cl_granted s) a rs) \<and>
      (rs_state rs = Leader \<longrightarrow> (rs_current_term rs, a) \<in> cl_elected s))"

definition disk_ok :: "RaftHardStateStore \<Rightarrow> bool" where
  "disk_ok st =
     (hs_directory st = [] \<and> hs_file st = hs_forced st \<and> (\<exists>h. file_state (hs_forced st) = Inr h \<and> canonical h))"

definition node_ok :: "ClusterMember list \<Rightarrow> cluster \<Rightarrow> NodeAddress \<Rightarrow> bool" where
  "node_ok members s a = (case nd_phase (cl_nodes s a) of Up rs \<Rightarrow> running_ok members s a rs | Down st \<Rightarrow> disk_ok st)"

definition replies_ok :: "cluster \<Rightarrow> bool" where
  "replies_ok s =
     (\<forall>p req resp. (p, req, resp) \<in> cl_replies s \<longrightarrow> rvr_vote_granted resp \<longrightarrow>
        (\<exists>c. from_string (rv_candidate req) = Inr c \<and> (p, rv_term req, c) \<in> cl_granted s))"

definition elected_ok :: "ClusterMember list \<Rightarrow> cluster \<Rightarrow> bool" where
  "elected_ok members s =
     (\<forall>t c. (t, c) \<in> cl_elected s \<longrightarrow>
        (\<exists>Q. Q \<subseteq> raft_addr ` set members \<and> card (raft_addr ` set members) div 2 + 1 \<le> card Q \<and>
          (\<forall>v\<in>Q. (v, t, c) \<in> cl_granted s)))"

definition cluster_ok :: "ClusterMember list \<Rightarrow> cluster \<Rightarrow> bool" where
  "cluster_ok members s =
     ((\<forall>a. node_ok members s a) \<and> grants_ok (cl_granted s) (\<lambda>a. forced_state (cl_nodes s a)) \<and>
      replies_ok s \<and> elected_ok members s)"

lemma running_mono:
  assumes "running_ok members s a rs" "cl_granted s \<subseteq> cl_granted s'" "cl_elected s \<subseteq> cl_elected s'"
  shows "running_ok members s' a rs"
  using assms by (auto simp: running_ok_def votes_ok_def)

lemma elected_mono:
  assumes "elected_ok members s" "cl_granted s \<subseteq> cl_granted s'" "cl_elected s' = cl_elected s"
  shows "elected_ok members s'"
  unfolding elected_ok_def
proof (intro allI impI)
  fix t c
  assume "(t, c) \<in> cl_elected s'"
  then obtain Q where "Q \<subseteq> raft_addr ` set members" "card (raft_addr ` set members) div 2 + 1 \<le> card Q"
    "\<forall>v\<in>Q. (v, t, c) \<in> cl_granted s"
    using assms(1,3) unfolding elected_ok_def by metis
  then show "\<exists>Q. Q \<subseteq> raft_addr ` set members \<and> card (raft_addr ` set members) div 2 + 1 \<le> card Q \<and> (\<forall>v\<in>Q. (v, t, c) \<in> cl_granted s')"
    using assms(2) by (intro exI[of _ Q]) auto
qed

text \<open>One running node moves and the rest stays: what is left to show for the invariant.\<close>

lemma running_step:
  assumes ok: "cluster_ok members s" and up: "nd_phase (cl_nodes s a) = Up rs" and ns: "node_step_ok rs rs'"
    and nodes: "cl_nodes s' = (cl_nodes s)(a := n)" "nd_phase n = Up rs'"
    and G: "cl_granted s' = cl_granted s \<union> G'"
      "\<And>p t c. (p, t, c) \<in> G' \<Longrightarrow> p = a \<and> t = rs_current_term rs' \<and> rs_voted_for rs' = Some c \<and> host c \<noteq> []"
    and E: "cl_elected s \<subseteq> cl_elected s'" "elected_ok members s'" and R: "replies_ok s'"
    and role: "rs_state rs' \<noteq> Follower \<Longrightarrow> votes_ok members (cl_granted s') a rs'"
      "rs_state rs' = Leader \<Longrightarrow> (rs_current_term rs', a) \<in> cl_elected s'"
  shows "cluster_ok members s'"
proof -
  have r: "running_ok members s a rs"
    using ok[unfolded cluster_ok_def, THEN conjunct1, rule_format, of a] up by (simp add: node_ok_def)
  have r': "running_ok members s' a rs'"
    using r ns role config_ok_same[of rs rs' members] by (auto simp: running_ok_def node_step_ok_def same_config_def)
  have nodes_ok: "node_ok members s' b" for b
  proof (cases "b = a")
    case True
    then show ?thesis using r' nodes by (simp add: node_ok_def)
  next
    case False
    have "node_ok members s b" using ok by (simp add: cluster_ok_def)
    then show ?thesis using False nodes(1) G(1) E(1) running_mono[of members s b _ s']
      by (auto simp: node_ok_def split: phase.splits)
  qed
  have F: "forced_state (cl_nodes s a) = Inr (mem_state rs)" "forced_state n = Inr (mem_state rs')"
    using r r' up nodes(2) by (simp_all add: forced_state_def node_store_def running_ok_def rs_durable_def)
  have "grants_ok (cl_granted s \<union> G') ((\<lambda>a. forced_state (cl_nodes s a))(a := Inr (mem_state rs')))"
    using ok F(1) ns G(2) by (intro grants_grow[of _ _ a "mem_state rs"]) (auto simp: cluster_ok_def node_step_ok_def mem_state_def)
  moreover have "(\<lambda>b. forced_state (cl_nodes s' b)) = (\<lambda>a. forced_state (cl_nodes s a))(a := Inr (mem_state rs'))"
    using nodes(1) F(2) by auto
  ultimately show ?thesis using nodes_ok R E(2) G(1) by (simp add: cluster_ok_def)
qed

text \<open>A node that wins has a quorum of votes.\<close>

lemma elected_grow:
  assumes "elected_ok members s" "cl_granted s \<subseteq> cl_granted s'" "cl_elected s' = cl_elected s \<union> (if won then {(rs_current_term rs, a)} else {})"
    and "won \<Longrightarrow> votes_ok members (cl_granted s') a rs" "won \<Longrightarrow> a \<in> raft_addr ` set members"
    and "won \<Longrightarrow> card (raft_addr ` set members) div 2 + 1 \<le> length (rs_votes rs) + 1"
  shows "elected_ok members s'"
proof (cases won)
  case False
  then show ?thesis using elected_mono[OF assms(1,2)] assms(3) by simp
next
  case True
  let ?A = "raft_addr ` set members" let ?Q = "insert a (set (rs_votes rs))"
  have v: "votes_ok members (cl_granted s') a rs" using assms(4) True by simp
  then have "card ?Q = length (rs_votes rs) + 1" by (auto simp: votes_ok_def distinct_card)
  then have Q: "?Q \<subseteq> ?A" "card ?A div 2 + 1 \<le> card ?Q" "\<forall>p\<in>?Q. (p, rs_current_term rs, a) \<in> cl_granted s'"
    using v assms(5,6) True by (auto simp: votes_ok_def)
  have old: "elected_ok members (s'\<lparr>cl_elected := cl_elected s\<rparr>)" using assms(1,2) by (rule_tac elected_mono[of members s]) simp_all
  show ?thesis
    unfolding elected_ok_def
  proof (intro allI impI)
    fix t c
    assume m: "(t, c) \<in> cl_elected s'"
    show "\<exists>Q. Q \<subseteq> ?A \<and> card ?A div 2 + 1 \<le> card Q \<and> (\<forall>v\<in>Q. (v, t, c) \<in> cl_granted s')"
    proof (cases "(t, c) \<in> cl_elected s")
      case True
      then show ?thesis using old[unfolded elected_ok_def, rule_format, of t c] by simp
    next
      case False
      then have "t = rs_current_term rs" "c = a" using m assms(3) by (auto split: if_split_asm)
      then show ?thesis using Q by (intro exI[of _ ?Q]) simp
    qed
  qed
qed

lemma votes_mono: "votes_ok members G a rs \<Longrightarrow> G \<subseteq> G' \<Longrightarrow> votes_ok members G' a rs"
  by (auto simp: votes_ok_def)

lemma steady_votes:
  assumes "steady rs rs'" "running_ok members s a rs" "cl_granted s \<subseteq> G" "rs_state rs' \<noteq> Follower"
  shows "votes_ok members G a rs'" "rs_state rs' = Leader \<Longrightarrow> (rs_current_term rs', a) \<in> cl_elected s"
  using assms votes_mono[of members "cl_granted s" a rs G] by (auto simp: steady_def running_ok_def votes_ok_def)

lemma cluster_okD:
  assumes "cluster_ok members s"
  shows "nd_phase (cl_nodes s a) = Up rs \<Longrightarrow> running_ok members s a rs" "nd_phase (cl_nodes s a) = Down st \<Longrightarrow> disk_ok st"
    "grants_ok (cl_granted s) (\<lambda>a. forced_state (cl_nodes s a))" "replies_ok s" "elected_ok members s"
proof -
  have "node_ok members s a" for a using assms by (simp add: cluster_ok_def)
  from this[of a] show "nd_phase (cl_nodes s a) = Up rs \<Longrightarrow> running_ok members s a rs" "nd_phase (cl_nodes s a) = Down st \<Longrightarrow> disk_ok st"
    by (simp_all add: node_ok_def)
qed (use assms in \<open>simp_all add: cluster_ok_def\<close>)

lemma vote_step_ok:
  assumes ok: "cluster_ok members s" and up: "nd_phase (cl_nodes s a) = Up rs"
    and rv: "RequestVote faults tms rs (nd_log (cl_nodes s a)) req = (r, rs')"
  shows "cluster_ok members (s\<lparr>cl_nodes := (cl_nodes s)(a := (cl_nodes s a)\<lparr>nd_phase := Up rs'\<rparr>),
         cl_replies := cl_replies s \<union> {(a, req, resp) | resp. r = Rpc_ok resp},
         cl_granted := cl_granted s \<union> vote_given a req r\<rparr>)" (is "cluster_ok members ?s")
proof -
  note run = cluster_okD(1)[OF ok up]
  have d: "rs_durable rs" using run by (simp add: running_ok_def)
  note k = RequestVote_ok[OF rv d]
  have new: "p = a \<and> t = rs_current_term rs' \<and> rs_voted_for rs' = Some c \<and> host c \<noteq> []" if "(p, t, c) \<in> vote_given a req r" for p t c
    using that k(3) from_string_host by (fastforce simp: vote_given_def)
  have "replies_ok ?s"
    unfolding replies_ok_def
  proof (intro allI impI)
    fix p q resp
    assume m: "(p, q, resp) \<in> cl_replies ?s" and g: "rvr_vote_granted resp"
    show "\<exists>c. from_string (rv_candidate q) = Inr c \<and> (p, rv_term q, c) \<in> cl_granted ?s"
    proof (cases "(p, q, resp) \<in> cl_replies s")
      case True
      then show ?thesis using cluster_okD(4)[OF ok] g unfolding replies_ok_def by fastforce
    next
      case False
      then have "p = a" "q = req" "r = Rpc_ok resp" using m by auto
      then show ?thesis using k(3)[of resp] g by (auto simp: vote_given_def)
    qed
  qed
  then show ?thesis
    using elected_mono[OF cluster_okD(5)[OF ok], of ?s] steady_votes[OF k(2) run, of "cl_granted ?s"] new
    by (intro running_step[OF ok up k(1), of ?s "(cl_nodes s a)\<lparr>nd_phase := Up rs'\<rparr>" "vote_given a req r"]) simp_all
qed

lemma replies_same: "replies_ok s \<Longrightarrow> cl_replies s' = cl_replies s \<Longrightarrow> cl_granted s \<subseteq> cl_granted s' \<Longrightarrow> replies_ok s'"
  unfolding replies_ok_def by fastforce

lemma append_step_ok:
  assumes ok: "cluster_ok members s" and up: "nd_phase (cl_nodes s a) = Up rs"
    and ae: "AppendEntries afaults tm rs (nd_log (cl_nodes s a)) areq = (ar, rs', rl')"
  shows "cluster_ok members (s\<lparr>cl_nodes := (cl_nodes s)(a := \<lparr>nd_phase = Up rs', nd_log = rl'\<rparr>)\<rparr>)" (is "cluster_ok members ?s")
proof -
  note run = cluster_okD(1)[OF ok up]
  have d: "rs_durable rs" using run by (simp add: running_ok_def)
  note k = AppendEntries_ok[OF ae d]
  show ?thesis
    using elected_mono[OF cluster_okD(5)[OF ok], of ?s] steady_votes[OF k(2) run, of "cl_granted ?s"]
      replies_same[OF cluster_okD(4)[OF ok], of ?s]
    by (intro running_step[OF ok up k(1), of ?s "\<lparr>nd_phase = Up rs', nd_log = rl'\<rparr>" "{}"]) simp_all
qed

lemma member_host:
  assumes "running_ok members s a rs" "\<forall>m\<in>set members. host (raft_addr m) \<noteq> []"
  shows "a \<in> raft_addr ` set members" "host a \<noteq> []" "rs_cluster_size rs = card (raft_addr ` set members)"
    "rs_self_raft_address rs = a" "rs_durable rs"
  using assms by (auto simp: running_ok_def config_ok_def)

lemma campaign_step_ok:
  assumes ok: "cluster_ok members s" and up: "nd_phase (cl_nodes s a) = Up rs"
    and cb: "campaign_begin fault tm rs (nd_log (cl_nodes s a)) = (r, rs')"
    and hosts: "\<forall>m\<in>set members. host (raft_addr m) \<noteq> []"
  shows "cluster_ok members (s\<lparr>cl_nodes := (cl_nodes s)(a := (cl_nodes s a)\<lparr>nd_phase := Up rs'\<rparr>),
         cl_granted := cl_granted s \<union> own_vote a r rs',
         cl_elected := cl_elected s \<union> (if r = Inr Won then {(rs_current_term rs', a)} else {})\<rparr>)" (is "cluster_ok members ?s")
proof -
  note run = cluster_okD(1)[OF ok up]
  note h = member_host[OF run hosts]
  have self: "host (rs_self_raft_address rs) \<noteq> []" using h by simp
  note k = campaign_begin_ok[OF cb h(5) self]
  have new: "p = a \<and> t = rs_current_term rs' \<and> rs_voted_for rs' = Some c \<and> host c \<noteq> []" if "(p, t, c) \<in> own_vote a r rs'" for p t c
    using that k(2) h(2,4) by (auto simp: own_vote_def split: sum.split_asm campaign_start.split_asm)
  have started: "votes_ok members (cl_granted ?s) a rs'" "r = Inr Won \<Longrightarrow> card (raft_addr ` set members) div 2 + 1 \<le> length (rs_votes rs') + 1"
    "rs_state rs' = Leader \<Longrightarrow> r = Inr Won"
    if n: "r \<noteq> Inr Skipped" "\<exists>x. r = Inr x"
  proof -
    obtain x where x: "r = Inr x" "x \<noteq> Skipped" using n by blast
    then have c: "rs_votes rs' = []" "if r = Inr Won then rs_cluster_size rs \<le> 1 else rs_state rs' = Candidate" using k(2) by auto
    have "own_vote a r rs' = {(a, rs_current_term rs', a)}" using x by (cases x) (simp_all add: own_vote_def)
    then show "votes_ok members (cl_granted ?s) a rs'" using c(1) by (simp add: votes_ok_def)
    show "r = Inr Won \<Longrightarrow> card (raft_addr ` set members) div 2 + 1 \<le> length (rs_votes rs') + 1" "rs_state rs' = Leader \<Longrightarrow> r = Inr Won"
      using c(2) h(3) by (auto split: if_split_asm)
  qed
  have won: "votes_ok members (cl_granted ?s) a rs'" "card (raft_addr ` set members) div 2 + 1 \<le> length (rs_votes rs') + 1"
    if "r = Inr Won"
    by (rule started(1), use that in simp, use that in blast) (rule started(2)[OF _ _ that], use that in simp, use that in blast)
  have "cl_granted s \<subseteq> cl_granted ?s" "cl_elected ?s = cl_elected s \<union> (if r = Inr Won then {(rs_current_term rs', a)} else {})" by auto
  then have el: "elected_ok members ?s"
    by (rule elected_grow[OF cluster_okD(5)[OF ok] _ _ won(1) h(1) won(2)])
  have alt: "steady rs rs' \<or> r \<noteq> Inr Skipped \<and> (\<exists>x. r = Inr x)" using k(2) by blast
  have role: "votes_ok members (cl_granted ?s) a rs'" if "rs_state rs' \<noteq> Follower"
    using alt started(1) steady_votes(1)[OF _ run _ that, of "cl_granted ?s"] by force
  have lead: "(rs_current_term rs', a) \<in> cl_elected ?s" if "rs_state rs' = Leader"
    using alt that started(3) steady_votes(2)[OF _ run, of rs' "cl_granted ?s"] by force
  have rep: "replies_ok ?s" by (rule replies_same[OF cluster_okD(4)[OF ok]]) auto
  show ?thesis
    by (rule running_step[OF ok up k(1), of ?s "(cl_nodes s a)\<lparr>nd_phase := Up rs'\<rparr>" "own_vote a r rs'"]) (use new el role lead rep in simp_all)
qed

lemma reply_step_ok:
  assumes ok: "cluster_ok members s" and up: "nd_phase (cl_nodes s a) = Up rs"
    and m: "(p, req, resp) \<in> cl_replies s" "p \<in> set (rs_peers rs)" "rv_candidate req = to_string (rs_self_raft_address rs)"
    and cr: "campaign_reply fault tm rs (nd_log (cl_nodes s a)) (rv_term req) p resp = (b, rs')"
    and hosts: "\<forall>m\<in>set members. host (raft_addr m) \<noteq> []"
  shows "cluster_ok members (s\<lparr>cl_nodes := (cl_nodes s)(a := (cl_nodes s a)\<lparr>nd_phase := Up rs'\<rparr>),
         cl_elected := cl_elected s \<union> (if b = Inr True then {(rs_current_term rs', a)} else {})\<rparr>)" (is "cluster_ok members ?s")
proof -
  note run = cluster_okD(1)[OF ok up]
  note h = member_host[OF run hosts]
  note k = campaign_reply_ok[OF cr h(5)]
  have peer: "p \<noteq> a" "p \<in> raft_addr ` set members" using m(2) run h(4) by (auto simp: running_ok_def config_ok_def)
  have granted: "(p, rv_term req, a) \<in> cl_granted s" if "rvr_vote_granted resp"
    using cluster_okD(4)[OF ok] m(1) that address_read_back[OF h(2)] m(3) h(4) unfolding replies_ok_def by fastforce
  have counted: "votes_ok members (cl_granted s) a rs'"
    "b = Inr True \<Longrightarrow> card (raft_addr ` set members) div 2 + 1 \<le> length (rs_votes rs') + 1" "rs_state rs' = Leader \<Longrightarrow> b = Inr True"
    if "\<not> (b \<noteq> Inr True \<and> steady rs rs')"
  proof -
    have c: "rvr_vote_granted resp" "rv_term req = rs_current_term rs" "rs_state rs = Candidate" "rs_current_term rs' = rv_term req"
      "rs_votes rs' = List.insert p (rs_votes rs)" "b = Inr True \<longrightarrow> length (rs_votes rs') + 1 \<ge> rs_cluster_size rs div 2 + 1"
      "rs_state rs' = Leader \<longrightarrow> b = Inr True"
      using k(2) that by blast+
    have "votes_ok members (cl_granted s) a rs" using run c(3) by (simp add: running_ok_def)
    then show "votes_ok members (cl_granted s) a rs'" using c peer granted by (auto simp: votes_ok_def)
    show "b = Inr True \<Longrightarrow> card (raft_addr ` set members) div 2 + 1 \<le> length (rs_votes rs') + 1" "rs_state rs' = Leader \<Longrightarrow> b = Inr True"
      using c(6,7) h(3) by simp_all
  qed
  have won: "votes_ok members (cl_granted ?s) a rs'" "card (raft_addr ` set members) div 2 + 1 \<le> length (rs_votes rs') + 1"
    if "b = Inr True"
    using counted(1,2) that by simp_all
  have "cl_granted s \<subseteq> cl_granted ?s" "cl_elected ?s = cl_elected s \<union> (if b = Inr True then {(rs_current_term rs', a)} else {})" by auto
  then have el: "elected_ok members ?s"
    by (rule elected_grow[OF cluster_okD(5)[OF ok] _ _ won(1) h(1) won(2)])
  have role: "votes_ok members (cl_granted ?s) a rs'" if "rs_state rs' \<noteq> Follower"
    using that counted(1) steady_votes(1)[OF _ run, of rs' "cl_granted s"] by auto
  have lead: "(rs_current_term rs', a) \<in> cl_elected ?s" if "rs_state rs' = Leader"
    using that counted(3) steady_votes(2)[OF _ run, of rs' "cl_granted s"] by auto
  have rep: "replies_ok ?s" by (rule replies_same[OF cluster_okD(4)[OF ok]]) auto
  show ?thesis
    by (rule running_step[OF ok up k(1), of ?s "(cl_nodes s a)\<lparr>nd_phase := Up rs'\<rparr>" "{}"]) (use el role lead rep in simp_all)
qed

text \<open>Steps that only change where a node's term and vote live.\<close>

lemma quiet_step:
  assumes ok: "cluster_ok members s" and nodes: "cl_nodes s' = (cl_nodes s)(a := n)"
    and same: "cl_replies s' = cl_replies s" "cl_granted s' = cl_granted s" "cl_elected s' = cl_elected s"
    and n: "case nd_phase n of Up rs \<Rightarrow> running_ok members s a rs | Down st \<Rightarrow> disk_ok st"
    and F: "forced_state (cl_nodes s a) = Inr h" "forced_state n = Inr h'" "hard_state_older h h'"
  shows "cluster_ok members s'"
proof -
  have "node_ok members s' b" for b
  proof (cases "b = a")
    case True
    then show ?thesis using n nodes same running_mono[of members s a _ s'] by (auto simp: node_ok_def split: phase.splits)
  next
    case False
    have "node_ok members s b" using ok by (simp add: cluster_ok_def)
    then show ?thesis using False nodes same running_mono[of members s b _ s'] by (auto simp: node_ok_def split: phase.splits)
  qed
  moreover have "grants_ok (cl_granted s \<union> {}) ((\<lambda>a. forced_state (cl_nodes s a))(a := Inr h'))"
    by (rule grants_grow[OF cluster_okD(3)[OF ok] F(1,3)]) simp
  moreover have "(\<lambda>b. forced_state (cl_nodes s' b)) = (\<lambda>a. forced_state (cl_nodes s a))(a := Inr h')"
    using nodes F(2) by auto
  moreover have "replies_ok s'" "elected_ok members s'"
    using replies_same[OF cluster_okD(4)[OF ok]] elected_mono[OF cluster_okD(5)[OF ok]] same by simp_all
  ultimately show ?thesis using same by (simp add: cluster_ok_def)
qed

lemma start_step_ok:
  assumes ok: "cluster_ok members s" and down: "nd_phase (cl_nodes s a) = Down st" and op: "hs_open dir st = (Inr (), st')"
    and new: "new_RaftState members sc st' la tm = Inr rs" "rs_self_raft_address rs = a"
  shows "cluster_ok members (s\<lparr>cl_nodes := (cl_nodes s)(a := \<lparr>nd_phase = Up rs, nd_log = rl\<rparr>)\<rparr>)"
proof -
  obtain h where h: "hs_directory st = []" "hs_file st = hs_forced st" "file_state (hs_forced st) = Inr h" "canonical h"
    using cluster_okD(2)[OF ok down] unfolding disk_ok_def by blast
  have st': "st' = st\<lparr>hs_directory := dir, hs_state := h\<rparr>" "dir \<noteq> []"
    using op h unfolding hs_open_def file_state_def by (auto split: if_split_asm option.split_asm sum.split_asm)
  then have "store_ok st'" using h by (simp add: store_ok_def hs_is_open_def)
  then have d: "rs_durable rs" using new_RaftState_ok(6)[OF new(1)] st' h by simp
  have f: "forced_state (cl_nodes s a) = Inr h" "forced_state \<lparr>nd_phase = Up rs, nd_log = rl\<rparr> = Inr h"
    using down h st' new_RaftState_ok(3)[OF new(1)] by (simp_all add: forced_state_def node_store_def)
  show ?thesis
    by (rule quiet_step[OF ok, of _ a "\<lparr>nd_phase = Up rs, nd_log = rl\<rparr>" h h])
      (use f d new_RaftState_ok(1,2)[OF new(1)] new(2) in \<open>simp_all add: running_ok_def\<close>)
qed

lemma power_step_ok:
  assumes ok: "cluster_ok members s" and up: "nd_phase (cl_nodes s a) = Up rs"
  shows "cluster_ok members
      (s\<lparr>cl_nodes := (cl_nodes s)(a := (cl_nodes s a)\<lparr>nd_phase := Down (hs_power_loss keep (rs_store rs))\<rparr>)\<rparr>)"
proof -
  let ?st = "hs_power_loss keep (rs_store rs)"
  have d: "rs_durable rs" using cluster_okD(1)[OF ok up] by (simp add: running_ok_def)
  then have st: "file_state (hs_file (rs_store rs)) = Inr (hs_state (rs_store rs))" "canonical (hs_state (rs_store rs))"
    "file_state (hs_forced (rs_store rs)) = Inr (mem_state rs)" "hard_state_older (mem_state rs) (hs_state (rs_store rs))"
    "canonical (mem_state rs)"
    by (auto simp: rs_durable_def store_ok_def)
  define h where "h = (if keep then hs_state (rs_store rs) else mem_state rs)"
  have h: "file_state (hs_forced ?st) = Inr h" "canonical h" "hard_state_older (mem_state rs) h"
    using st by (simp_all add: h_def hs_power_loss_def Let_def)
  have "disk_ok ?st" using h(1,2) by (simp add: disk_ok_def hs_power_loss_def hs_close_def Let_def)
  moreover have "forced_state (cl_nodes s a) = Inr (mem_state rs)" "forced_state ((cl_nodes s a)\<lparr>nd_phase := Down ?st\<rparr>) = Inr h"
    using up st(3) h(1) by (simp_all add: forced_state_def node_store_def)
  ultimately show ?thesis
    using h(3) by (rule_tac quiet_step[OF ok, of _ a "(cl_nodes s a)\<lparr>nd_phase := Down ?st\<rparr>" "mem_state rs" h]) simp_all
qed

lemma log_step_ok:
  assumes ok: "cluster_ok members s"
  shows "cluster_ok members (s\<lparr>cl_nodes := (cl_nodes s)(a := (cl_nodes s a)\<lparr>nd_log := rl\<rparr>)\<rparr>)"
proof -
  let ?n = "(cl_nodes s a)\<lparr>nd_log := rl\<rparr>"
  obtain h where "forced_state (cl_nodes s a) = Inr h"
  proof (cases "nd_phase (cl_nodes s a)")
    case (Up rs)
    then have "forced_state (cl_nodes s a) = Inr (mem_state rs)"
      using cluster_okD(1)[OF ok Up] by (simp add: forced_state_def node_store_def running_ok_def rs_durable_def)
    then show thesis by (rule that)
  next
    case (Down st)
    then show thesis using cluster_okD(2)[OF ok Down] that by (auto simp: forced_state_def node_store_def disk_ok_def)
  qed
  moreover from this have "forced_state ?n = Inr h" by (simp add: forced_state_def node_store_def)
  moreover have "case nd_phase ?n of Up rs \<Rightarrow> running_ok members s a rs | Down st \<Rightarrow> disk_ok st"
    using cluster_okD(1,2)[OF ok] by (simp split: phase.split)
  ultimately show ?thesis by (rule_tac quiet_step[OF ok, of _ a ?n h h]) simp_all
qed

lemma cluster_step_ok:
  assumes "cluster_step members s s'" "cluster_ok members s" "\<forall>m\<in>set members. host (raft_addr m) \<noteq> []"
  shows "cluster_ok members s'"
  using assms(1)
proof cases
  case start
  then show ?thesis using start_step_ok[OF assms(2)] by blast
next
  case power_loss
  then show ?thesis using power_step_ok[OF assms(2)] by blast
next
  case log_written
  then show ?thesis using log_step_ok[OF assms(2)] by blast
next
  case vote
  then show ?thesis using vote_step_ok[OF assms(2)] by blast
next
  case append
  then show ?thesis using append_step_ok[OF assms(2)] by blast
next
  case campaign
  then show ?thesis using campaign_step_ok[OF assms(2) _ _ assms(3)] by blast
next
  case reply
  then show ?thesis using reply_step_ok[OF assms(2) _ _ _ _ _ assms(3)] by blast
qed

lemma reachable_ok:
  assumes "reachable members s" "\<forall>m\<in>set members. host (raft_addr m) \<noteq> []"
  shows "cluster_ok members s"
  using assms
proof (induction rule: reachable.induct)
  case (initial s)
  have "disk_ok new_store" by (simp add: disk_ok_def new_store_def file_state_def canonical_def)
  then show ?case
    using initial by (simp add: cluster_ok_def node_ok_def grants_ok_def replies_ok_def elected_ok_def)
qed (use cluster_step_ok in blast)

lemma quorums_meet:
  assumes "finite A" "P \<subseteq> A" "Q \<subseteq> A" "card A div 2 + 1 \<le> card P" "card A div 2 + 1 \<le> card Q"
  obtains v where "v \<in> P" "v \<in> Q"
proof -
  have f: "finite P" "finite Q" using assms finite_subset by blast+
  have "P \<inter> Q \<noteq> {}"
  proof
    assume "P \<inter> Q = {}"
    then have "card P + card Q = card (P \<union> Q)" using f by (simp add: card_Un_disjoint)
    also have "\<dots> \<le> card A" using assms by (intro card_mono) auto
    finally show False using assms(4,5) by linarith
  qed
  then show thesis using that by blast
qed


section \<open>An election\<close>

definition demo_config :: string where
  "demo_config = ''a:1 a:11'' @ [CHR 0x0A] @ ''b:2 b:12 # second'' @ [CHR 0x0A] @ ''c:3 c:13''"

definition demo_members :: "ClusterMember list" where
  "demo_members =
     [\<lparr>raft_addr = \<lparr>host = ''a'', port = 1\<rparr>, database_server = \<lparr>host = ''a'', port = 11\<rparr>\<rparr>,
      \<lparr>raft_addr = \<lparr>host = ''b'', port = 2\<rparr>, database_server = \<lparr>host = ''b'', port = 12\<rparr>\<rparr>,
      \<lparr>raft_addr = \<lparr>host = ''c'', port = 3\<rparr>, database_server = \<lparr>host = ''c'', port = 13\<rparr>\<rparr>]"

definition demo_a :: NodeAddress where "demo_a = \<lparr>host = ''a'', port = 1\<rparr>"
definition demo_b :: NodeAddress where "demo_b = \<lparr>host = ''b'', port = 2\<rparr>"

definition demo_log :: RaftLog where
  "demo_log = \<lparr>rl_config = tiny_raft_config, rl_segments = [], rl_next_index = 0, rl_last_term = 0,
     rl_durable_index = 0, rl_recovery_required = False, rl_directory_dirty = False\<rparr>"

definition demo_store :: RaftHardStateStore where
  "demo_store = snd (hs_open ''d'' new_store)"

definition demo_new :: "NodeAddress \<Rightarrow> RaftState" where
  "demo_new client = projr (new_RaftState demo_members client demo_store 0 (0, 200))"

definition demo_ra :: RaftState where "demo_ra = demo_new \<lparr>host = ''a'', port = 11\<rparr>"
definition demo_rb :: RaftState where "demo_rb = demo_new \<lparr>host = ''b'', port = 12\<rparr>"
definition demo_rc :: "campaign_start res \<times> RaftState" where "demo_rc = campaign_begin No_fault (200, 200) demo_ra demo_log"

definition demo_req :: RequestVoteRequest where
  "demo_req = \<lparr>rv_term = 1, rv_candidate = ''a:1'', rv_last_log_idx = 0, rv_last_log_term = 0\<rparr>"

definition demo_rv :: "RequestVoteResponse rpc \<times> RaftState" where
  "demo_rv = RequestVote (No_fault, No_fault) ((200, 150), (200, 150)) demo_rb demo_log demo_req"

definition demo_won :: "bool res \<times> RaftState" where
  "demo_won = campaign_reply No_fault (210, 200) (snd demo_rc) demo_log 1 demo_b \<lparr>rvr_term = 1, rvr_vote_granted = True\<rparr>"

lemma demo_lines:
  "file_lines demo_config = [''a:1 a:11'', ''b:2 b:12 # second'', ''c:3 c:13'']"
  by (simp add: demo_config_def file_lines.simps)

lemma demo_fields:
  "line_fields (strip_comment ''a:1 a:11'') = [''a:1'', ''a:11'']"
  "line_fields (strip_comment ''b:2 b:12 # second'') = [''b:2'', ''b:12'']"
  "line_fields (strip_comment ''c:3 c:13'') = [''c:3'', ''c:13'']"
  by (simp_all add: strip_comment_def line_fields.simps is_space_def)

lemma demo_addresses:
  "from_string ''a:1'' = Inr \<lparr>host = ''a'', port = 1\<rparr>" "from_string ''a:11'' = Inr \<lparr>host = ''a'', port = 11\<rparr>"
  "from_string ''b:2'' = Inr \<lparr>host = ''b'', port = 2\<rparr>" "from_string ''b:12'' = Inr \<lparr>host = ''b'', port = 12\<rparr>"
  "from_string ''c:3'' = Inr \<lparr>host = ''c'', port = 3\<rparr>" "from_string ''c:13'' = Inr \<lparr>host = ''c'', port = 13\<rparr>"
  by (simp_all add: from_string_def rfind_def from_chars_def is_digit_def decimal_value_def)

lemma demo_parse: "parse_cluster_config (Some demo_config) = Inr demo_members"
  by (simp add: parse_cluster_config_def demo_lines config_line_def demo_fields demo_addresses demo_members_def)

lemma demo_open: "hs_open ''d'' new_store = (Inr (), demo_store)"
  by (simp add: demo_store_def hs_open_def new_store_def)

lemma demo_started:
  "new_RaftState demo_members \<lparr>host = ''a'', port = 11\<rparr> demo_store 0 (0, 200) = Inr demo_ra"
  "new_RaftState demo_members \<lparr>host = ''b'', port = 12\<rparr> demo_store 0 (0, 200) = Inr demo_rb"
  "rs_self_raft_address demo_ra = demo_a" "rs_self_raft_address demo_rb = demo_b"
  by (simp_all add: demo_ra_def demo_rb_def demo_new_def new_RaftState_def demo_members_def demo_store_def hs_open_def new_store_def
      Let_def hs_load_def loaded_vote_def demo_a_def demo_b_def reset_election_timer_def)


lemma demo_names: "to_string demo_a = ''a:1''" "to_string demo_b = ''b:2''"
  by code_simp+

lemma demo_persist:
  "persist No_fault demo_store 1 (Some ''a:1'') = (Inr (), \<lparr>hs_directory = ''d'', hs_state = \<lparr>hs_term = 1, hs_voted_for = Some ''a:1''\<rparr>,
     hs_file = Some (hard_state_image 1 (Some ''a:1'')), hs_forced = Some (hard_state_image 1 (Some ''a:1''))\<rparr>)"
  "persist No_fault demo_store 1 None = (Inr (), \<lparr>hs_directory = ''d'', hs_state = \<lparr>hs_term = 1, hs_voted_for = None\<rparr>,
     hs_file = Some (hard_state_image 1 None), hs_forced = Some (hard_state_image 1 None)\<rparr>)"
proof -
  have "encode_state 1 (Some ''a:1'') = Inr (hard_state_image 1 (Some ''a:1''))" "encode_state 1 None = Inr (hard_state_image 1 None)"
    by (simp_all add: encode_state_iff hard_state_ok_def)
  then show "persist No_fault demo_store 1 (Some ''a:1'') = (Inr (), \<lparr>hs_directory = ''d'', hs_state = \<lparr>hs_term = 1, hs_voted_for = Some ''a:1''\<rparr>,
     hs_file = Some (hard_state_image 1 (Some ''a:1'')), hs_forced = Some (hard_state_image 1 (Some ''a:1''))\<rparr>)"
  "persist No_fault demo_store 1 None = (Inr (), \<lparr>hs_directory = ''d'', hs_state = \<lparr>hs_term = 1, hs_voted_for = None\<rparr>,
     hs_file = Some (hard_state_image 1 None), hs_forced = Some (hard_state_image 1 None)\<rparr>)"
    by (simp_all add: persist_def demo_store_def hs_open_def new_store_def)
qed

lemma demo_asked:
  "demo_rc = (Inr (Ask demo_req [demo_b, \<lparr>host = ''c'', port = 3\<rparr>]), snd demo_rc)"
  "rs_current_term (snd demo_rc) = 1" "rs_peers (snd demo_rc) = [demo_b, \<lparr>host = ''c'', port = 3\<rparr>]"
  "rs_self_raft_address (snd demo_rc) = demo_a" "rs_state (snd demo_rc) = Candidate" "rs_votes (snd demo_rc) = []" "rs_cluster_size (snd demo_rc) = 3"
proof -
  have ra: "rs_store demo_ra = demo_store" "rs_current_term demo_ra = 0" "rs_state demo_ra = Follower" "\<not> rs_shutting_down demo_ra"
    "rs_peers demo_ra = [demo_b, \<lparr>host = ''c'', port = 3\<rparr>]" "rs_cluster_size demo_ra = 3"
    by (simp_all add: demo_ra_def demo_new_def new_RaftState_def demo_members_def demo_store_def hs_open_def new_store_def
      Let_def hs_load_def loaded_vote_def demo_b_def reset_election_timer_def)
  show "demo_rc = (Inr (Ask demo_req [demo_b, \<lparr>host = ''c'', port = 3\<rparr>]), snd demo_rc)"
  "rs_current_term (snd demo_rc) = 1" "rs_peers (snd demo_rc) = [demo_b, \<lparr>host = ''c'', port = 3\<rparr>]"
  "rs_self_raft_address (snd demo_rc) = demo_a" "rs_state (snd demo_rc) = Candidate" "rs_votes (snd demo_rc) = []" "rs_cluster_size (snd demo_rc) = 3"
    using ra demo_started(3) demo_names demo_persist
    by (simp_all add: demo_rc_def campaign_begin_def become_candidate_def advance_term_def reset_election_timer_def Let_def
      demo_req_def raft_last_index_def raft_last_term_def demo_log_def)
qed

lemma demo_granted: "demo_rv = (Rpc_ok \<lparr>rvr_term = 1, rvr_vote_granted = True\<rparr>, snd demo_rv)"
proof -
  have rb: "rs_store demo_rb = demo_store" "rs_current_term demo_rb = 0" "rs_state demo_rb = Follower" "rs_voted_for demo_rb = None"
    "is_peer demo_rb demo_a"
    by (simp_all add: demo_rb_def demo_new_def new_RaftState_def demo_members_def demo_store_def hs_open_def new_store_def
      Let_def hs_load_def loaded_vote_def demo_b_def demo_a_def reset_election_timer_def is_peer_def)
  have p: "persist No_fault (snd (persist No_fault demo_store 1 None)) 1 (Some ''a:1'') =
    (Inr (), \<lparr>hs_directory = ''d'', hs_state = \<lparr>hs_term = 1, hs_voted_for = Some ''a:1''\<rparr>,
     hs_file = Some (hard_state_image 1 (Some ''a:1'')), hs_forced = Some (hard_state_image 1 (Some ''a:1''))\<rparr>)"
  proof -
    have "encode_state 1 (Some ''a:1'') = Inr (hard_state_image 1 (Some ''a:1''))" by (simp add: encode_state_iff hard_state_ok_def)
    then show ?thesis unfolding demo_persist by (simp add: persist_def)
  qed
  have "from_string ''a:1'' = Inr demo_a" by (simp add: demo_addresses demo_a_def)
  then show ?thesis
    using rb demo_names demo_persist p
    by (simp add: demo_rv_def RequestVote_def become_follower_def advance_term_def grant_vote_def reset_election_timer_def Let_def
      demo_req_def raft_last_index_def raft_last_term_def demo_log_def)
qed

lemma demo_leads: "fst demo_won = Inr True" "rs_current_term (snd demo_won) = 1"
  using demo_asked by (simp_all add: demo_won_def campaign_reply_def record_vote_def Let_def)


section \<open>Restarting without forcing\<close>

text \<open>A node whose directory synchronisation failed after the rename, or that was killed between the two, restarts
  from a file that is not forced.\<close>

definition demo_c :: NodeAddress where "demo_c = \<lparr>host = ''c'', port = 3\<rparr>"

definition demo_term1 :: RaftState where
  "demo_term1 = snd (become_follower No_fault (0, 200) demo_rb 1 None)"

definition demo_restart :: "RaftHardStateStore \<Rightarrow> RaftState res" where
  "demo_restart st =
     (case hs_open ''d'' st of (Inl e, _) \<Rightarrow> Inl e | (Inr _, st) \<Rightarrow> new_RaftState demo_members \<lparr>host = ''b'', port = 12\<rparr> st 0 (0, 200))"

text \<open>C28: The store's file is taken for durable when it is opened, without being forced.  A vote whose directory
  synchronisation failed is loaded by the restarted process, which then grants it again without writing; a power
  loss reverts the file, and the node grants another candidate its vote in the same term.\<close>

theorem restart_votes_twice:
  "\<exists>rs1 rs2 rs3. grant_vote Directory_sync_fails demo_term1 demo_a 0 0 0 0 = (Inl System_error, rs1) \<and>
     demo_restart (hs_close (rs_store rs1)) = Inr rs2 \<and>
     grant_vote No_fault rs2 demo_a 0 0 0 0 = (Inr True, rs2) \<and>
     demo_restart (hs_power_loss False (rs_store rs2)) = Inr rs3 \<and>
     rs_current_term rs3 = rs_current_term rs2 \<and>
     fst (grant_vote No_fault rs3 demo_c 0 0 0 0) = Inr True"
proof -
  have rb: "rs_store demo_rb = demo_store" "rs_current_term demo_rb = 0" "rs_voted_for demo_rb = None"
    by (simp_all add: demo_rb_def demo_new_def new_RaftState_def demo_members_def demo_store_def hs_open_def new_store_def
      Let_def hs_load_def loaded_vote_def demo_b_def demo_a_def reset_election_timer_def)
  let ?none = "hard_state_image 1 None" let ?a = "hard_state_image 1 (Some ''a:1'')"
  let ?st = "\<lparr>hs_directory = ''d'', hs_state = \<lparr>hs_term = 1, hs_voted_for = None\<rparr>, hs_file = Some ?none, hs_forced = Some ?none\<rparr>"
  let ?st1 = "\<lparr>hs_directory = ''d'', hs_state = \<lparr>hs_term = 1, hs_voted_for = Some ''a:1''\<rparr>, hs_file = Some ?a, hs_forced = Some ?none\<rparr>"
  have t1: "rs_store demo_term1 = ?st" "rs_current_term demo_term1 = 1" "rs_voted_for demo_term1 = None"
    using rb demo_persist(2) by (simp_all add: demo_term1_def become_follower_def advance_term_def reset_election_timer_def)
  have e: "encode_state 1 (Some ''a:1'') = Inr ?a" "encode_state 1 (Some ''c:3'') = Inr (hard_state_image 1 (Some ''c:3''))"
    by (simp_all add: encode_state_iff hard_state_ok_def)
  have d: "decode_state ?a = Inr \<lparr>hs_term = 1, hs_voted_for = Some ''a:1''\<rparr>" "decode_state ?none = Inr \<lparr>hs_term = 1, hs_voted_for = None\<rparr>"
    by (simp_all add: decode_state_image hard_state_ok_def)
  have c: "to_string demo_c = ''c:3''" by code_simp
  have g1: "grant_vote Directory_sync_fails demo_term1 demo_a 0 0 0 0 = (Inl System_error, demo_term1\<lparr>rs_store := ?st1\<rparr>)"
    using t1 e(1) demo_names(1) by (simp add: grant_vote_def persist_def Let_def)
  have n: "\<exists>rs. demo_restart st = Inr rs \<and> rs_store rs = st\<lparr>hs_directory := ''d'', hs_state := hs\<rparr> \<and> rs_current_term rs = hs_term hs \<and>
      rs_voted_for rs = v"
    if "hs_directory st = []" "hs_file st = Some b" "decode_state b = Inr hs" "loaded_vote hs = Inr v" for st b hs v
    using that by (simp add: demo_restart_def hs_open_def new_RaftState_def demo_members_def Let_def hs_load_def reset_election_timer_def)
  obtain rs2 where r2: "demo_restart (hs_close ?st1) = Inr rs2" "rs_store rs2 = ?st1" "rs_current_term rs2 = 1" "rs_voted_for rs2 = Some demo_a"
    using n[of "hs_close ?st1" ?a "\<lparr>hs_term = 1, hs_voted_for = Some ''a:1''\<rparr>" "Some demo_a"] d(1) demo_addresses(1)
    by (auto simp: hs_close_def loaded_vote_def demo_a_def)
  obtain rs3 where r3: "demo_restart (hs_power_loss False ?st1) = Inr rs3" "rs_store rs3 = ?st" "rs_current_term rs3 = 1" "rs_voted_for rs3 = None"
    using n[of "hs_power_loss False ?st1" ?none "\<lparr>hs_term = 1, hs_voted_for = None\<rparr>" None] d(2)
    by (auto simp: hs_power_loss_def hs_close_def loaded_vote_def Let_def)
  have "grant_vote No_fault rs2 demo_a 0 0 0 0 = (Inr True, rs2)" using r2 by (simp add: grant_vote_def)
  moreover have "fst (grant_vote No_fault rs3 demo_c 0 0 0 0) = Inr True" using r3 e(2) c by (simp add: grant_vote_def persist_def Let_def)
  ultimately show ?thesis
    using g1 r2 r3 by (intro exI[of _ "demo_term1\<lparr>rs_store := ?st1\<rparr>"] exI[of _ rs2] exI[of _ rs3]) simp
qed

end
