(* ===== verification/RaftReplication.thy ===== *)
theory RaftReplication
  imports RaftCluster
begin

text \<open>
  What a follower's log holds after \<open>AppendEntries\<close>.  The log is used through the contract of \<open>entry_log\<close>: it is a
  list of entries.  A successful call makes the log agree with the leader's entries, keeps what already
  agreed, forces it to disk and moves the commit index no further than that; a batch that fails its checks
  after a conflict was found has already cost the follower its suffix.
\<close>

abbreviation no_append_faults :: append_faults where
  "no_append_faults \<equiv> \<lparr>af_persist = No_fault, af_remove_fails = False, af_append = \<lambda>_. (no_faults, no_faults)\<rparr>"

lemma chain_entry_ok:
  "segment_chain raft_encode re_idx b ss rss e \<Longrightarrow> x \<in> set (concat rss) \<Longrightarrow> entry_ok x"
proof (induction ss arbitrary: b rss)
  case Nil
  then show ?case by (cases rss) auto
next
  case (Cons s ss)
  obtain rs q bs where c: "rss = rs # q" "segment_holds raft_encode re_idx s rs bs" "segment_chain raft_encode re_idx (sg_next s) ss q e"
    using Cons.prems(1) by (rule chain_ConsE)
  show ?case
  proof (cases "x \<in> set rs")
    case True
    then obtain i where i: "i < length rs" "rs ! i = x" by (auto simp: in_set_conv_nth)
    have "encodings raft_encode rs bs" using c(2) by (simp add: segment_holds_def)
    note n = encodings_nth[OF this]
    have "raft_encode x = Inr (bs ! i)" using n(1) n(2)[of i] i by simp
    then show ?thesis by (simp add: raft_encode_iff)
  next
    case False
    then show ?thesis using Cons.IH[OF c(3)] Cons.prems(2) c(1) by simp
  qed
qed

lemma log_entry_ok: "raft_log_holds rl es \<Longrightarrow> x \<in> set es \<Longrightarrow> entry_ok x"
  using chain_entry_ok by (auto simp: raft_log_holds_def raft_parts_def)

lemma log_entry_term: "raft_log_holds rl es \<Longrightarrow> i < length es \<Longrightarrow> re_term (es ! i) \<noteq> 0"
  using log_entry_ok[of rl es "es ! i"] by (simp add: entry_ok_def)

text \<open>The leader's entries \<open>ys\<close> behind position \<open>p\<close> agree with the log up to \<open>k\<close>.\<close>

definition agrees :: "RaftMutationEntry list \<Rightarrow> nat \<Rightarrow> RaftMutationEntry list \<Rightarrow> nat \<Rightarrow> bool" where
  "agrees es p ys k = (\<forall>i<k. p + i < length es \<and> re_term (es ! (p + i)) = re_term (ys ! i))"

lemma agrees_Suc: "agrees es p ys (Suc k) \<longleftrightarrow> agrees es p ys k \<and> p + k < length es \<and> re_term (es ! (p + k)) = re_term (ys ! k)"
  by (auto simp: agrees_def less_Suc_eq)

lemma agrees_bound: "agrees es p ys k \<Longrightarrow> p \<le> length es \<Longrightarrow> p + k \<le> length es"
  by (cases k) (auto simp: agrees_Suc)

lemma position_index:
  fixes prev :: u64
  assumes "unat prev = p" "p + k + 1 < 2 ^ 64"
  shows "prev + 1 + of_nat k = 1 + of_nat (p + k)" "unat (prev + 1 + of_nat k) = p + k + 1"
proof -
  have "prev = of_nat p" using assms(1) by auto
  then show e: "prev + 1 + of_nat k = 1 + of_nat (p + k)" by simp
  have "unat (of_nat (p + k + 1) :: u64) = p + k + 1" using assms(2) by (rule_tac unat_of_nat_lt) simp
  then show "unat (prev + 1 + of_nat k) = p + k + 1" unfolding e by (simp add: add.commute)
qed

lemma append_scan_outcome:
  assumes d: "durable_log rl es" and p: "unat prev = p" "p + length ys + 1 < 2 ^ 64" "p \<le> length es"
    and k: "k \<le> length ys" "agrees es p ys k"
  shows "\<exists>j rl'. append_scan False rl prev (drop k ys) k = (Inr j, rl') \<and> j \<le> length ys \<and> agrees es p ys j \<and>
    (j < length ys \<longrightarrow> durable_log rl' (take (p + j) es) \<and> (p + j < length es \<longrightarrow> re_term (es ! (p + j)) \<noteq> re_term (ys ! j))) \<and>
    (j = length ys \<longrightarrow> rl' = rl)"
  using k
proof (induction "length ys - k" arbitrary: k)
  case 0
  then have "drop k ys = []" "k = length ys" by simp_all
  then show ?case using 0 by (intro exI[of _ k] exI[of _ rl]) simp
next
  case (Suc n)
  then have lt: "k < length ys" by linarith
  let ?idx = "prev + 1 + of_nat k :: u64"
  have dr: "drop k ys = ys ! k # drop (Suc k) ys" using lt by (simp add: Cons_nth_drop_Suc)
  have ix: "?idx = 1 + of_nat (p + k)" "unat ?idx = p + k + 1" using position_index[OF p(1), of k] p(2) lt by simp_all
  have t: "raft_term_at rl ?idx = Inr (if p + k \<ge> length es then 0 else re_term (es ! (p + k)))"
    using el.term_law[OF d, of ?idx] ix(2) by (auto simp: unsigned_eq_0_iff[symmetric])
  have b: "p + k \<le> length es" by (rule agrees_bound[OF Suc.prems(2) p(3)])
  consider "p + k = length es" | "p + k < length es" "re_term (es ! (p + k)) = re_term (ys ! k)"
    | "p + k < length es" "re_term (es ! (p + k)) \<noteq> re_term (ys ! k)" using b by fastforce
  then show ?case
  proof cases
    case 1
    then have "append_scan False rl prev (drop k ys) k = (Inr k, rl)" using t by (simp add: dr)
    then show ?thesis using Suc.prems lt d 1 by (intro exI[of _ k] exI[of _ rl]) simp
  next
    case 2
    have "append_scan False rl prev (drop k ys) k = append_scan False rl prev (drop (Suc k) ys) (Suc k)"
      using t 2 log_entry_term[of rl es "p + k"] d by (simp add: dr)
    moreover have "n = length ys - Suc k" "Suc k \<le> length ys" "agrees es p ys (Suc k)"
      using Suc lt 2 by (simp_all add: agrees_Suc)
    ultimately show ?thesis using Suc.hyps(1)[of "Suc k"] by simp
  next
    case 3
    obtain rl' where tr: "raft_truncate_suffix False rl ?idx = (Inr (), rl')" "durable_log rl' (take (p + k) es)"
      using el.truncate_law[OF d b] unfolding ix(1) by blast
    then have "append_scan False rl prev (drop k ys) k = (Inr k, rl')"
      using t 3 log_entry_term[of rl es "p + k"] d by (simp add: dr)
    then show ?thesis using Suc.prems lt tr(2) 3 by (intro exI[of _ k] exI[of _ rl']) simp
  qed
qed

lemma check_batch_drop:
  "check_batch n xs = Inr () \<Longrightarrow> check_batch (n + of_nat j) (drop j xs) = Inr ()"
proof (induction j arbitrary: n xs)
  case (Suc j)
  then show ?case
  proof (cases xs)
    case (Cons x ys)
    then have "check_batch (n + 1) ys = Inr ()" using Suc.prems by (auto split: if_split_asm)
    then show ?thesis using Suc.IH[of "n + 1" ys] Cons by (simp add: add.assoc)
  qed simp
qed simp

text \<open>What the log becomes: unchanged if it has all the entries, else cut at the first difference and extended.\<close>

definition merged :: "RaftMutationEntry list \<Rightarrow> nat \<Rightarrow> RaftMutationEntry list \<Rightarrow> nat \<Rightarrow> RaftMutationEntry list" where
  "merged es p ys j = (if j = length ys then es else take (p + j) es @ drop j ys)"

definition first_difference :: "RaftMutationEntry list \<Rightarrow> nat \<Rightarrow> RaftMutationEntry list \<Rightarrow> nat \<Rightarrow> bool" where
  "first_difference es p ys j =
     (j \<le> length ys \<and> agrees es p ys j \<and>
      (j < length ys \<longrightarrow> p + j < length es \<longrightarrow> re_term (es ! (p + j)) \<noteq> re_term (ys ! j)))"

lemma sync_durable:
  assumes "durable_log rl es" "t \<noteq> 0" "unat t \<le> length es"
  shows "\<exists>rl'. raft_sync_through rl t = Inr rl' \<and> durable_log rl' es \<and> t \<le> rl_durable_index rl'"
proof -
  obtain ess where p: "es = concat ess" "raft_parts rl ess" using assms(1) by (auto simp: raft_log_holds_def)
  have "t < rl_next_index rl" using raft_parts_bounds(1)[OF p(2)] assms(3) p(1) by (simp add: word_less_nat_alt)
  then show ?thesis using raft_sync_parts[OF p(2) _ assms(2)] assms(1) p(1) raft_holdsI by blast
qed

lemma merged_length: "first_difference es p ys j \<Longrightarrow> p \<le> length es \<Longrightarrow> p + length ys \<le> length (merged es p ys j)"
  using agrees_bound[of es p ys j] by (auto simp: merged_def first_difference_def)

lemma store_entries_outcome:
  assumes d: "durable_log rl es" and p: "unat prev = p" "p + length ys + 1 < 2 ^ 64" "p \<le> length es"
    and c: "check_batch (prev + 1) ys = Inr ()" "\<forall>x\<in>set ys. \<forall>b. raft_encode x = Inr b \<longrightarrow> small b"
  shows "\<exists>j rl'. store_entries no_append_faults rl prev ys = (Inr (), rl') \<and> first_difference es p ys j \<and>
    durable_log rl' (merged es p ys j) \<and> prev + of_nat (length ys) \<le> rl_durable_index rl'"
proof -
  obtain j rl1 where s: "append_scan False rl prev ys 0 = (Inr j, rl1)" "j \<le> length ys" "agrees es p ys j"
    "j < length ys \<longrightarrow> durable_log rl1 (take (p + j) es) \<and> (p + j < length es \<longrightarrow> re_term (es ! (p + j)) \<noteq> re_term (ys ! j))"
    "j = length ys \<longrightarrow> rl1 = rl"
    using append_scan_outcome[OF d p, of 0] by (auto simp: agrees_def)
  have fd: "first_difference es p ys j" using s by (auto simp: first_difference_def)
  have b: "p + j \<le> length es" by (rule agrees_bound[OF s(3) p(3)])
  have "\<exists>rl2. (if j < length ys then append_from_leader (\<lambda>_. (no_faults, no_faults)) rl1 (prev + 1 + of_nat j) (drop j ys)
      else (Inr (), rl1)) = (Inr (), rl2) \<and> durable_log rl2 (merged es p ys j)"
  proof (cases "j < length ys")
    case False
    then show ?thesis using s(2,5) d by (simp add: merged_def)
  next
    case True
    have len: "length (take (p + j) es) = p + j" using b by simp
    have ix: "prev + 1 + of_nat j = 1 + of_nat (p + j)" using position_index[OF p(1), of j] p(2) True by simp
    have "check_batch (1 + of_nat (p + j)) (drop j ys) = Inr ()" using check_batch_drop[OF c(1), of j] unfolding ix .
    moreover have "\<forall>x\<in>set (drop j ys). \<forall>b. raft_encode x = Inr b \<longrightarrow> small b" using c(2) set_drop_subset by fast
    moreover have "1 + (p + j) + length (drop j ys) < 2 ^ 64" using p(2) True by simp
    ultimately obtain rl2 where "append_from_leader (\<lambda>_. (no_faults, no_faults)) rl1 (1 + of_nat (p + j)) (drop j ys) = (Inr (), rl2)"
      "durable_log rl2 (take (p + j) es @ drop j ys)"
      using el.append_law[of rl1 "take (p + j) es" "drop j ys", unfolded len] s(4) True by blast
    then show ?thesis unfolding ix using True by (simp add: merged_def del: of_nat_add)
  qed
  then obtain rl2 where a: "(if j < length ys then append_from_leader (\<lambda>_. (no_faults, no_faults)) rl1 (prev + 1 + of_nat j) (drop j ys)
      else (Inr (), rl1)) = (Inr (), rl2)" "durable_log rl2 (merged es p ys j)" by blast
  have last: "unat (prev + of_nat (length ys)) = p + length ys"
  proof -
    have "prev = of_nat p" using p(1) by auto
    then have "prev + of_nat (length ys) = of_nat (p + length ys)" by simp
    then show ?thesis using p(2) unat_of_nat_lt[of "p + length ys", where 'a = 64] by simp
  qed
  have st: "store_entries no_append_faults rl prev ys = (if prev + of_nat (length ys) > 0
      then (case raft_sync_through rl2 (prev + of_nat (length ys)) of Inl e \<Rightarrow> (Inl e, rl2) | Inr rl \<Rightarrow> (Inr (), rl)) else (Inr (), rl2))"
    using s(1) a(1) by (cases "j < length ys") (simp_all add: store_entries_def Let_def)
  show ?thesis
  proof (cases "prev + of_nat (length ys) > 0")
    case True
    then have "prev + of_nat (length ys) \<noteq> 0" by auto
    then obtain rl3 where r: "raft_sync_through rl2 (prev + of_nat (length ys)) = Inr rl3" "durable_log rl3 (merged es p ys j)"
      "prev + of_nat (length ys) \<le> rl_durable_index rl3"
      using sync_durable[OF a(2), of "prev + of_nat (length ys)"] merged_length[OF fd p(3)] last by auto
    then show ?thesis using fd st True by (intro exI[of _ j] exI[of _ rl3]) simp
  next
    case False
    then show ?thesis using fd st a(2) by (intro exI[of _ j] exI[of _ rl2]) (simp add: not_less)
  qed
qed

lemma merged_facts:
  assumes fd: "first_difference es p ys j" and p: "p \<le> length es"
  shows "take p (merged es p ys j) = take p es"
    "i < length ys \<Longrightarrow> re_term (merged es p ys j ! (p + i)) = re_term (ys ! i)"
    "agrees es p ys (min (length ys) (length es - p)) \<Longrightarrow> take (length es) (merged es p ys j) = es"
proof -
  have a: "agrees es p ys j" "j \<le> length ys" using fd by (simp_all add: first_difference_def)
  have b: "p + j \<le> length es" by (rule agrees_bound[OF a(1) p])
  show "take p (merged es p ys j) = take p es" using b by (auto simp: merged_def)
  show "re_term (merged es p ys j ! (p + i)) = re_term (ys ! i)" if "i < length ys"
  proof (cases "i < j")
    case True
    then show ?thesis using a(1) b by (simp add: merged_def agrees_def nth_append)
  next
    case False
    then show ?thesis using that a(2) b by (auto simp: merged_def nth_append)
  qed
  show "take (length es) (merged es p ys j) = es" if ag: "agrees es p ys (min (length ys) (length es - p))"
  proof (cases "j = length ys")
    case False
    then have "\<not> p + j < length es" using fd a ag by (auto simp: first_difference_def agrees_def)
    then show ?thesis using b False by (simp add: merged_def)
  qed (simp add: merged_def)
qed

lemma follow_leader_succeeds:
  assumes "rs_durable rs" "hs_state (rs_store rs) = mem_state rs" "rs_current_term rs \<le> t"
  shows "\<exists>rs1. follow_leader No_fault tm rs t l = (Inr (), rs1) \<and> rs_state rs1 = Follower \<and> rs_current_term rs1 = t \<and>
    rs_leader_raft_address rs1 = Some l \<and> rs_commit_index rs1 = rs_commit_index rs"
proof (cases "t > rs_current_term rs")
  case True
  have "encode_state t None = Inr (hard_state_image t None)" by (simp add: encode_state_iff hard_state_ok_def)
  moreover have "hs_directory (rs_store rs) \<noteq> []" using assms(1) by (simp add: rs_durable_def store_ok_def hs_is_open_def)
  moreover have "\<not> t < hs_term (hs_state (rs_store rs))" "t \<noteq> hs_term (hs_state (rs_store rs))"
    using True assms(2) by (auto simp: mem_state_def)
  ultimately have "\<exists>st. persist No_fault (rs_store rs) t None = (Inr (), st)" by (simp add: persist_def Let_def)
  then obtain st where "persist No_fault (rs_store rs) t None = (Inr (), st)" ..
  then show ?thesis using True
    by (simp add: follow_leader_def become_follower_def advance_term_def reset_election_timer_def not_le)
next
  case False
  then have "t = rs_current_term rs" using assms(3) by simp
  then show ?thesis
    by (cases "rs_state rs = Follower")
      (simp_all add: follow_leader_def become_follower_def reset_election_timer_def set_leader_raft_address_def)
qed


lemma demo_follower:
  "rs_durable demo_rb" "hs_state (rs_store demo_rb) = mem_state demo_rb" "is_peer demo_rb demo_a" "rs_current_term demo_rb = 0"
  "rs_commit_index demo_rb = 0"
proof -
  have st: "demo_store = \<lparr>hs_directory = ''d'', hs_state = no_hard_state, hs_file = None, hs_forced = None\<rparr>"
    by (simp add: demo_store_def hs_open_def new_store_def)
  show "rs_durable demo_rb"
    by (rule new_RaftState_ok(6)[OF demo_started(2)]) (simp_all add: st store_ok_def hs_is_open_def file_state_def canonical_def)
  show "hs_state (rs_store demo_rb) = mem_state demo_rb" "is_peer demo_rb demo_a" "rs_current_term demo_rb = 0" "rs_commit_index demo_rb = 0"
    by (simp_all add: demo_rb_def demo_new_def new_RaftState_def demo_members_def st mem_state_def
      Let_def hs_load_def loaded_vote_def demo_b_def demo_a_def reset_election_timer_def is_peer_def)
qed

definition demo_append :: "u64 \<Rightarrow> AppendEntriesRequest" where
  "demo_append i = \<lparr>ae_term = 4, ae_leader = ''a:1'', ae_prev_log_idx = 0, ae_prev_log_term = 0,
     ae_entries = [\<lparr>pe_term = 4, pe_idx = i, pe_operations = []\<rparr>], ae_leader_commit_idx = 5\<rparr>"

lemma demo_append_parts:
  "from_string (ae_leader (demo_append i)) = Inr demo_a" "from_proto_all (ae_entries (demo_append i)) = Inr [tiny_entry 4 i]"
  by (simp_all add: demo_append_def demo_addresses demo_a_def from_proto_def tiny_entry_def)

lemma demo_batch: "check_batch 1 [tiny_entry t 1] = Inr ()" if "t \<noteq> 0"
  using that tiny_entry_encodes(1)[of t 1] by (simp add: tiny_entry_def)


text \<open>C29: The entries are checked for dense indexes only after a conflict has been cut off: a batch whose entry
  at the conflict does not carry the index of its place, or cannot be encoded, ends the call with an exception, and
  the follower has lost its entries from the conflict on.\<close>

theorem rejected_entries_truncate:
  assumes d: "durable_log rl es" and rs: "rs_durable rs" "hs_state (rs_store rs) = mem_state rs"
    and req: "from_string (ae_leader req) = Inr l" "is_peer rs l" "rs_current_term rs \<le> ae_term req"
      "from_proto_all (ae_entries req) = Inr (y # ys)" "ae_prev_log_idx req = 0"
    and bad: "es \<noteq> []" "re_term y \<noteq> re_term (es ! 0)" "check_batch 1 (y # ys) \<noteq> Inr ()"
  shows "\<exists>e rs' rl'. AppendEntries no_append_faults tm rs rl req = (Rpc_thrown e, rs', rl') \<and> durable_log rl' []"
proof -
  obtain rs1 where f: "follow_leader No_fault tm rs (ae_term req) l = (Inr (), rs1)"
    using follow_leader_succeeds[OF rs req(3)] by blast
  obtain rl1 e where t: "raft_truncate_suffix False rl (1 + of_nat 0) = (Inr (), rl1)"
    "append_from_leader (\<lambda>_. (no_faults, no_faults)) rl1 (1 + of_nat 0) (y # ys) = (Inl e, rl1)" "durable_log rl1 (take 0 es)"
    using el.truncated_then_rejected[OF d, of 0 "y # ys"] bad(3) by auto
  have "raft_term_at rl 1 = Inr (re_term (es ! 0))" using el.term_law[OF d, of 1] bad(1) by simp
  then have "append_scan False rl 0 (y # ys) 0 = (Inr 0, rl1)"
    using t(1) bad(1,2) log_entry_term[of rl es 0] d by simp
  then have "store_entries no_append_faults rl 0 (y # ys) = (Inl e, rl1)" using t(2) by (simp add: store_entries_def)
  then have "AppendEntries no_append_faults tm rs rl req = (Rpc_thrown e, rs1, rl1)"
    using req f by (simp add: AppendEntries_def Let_def not_less)
  then show ?thesis using t(3) by (intro exI[of _ e] exI[of _ rs1] exI[of _ rl1]) simp
qed

theorem rejected_entries_truncate_witness:
  "\<exists>rl e rs' rl'. durable_log rl [tiny_entry 3 1] \<and>
     AppendEntries no_append_faults (0, 200) demo_rb rl (demo_append 7) = (Rpc_thrown e, rs', rl') \<and> durable_log rl' []"
proof -
  have "durable_log (empty_raft_log tiny_raft_config) []" using tiny_raft_log by simp
  from el.append_law[OF this, of "[tiny_entry 3 1]"] obtain rl where rl: "durable_log rl [tiny_entry 3 1]"
    using demo_batch[of 3] tiny_entry_encodes by auto
  have "check_batch 1 [tiny_entry 4 7] \<noteq> Inr ()" by (simp add: tiny_entry_def)
  then have "\<exists>e rs' rl'. AppendEntries no_append_faults (0, 200) demo_rb rl (demo_append 7) = (Rpc_thrown e, rs', rl') \<and> durable_log rl' []"
    using rejected_entries_truncate[OF rl demo_follower(1,2) demo_append_parts(1) demo_follower(3) _ demo_append_parts(2), of 7 "(0, 200)"]
      demo_follower(4) by (simp add: demo_append_def tiny_entry_def)
  then show ?thesis using rl by blast
qed

end
