(* ===== verification/BTreePage.thy ===== *)
theory BTreePage
  imports PageCodec WalPayload
begin

text \<open>
  The decoded pages of the B-tree, after \<open>src/include/containers/BTreePage.h\<close> and
  \<open>src/src/containers/BTreePage.cpp\<close>.  A page object is a record of the decoded
  vectors; the two subclasses extend it.  \<open>decode\<close> reads a 4072-byte payload,
  \<open>flush\<close> builds the payload that replaces it.  \<open>std::abort\<close> and an access
  outside the page payload are values of \<open>page_fault\<close>.  The lemmas show that the binary search
  finds the first key that is not smaller, that a leaf page behaves as a finite
  map, and that a page whose cells fit is read back as it was written.
\<close>

section \<open>Data\<close>

datatype PageType = Internal | Leaf

datatype page_fault = Aborted | Outside_page

record BTreePage =
  page_type :: PageType
  keys :: "Key list"
  free_offset_start :: u16
  free_offset_end :: u16
  key_count :: u16

record BInternalPage = BTreePage +
  child_page_nums :: "u32 list"

record BLeafPage = BTreePage +
  leaf_values :: "Value list"

definition BTREE_PAYLOAD_SIZE :: u16 where
  "BTREE_PAYLOAD_SIZE = of_nat V2_PAGE_PAYLOAD_SIZE"

definition INTERNAL_HEADER_SIZE :: u16 where "INTERNAL_HEADER_SIZE = 11"
definition LEAF_HEADER_SIZE :: u16 where "LEAF_HEADER_SIZE = 7"
definition CELL_DIR_ENTRY_SIZE :: u16 where "CELL_DIR_ENTRY_SIZE = 2"

fun page_type_code :: "PageType \<Rightarrow> u8" where
  "page_type_code Internal = 0"
| "page_type_code Leaf = 1"

definition internal_cell_size :: "Key \<Rightarrow> u16" where
  "internal_cell_size key = ucast (1 + 2 + ksize key + 4)"

definition leaf_cell_size :: "Key \<Rightarrow> Value \<Rightarrow> u16" where
  "leaf_cell_size key val = ucast (1 + 2 + ksize key + 1 + 2 + vsize val)"

section \<open>Keys in a cell\<close>

definition write_key_bytes :: "bytes \<Rightarrow> nat \<Rightarrow> Key \<Rightarrow> page_fault + bytes" where
  "write_key_bytes page p key =
     (if \<not> validate_key key then Inl Aborted
      else if ksize key > 0xFFFF then Inl Aborted
      else if p + 3 + unat (ksize key) > length page then Inl Outside_page
      else
        let page = put_u8_be page p (of_nat (key_tag (ktype key)));
            page = put_u16_be page (p + 1) (ucast (ksize key))
        in Inr (write_at page (p + 3) (take (unat (ksize key)) (kdata key))))"

definition parse_key_bytes :: "bytes \<Rightarrow> nat \<Rightarrow> page_fault + Key" where
  "parse_key_bytes page p =
     (if p + 1 > length page then Inl Outside_page
      else case key_type_of (get_u8_be page p) of
        None \<Rightarrow> Inl Aborted
      | Some t \<Rightarrow>
          if p + 3 > length page then Inl Outside_page
          else
            let n = get_u16_be page (p + 1) in
            if p + 3 + unat n > length page then Inl Outside_page
            else
              let key = \<lparr>ktype = t, ksize = ucast n, kdata = take (unat n) (drop (p + 3) page)\<rparr>
              in if \<not> validate_key key then Inl Aborted else Inr key)"

section \<open>Common operations\<close>

definition peek_page_type :: "bytes \<Rightarrow> page_fault + PageType" where
  "peek_page_type page =
     (let kind = page_kind page
      in if kind = BTreeLeaf then Inr Leaf
         else if kind = BTreeInternal then Inr Internal
         else Inl Aborted)"

definition is_leaf :: "'a BTreePage_scheme \<Rightarrow> bool" where
  "is_leaf pg = (page_type pg = Leaf)"

definition get_key_count :: "'a BTreePage_scheme \<Rightarrow> u16" where
  "get_key_count pg = key_count pg"

function lower_bound_loop :: "Key list \<Rightarrow> Key \<Rightarrow> nat \<Rightarrow> nat \<Rightarrow> nat" where
  "lower_bound_loop ks key left right =
     (if left < right then
        let mid = left + (right - left) div 2
        in if key_compare (ks ! mid) key < 0 then lower_bound_loop ks key (mid + 1) right
           else lower_bound_loop ks key left mid
      else left)"
  by pat_completeness auto
termination by (relation "measure (\<lambda>(ks, key, left, right). right - left)") auto

declare lower_bound_loop.simps [simp del]

definition lower_bound_key :: "'a BTreePage_scheme \<Rightarrow> Key \<Rightarrow> nat" where
  "lower_bound_key pg key = lower_bound_loop (keys pg) key 0 (length (keys pg))"

definition first_key :: "'a BTreePage_scheme \<Rightarrow> Key option" where
  "first_key pg = (if keys pg = [] then None else Some (keys pg ! 0))"

definition key_at :: "'a BTreePage_scheme \<Rightarrow> nat \<Rightarrow> Key option" where
  "key_at pg idx = (if idx \<ge> length (keys pg) then None else Some (keys pg ! idx))"

text \<open>\<open>std::vector::insert\<close> and \<open>std::vector::erase\<close> at an index.\<close>

definition vec_insert :: "nat \<Rightarrow> 'a \<Rightarrow> 'a list \<Rightarrow> 'a list" where
  "vec_insert idx x xs = take idx xs @ x # drop idx xs"

definition vec_erase :: "nat \<Rightarrow> 'a list \<Rightarrow> 'a list" where
  "vec_erase idx xs = take idx xs @ drop (idx + 1) xs"

section \<open>Internal pages\<close>

definition parse_internal_cell :: "bytes \<Rightarrow> nat \<Rightarrow> page_fault + (Key \<times> u32)" where
  "parse_internal_cell page p =
     res_bind (parse_key_bytes page p) (\<lambda>key.
       if p + 3 + unat (ksize key) + 4 > length page then Inl Outside_page
       else Inr (key, get_u32_be page (p + 3 + unat (ksize key))))"

text \<open>The loop over the cell directory; \<open>n\<close> is the number of entries still to read.\<close>

fun internal_decode_cells :: "bytes \<Rightarrow> nat \<Rightarrow> u16 \<Rightarrow> page_fault + (Key \<times> u32) list" where
  "internal_decode_cells page 0 start_ptr = Inr []"
| "internal_decode_cells page (Suc n) start_ptr =
     (if unat start_ptr + 2 > length page then Inl Outside_page
      else
        let cell_start_offset = get_u16_be page (unat start_ptr)
        in res_bind (parse_internal_cell page (unat cell_start_offset)) (\<lambda>cell.
           res_bind (internal_decode_cells page n (start_ptr + CELL_DIR_ENTRY_SIZE)) (\<lambda>cells.
             Inr (cell # cells))))"

definition internal_decode :: "bytes \<Rightarrow> page_fault + BInternalPage" where
  "internal_decode page =
     (let page_type_int = get_u8_be page 0 in
      if page_type_int > 1 then Inl Aborted
      else if page_type_int \<noteq> page_type_code Internal then Inl Aborted
      else
        let kc = get_u16_be page 1
        in res_bind (internal_decode_cells page (unat kc) INTERNAL_HEADER_SIZE) (\<lambda>cells.
             Inr \<lparr>page_type = Internal, keys = map fst cells,
                  free_offset_start = get_u16_be page 3, free_offset_end = get_u16_be page 5,
                  key_count = kc, child_page_nums = get_u32_be page 7 # map snd cells\<rparr>))"

definition new_BInternalPage :: "bytes \<Rightarrow> page_fault + BInternalPage" where
  "new_BInternalPage page =
     res_bind (peek_page_type page) (\<lambda>t.
       if t \<noteq> Internal then Inl Aborted else internal_decode (drop V2_PAGE_HEADER_SIZE page))"

definition insert_separator_at ::
    "BInternalPage \<Rightarrow> nat \<Rightarrow> Key \<Rightarrow> u32 \<Rightarrow> bool \<times> BInternalPage" where
  "insert_separator_at pg idx key right_child_page_num =
     (if idx > length (keys pg) then (False, pg)
      else if \<not> validate_key key then (False, pg)
      else if length (child_page_nums pg) \<noteq> length (keys pg) + 1 then (False, pg)
      else
        let ks = vec_insert idx key (keys pg)
        in (True, pg\<lparr>keys := ks,
              child_page_nums := vec_insert (idx + 1) right_child_page_num (child_page_nums pg),
              key_count := of_nat (length ks)\<rparr>))"

definition remove_separator_at :: "BInternalPage \<Rightarrow> nat \<Rightarrow> bool \<times> BInternalPage" where
  "remove_separator_at pg idx =
     (if idx \<ge> length (keys pg) then (False, pg)
      else if length (child_page_nums pg) \<noteq> length (keys pg) + 1 then (False, pg)
      else
        let ks = vec_erase idx (keys pg)
        in (True, pg\<lparr>keys := ks, child_page_nums := vec_erase (idx + 1) (child_page_nums pg),
              key_count := of_nat (length ks)\<rparr>))"

definition set_separator_key_at :: "BInternalPage \<Rightarrow> nat \<Rightarrow> Key \<Rightarrow> bool \<times> BInternalPage" where
  "set_separator_key_at pg idx key =
     (if idx \<ge> length (keys pg) then (False, pg)
      else if \<not> validate_key key then (False, pg)
      else (True, pg\<lparr>keys := (keys pg)[idx := key]\<rparr>))"

definition set_leftmost_child :: "BInternalPage \<Rightarrow> u32 \<Rightarrow> bool \<times> BInternalPage" where
  "set_leftmost_child pg leftmost_child_page_num =
     (if child_page_nums pg \<noteq> [] then (False, pg)
      else (True, pg\<lparr>child_page_nums := child_page_nums pg @ [leftmost_child_page_num]\<rparr>))"

definition replace_leftmost_child :: "BInternalPage \<Rightarrow> u32 \<Rightarrow> bool \<times> BInternalPage" where
  "replace_leftmost_child pg leftmost_child_page_num =
     (if child_page_nums pg = [] then (False, pg)
      else (True, pg\<lparr>child_page_nums := (child_page_nums pg)[0 := leftmost_child_page_num]\<rparr>))"

definition get_leftmost_child :: "BInternalPage \<Rightarrow> u32 option" where
  "get_leftmost_child pg =
     (if child_page_nums pg = [] then None else Some (child_page_nums pg ! 0))"

definition get_left_child :: "BInternalPage \<Rightarrow> nat \<Rightarrow> u32 option" where
  "get_left_child pg separator_idx =
     (if separator_idx \<ge> length (keys pg) then None
      else if length (child_page_nums pg) \<noteq> length (keys pg) + 1 then None
      else Some (child_page_nums pg ! separator_idx))"

definition get_right_child :: "BInternalPage \<Rightarrow> nat \<Rightarrow> u32 option" where
  "get_right_child pg separator_idx =
     (if separator_idx \<ge> length (keys pg) then None
      else if length (child_page_nums pg) \<noteq> length (keys pg) + 1 then None
      else Some (child_page_nums pg ! (separator_idx + 1)))"

definition internal_remove :: "BInternalPage \<Rightarrow> Key \<Rightarrow> bool \<times> BInternalPage" where
  "internal_remove pg key =
     (let idx = lower_bound_key pg key
      in if idx \<ge> length (keys pg) then (False, pg)
         else if \<not> key_equal (keys pg ! idx) key then (False, pg)
         else remove_separator_at pg idx)"

text \<open>One pass of the loop of \<open>flush\<close> per key; the second list is \<open>child_page_nums\<close> from
  index 1 on.\<close>

fun internal_flush_cells ::
    "Key list \<Rightarrow> u32 list \<Rightarrow> bytes \<Rightarrow> u16 \<Rightarrow> u16 \<Rightarrow> page_fault + bytes" where
  "internal_flush_cells [] cs page dir_ptr cell_ptr = Inr page"
| "internal_flush_cells (key # ks) [] page dir_ptr cell_ptr = Inl Outside_page"
| "internal_flush_cells (key # ks) (child # cs) page dir_ptr cell_ptr =
     (let cell_size = internal_cell_size key;
          cell_ptr = cell_ptr - cell_size
      in res_bind (write_key_bytes page (unat cell_ptr) key) (\<lambda>page.
         if unat cell_ptr + 3 + unat (ksize key) + 4 > length page then Inl Outside_page
         else
           let page = put_u32_be page (unat cell_ptr + 3 + unat (ksize key)) child
           in if unat dir_ptr + 2 > length page then Inl Outside_page
              else internal_flush_cells ks cs (put_u16_be page (unat dir_ptr) cell_ptr)
                     (dir_ptr + CELL_DIR_ENTRY_SIZE) cell_ptr))"

definition internal_flush :: "BInternalPage \<Rightarrow> page_fault + bytes" where
  "internal_flush pg =
     (let page = replicate (unat BTREE_PAYLOAD_SIZE) 0;
          page = put_u8_be page 0 (page_type_code (page_type pg));
          page = put_u16_be page 1 (of_nat (length (keys pg)));
          page = put_u16_be page 3
            (INTERNAL_HEADER_SIZE + of_nat (length (keys pg)) * CELL_DIR_ENTRY_SIZE);
          total_cell_bytes = foldl (\<lambda>total key. total + internal_cell_size key) 0 (keys pg);
          page = put_u16_be page 5 (BTREE_PAYLOAD_SIZE - total_cell_bytes - 1)
      in case child_page_nums pg of
           [] \<Rightarrow> Inl Outside_page
         | child # cs \<Rightarrow>
             internal_flush_cells (keys pg) cs (put_u32_be page 7 child)
               INTERNAL_HEADER_SIZE BTREE_PAYLOAD_SIZE)"

text \<open>The object's page buffer is the 4096-byte image it was built from.\<close>

definition internal_write_back :: "BInternalPage \<Rightarrow> bytes \<Rightarrow> page_fault + bytes" where
  "internal_write_back pg img =
     res_bind (internal_flush pg) (\<lambda>payload. Inr (take V2_PAGE_HEADER_SIZE img @ payload))"

definition internal_fill_initial_layout :: "bytes \<Rightarrow> bytes" where
  "internal_fill_initial_layout out =
     (let out = set_page_kind out BTreeInternal;
          payload = replicate (unat BTREE_PAYLOAD_SIZE) 0;
          payload = put_u8_be payload 0 (page_type_code Internal);
          payload = put_u16_be payload 1 0;
          payload = put_u16_be payload 3 INTERNAL_HEADER_SIZE;
          payload = put_u16_be payload 5 (BTREE_PAYLOAD_SIZE - 1);
          payload = put_u32_be payload 7 0
      in take V2_PAGE_HEADER_SIZE out @ payload)"

section \<open>Leaf pages\<close>

definition parse_leaf_cell :: "bytes \<Rightarrow> nat \<Rightarrow> page_fault + (Key \<times> Value)" where
  "parse_leaf_cell page p =
     res_bind (parse_key_bytes page p) (\<lambda>key.
       let q = p + unat (ksize key) in
       if q + 3 + 1 > length page then Inl Outside_page
       else case value_type_of (get_u8_be page (q + 3)) of
         None \<Rightarrow> Inl Aborted
       | Some t \<Rightarrow>
           if q + 6 > length page then Inl Outside_page
           else
             let n = get_u16_be page (q + 4) in
             if q + 6 + unat n > length page then Inl Outside_page
             else
               let val = \<lparr>vtype = t, vsize = ucast n, vdata = take (unat n) (drop (q + 6) page)\<rparr>
               in if \<not> validate_value val then Inl Aborted else Inr (key, val))"

fun leaf_decode_cells :: "bytes \<Rightarrow> nat \<Rightarrow> u16 \<Rightarrow> page_fault + (Key \<times> Value) list" where
  "leaf_decode_cells page 0 start_ptr = Inr []"
| "leaf_decode_cells page (Suc n) start_ptr =
     (if unat start_ptr + 2 > length page then Inl Outside_page
      else
        let cell_start_offset = get_u16_be page (unat start_ptr)
        in res_bind (parse_leaf_cell page (unat cell_start_offset)) (\<lambda>cell.
           res_bind (leaf_decode_cells page n (start_ptr + CELL_DIR_ENTRY_SIZE)) (\<lambda>cells.
             Inr (cell # cells))))"

definition leaf_decode :: "bytes \<Rightarrow> page_fault + BLeafPage" where
  "leaf_decode page =
     (let page_type_int = get_u8_be page 0 in
      if page_type_int > 1 then Inl Aborted
      else if page_type_int \<noteq> page_type_code Leaf then Inl Aborted
      else
        let kc = get_u16_be page 1
        in res_bind (leaf_decode_cells page (unat kc) LEAF_HEADER_SIZE) (\<lambda>cells.
             Inr \<lparr>page_type = Leaf, keys = map fst cells,
                  free_offset_start = get_u16_be page 3, free_offset_end = get_u16_be page 5,
                  key_count = kc, leaf_values = map snd cells\<rparr>))"

definition new_BLeafPage :: "bytes \<Rightarrow> page_fault + BLeafPage" where
  "new_BLeafPage page =
     res_bind (peek_page_type page) (\<lambda>t.
       if t \<noteq> Leaf then Inl Aborted else leaf_decode (drop V2_PAGE_HEADER_SIZE page))"

definition get_at :: "BLeafPage \<Rightarrow> nat \<Rightarrow> Value option" where
  "get_at pg idx =
     (if idx \<ge> length (leaf_values pg) then None
      else if length (leaf_values pg) \<noteq> length (keys pg) then None
      else Some (leaf_values pg ! idx))"

definition leaf_get :: "BLeafPage \<Rightarrow> Key \<Rightarrow> Value option" where
  "leaf_get pg key =
     (let idx = lower_bound_key pg key
      in if idx \<ge> length (keys pg) then None
         else if \<not> key_equal (keys pg ! idx) key then None
         else Some (leaf_values pg ! idx))"

definition insert_at :: "BLeafPage \<Rightarrow> nat \<Rightarrow> Key \<Rightarrow> Value \<Rightarrow> bool \<times> BLeafPage" where
  "insert_at pg idx key val =
     (if idx > length (keys pg) then (False, pg)
      else if \<not> validate_key key then (False, pg)
      else if \<not> validate_value val then (False, pg)
      else
        let ks = vec_insert idx key (keys pg)
        in (True, pg\<lparr>keys := ks, leaf_values := vec_insert idx val (leaf_values pg),
              key_count := of_nat (length ks)\<rparr>))"

definition remove_at :: "BLeafPage \<Rightarrow> nat \<Rightarrow> bool \<times> BLeafPage" where
  "remove_at pg idx =
     (if idx \<ge> length (keys pg) then (False, pg)
      else if length (leaf_values pg) \<noteq> length (keys pg) then (False, pg)
      else
        let ks = vec_erase idx (keys pg)
        in (True, pg\<lparr>keys := ks, leaf_values := vec_erase idx (leaf_values pg),
              key_count := of_nat (length ks)\<rparr>))"

definition leaf_set :: "BLeafPage \<Rightarrow> Key \<Rightarrow> Value \<Rightarrow> bool \<times> BLeafPage" where
  "leaf_set pg key val =
     (let idx = lower_bound_key pg key
      in if idx \<ge> length (keys pg) then (False, pg)
         else if \<not> key_equal (keys pg ! idx) key then (False, pg)
         else if \<not> validate_value val then (False, pg)
         else (True, pg\<lparr>leaf_values := (leaf_values pg)[idx := val]\<rparr>))"

definition leaf_remove :: "BLeafPage \<Rightarrow> Key \<Rightarrow> bool \<times> BLeafPage" where
  "leaf_remove pg key =
     (let idx = lower_bound_key pg key
      in if idx \<ge> length (keys pg) then (False, pg)
         else if \<not> key_equal (keys pg ! idx) key then (False, pg)
         else remove_at pg idx)"

fun leaf_flush_cells ::
    "Key list \<Rightarrow> Value list \<Rightarrow> bytes \<Rightarrow> u16 \<Rightarrow> u16 \<Rightarrow> page_fault + bytes" where
  "leaf_flush_cells [] vs page dir_ptr cell_ptr = Inr page"
| "leaf_flush_cells (key # ks) [] page dir_ptr cell_ptr = Inl Outside_page"
| "leaf_flush_cells (key # ks) (val # vs) page dir_ptr cell_ptr =
     (let cell_size = leaf_cell_size key val;
          cell_ptr = cell_ptr - cell_size;
          q = unat cell_ptr + unat (ksize key)
      in if \<not> validate_value val then Inl Aborted
         else res_bind (write_key_bytes page (unat cell_ptr) key) (\<lambda>page.
           if q + 6 + unat (vsize val) > length page then Inl Outside_page
           else
             let page = put_u8_be page (q + 3) (of_nat (value_tag (vtype val)));
                 page = put_u16_be page (q + 4) (ucast (vsize val));
                 page = write_at page (q + 6) (take (unat (vsize val)) (vdata val))
             in if unat dir_ptr + 2 > length page then Inl Outside_page
                else leaf_flush_cells ks vs (put_u16_be page (unat dir_ptr) cell_ptr)
                       (dir_ptr + CELL_DIR_ENTRY_SIZE) cell_ptr))"

definition leaf_flush :: "BLeafPage \<Rightarrow> page_fault + bytes" where
  "leaf_flush pg =
     (let page = replicate (unat BTREE_PAYLOAD_SIZE) 0;
          page = put_u8_be page 0 (page_type_code (page_type pg));
          page = put_u16_be page 1 (of_nat (length (keys pg)));
          page = put_u16_be page 3
            (LEAF_HEADER_SIZE + of_nat (length (keys pg)) * CELL_DIR_ENTRY_SIZE);
          total_cell_bytes =
            foldl (\<lambda>total (key, val). total + leaf_cell_size key val) 0 (zip (keys pg) (leaf_values pg));
          page = put_u16_be page 5 (BTREE_PAYLOAD_SIZE - total_cell_bytes - 1)
      in leaf_flush_cells (keys pg) (leaf_values pg) page LEAF_HEADER_SIZE BTREE_PAYLOAD_SIZE)"

definition leaf_write_back :: "BLeafPage \<Rightarrow> bytes \<Rightarrow> page_fault + bytes" where
  "leaf_write_back pg img =
     res_bind (leaf_flush pg) (\<lambda>payload. Inr (take V2_PAGE_HEADER_SIZE img @ payload))"

definition leaf_fill_initial_layout :: "bytes \<Rightarrow> bytes" where
  "leaf_fill_initial_layout out =
     (let out = set_page_kind out BTreeLeaf;
          payload = replicate (unat BTREE_PAYLOAD_SIZE) 0;
          payload = put_u8_be payload 0 (page_type_code Leaf);
          payload = put_u16_be payload 1 0;
          payload = put_u16_be payload 3 LEAF_HEADER_SIZE;
          payload = put_u16_be payload 5 (BTREE_PAYLOAD_SIZE - 1)
      in take V2_PAGE_HEADER_SIZE out @ payload)"

section \<open>The binary search\<close>

abbreviation sorted_keys :: "Key list \<Rightarrow> bool" where
  "sorted_keys \<equiv> sorted_wrt (\<lambda>x y. key_compare x y < 0)"

lemma lower_bound_loop_done: "\<not> left < right \<Longrightarrow> lower_bound_loop ks key left right = left"
  by (simp add: lower_bound_loop.simps)

lemma lower_bound_loop_bounds:
  "left \<le> right \<Longrightarrow> lower_bound_loop ks key left right \<in> {left..right}"
proof (induction ks key left right rule: lower_bound_loop.induct)
  case (1 ks key left right)
  show ?case
  proof (cases "left < right")
    case True
    let ?mid = "left + (right - left) div 2"
    have "?mid < right" using True by auto
    then show ?thesis
      using 1 True by (subst lower_bound_loop.simps) (auto simp: Let_def)
  qed (use "1.prems" in \<open>simp add: lower_bound_loop_done\<close>)
qed

lemma lower_bound_loop_splits:
  assumes "sorted_keys ks" "left \<le> right" "right \<le> length ks"
    and "\<And>i. i < left \<Longrightarrow> key_compare (ks ! i) key < 0"
    and "\<And>i. right \<le> i \<Longrightarrow> i < length ks \<Longrightarrow> 0 \<le> key_compare (ks ! i) key"
  shows "(\<forall>i < lower_bound_loop ks key left right. key_compare (ks ! i) key < 0) \<and>
    (\<forall>i. lower_bound_loop ks key left right \<le> i \<longrightarrow> i < length ks \<longrightarrow> 0 \<le> key_compare (ks ! i) key)"
  using assms
proof (induction ks key left right rule: lower_bound_loop.induct)
  case (1 ks key left right)
  show ?case
  proof (cases "left < right")
    case True
    let ?mid = "left + (right - left) div 2"
    have mid: "left \<le> ?mid" "?mid < right" "?mid < length ks" using True "1.prems"(3) by auto
    note ord = kc.sorted_cmp_nth[OF "1.prems"(1)]
    show ?thesis
    proof (cases "key_compare (ks ! ?mid) key < 0")
      case less: True
      have below: "key_compare (ks ! i) key < 0" if "i < ?mid + 1" for i
        by (rule kc.cmp_le_less_trans[OF ord less]) (use that mid in simp_all)
      have "lower_bound_loop ks key left right = lower_bound_loop ks key (?mid + 1) right"
        using True less by (subst lower_bound_loop.simps) (simp add: Let_def)
      then show ?thesis
        using "1.IH"(1)[OF True refl less "1.prems"(1) _ "1.prems"(3) below "1.prems"(5)] mid by simp
    next
      case ge: False
      have above: "0 \<le> key_compare (ks ! i) key" if "?mid \<le> i" "i < length ks" for i
      proof (rule ccontr)
        assume "\<not> 0 \<le> key_compare (ks ! i) key"
        then have "key_compare (ks ! i) key < 0" by simp
        from kc.cmp_le_less_trans[OF ord[OF that] this] ge show False by simp
      qed
      have "lower_bound_loop ks key left right = lower_bound_loop ks key left ?mid"
        using True ge by (subst lower_bound_loop.simps) (simp add: Let_def)
      then show ?thesis
        using "1.IH"(2)[OF True refl ge "1.prems"(1) mid(1) _ "1.prems"(4) above] mid by simp
    qed
  qed (use "1.prems" in \<open>simp add: lower_bound_loop_done\<close>)
qed

lemma takeWhile_split:
  assumes "r \<le> length ks" "\<forall>i < r. P (ks ! i)" "\<forall>i. r \<le> i \<longrightarrow> i < length ks \<longrightarrow> \<not> P (ks ! i)"
  shows "length (takeWhile P ks) = r"
  using assms
proof (induction ks arbitrary: r)
  case (Cons k ks)
  show ?case
  proof (cases r)
    case 0
    then show ?thesis using Cons.prems by (auto dest: spec[of _ 0])
  next
    case (Suc r')
    have "length (takeWhile P ks) = r'"
    proof (rule Cons.IH)
      show "\<forall>i < r'. P (ks ! i)"
        using Cons.prems(2) Suc by (metis Suc_less_eq nth_Cons_Suc)
      show "\<forall>i. r' \<le> i \<longrightarrow> i < length ks \<longrightarrow> \<not> P (ks ! i)"
        using Cons.prems(3) Suc by (metis Suc_le_mono Suc_less_eq length_Cons nth_Cons_Suc)
    qed (use Cons.prems Suc in simp)
    then show ?thesis using Cons.prems(2) Suc by auto
  qed
qed simp

lemma lower_bound_key_le: "lower_bound_key pg key \<le> length (keys pg)"
  using lower_bound_loop_bounds[of 0 "length (keys pg)"] by (simp add: lower_bound_key_def)

lemma lower_bound_key_eq:
  "sorted_keys (keys pg) \<Longrightarrow>
   lower_bound_key pg key = length (takeWhile (\<lambda>k. key_compare k key < 0) (keys pg))"
  using lower_bound_loop_splits[of "keys pg" 0 "length (keys pg)" key]
    lower_bound_key_le[of pg key] takeWhile_split[of "lower_bound_key pg key" "keys pg"
      "\<lambda>k. key_compare k key < 0"]
  by (simp add: lower_bound_key_def not_less)

section \<open>Slotted pages\<close>

text \<open>
  Both kinds of page keep a directory that grows up from the header and cells
  that grow down from the end.  The contract of a page kind: how one pass of
  its write loop and of its read loop treats a cell.  The lemmas show that
  cells that fit are read back, and that cells that do not fit leave the page.
\<close>

locale slotted_page =
  fixes cell_size :: "'c \<Rightarrow> u16" and cell_image :: "'c \<Rightarrow> bytes" and cell_ok :: "'c \<Rightarrow> bool"
    and parse_cell :: "bytes \<Rightarrow> nat \<Rightarrow> page_fault + 'c"
    and flush_cells :: "'c list \<Rightarrow> bytes \<Rightarrow> u16 \<Rightarrow> u16 \<Rightarrow> page_fault + bytes"
    and decode_cells :: "bytes \<Rightarrow> nat \<Rightarrow> u16 \<Rightarrow> page_fault + 'c list"
  assumes size_image: "cell_ok c \<Longrightarrow> unat (cell_size c) = length (cell_image c)"
    and parse_image: "cell_ok c \<Longrightarrow> p + length (cell_image c) \<le> length page \<Longrightarrow>
      take (length (cell_image c)) (drop p page) = cell_image c \<Longrightarrow> parse_cell page p = Inr c"
    and flush_Nil: "flush_cells [] page d cp = Inr page"
    and flush_Cons: "cell_ok c \<Longrightarrow> flush_cells (c # cs) page d cp =
      (let q = cp - cell_size c
       in if unat q + length (cell_image c) > length page then Inl Outside_page
          else if unat d + 2 > length page then Inl Outside_page
          else flush_cells cs (put_u16_be (write_at page (unat q) (cell_image c)) (unat d) q) (d + 2) q)"
    and decode_Nil: "decode_cells page 0 d = Inr []"
    and decode_Cons: "unat d + 2 \<le> length page \<Longrightarrow> decode_cells page (Suc n) d =
      res_bind (parse_cell page (unat (get_u16_be page (unat d)))) (\<lambda>c.
        res_bind (decode_cells page n (d + 2)) (\<lambda>cs. Inr (c # cs)))"
begin

abbreviation bytes_of :: "'c list \<Rightarrow> nat" where
  "bytes_of cs \<equiv> sum_list (map (\<lambda>c. length (cell_image c)) cs)"

lemma flush_overflows:
  assumes "\<And>c. c \<in> set cs \<Longrightarrow> cell_ok c" "unat cp < bytes_of cs" "length page < 2 ^ 16"
  shows "flush_cells cs page d cp = Inl Outside_page"
  using assms
proof (induction cs arbitrary: page d cp)
  case (Cons c cs)
  let ?n = "length (cell_image c)"
  have ok: "cell_ok c" and size: "unat (cell_size c) = ?n" using Cons.prems size_image by auto
  show ?case
  proof (cases "?n \<le> unat cp")
    case True
    then have q: "unat (cp - cell_size c) = unat cp - ?n"
      by (simp add: unat_sub word_le_nat_alt size)
    have "flush_cells cs page' d' (cp - cell_size c) = Inl Outside_page" if "length page' < 2 ^ 16" for page' d'
      by (rule Cons.IH) (use Cons.prems q that True in auto)
    with Cons.prems(3) show ?thesis by (simp add: flush_Cons[OF ok] Let_def)
  next
    case False
    then have "unat (cp - cell_size c) + ?n = 2 ^ 16 + unat cp"
      using unat_sub_if_size[of cp "cell_size c"] unat_bound[of "cell_size c"]
      by (simp add: size word_size)
    with Cons.prems(3) show ?thesis by (simp add: flush_Cons[OF ok] Let_def)
  qed
qed simp

lemma flush_then_decode:
  assumes "\<And>c. c \<in> set cs \<Longrightarrow> cell_ok c" "unat d + 2 * length cs + bytes_of cs \<le> unat cp"
    and "unat cp \<le> length page"
  shows "\<exists>page'. flush_cells cs page d cp = Inr page' \<and> length page' = length page \<and>
    (\<forall>i. i < unat d \<or> unat cp \<le> i \<longrightarrow> page' ! i = page ! i) \<and>
    decode_cells page' (length cs) d = Inr cs"
  using assms
proof (induction cs arbitrary: page d cp)
  case Nil
  then show ?case by (simp add: flush_Nil decode_Nil)
next
  case (Cons c cs)
  let ?n = "length (cell_image c)" and ?q = "cp - cell_size c"
  let ?p1 = "write_at page (unat ?q) (cell_image c)"
  let ?p2 = "put_u16_be ?p1 (unat d) ?q"
  have ok: "cell_ok c" and size: "unat (cell_size c) = ?n" using Cons.prems size_image by auto
  have q: "unat ?q = unat cp - ?n" "?n \<le> unat cp"
    using Cons.prems by (simp_all add: unat_sub word_le_nat_alt size)
  have "unat cp < 2 ^ 16" using unat_bound[of cp] by simp
  then have d: "unat (d + 2) = unat d + 2"
    using Cons.prems by (subst unat_add_lem[THEN iffD1]) auto
  have "\<exists>page'. flush_cells cs ?p2 (d + 2) ?q = Inr page' \<and> length page' = length ?p2 \<and>
    (\<forall>i. i < unat (d + 2) \<or> unat ?q \<le> i \<longrightarrow> page' ! i = ?p2 ! i) \<and>
    decode_cells page' (length cs) (d + 2) = Inr cs"
    by (rule Cons.IH) (use Cons.prems q d in auto)
  then obtain page' where p': "flush_cells cs ?p2 (d + 2) ?q = Inr page'" "length page' = length page"
    and same: "\<And>i. i < unat d + 2 \<or> unat ?q \<le> i \<Longrightarrow> page' ! i = ?p2 ! i"
    and dec: "decode_cells page' (length cs) (d + 2) = Inr cs"
    using d by auto
  have room: "unat d + 2 \<le> unat ?q" "unat ?q + ?n = unat cp" "unat cp \<le> length page"
    using q Cons.prems by auto
  have entry: "get_u16_be page' (unat d) = ?q"
    using f16.get_unaffected[of "unat d" page' ?p2] same room by (simp add: codec_simps)
  have "take ?n (drop (unat ?q) page') = cell_image c"
  proof (rule nth_equalityI)
    fix i assume "i < length (take ?n (drop (unat ?q) page'))"
    then have i: "i < ?n" by simp
    have "page' ! (unat ?q + i) = ?p2 ! (unat ?q + i)" by (rule same) simp
    also have "\<dots> = ?p1 ! (unat ?q + i)" by (rule f16.put_frame) (use room in simp)
    also have "\<dots> = cell_image c ! i"
      using i room by (subst write_at_take_drop) (simp_all add: nth_append)
    finally show "take ?n (drop (unat ?q) page') ! i = cell_image c ! i" using i p'(2) room by simp
  qed (use p'(2) room in simp)
  then have cell: "parse_cell page' (unat ?q) = Inr c"
    using parse_image[OF ok, of "unat ?q" page'] p'(2) room by simp
  have "page' ! i = page ! i" if "i < unat d \<or> unat cp \<le> i" for i
  proof -
    have "page' ! i = ?p2 ! i" by (rule same) (use that room in auto)
    also have "\<dots> = ?p1 ! i" by (rule f16.put_frame) (use that room in auto)
    also have "\<dots> = page ! i" by (rule write_at_frame) (use that room in auto)
    finally show ?thesis .
  qed
  moreover have "flush_cells (c # cs) page d cp = Inr page'"
    unfolding flush_Cons[OF ok] Let_def using p'(1) room by simp
  moreover have "decode_cells page' (length (c # cs)) d = Inr (c # cs)"
    using decode_Cons[of d page' "length cs"] p'(2) room entry cell dec by simp
  ultimately show ?case using p' by blast
qed

end

section \<open>The two kinds of cell\<close>

lemma write_at_join: "r = p + length xs \<Longrightarrow> write_at (write_at b p xs) r ys = write_at b p (xs @ ys)"
  by (induction b p xs arbitrary: r rule: write_at.induct) simp_all

lemma slice_split:
  assumes "p + n \<le> length page" "take n (drop p page) = img"
  obtains pre post where "page = pre @ img @ post" "length pre = p"
  using assms that[of "take p page" "drop (p + n) page"]
  by (metis add_leD1 append_take_drop_id drop_drop length_take min.absorb2 add.commute)

lemma payload_size: "unat BTREE_PAYLOAD_SIZE = 4072" "V2_PAGE_PAYLOAD_SIZE = 4072"
  by (simp_all add: BTREE_PAYLOAD_SIZE_def V2_PAGE_PAYLOAD_SIZE_def page_sizes)

definition key_cell_image :: "Key \<Rightarrow> bytes" where
  "key_cell_image k = of_nat (key_tag (ktype k)) # be16 (ucast (ksize k)) @ kdata k"

lemma valid_key_small: "validate_key k \<Longrightarrow> unat (ksize k) < 2 ^ 16"
  by (simp add: validate_key_def MAX_PAYLOAD_SIZE_def split: if_splits)

lemma valid_value_small: "validate_value v \<Longrightarrow> unat (vsize v) < 2 ^ 16"
  by (simp add: validate_value_def MAX_PAYLOAD_SIZE_def split: if_splits)

lemma narrow_size:
  assumes "unat (n :: u32) < 2 ^ 16"
  shows "unat (ucast n :: u16) = unat n" "ucast (ucast n :: u16) = n"
proof -
  show narrow: "unat (ucast n :: u16) = unat n"
    using assms by (simp add: unsigned_ucast_eq take_bit_nat_eq_self)
  then show "ucast (ucast n :: u16) = n"
    using assms by (intro word_unat_eq_iff[THEN iffD2])
      (simp add: unsigned_ucast_eq unsigned_take_bit_eq take_bit_nat_eq_self)
qed

lemma key_value_rebuild:
  "\<lparr>ktype = ktype k, ksize = ksize k, kdata = kdata k\<rparr> = k"
  "\<lparr>vtype = vtype v, vsize = vsize v, vdata = vdata v\<rparr> = v"
  by simp_all

lemma length_key_cell_image: "validate_key k \<Longrightarrow> length (key_cell_image k) = 3 + unat (ksize k)"
  by (simp add: key_cell_image_def valid_size_key)

lemma write_key_bytes_image:
  assumes "validate_key k"
  shows "write_key_bytes page p k =
    (if p + length (key_cell_image k) > length page then Inl Outside_page
     else Inr (write_at page p (key_cell_image k)))"
proof -
  have n: "length (kdata k) = unat (ksize k)" using assms by (rule valid_size_key)
  have big: "\<not> ksize k > 0xFFFF" using valid_key_small[OF assms] by (simp add: word_less_nat_alt)
  let ?t = "of_nat (key_tag (ktype k)) :: u8"
  have "write_at (put_u16_be (put_u8_be page p ?t) (p + 1) (ucast (ksize k))) (p + 3) (kdata k) =
    write_at page p (key_cell_image k)"
    unfolding put_be key_cell_image_def
    by (subst write_at_join, simp)+ simp
  then show ?thesis
    using assms big n by (simp add: write_key_bytes_def length_key_cell_image Let_def)
qed

lemma parse_key_bytes_image:
  assumes "validate_key k" "p = length pre"
  shows "parse_key_bytes (pre @ key_cell_image k @ post) p = Inr k"
proof -
  let ?t = "of_nat (key_tag (ktype k)) :: u8"
  have n: "length (kdata k) = unat (ksize k)" using assms(1) by (rule valid_size_key)
  note small = narrow_size[OF valid_key_small[OF assms(1)]]
  have "get_u8_be (pre @ key_cell_image k @ post) p = ?t"
    by (simp add: get_u8_be_def key_cell_image_def assms)
  moreover have "get_u16_be (pre @ key_cell_image k @ post) (p + 1) = ucast (ksize k)"
    using get_be(1)[of "p + 1" "pre @ [?t]" "ucast (ksize k)" "kdata k @ post"]
    by (simp add: key_cell_image_def assms)
  moreover have "take (unat (ksize k)) (drop (p + 3) (pre @ key_cell_image k @ post)) = kdata k"
    by (simp add: key_cell_image_def assms be16_def n)
  moreover have "key_type_of ?t = Some (ktype k)" by simp
  ultimately show ?thesis
    using assms n small length_key_cell_image[OF assms(1)]
    by (simp add: parse_key_bytes_def Let_def key_value_rebuild del: tag_of_iff)
qed

definition internal_cell_image :: "Key \<times> u32 \<Rightarrow> bytes" where
  "internal_cell_image c = key_cell_image (fst c) @ be32 (snd c)"

definition internal_cell_ok :: "Key \<times> u32 \<Rightarrow> bool" where
  "internal_cell_ok c = (validate_key (fst c) \<and> length (internal_cell_image c) < 2 ^ 16)"

definition leaf_cell_image :: "Key \<times> Value \<Rightarrow> bytes" where
  "leaf_cell_image c = key_cell_image (fst c) @
     of_nat (value_tag (vtype (snd c))) # be16 (ucast (vsize (snd c))) @ vdata (snd c)"

definition leaf_cell_ok :: "Key \<times> Value \<Rightarrow> bool" where
  "leaf_cell_ok c = (validate_key (fst c) \<and> validate_value (snd c) \<and> length (leaf_cell_image c) < 2 ^ 16)"

lemma cell_size_eq:
  assumes "unat a + unat b + n < 2 ^ 16" "c = of_nat n"
  shows "unat (ucast (c + a + b :: u32) :: u16) = n + unat a + unat b"
  using assms by (simp add: unsigned_ucast_eq unat_word_ariths take_bit_nat_eq_self unat_of_nat_lt)


interpretation ip: slotted_page "\<lambda>c. internal_cell_size (fst c)" internal_cell_image internal_cell_ok
  parse_internal_cell "\<lambda>cs. internal_flush_cells (map fst cs) (map snd cs)" internal_decode_cells
proof
  fix c :: "Key \<times> u32" and cs page p d cp
  assume ok: "internal_cell_ok c"
  then have v: "validate_key (fst c)" by (simp add: internal_cell_ok_def)
  then have len: "length (internal_cell_image c) = 7 + unat (ksize (fst c))"
    by (simp add: internal_cell_image_def length_key_cell_image)
  show "unat (internal_cell_size (fst c)) = length (internal_cell_image c)"
    using cell_size_eq[of "ksize (fst c)" 0 7 7] ok len
    by (simp add: internal_cell_size_def internal_cell_ok_def add.commute add.left_commute)
  show "internal_flush_cells (map fst (c # cs)) (map snd (c # cs)) page d cp =
      (let q = cp - internal_cell_size (fst c)
       in if unat q + length (internal_cell_image c) > length page then Inl Outside_page
          else if unat d + 2 > length page then Inl Outside_page
          else internal_flush_cells (map fst cs) (map snd cs)
                 (put_u16_be (write_at page (unat q) (internal_cell_image c)) (unat d) q) (d + 2) q)"
  proof -
    define q where "q = unat (cp - internal_cell_size (fst c))"
    have "put_u32_be (write_at page q (key_cell_image (fst c))) (q + 3 + unat (ksize (fst c))) (snd c) =
      write_at page q (internal_cell_image c)"
      unfolding put_be internal_cell_image_def
      by (rule write_at_join) (simp add: length_key_cell_image[OF v])
    then show ?thesis
      using len by (simp add: Let_def write_key_bytes_image[OF v] length_key_cell_image[OF v]
          CELL_DIR_ENTRY_SIZE_def flip: q_def)
  qed
  assume "p + length (internal_cell_image c) \<le> length page"
    "take (length (internal_cell_image c)) (drop p page) = internal_cell_image c"
  then obtain pre post where s: "page = pre @ internal_cell_image c @ post" "length pre = p"
    by (rule slice_split)
  have "parse_key_bytes page p = Inr (fst c)"
    using parse_key_bytes_image[OF v, of p pre "be32 (snd c) @ post"] s
    by (simp add: internal_cell_image_def)
  moreover have "get_u32_be page (p + 3 + unat (ksize (fst c))) = snd c"
    using get_be(2)[of "p + 3 + unat (ksize (fst c))" "pre @ key_cell_image (fst c)" "snd c" post] s
    by (simp add: internal_cell_image_def length_key_cell_image[OF v])
  moreover have "length page = p + length (internal_cell_image c) + length post"
    using s by simp
  ultimately show "parse_internal_cell page p = Inr c"
    using len by (simp add: parse_internal_cell_def)
qed (auto simp: CELL_DIR_ENTRY_SIZE_def Let_def)

interpretation lp: slotted_page "\<lambda>c. leaf_cell_size (fst c) (snd c)" leaf_cell_image leaf_cell_ok
  parse_leaf_cell "\<lambda>cs. leaf_flush_cells (map fst cs) (map snd cs)" leaf_decode_cells
proof
  fix c :: "Key \<times> Value" and cs page p d cp
  assume ok: "leaf_cell_ok c"
  then have v: "validate_key (fst c)" "validate_value (snd c)"
    by (auto simp: leaf_cell_ok_def)
  let ?t = "of_nat (value_tag (vtype (snd c))) :: u8" and ?n = "ucast (vsize (snd c)) :: u16"
  have n: "length (vdata (snd c)) = unat (vsize (snd c))" using v(2) by (rule valid_size_value)
  have len: "length (leaf_cell_image c) = 6 + unat (ksize (fst c)) + unat (vsize (snd c))"
    using v n by (simp add: leaf_cell_image_def length_key_cell_image)
  show "unat (leaf_cell_size (fst c) (snd c)) = length (leaf_cell_image c)"
    using cell_size_eq[of "ksize (fst c)" "vsize (snd c)" 6 6] ok len
    by (simp add: leaf_cell_size_def leaf_cell_ok_def add.commute add.left_commute)
  show "leaf_flush_cells (map fst (c # cs)) (map snd (c # cs)) page d cp =
      (let q = cp - leaf_cell_size (fst c) (snd c)
       in if unat q + length (leaf_cell_image c) > length page then Inl Outside_page
          else if unat d + 2 > length page then Inl Outside_page
          else leaf_flush_cells (map fst cs) (map snd cs)
                 (put_u16_be (write_at page (unat q) (leaf_cell_image c)) (unat d) q) (d + 2) q)"
  proof -
    define q where "q = unat (cp - leaf_cell_size (fst c) (snd c))"
    define r where "r = q + unat (ksize (fst c))"
    have "write_at (put_u16_be (put_u8_be (write_at page q (key_cell_image (fst c))) (r + 3) ?t) (r + 4) ?n)
        (r + 6) (vdata (snd c)) = write_at page q (leaf_cell_image c)"
      unfolding put_be leaf_cell_image_def
      by (subst write_at_join, simp add: r_def length_key_cell_image[OF v(1)])+ simp
    then show ?thesis
      using n v(2) len
      by (simp add: Let_def write_key_bytes_image[OF v(1)] length_key_cell_image[OF v(1)]
          CELL_DIR_ENTRY_SIZE_def r_def flip: q_def)
  qed
  assume "p + length (leaf_cell_image c) \<le> length page"
    "take (length (leaf_cell_image c)) (drop p page) = leaf_cell_image c"
  then obtain pre post where s: "page = pre @ leaf_cell_image c @ post" "length pre = p"
    by (rule slice_split)
  let ?q = "p + unat (ksize (fst c))"
  have q: "?q + 3 = length (pre @ key_cell_image (fst c))" using s by (simp add: length_key_cell_image[OF v(1)])
  have page: "page = (pre @ key_cell_image (fst c)) @ ?t # be16 ?n @ vdata (snd c) @ post"
    using s by (simp add: leaf_cell_image_def)
  have "parse_key_bytes page p = Inr (fst c)"
    using parse_key_bytes_image[OF v(1), of p pre "?t # be16 ?n @ vdata (snd c) @ post"] s
    by (simp add: leaf_cell_image_def)
  moreover have "get_u8_be page (?q + 3) = ?t"
    unfolding page get_u8_be_def q by (rule nth_append_length)
  moreover have "get_u16_be page (?q + 4) = ?n"
    using get_be(1)[of "?q + 4" "(pre @ key_cell_image (fst c)) @ [?t]" ?n "vdata (snd c) @ post"] q
    by (simp add: page)
  moreover have "drop (?q + 6) page = vdata (snd c) @ post"
  proof -
    have "?q + 6 = length (pre @ key_cell_image (fst c)) + 3" using q by simp
    then have "drop (?q + 6) page = drop 3 (?t # be16 ?n @ vdata (snd c) @ post)"
      unfolding page by (simp only: drop_drop[symmetric] add.commute[of _ 3]) simp
    then show ?thesis by (simp add: be16_def)
  qed
  moreover have "length page = p + length (leaf_cell_image c) + length post"
    using s by simp
  moreover have "value_type_of ?t = Some (vtype (snd c))" by simp
  ultimately show "parse_leaf_cell page p = Inr c"
    using len v(2) n narrow_size[OF valid_value_small[OF v(2)]]
    by (simp add: parse_leaf_cell_def Let_def key_value_rebuild del: tag_of_iff)
qed (auto simp: CELL_DIR_ENTRY_SIZE_def Let_def)

section \<open>A leaf page is a finite map\<close>

definition leaf_cells :: "BLeafPage \<Rightarrow> (Key \<times> Value) list" where
  "leaf_cells pg = zip (keys pg) (leaf_values pg)"

definition leaf_map :: "BLeafPage \<Rightarrow> Key \<rightharpoonup> Value" where
  "leaf_map pg = map_of (leaf_cells pg)"

definition page_keys_ok :: "'a BTreePage_scheme \<Rightarrow> bool" where
  "page_keys_ok pg = (sorted_keys (keys pg) \<and> list_all validate_key (keys pg) \<and>
     key_count pg = of_nat (length (keys pg)))"

definition leaf_ok :: "BLeafPage \<Rightarrow> bool" where
  "leaf_ok pg = (page_type pg = Leaf \<and> page_keys_ok pg \<and>
     length (leaf_values pg) = length (keys pg) \<and> list_all validate_value (leaf_values pg))"

lemma sorted_keys_distinct: "sorted_keys ks \<Longrightarrow> distinct ks"
  by (induction ks) (auto simp: kc.cmp_refl dest: bspec)

text \<open>What the search finds: the key itself, or the place between its neighbours.\<close>

lemma lower_bound_finds:
  assumes "page_keys_ok pg" "validate_key key"
  defines "i \<equiv> lower_bound_key pg key"
  shows "(i < length (keys pg) \<and> key_equal (keys pg ! i) key) = (key \<in> set (keys pg))"
    and "key \<in> set (keys pg) \<Longrightarrow> keys pg ! i = key"
    and "x \<in> set (take i (keys pg)) \<Longrightarrow> key_compare x key < 0"
    and "key \<notin> set (keys pg) \<Longrightarrow> x \<in> set (drop i (keys pg)) \<Longrightarrow> key_compare key x < 0"
proof -
  have ok: "sorted_keys (keys pg)" "list_all validate_key (keys pg)"
    using assms(1) by (auto simp: page_keys_ok_def)
  have split: "(\<forall>j<i. key_compare (keys pg ! j) key < 0) \<and>
    (\<forall>j. i \<le> j \<longrightarrow> j < length (keys pg) \<longrightarrow> 0 \<le> key_compare (keys pg ! j) key)"
    unfolding i_def lower_bound_key_def by (rule lower_bound_loop_splits[OF ok(1)]) auto
  have eq: "key_equal k key = (k = key)" if "k \<in> set (keys pg)" for k
    using valid_keys_equal[of k key] that ok(2) assms(2) by (auto simp: key_equal_def list_all_iff)
  have found: "i < length (keys pg) \<and> keys pg ! i = key" if in_set: "key \<in> set (keys pg)"
  proof -
    obtain j where j: "j < length (keys pg)" "keys pg ! j = key"
      using in_set by (auto simp: in_set_conv_nth)
    have "i \<le> j" using split j kc.cmp_refl[of key] by (metis not_le order_less_irrefl)
    moreover have "\<not> i < j"
    proof
      assume "i < j"
      then have "key_compare (keys pg ! i) key < 0"
        using sorted_wrt_nth_less[OF ok(1), of i j] j by simp
      then show False using split \<open>i < j\<close> j by (metis less_trans not_le order_refl)
    qed
    ultimately show ?thesis using j by simp
  qed
  show "(i < length (keys pg) \<and> key_equal (keys pg ! i) key) = (key \<in> set (keys pg))"
    using found eq by (metis nth_mem)
  show "key \<in> set (keys pg) \<Longrightarrow> keys pg ! i = key" using found by simp
  show "x \<in> set (take i (keys pg)) \<Longrightarrow> key_compare x key < 0"
    using split by (auto simp: in_set_conv_nth)
  assume out: "key \<notin> set (keys pg)" and "x \<in> set (drop i (keys pg))"
  then obtain j where j: "i \<le> j" "j < length (keys pg)" "x = keys pg ! j"
    by (auto simp: in_set_conv_nth) (metis le_add1 less_diff_conv add.commute)
  then have "key_compare x key \<noteq> 0" using eq[of x] out by (auto simp: key_equal_def)
  then show "key_compare key x < 0" using split j kc.cmp_sym[of key x] by force
qed

lemma zip_vec_insert:
  "length xs = length ys \<Longrightarrow> zip (vec_insert i x xs) (vec_insert i y ys) = vec_insert i (x, y) (zip xs ys)"
  by (simp add: vec_insert_def take_zip drop_zip)

lemma zip_vec_erase:
  "length xs = length ys \<Longrightarrow> zip (vec_erase i xs) (vec_erase i ys) = vec_erase i (zip xs ys)"
  by (simp add: vec_erase_def take_zip drop_zip)

lemma length_vec_insert [simp]: "i \<le> length xs \<Longrightarrow> length (vec_insert i x xs) = Suc (length xs)"
  by (simp add: vec_insert_def)

lemma length_vec_erase [simp]: "i < length xs \<Longrightarrow> length (vec_erase i xs) = length xs - 1"
  by (simp add: vec_erase_def)

lemma list_all_vec [simp]:
  "list_all P (vec_insert i x xs) = (P x \<and> list_all P xs)"
  "list_all P xs \<Longrightarrow> list_all P (vec_erase i xs)"
proof -
  show "list_all P (vec_insert i x xs) = (P x \<and> list_all P xs)"
    using list_all_append[of P "take i xs" "drop i xs"] by (auto simp: vec_insert_def)
  show "list_all P xs \<Longrightarrow> list_all P (vec_erase i xs)"
    by (auto simp: vec_erase_def list_all_iff dest: in_set_takeD in_set_dropD)
qed

lemma map_of_vec_insert:
  "x \<notin> fst ` set ps \<Longrightarrow> map_of (vec_insert i (x, y) ps) = (map_of ps)(x \<mapsto> y)"
proof -
  assume "x \<notin> fst ` set ps"
  then have "map_of (take i ps) x = None"
    by (auto simp: map_of_eq_None_iff dest: in_set_takeD)
  then have "map_of (vec_insert i (x, y) ps) = (map_of (take i ps @ drop i ps))(x \<mapsto> y)"
    unfolding vec_insert_def map_of_append by (auto simp: map_add_def split: option.splits)
  then show ?thesis by simp
qed

lemma map_of_vec_erase:
  assumes "distinct (map fst ps)" "i < length ps"
  shows "map_of (vec_erase i ps) = (map_of ps)(fst (ps ! i) := None)"
proof -
  let ?p = "ps ! i" and ?a = "take i ps" and ?b = "drop (i + 1) ps"
  have ps: "ps = ?a @ ?p # ?b" using id_take_nth_drop[OF assms(2)] by simp
  have "distinct (map fst (?a @ ?p # ?b))" using assms(1) ps by simp
  then have out: "fst ?p \<notin> fst ` set (?a @ ?b)" by auto
  have "map_of ps = map_of (?a @ ?p # ?b)" using ps by simp
  also have "\<dots> = (map_of (?a @ ?b))(fst ?p \<mapsto> snd ?p)"
    using map_of_vec_insert[OF out, of i "snd ?p"] assms(2) by (simp add: vec_insert_def)
  finally have "map_of ps = (map_of (?a @ ?b))(fst ?p \<mapsto> snd ?p)" .
  moreover have "map_of (?a @ ?b) (fst ?p) = None" using out by (simp add: map_of_eq_None_iff image_Un)
  ultimately show ?thesis by (auto simp: vec_erase_def)
qed

lemma map_of_zip_set:
  assumes "distinct xs" "length xs = length ys" "i < length xs"
  shows "map_of (zip xs (ys[i := y])) = (map_of (zip xs ys))(xs ! i \<mapsto> y)"
proof -
  have "zip xs (ys[i := y]) = (zip xs ys)[i := (xs ! i, y)]"
    using update_zip[of xs ys i "(xs ! i, y)"] assms by simp
  also have "\<dots> = vec_insert i (xs ! i, y) (vec_erase i (zip xs ys))"
    using assms by (simp add: upd_conv_take_nth_drop vec_insert_def vec_erase_def min_def)
  finally have eq: "zip xs (ys[i := y]) = \<dots>" .
  have "map fst (vec_erase i (zip xs ys)) = vec_erase i xs"
    using assms by (simp flip: zip_vec_erase)
  then have "fst ` set (vec_erase i (zip xs ys)) = set (vec_erase i xs)" by (metis set_map)
  moreover have "xs ! i \<notin> set (vec_erase i xs)"
    using assms id_take_nth_drop[of i xs] distinct_append[of "take i xs" "xs ! i # drop (Suc i) xs"]
    by (simp add: vec_erase_def)
  ultimately show ?thesis
    using assms by (simp add: eq map_of_vec_insert map_of_vec_erase)
qed

lemma sorted_vec_insert:
  assumes "page_keys_ok pg" "validate_key key" "key \<notin> set (keys pg)"
  shows "sorted_keys (vec_insert (lower_bound_key pg key) key (keys pg))"
proof -
  let ?i = "lower_bound_key pg key"
  have "sorted_keys (take ?i (keys pg) @ drop ?i (keys pg))"
    using assms(1) by (simp add: page_keys_ok_def)
  then show ?thesis
    using lower_bound_finds(3)[OF assms(1,2)] lower_bound_finds(4)[OF assms]
    unfolding vec_insert_def sorted_wrt_append by (simp add: ball_Un) 
qed

lemma sorted_vec_erase: "sorted_keys ks \<Longrightarrow> sorted_keys (vec_erase i ks)"
proof -
  assume "sorted_keys ks"
  then have "sorted_keys (take i ks @ drop i ks)" "sorted_keys (drop (Suc i) ks)"
    by (simp_all add: sorted_wrt_drop)
  moreover have "set (drop (Suc i) ks) \<subseteq> set (drop i ks)" by (rule set_drop_subset_set_drop) simp
  ultimately show ?thesis
    unfolding vec_erase_def sorted_wrt_append by auto
qed

lemma leaf_okD:
  assumes "leaf_ok pg"
  shows "page_keys_ok pg" "length (leaf_values pg) = length (keys pg)" "distinct (keys pg)"
    "dom (leaf_map pg) = set (keys pg)"
  using assms by (auto simp: leaf_ok_def page_keys_ok_def sorted_keys_distinct leaf_map_def leaf_cells_def)

lemma leaf_get_map:
  assumes "leaf_ok pg" "validate_key key"
  shows "leaf_get pg key = leaf_map pg key"
proof (cases "key \<in> set (keys pg)")
  case True
  let ?i = "lower_bound_key pg key"
  have "?i < length (keys pg)" "key_equal (keys pg ! ?i) key" "keys pg ! ?i = key"
    using lower_bound_finds[OF leaf_okD(1)[OF assms(1)] assms(2)] True by auto
  moreover from this have "leaf_map pg key = Some (leaf_values pg ! ?i)"
    using map_of_zip_nth[of "keys pg" "leaf_values pg" ?i] leaf_okD[OF assms(1)]
    by (simp add: leaf_map_def leaf_cells_def)
  ultimately show ?thesis by (simp add: leaf_get_def Let_def)
next
  case False
  then have "leaf_map pg key = None" using leaf_okD(4)[OF assms(1)] by auto
  moreover have "\<not> (lower_bound_key pg key < length (keys pg) \<and> key_equal (keys pg ! lower_bound_key pg key) key)"
    using False lower_bound_finds(1)[OF leaf_okD(1)[OF assms(1)] assms(2)] by simp
  ultimately show ?thesis by (auto simp: leaf_get_def Let_def not_less)
qed

lemma leaf_set_map:
  assumes "leaf_ok pg" "validate_key key" "validate_value val"
  shows "fst (leaf_set pg key val) = (key \<in> set (keys pg))"
    "leaf_ok (snd (leaf_set pg key val))"
    "leaf_map (snd (leaf_set pg key val)) =
      (if key \<in> set (keys pg) then (leaf_map pg)(key \<mapsto> val) else leaf_map pg)"
proof -
  let ?i = "lower_bound_key pg key"
  note found = lower_bound_finds(1,2)[OF leaf_okD(1)[OF assms(1)] assms(2)]
  have set: "leaf_set pg key val =
    (if key \<in> set (keys pg) then (True, pg\<lparr>leaf_values := (leaf_values pg)[?i := val]\<rparr>) else (False, pg))"
    using found assms(3) by (auto simp: leaf_set_def Let_def not_less)
  show "fst (leaf_set pg key val) = (key \<in> set (keys pg))" by (simp add: set)
  show "leaf_ok (snd (leaf_set pg key val))"
    using assms leaf_okD(1)[OF assms(1)] found
    by (auto simp: set leaf_ok_def page_keys_ok_def list_all_length nth_list_update)
  show "leaf_map (snd (leaf_set pg key val)) =
      (if key \<in> set (keys pg) then (leaf_map pg)(key \<mapsto> val) else leaf_map pg)"
    using map_of_zip_set[of "keys pg" "leaf_values pg" ?i val] leaf_okD[OF assms(1)] found
    by (auto simp: set leaf_map_def leaf_cells_def)
qed

lemma leaf_insert_map:
  assumes "leaf_ok pg" "validate_key key" "validate_value val" "key \<notin> set (keys pg)"
  defines "r \<equiv> insert_at pg (lower_bound_key pg key) key val"
  shows "fst r" "leaf_ok (snd r)" "leaf_map (snd r) = (leaf_map pg)(key \<mapsto> val)"
proof -
  let ?i = "lower_bound_key pg key"
  let ?pg = "pg\<lparr>keys := vec_insert ?i key (keys pg), leaf_values := vec_insert ?i val (leaf_values pg),
              key_count := of_nat (length (vec_insert ?i key (keys pg)))\<rparr>"
  note ok = leaf_okD[OF assms(1)]
  have le: "?i \<le> length (keys pg)" by (rule lower_bound_key_le)
  have r: "r = (True, ?pg)"
    using assms(2,3) le by (simp add: r_def insert_at_def Let_def)
  show "fst r" by (simp add: r)
  show "leaf_ok (snd r)"
    using assms(1-3) le sorted_vec_insert[OF ok(1) assms(2,4)]
    by (simp add: r leaf_ok_def page_keys_ok_def)
  have "key \<notin> fst ` set (zip (keys pg) (leaf_values pg))" using assms(4) by (auto dest: set_zip_leftD)
  then show "leaf_map (snd r) = (leaf_map pg)(key \<mapsto> val)"
    using ok by (simp add: r leaf_map_def leaf_cells_def zip_vec_insert map_of_vec_insert)
qed

lemma leaf_remove_map:
  assumes "leaf_ok pg" "validate_key key"
  shows "fst (leaf_remove pg key) = (key \<in> set (keys pg))"
    "leaf_ok (snd (leaf_remove pg key))" "leaf_map (snd (leaf_remove pg key)) = (leaf_map pg)(key := None)"
proof -
  let ?i = "lower_bound_key pg key"
  let ?pg = "pg\<lparr>keys := vec_erase ?i (keys pg), leaf_values := vec_erase ?i (leaf_values pg),
              key_count := of_nat (length (vec_erase ?i (keys pg)))\<rparr>"
  note ok = leaf_okD[OF assms(1)] and found = lower_bound_finds(1,2)[OF leaf_okD(1)[OF assms(1)] assms(2)]
  have rm: "leaf_remove pg key = (if key \<in> set (keys pg) then (True, ?pg) else (False, pg))"
    using found ok by (auto simp: leaf_remove_def remove_at_def Let_def not_less)
  show "fst (leaf_remove pg key) = (key \<in> set (keys pg))" by (simp add: rm)
  show "leaf_ok (snd (leaf_remove pg key))"
    using assms found sorted_vec_erase[of "keys pg" ?i] by (auto simp: rm leaf_ok_def page_keys_ok_def)
  show "leaf_map (snd (leaf_remove pg key)) = (leaf_map pg)(key := None)"
  proof (cases "key \<in> set (keys pg)")
    case True
    then show ?thesis
      using ok found map_of_vec_erase[of "zip (keys pg) (leaf_values pg)" ?i]
      by (simp add: rm leaf_map_def leaf_cells_def zip_vec_erase)
  next
    case False
    then have "leaf_map pg key = None" using ok(4) by blast
    then show ?thesis using False by (auto simp: rm)
  qed
qed

section \<open>Pages that fit\<close>

definition leaf_bytes :: "BLeafPage \<Rightarrow> nat" where
  "leaf_bytes pg = sum_list (map (\<lambda>c. length (leaf_cell_image c)) (leaf_cells pg))"

definition leaf_fits :: "BLeafPage \<Rightarrow> bool" where
  "leaf_fits pg = (unat LEAF_HEADER_SIZE + 2 * length (keys pg) + leaf_bytes pg \<le> V2_PAGE_PAYLOAD_SIZE)"

definition internal_ok :: "BInternalPage \<Rightarrow> bool" where
  "internal_ok pg = (page_type pg = Internal \<and> page_keys_ok pg \<and>
     length (child_page_nums pg) = length (keys pg) + 1)"

definition internal_bytes :: "BInternalPage \<Rightarrow> nat" where
  "internal_bytes pg =
     sum_list (map (\<lambda>c. length (internal_cell_image c)) (zip (keys pg) (tl (child_page_nums pg))))"

definition internal_fits :: "BInternalPage \<Rightarrow> bool" where
  "internal_fits pg =
     (unat INTERNAL_HEADER_SIZE + 2 * length (keys pg) + internal_bytes pg \<le> V2_PAGE_PAYLOAD_SIZE)"

lemma member_le_sum: "x \<in> set xs \<Longrightarrow> (f x :: nat) \<le> sum_list (map f xs)"
  by (induction xs) auto

lemma leaf_cells_ok:
  assumes "leaf_ok pg" "list_all (\<lambda>c. length (leaf_cell_image c) < 2 ^ 16) (leaf_cells pg)" "c \<in> set (leaf_cells pg)"
  shows "leaf_cell_ok c"
  using assms by (cases c) (auto simp: leaf_ok_def page_keys_ok_def leaf_cell_ok_def leaf_cells_def list_all_iff
      dest: set_zip_leftD set_zip_rightD)

text \<open>The header fields the flush writes.\<close>

definition leaf_reloaded :: "BLeafPage \<Rightarrow> BLeafPage" where
  "leaf_reloaded pg = pg\<lparr>free_offset_start := LEAF_HEADER_SIZE + of_nat (length (keys pg)) * CELL_DIR_ENTRY_SIZE,
     free_offset_end := BTREE_PAYLOAD_SIZE
       - foldl (\<lambda>total (key, val). total + leaf_cell_size key val) 0 (leaf_cells pg) - 1\<rparr>"


lemma unat_sizes: "unat LEAF_HEADER_SIZE = 7" "unat INTERNAL_HEADER_SIZE = 11"
  by (simp_all add: LEAF_HEADER_SIZE_def INTERNAL_HEADER_SIZE_def)

lemma leaf_flush_decode:
  assumes "leaf_ok pg" "leaf_fits pg"
  shows "\<exists>payload. leaf_flush pg = Inr payload \<and> length payload = V2_PAGE_PAYLOAD_SIZE \<and>
    leaf_decode payload = Inr (leaf_reloaded pg)"
proof -
  let ?cs = "leaf_cells pg"
  let ?h = "put_u16_be (put_u16_be (put_u16_be (put_u8_be (replicate (unat BTREE_PAYLOAD_SIZE) 0) 0
      (page_type_code (page_type pg))) 1 (of_nat (length (keys pg)))) 3
      (free_offset_start (leaf_reloaded pg))) 5 (free_offset_end (leaf_reloaded pg))"
  have len: "length (leaf_values pg) = length (keys pg)" by (rule leaf_okD(2)[OF assms(1)])
  have cs: "map fst ?cs = keys pg" "map snd ?cs = leaf_values pg" "length ?cs = length (keys pg)"
    using len by (simp_all add: leaf_cells_def)
  have fits: "7 + 2 * length ?cs + leaf_bytes pg \<le> 4072"
    using assms(2) by (simp add: leaf_fits_def cs payload_size unat_sizes)
  have small: "list_all (\<lambda>c. length (leaf_cell_image c) < 2 ^ 16) ?cs"
    using fits member_le_sum[of _ ?cs "\<lambda>c. length (leaf_cell_image c)"]
    by (fastforce simp: list_all_iff leaf_bytes_def)
  have "\<exists>page'. leaf_flush_cells (map fst ?cs) (map snd ?cs) ?h LEAF_HEADER_SIZE BTREE_PAYLOAD_SIZE = Inr page' \<and>
    length page' = length ?h \<and> (\<forall>i. i < unat LEAF_HEADER_SIZE \<or> unat BTREE_PAYLOAD_SIZE \<le> i \<longrightarrow> page' ! i = ?h ! i) \<and>
    leaf_decode_cells page' (length ?cs) LEAF_HEADER_SIZE = Inr ?cs"
    by (rule lp.flush_then_decode)
      (use leaf_cells_ok[OF assms(1) small] fits in \<open>simp_all add: unat_sizes payload_size leaf_bytes_def\<close>)
  then obtain page' where p: "leaf_flush_cells (keys pg) (leaf_values pg) ?h LEAF_HEADER_SIZE BTREE_PAYLOAD_SIZE = Inr page'"
    "length page' = 4072" "\<And>i. i < 7 \<Longrightarrow> page' ! i = ?h ! i"
    "leaf_decode_cells page' (length (keys pg)) LEAF_HEADER_SIZE = Inr ?cs"
    by (auto simp: cs unat_sizes payload_size)
  have get: "get_u8_be page' 0 = get_u8_be ?h 0" "get_u16_be page' 1 = get_u16_be ?h 1"
    "get_u16_be page' 3 = get_u16_be ?h 3" "get_u16_be page' 5 = get_u16_be ?h 5"
    by (rule f8.get_unaffected f16.get_unaffected; use p(3) in simp)+
  have "leaf_flush pg = Inr page'"
    using p(1) by (simp add: leaf_flush_def Let_def leaf_reloaded_def leaf_cells_def)
  moreover have "leaf_decode page' = Inr (leaf_reloaded pg)"
  proof -
    have n: "unat (of_nat (length (keys pg)) :: u16) = length (keys pg)"
      using fits cs by (intro unat_of_nat_lt) simp
    have ty: "page_type pg = Leaf" "key_count pg = of_nat (length (keys pg))"
      using assms(1) by (auto simp: leaf_ok_def page_keys_ok_def)
    show ?thesis
      using p(4) n ty cs unfolding leaf_decode_def Let_def get
      by (simp add: codec_simps payload_size leaf_reloaded_def)
  qed
  ultimately show ?thesis using p(2) payload_size by auto
qed

lemma leaf_flush_overflow:
  assumes "leaf_ok pg" "list_all (\<lambda>c. length (leaf_cell_image c) < 2 ^ 16) (leaf_cells pg)"
    and "V2_PAGE_PAYLOAD_SIZE < leaf_bytes pg"
  shows "leaf_flush pg = Inl Outside_page"
proof -
  have cs: "map fst (leaf_cells pg) = keys pg" "map snd (leaf_cells pg) = leaf_values pg"
    using leaf_okD(2)[OF assms(1)] by (simp_all add: leaf_cells_def)
  have "leaf_flush_cells (map fst (leaf_cells pg)) (map snd (leaf_cells pg)) page LEAF_HEADER_SIZE BTREE_PAYLOAD_SIZE =
    Inl Outside_page" if "length page = 4072" for page
    by (rule lp.flush_overflows)
      (use leaf_cells_ok[OF assms(1,2)] assms(3) that in \<open>simp_all add: payload_size leaf_bytes_def\<close>)
  then show ?thesis by (simp add: leaf_flush_def Let_def cs payload_size)
qed

definition internal_cells :: "BInternalPage \<Rightarrow> (Key \<times> u32) list" where
  "internal_cells pg = zip (keys pg) (tl (child_page_nums pg))"

definition internal_reloaded :: "BInternalPage \<Rightarrow> BInternalPage" where
  "internal_reloaded pg = pg\<lparr>
     free_offset_start := INTERNAL_HEADER_SIZE + of_nat (length (keys pg)) * CELL_DIR_ENTRY_SIZE,
     free_offset_end := BTREE_PAYLOAD_SIZE
       - foldl (\<lambda>total key. total + internal_cell_size key) 0 (keys pg) - 1\<rparr>"

lemma internal_flush_decode:
  assumes "internal_ok pg" "internal_fits pg"
  shows "\<exists>payload. internal_flush pg = Inr payload \<and> length payload = V2_PAGE_PAYLOAD_SIZE \<and>
    internal_decode payload = Inr (internal_reloaded pg)"
proof -
  let ?cs = "internal_cells pg"
  obtain child rest where ch: "child_page_nums pg = child # rest" "length rest = length (keys pg)"
    using assms(1) by (cases "child_page_nums pg") (auto simp: internal_ok_def)
  let ?h = "put_u32_be (put_u16_be (put_u16_be (put_u16_be (put_u8_be (replicate (unat BTREE_PAYLOAD_SIZE) 0) 0
      (page_type_code (page_type pg))) 1 (of_nat (length (keys pg)))) 3
      (free_offset_start (internal_reloaded pg))) 5 (free_offset_end (internal_reloaded pg))) 7 child"
  have cs: "map fst ?cs = keys pg" "map snd ?cs = rest" "length ?cs = length (keys pg)"
    using ch by (simp_all add: internal_cells_def)
  have bytes: "internal_bytes pg = sum_list (map (\<lambda>c. length (internal_cell_image c)) ?cs)"
    by (simp add: internal_bytes_def internal_cells_def)
  have fits: "11 + 2 * length ?cs + internal_bytes pg \<le> 4072"
    using assms(2) by (simp add: internal_fits_def cs payload_size unat_sizes)
  have ok: "internal_cell_ok c" if c: "c \<in> set ?cs" for c
  proof -
    have "fst c \<in> set (keys pg)" using imageI[OF c, of fst] cs(1) by (metis set_map)
    moreover have "length (internal_cell_image c) < 2 ^ 16"
      using fits bytes member_le_sum[OF c, of "\<lambda>c. length (internal_cell_image c)"] by simp
    ultimately show ?thesis
      using assms(1) by (auto simp: internal_ok_def page_keys_ok_def internal_cell_ok_def list_all_iff)
  qed
  have "\<exists>page'. internal_flush_cells (map fst ?cs) (map snd ?cs) ?h INTERNAL_HEADER_SIZE BTREE_PAYLOAD_SIZE = Inr page' \<and>
    length page' = length ?h \<and> (\<forall>i. i < unat INTERNAL_HEADER_SIZE \<or> unat BTREE_PAYLOAD_SIZE \<le> i \<longrightarrow> page' ! i = ?h ! i) \<and>
    internal_decode_cells page' (length ?cs) INTERNAL_HEADER_SIZE = Inr ?cs"
    by (rule ip.flush_then_decode) (use ok fits bytes in \<open>simp_all add: unat_sizes payload_size\<close>)
  then obtain page' where p: "internal_flush_cells (keys pg) rest ?h INTERNAL_HEADER_SIZE BTREE_PAYLOAD_SIZE = Inr page'"
    "length page' = 4072" "\<And>i. i < 11 \<Longrightarrow> page' ! i = ?h ! i"
    "internal_decode_cells page' (length (keys pg)) INTERNAL_HEADER_SIZE = Inr ?cs"
    by (auto simp: cs unat_sizes payload_size)
  have get: "get_u8_be page' 0 = get_u8_be ?h 0" "get_u16_be page' 1 = get_u16_be ?h 1"
    "get_u16_be page' 3 = get_u16_be ?h 3" "get_u16_be page' 5 = get_u16_be ?h 5" "get_u32_be page' 7 = get_u32_be ?h 7"
    by (rule f8.get_unaffected f16.get_unaffected f32.get_unaffected; use p(3) in simp)+
  have "internal_flush pg = Inr page'"
    using p(1) by (simp add: internal_flush_def Let_def internal_reloaded_def ch)
  moreover have "internal_decode page' = Inr (internal_reloaded pg)"
  proof -
    have n: "unat (of_nat (length (keys pg)) :: u16) = length (keys pg)"
      using fits cs by (intro unat_of_nat_lt) simp
    have ty: "page_type pg = Internal" "key_count pg = of_nat (length (keys pg))"
      using assms(1) by (auto simp: internal_ok_def page_keys_ok_def)
    show ?thesis
      using p(4) n ty cs ch unfolding internal_decode_def Let_def get
      by (simp add: codec_simps payload_size internal_reloaded_def)
  qed
  ultimately show ?thesis using p(2) payload_size by auto
qed

text \<open>Only the payload changes, so the page header and the kind survive.\<close>

lemma replaced_payload:
  assumes "length img = V2_PAGE_SIZE" "length payload = V2_PAGE_PAYLOAD_SIZE"
  defines "img' \<equiv> take V2_PAGE_HEADER_SIZE img @ payload"
  shows "length img' = V2_PAGE_SIZE" "page_kind img' = page_kind img" "drop V2_PAGE_HEADER_SIZE img' = payload"
    "take V2_PAGE_HEADER_SIZE img' = take V2_PAGE_HEADER_SIZE img"
proof -
  show "length img' = V2_PAGE_SIZE" "drop V2_PAGE_HEADER_SIZE img' = payload"
    "take V2_PAGE_HEADER_SIZE img' = take V2_PAGE_HEADER_SIZE img"
    using assms by (simp_all add: V2_PAGE_PAYLOAD_SIZE_def page_sizes min_def)
  have "get_u32_be img' 20 = get_u32_be img 20"
    by (rule f32.get_unaffected) (use assms(1) in \<open>simp add: img'_def nth_append page_sizes\<close>)
  then show "page_kind img' = page_kind img" by (simp add: page_kind_def)
qed

section \<open>Properties\<close>

text \<open>C33: the binary search over a page's keys stops at an index of the page or at
  its end whatever the keys are, and on sorted keys that index is the one a linear
  scan for the first key that is not smaller finds.\<close>

theorem lower_bound_key_correct:
  "lower_bound_key pg key \<le> length (keys pg) \<and>
   (sorted_keys (keys pg) \<longrightarrow>
    lower_bound_key pg key = length (takeWhile (\<lambda>k. key_compare k key < 0) (keys pg)))"
  using lower_bound_key_le lower_bound_key_eq by blast

definition sample_internal :: BInternalPage where
  "sample_internal = \<lparr>page_type = Internal, keys = [key_make_bool True], free_offset_start = 0,
     free_offset_end = 0, key_count = 1, child_page_nums = [3, 4]\<rparr>"

theorem lower_bound_key_correct_witness:
  "lower_bound_key sample_internal (key_make_bool False) = 0 \<and>
   lower_bound_key sample_internal (key_make_uint64 7) = 1"
  using lower_bound_key_correct[of sample_internal "key_make_bool False"]
    lower_bound_key_correct[of sample_internal "key_make_uint64 7"]
  by (simp add: sample_internal_def key_make_bool_def key_make_uint64_def key_compare_def)

text \<open>C30: a well-formed leaf page is a finite map from keys to values: \<open>get\<close> looks the
  key up, \<open>set\<close> overwrites a present key and refuses an absent one, \<open>insert_at\<close> at the
  search position adds an absent key, \<open>remove\<close> deletes a present one; each leaves a
  well-formed page.\<close>

theorem leaf_page_is_map:
  assumes "leaf_ok pg" "validate_key key" "validate_value val"
  shows "leaf_get pg key = leaf_map pg key \<and>
    (case leaf_set pg key val of (did, pg') \<Rightarrow> leaf_ok pg' \<and> did = (key \<in> dom (leaf_map pg)) \<and>
      leaf_map pg' = (if did then (leaf_map pg)(key \<mapsto> val) else leaf_map pg)) \<and>
    (key \<notin> dom (leaf_map pg) \<longrightarrow>
      (case insert_at pg (lower_bound_key pg key) key val of (did, pg') \<Rightarrow>
        did \<and> leaf_ok pg' \<and> leaf_map pg' = (leaf_map pg)(key \<mapsto> val))) \<and>
    (case leaf_remove pg key of (did, pg') \<Rightarrow> leaf_ok pg' \<and> did = (key \<in> dom (leaf_map pg)) \<and>
      leaf_map pg' = (leaf_map pg)(key := None))"
  using leaf_get_map[OF assms(1,2)] leaf_set_map[OF assms] leaf_insert_map[OF assms]
    leaf_remove_map[OF assms(1,2)] leaf_okD(4)[OF assms(1)]
  by (simp add: case_prod_beta)

definition empty_leaf :: BLeafPage where
  "empty_leaf = \<lparr>page_type = Leaf, keys = [], free_offset_start = LEAF_HEADER_SIZE,
     free_offset_end = BTREE_PAYLOAD_SIZE - 1, key_count = 0, leaf_values = []\<rparr>"

lemma empty_leaf_ok: "leaf_ok empty_leaf" "leaf_fits empty_leaf"
  by (simp_all add: empty_leaf_def leaf_ok_def page_keys_ok_def leaf_fits_def leaf_bytes_def leaf_cells_def
      unat_sizes payload_size)

lemma sample_pair_valid: "validate_key (key_make_bool True)" "validate_value (value_make_bool True)"
  by (simp_all add: validate_key_def key_make_bool_def validate_value_def value_make_bool_def MAX_PAYLOAD_SIZE_def)

theorem leaf_page_is_map_witness:
  "leaf_map (snd (insert_at empty_leaf (lower_bound_key empty_leaf (key_make_bool True)) (key_make_bool True)
      (value_make_bool True))) (key_make_bool True) = Some (value_make_bool True)"
  using leaf_page_is_map[OF empty_leaf_ok(1) sample_pair_valid]
  by (simp add: empty_leaf_def leaf_map_def leaf_cells_def case_prod_beta)

text \<open>C31: a well-formed page whose cells fit is read back from the page buffer exactly as
  it was written, keys, values and children included, and writing it keeps the page header.\<close>

theorem page_write_back_roundtrip:
  assumes "length img = V2_PAGE_SIZE" "page_kind img = BTreeLeaf" "leaf_ok pg" "leaf_fits pg"
    and "length iimg = V2_PAGE_SIZE" "page_kind iimg = BTreeInternal" "internal_ok ipg" "internal_fits ipg"
  shows "(\<exists>img'. leaf_write_back pg img = Inr img' \<and> new_BLeafPage img' = Inr (leaf_reloaded pg) \<and>
      take V2_PAGE_HEADER_SIZE img' = take V2_PAGE_HEADER_SIZE img \<and> length img' = V2_PAGE_SIZE) \<and>
    (\<exists>img'. internal_write_back ipg iimg = Inr img' \<and> new_BInternalPage img' = Inr (internal_reloaded ipg) \<and>
      take V2_PAGE_HEADER_SIZE img' = take V2_PAGE_HEADER_SIZE iimg \<and> length img' = V2_PAGE_SIZE)"
proof -
  obtain a where a: "leaf_flush pg = Inr a" "length a = V2_PAGE_PAYLOAD_SIZE" "leaf_decode a = Inr (leaf_reloaded pg)"
    using leaf_flush_decode[OF assms(3,4)] by blast
  obtain b where b: "internal_flush ipg = Inr b" "length b = V2_PAGE_PAYLOAD_SIZE"
    "internal_decode b = Inr (internal_reloaded ipg)"
    using internal_flush_decode[OF assms(7,8)] by blast
  show ?thesis
    using replaced_payload[OF assms(1) a(2)] replaced_payload[OF assms(5) b(2)] a b assms(2,6)
    by (simp add: leaf_write_back_def internal_write_back_def new_BLeafPage_def new_BInternalPage_def
        peek_page_type_def Let_def)
qed

theorem page_write_back_roundtrip_witness:
  "\<exists>img'. internal_write_back sample_internal (page_initialize 9 BTreeInternal) = Inr img' \<and>
     new_BInternalPage img' = Inr (internal_reloaded sample_internal)"
proof -
  have ok: "internal_ok sample_internal"
    by (simp add: internal_ok_def page_keys_ok_def sample_internal_def sample_pair_valid)
  have fits: "internal_fits sample_internal"
    using length_key_cell_image[OF sample_pair_valid(1)]
    by (simp add: internal_fits_def sample_internal_def internal_bytes_def internal_cell_image_def
        unat_sizes payload_size key_make_bool_def)
  have "length (page_initialize 9 BTreeLeaf) = V2_PAGE_SIZE" "page_kind (page_initialize 9 BTreeLeaf) = BTreeLeaf"
    "length (page_initialize 9 BTreeInternal) = V2_PAGE_SIZE"
    "page_kind (page_initialize 9 BTreeInternal) = BTreeInternal"
    using page_initialize_fields(4)[of BTreeLeaf 9] page_initialize_fields(4)[of BTreeInternal 9] by simp_all
  from page_write_back_roundtrip[OF this(1,2) empty_leaf_ok this(3,4) ok fits] show ?thesis by blast
qed

text \<open>C32: no operation checks that the cells fit the page.  A valid pair whose cell is
  larger than the payload is accepted by an empty leaf, and writing the page back then
  writes outside the page buffer.\<close>

theorem oversized_pair_leaves_page:
  assumes "validate_key key" "validate_value val"
    and "V2_PAGE_PAYLOAD_SIZE < 6 + unat (ksize key) + unat (vsize val)" "6 + unat (ksize key) + unat (vsize val) < 2 ^ 16"
  shows "fst (insert_at empty_leaf 0 key val) \<and>
    leaf_write_back (snd (insert_at empty_leaf 0 key val)) img = Inl Outside_page"
proof -
  let ?pg = "snd (insert_at empty_leaf 0 key val)"
  have len: "length (leaf_cell_image (key, val)) = 6 + unat (ksize key) + unat (vsize val)"
    using assms(1,2) by (simp add: leaf_cell_image_def length_key_cell_image valid_size_value)
  have ins: "insert_at empty_leaf 0 key val = (True, empty_leaf\<lparr>keys := [key], leaf_values := [val], key_count := 1\<rparr>)"
    using assms(1,2) by (simp add: insert_at_def empty_leaf_def vec_insert_def Let_def)
  have "leaf_ok ?pg" unfolding ins using assms(1,2) by (simp add: leaf_ok_def page_keys_ok_def empty_leaf_def)
  moreover have "leaf_cells ?pg = [(key, val)]" unfolding ins by (simp add: leaf_cells_def)
  ultimately have "leaf_flush ?pg = Inl Outside_page"
    using leaf_flush_overflow[of ?pg] assms(3,4) len by (simp add: leaf_bytes_def)
  then show ?thesis by (simp add: ins leaf_write_back_def)
qed

definition long_value :: Value where
  "long_value = \<lparr>vtype = VChar, vsize = 5000, vdata = replicate 5000 0\<rparr>"

theorem oversized_pair_leaves_page_witness:
  "fst (insert_at empty_leaf 0 (key_make_bool True) long_value) \<and>
   leaf_write_back (snd (insert_at empty_leaf 0 (key_make_bool True) long_value)) (page_initialize 9 BTreeLeaf)
     = Inl Outside_page"
  by (rule oversized_pair_leaves_page[OF sample_pair_valid(1)])
    (simp_all add: validate_value_def long_value_def MAX_PAYLOAD_SIZE_def key_make_bool_def payload_size)

end
