(* ===== verification/PageLatch.thy ===== *)
theory PageLatch
  imports Prelude
begin

text \<open>
  Page latches, after \<open>src/src/PageLatchManager.cpp\<close> and
  \<open>src/src/containers/BTreeOperation.cpp\<close>.  A latch state is its address; a table entry is a
  weak pointer and counts as expired when no latch and no waiting call refers to the state.
  \<open>std::hash\<close> is a parameter.  The step relation runs any number of operations against one
  manager: a call first resolves the state under the shard mutex and later, when the
  \<open>std::shared_mutex\<close> of that state admits it, obtains the latch.  The invariant shows that
  expiry and cleanup never give one page two live states, hence that an exclusive latch
  excludes every other latch of the page.
\<close>

section \<open>Operations\<close>

datatype PageLatchMode = Latch_Shared | Latch_Exclusive

definition LATCH_SHARD_COUNT :: nat where "LATCH_SHARD_COUNT = 64"
definition CLEANUP_INTERVAL :: nat where "CLEANUP_INTERVAL = 64"

record PageLatchShard =
  latch_states :: "u32 \<rightharpoonup> nat"
  acquisitions_since_cleanup :: nat

record PageLatchManager =
  latch_shards :: "nat \<Rightarrow> PageLatchShard"
  next_state :: nat

text \<open>The tail of \<open>state_for\<close>: every so often drop the expired entries, then make a state.\<close>

definition new_latch_state ::
    "(nat \<Rightarrow> bool) \<Rightarrow> PageLatchManager \<Rightarrow> nat \<Rightarrow> PageLatchShard \<Rightarrow> u32 \<Rightarrow> nat \<times> PageLatchManager" where
  "new_latch_state alive mgr i shard page =
     (let count = acquisitions_since_cleanup shard + 1;
          shard = (if count \<ge> CLEANUP_INTERVAL
            then \<lparr>latch_states = (\<lambda>p. case latch_states shard p of
                                     Some s \<Rightarrow> if alive s then Some s else None
                                   | None \<Rightarrow> None),
                  acquisitions_since_cleanup = 0\<rparr>
            else shard\<lparr>acquisitions_since_cleanup := count\<rparr>);
          s = next_state mgr;
          shard = shard\<lparr>latch_states := (latch_states shard)(page \<mapsto> s)\<rparr>
      in (s, mgr\<lparr>latch_shards := (latch_shards mgr)(i := shard), next_state := s + 1\<rparr>))"

definition state_for ::
    "(u32 \<Rightarrow> nat) \<Rightarrow> (nat \<Rightarrow> bool) \<Rightarrow> PageLatchManager \<Rightarrow> u32 \<Rightarrow> nat \<times> PageLatchManager" where
  "state_for hash alive mgr page =
     (let i = hash page mod LATCH_SHARD_COUNT;
          shard = latch_shards mgr i
      in case latch_states shard page of
           Some s \<Rightarrow>
             if alive s then (s, mgr)
             else new_latch_state alive mgr i (shard\<lparr>latch_states := (latch_states shard)(page := None)\<rparr>) page
         | None \<Rightarrow> new_latch_state alive mgr i shard page)"

text \<open>The latches one operation holds: mode and lock object per page.\<close>

type_synonym 'l held_latches = "u32 \<rightharpoonup> PageLatchMode \<times> 'l"

definition op_lock_shared :: "'l held_latches \<Rightarrow> u32 \<Rightarrow> 'l \<Rightarrow> 'l held_latches" where
  "op_lock_shared held page latch =
     (if held page \<noteq> None then held else held(page \<mapsto> (Latch_Shared, latch)))"

definition op_lock_exclusive :: "'l held_latches \<Rightarrow> u32 \<Rightarrow> 'l \<Rightarrow> 'l held_latches res" where
  "op_lock_exclusive held page latch =
     (case held page of
        Some (mode, _) \<Rightarrow> if mode = Latch_Exclusive then Inr held else Inl Logic_error
      | None \<Rightarrow> Inr (held(page \<mapsto> (Latch_Exclusive, latch))))"

definition op_release :: "'l held_latches \<Rightarrow> u32 \<Rightarrow> 'l held_latches" where
  "op_release held page = held(page := None)"

definition release_all_exclusive_except :: "'l held_latches \<Rightarrow> u32 \<Rightarrow> 'l held_latches" where
  "release_all_exclusive_except held page =
     (\<lambda>p. case held p of
        Some (mode, latch) \<Rightarrow> if p \<noteq> page \<and> mode = Latch_Exclusive then None else Some (mode, latch)
      | None \<Rightarrow> None)"

definition release_all :: "'l held_latches \<Rightarrow> 'l held_latches" where
  "release_all held = Map.empty"

definition latch_mode :: "'l held_latches \<Rightarrow> u32 \<Rightarrow> PageLatchMode option" where
  "latch_mode held page = map_option fst (held page)"

section \<open>Operations running against one manager\<close>

text \<open>\<open>waiting\<close>: the call has its state and waits for the mutex in it.\<close>

record latch_system =
  ls_manager :: PageLatchManager
  ls_held :: "nat \<Rightarrow> nat held_latches"
  ls_waiting :: "nat \<Rightarrow> (u32 \<times> PageLatchMode \<times> nat) option"

definition refers :: "latch_system \<Rightarrow> nat \<Rightarrow> u32 \<Rightarrow> nat \<Rightarrow> bool" where
  "refers w i page s = ((\<exists>mode. ls_held w i page = Some (mode, s)) \<or> (\<exists>mode. ls_waiting w i = Some (page, mode, s)))"

definition state_alive :: "latch_system \<Rightarrow> nat \<Rightarrow> bool" where
  "state_alive w s = (\<exists>i page. refers w i page s)"

definition admits :: "latch_system \<Rightarrow> PageLatchMode \<Rightarrow> nat \<Rightarrow> bool" where
  "admits w mode s = (\<forall>i page mode'. ls_held w i page = Some (mode', s) \<longrightarrow>
     mode = Latch_Shared \<and> mode' = Latch_Shared)"

inductive latch_step :: "(u32 \<Rightarrow> nat) \<Rightarrow> latch_system \<Rightarrow> latch_system \<Rightarrow> bool" for hash where
  resolve: "ls_waiting w i = None \<Longrightarrow> ls_held w i page = None \<Longrightarrow>
    state_for hash (state_alive w) (ls_manager w) page = (s, mgr) \<Longrightarrow>
    latch_step hash w (w\<lparr>ls_manager := mgr, ls_waiting := (ls_waiting w)(i \<mapsto> (page, mode, s))\<rparr>)"
| lock_shared: "ls_waiting w i = Some (page, Latch_Shared, s) \<Longrightarrow> admits w Latch_Shared s \<Longrightarrow>
    latch_step hash w (w\<lparr>ls_waiting := (ls_waiting w)(i := None),
      ls_held := (ls_held w)(i := op_lock_shared (ls_held w i) page s)\<rparr>)"
| lock_exclusive: "ls_waiting w i = Some (page, Latch_Exclusive, s) \<Longrightarrow> admits w Latch_Exclusive s \<Longrightarrow>
    op_lock_exclusive (ls_held w i) page s = Inr h \<Longrightarrow>
    latch_step hash w (w\<lparr>ls_waiting := (ls_waiting w)(i := None), ls_held := (ls_held w)(i := h)\<rparr>)"
| release: "ls_waiting w i = None \<Longrightarrow>
    latch_step hash w (w\<lparr>ls_held := (ls_held w)(i := op_release (ls_held w i) page)\<rparr>)"
| release_except: "ls_waiting w i = None \<Longrightarrow>
    latch_step hash w (w\<lparr>ls_held := (ls_held w)(i := release_all_exclusive_except (ls_held w i) page)\<rparr>)"
| finish: "ls_waiting w i = None \<Longrightarrow>
    latch_step hash w (w\<lparr>ls_held := (ls_held w)(i := release_all (ls_held w i))\<rparr>)"

definition new_latch_system :: latch_system where
  "new_latch_system =
     \<lparr>ls_manager = \<lparr>latch_shards = (\<lambda>_. \<lparr>latch_states = Map.empty, acquisitions_since_cleanup = 0\<rparr>), next_state = 0\<rparr>,
      ls_held = (\<lambda>_. Map.empty), ls_waiting = (\<lambda>_. None)\<rparr>"

inductive latch_reachable :: "(u32 \<Rightarrow> nat) \<Rightarrow> latch_system \<Rightarrow> bool" for hash where
  start: "latch_reachable hash new_latch_system"
| step: "latch_reachable hash w \<Longrightarrow> latch_step hash w w' \<Longrightarrow> latch_reachable hash w'"

section \<open>The invariant\<close>

text \<open>Every reference to a page's state is to the one in the table, and the mutexes admit
  only compatible latches.\<close>

definition table_entry :: "(u32 \<Rightarrow> nat) \<Rightarrow> PageLatchManager \<Rightarrow> u32 \<Rightarrow> nat option" where
  "table_entry hash mgr page = latch_states (latch_shards mgr (hash page mod LATCH_SHARD_COUNT)) page"

definition latch_inv :: "(u32 \<Rightarrow> nat) \<Rightarrow> latch_system \<Rightarrow> bool" where
  "latch_inv hash w =
     ((\<forall>i page s. refers w i page s \<longrightarrow> table_entry hash (ls_manager w) page = Some s) \<and>
      (\<forall>page s. table_entry hash (ls_manager w) page = Some s \<longrightarrow> s < next_state (ls_manager w)) \<and>
      (\<forall>i page s. ls_waiting w i = Some (page, s) \<longrightarrow> ls_held w i page = None) \<and>
      (\<forall>i page s i' page' mode. ls_held w i page = Some (Latch_Exclusive, s) \<longrightarrow>
         ls_held w i' page' = Some (mode, s) \<longrightarrow> i = i' \<and> page = page'))"

lemma state_for_alive:
  "table_entry hash mgr page = Some s \<Longrightarrow> alive s \<Longrightarrow> state_for hash alive mgr page = (s, mgr)"
  by (simp add: state_for_def Let_def table_entry_def)

lemma state_for_table:
  assumes "state_for hash alive mgr page = (s, mgr')"
  shows "table_entry hash mgr' page = Some s"
    and "table_entry hash mgr p = Some q \<Longrightarrow> alive q \<Longrightarrow> table_entry hash mgr' p = Some q"
    and "table_entry hash mgr' p = Some q \<Longrightarrow> table_entry hash mgr p = Some q \<or> q = s"
    and "next_state mgr \<le> next_state mgr'" "s = next_state mgr \<and> next_state mgr' = s + 1 \<or> mgr' = mgr"
  using assms
  by (auto simp: state_for_def new_latch_state_def Let_def table_entry_def split: option.splits if_splits)

lemma latch_invD:
  assumes "latch_inv hash w"
  shows "refers w i page s \<Longrightarrow> table_entry hash (ls_manager w) page = Some s"
    "table_entry hash (ls_manager w) page = Some s \<Longrightarrow> s < next_state (ls_manager w)"
    "ls_waiting w i = Some (page, x) \<Longrightarrow> ls_held w i page = None"
    "ls_held w i page = Some (Latch_Exclusive, s) \<Longrightarrow> ls_held w i' page' = Some (mode, s) \<Longrightarrow> i = i' \<and> page = page'"
  using assms unfolding latch_inv_def by blast+

lemma latch_invI:
  assumes "\<And>i page s. refers w i page s \<Longrightarrow> table_entry hash (ls_manager w) page = Some s"
    and "\<And>page s. table_entry hash (ls_manager w) page = Some s \<Longrightarrow> s < next_state (ls_manager w)"
    and "\<And>i page x. ls_waiting w i = Some (page, x) \<Longrightarrow> ls_held w i page = None"
    and "\<And>i page s i' page' mode. ls_held w i page = Some (Latch_Exclusive, s) \<Longrightarrow>
      ls_held w i' page' = Some (mode, s) \<Longrightarrow> i = i' \<and> page = page'"
  shows "latch_inv hash w"
  using assms unfolding latch_inv_def by blast

lemma resolve_inv:
  assumes inv: "latch_inv hash w" and free: "ls_waiting w i = None" "ls_held w i page = None"
    and sf: "state_for hash (state_alive w) (ls_manager w) page = (s, mgr)"
  shows "latch_inv hash (w\<lparr>ls_manager := mgr, ls_waiting := (ls_waiting w)(i \<mapsto> (page, mode, s))\<rparr>)"
proof -
  let ?w = "w\<lparr>ls_manager := mgr, ls_waiting := (ls_waiting w)(i \<mapsto> (page, mode, s))\<rparr>"
  have keep: "table_entry hash mgr p = Some q" if "refers w j p q" for j p q
    using state_for_table(2)[OF sf latch_invD(1)[OF inv that]] that by (auto simp: state_alive_def)
  show ?thesis
  proof (rule latch_invI)
    fix j p q
    assume "refers ?w j p q"
    then have "refers w j p q \<or> (p = page \<and> q = s)" by (auto simp: refers_def split: if_splits)
    then show "table_entry hash (ls_manager ?w) p = Some q"
      using keep[of j p q] state_for_table(1)[OF sf] by auto
  next
    fix p q
    assume "table_entry hash (ls_manager ?w) p = Some q"
    then have "table_entry hash (ls_manager w) p = Some q \<or> q = s \<and> mgr \<noteq> ls_manager w"
      using state_for_table(3)[OF sf, of p q] by auto
    then show "q < next_state (ls_manager ?w)"
      using state_for_table(4,5)[OF sf] latch_invD(2)[OF inv, of p q] by auto
  next
    fix j p x
    assume "ls_waiting ?w j = Some (p, x)"
    then show "ls_held ?w j p = None" using free latch_invD(3)[OF inv, of j p x] by (auto split: if_splits)
  next
    fix j p q j' p' m
    assume "ls_held ?w j p = Some (Latch_Exclusive, q)" "ls_held ?w j' p' = Some (m, q)"
    then show "j = j' \<and> p = p'" using latch_invD(4)[OF inv, of j p q j' p' m] by simp
  qed
qed

lemma grant_inv:
  assumes inv: "latch_inv hash w" and wait: "ls_waiting w i = Some (page, mode, s)" and ok: "admits w mode s"
  shows "latch_inv hash (w\<lparr>ls_waiting := (ls_waiting w)(i := None),
    ls_held := (ls_held w)(i := (ls_held w i)(page \<mapsto> (mode, s)))\<rparr>)"
proof -
  let ?w = "w\<lparr>ls_waiting := (ls_waiting w)(i := None), ls_held := (ls_held w)(i := (ls_held w i)(page \<mapsto> (mode, s)))\<rparr>"
  show ?thesis
  proof (rule latch_invI)
    fix j p q
    assume "refers ?w j p q"
    then have "refers w j p q" using wait by (auto simp: refers_def split: if_splits)
    then show "table_entry hash (ls_manager ?w) p = Some q" using latch_invD(1)[OF inv] by simp
  next
    fix p q
    assume "table_entry hash (ls_manager ?w) p = Some q"
    then show "q < next_state (ls_manager ?w)" using latch_invD(2)[OF inv, of p q] by simp
  next
    fix j p x
    assume "ls_waiting ?w j = Some (p, x)"
    then show "ls_held ?w j p = None" using latch_invD(3)[OF inv, of j p x] by (auto split: if_splits)
  next
    fix j p q j' p' m
    assume ex: "ls_held ?w j p = Some (Latch_Exclusive, q)" "ls_held ?w j' p' = Some (m, q)"
    show "j = j' \<and> p = p'"
    proof (cases "(j = i \<and> p = page) \<or> (j' = i \<and> p' = page)")
      case True
      then show ?thesis using ex ok by (auto simp: admits_def split: if_splits)
    next
      case False
      then have "ls_held w j p = Some (Latch_Exclusive, q)" "ls_held w j' p' = Some (m, q)"
        using ex by (auto split: if_splits)
      then show ?thesis by (rule latch_invD(4)[OF inv])
    qed
  qed
qed

lemma drop_inv:
  assumes "latch_inv hash w" "\<And>p x. h p = Some x \<Longrightarrow> ls_held w i p = Some x"
  shows "latch_inv hash (w\<lparr>ls_held := (ls_held w)(i := h)\<rparr>)"
proof -
  let ?w = "w\<lparr>ls_held := (ls_held w)(i := h)\<rparr>"
  have held: "ls_held ?w j p = Some x \<Longrightarrow> ls_held w j p = Some x" for j p x
    using assms(2) by (auto split: if_splits)
  show ?thesis
  proof (rule latch_invI)
    fix j p q
    assume "refers ?w j p q"
    then have "(\<exists>m. ls_held ?w j p = Some (m, q)) \<or> (\<exists>m. ls_waiting w j = Some (p, m, q))"
      unfolding refers_def by simp
    then have "refers w j p q" unfolding refers_def using held by blast
    then show "table_entry hash (ls_manager ?w) p = Some q" using latch_invD(1)[OF assms(1)] by simp
  next
    fix p q
    assume "table_entry hash (ls_manager ?w) p = Some q"
    then show "q < next_state (ls_manager ?w)" using latch_invD(2)[OF assms(1), of p q] by simp
  next
    fix j p x
    assume "ls_waiting ?w j = Some (p, x)"
    then have "ls_held w j p = None" using latch_invD(3)[OF assms(1), of j p x] by simp
    then show "ls_held ?w j p = None" using held by (metis not_None_eq)
  next
    fix j p q j' p' m
    assume "ls_held ?w j p = Some (Latch_Exclusive, q)" "ls_held ?w j' p' = Some (m, q)"
    then show "j = j' \<and> p = p'" using latch_invD(4)[OF assms(1)] held by blast
  qed
qed

lemma latch_step_inv: "latch_step hash w w' \<Longrightarrow> latch_inv hash w \<Longrightarrow> latch_inv hash w'"
proof (induction rule: latch_step.induct)
  case (resolve w i page s mgr mode)
  then show ?case by (intro resolve_inv)
next
  case (lock_shared w i page s)
  then show ?case
    using grant_inv[OF lock_shared(3,1,2)] latch_invD(3)[OF lock_shared(3,1)] by (simp add: op_lock_shared_def)
next
  case (lock_exclusive w i page s h)
  then show ?case
    using grant_inv[OF lock_exclusive(4,1,2)] latch_invD(3)[OF lock_exclusive(4,1)] by (auto simp: op_lock_exclusive_def)
next
  case (release w i page)
  show ?case by (rule drop_inv[OF release(2)]) (auto simp: op_release_def split: if_splits)
next
  case (release_except w i page)
  show ?case by (rule drop_inv[OF release_except(2)])
      (auto simp: release_all_exclusive_except_def split: option.splits if_splits)
next
  case (finish w i)
  show ?case by (rule drop_inv[OF finish(2)]) (simp add: release_all_def)
qed

lemma latch_reachable_inv: "latch_reachable hash w \<Longrightarrow> latch_inv hash w"
proof (induction rule: latch_reachable.induct)
  case start
  show ?case by (simp add: latch_inv_def new_latch_system_def refers_def table_entry_def)
qed (rule latch_step_inv)

section \<open>Properties\<close>

text \<open>C35: whatever calls run and however often expired table entries are dropped, an exclusive
  latch on a page excludes every other latch on that page.\<close>

theorem latch_exclusion:
  assumes "latch_reachable hash w" "ls_held w i page = Some (Latch_Exclusive, s)" "ls_held w j page = Some (mode, t)"
  shows "i = j"
proof -
  have inv: "latch_inv hash w" by (rule latch_reachable_inv[OF assms(1)])
  have "table_entry hash (ls_manager w) page = Some s" "table_entry hash (ls_manager w) page = Some t"
    using assms(2,3) by (auto intro!: latch_invD(1)[OF inv] simp: refers_def)
  then have "s = t" by simp
  with latch_invD(4)[OF inv assms(2)] assms(3) show ?thesis by blast
qed

definition latched_once :: latch_system where
  "latched_once =
     (let w = new_latch_system;
          (s, mgr) = state_for unat (state_alive w) (ls_manager w) 5
      in w\<lparr>ls_manager := mgr, ls_held := (ls_held w)(1 := [5 \<mapsto> (Latch_Exclusive, s)])\<rparr>)"

lemma latched_once_reachable: "latch_reachable unat latched_once"
proof -
  let ?w = new_latch_system
  obtain s mgr where sf: "state_for unat (state_alive ?w) (ls_manager ?w) 5 = (s, mgr)" by fastforce
  let ?w1 = "?w\<lparr>ls_manager := mgr, ls_waiting := (ls_waiting ?w)(1 \<mapsto> (5, Latch_Exclusive, s))\<rparr>"
  have "latch_reachable unat ?w1"
    by (rule latch_reachable.step[OF latch_reachable.start latch_step.resolve[OF _ _ sf]])
      (simp_all add: new_latch_system_def)
  moreover have "latch_step unat ?w1 (?w1\<lparr>ls_waiting := (ls_waiting ?w1)(1 := None),
      ls_held := (ls_held ?w1)(1 := [5 \<mapsto> (Latch_Exclusive, s)])\<rparr>)"
    by (rule latch_step.lock_exclusive[where page = 5 and s = s])
      (simp_all add: admits_def new_latch_system_def op_lock_exclusive_def)
  ultimately have "latch_reachable unat (?w1\<lparr>ls_waiting := (ls_waiting ?w1)(1 := None),
      ls_held := (ls_held ?w1)(1 := [5 \<mapsto> (Latch_Exclusive, s)])\<rparr>)"
    by (rule latch_reachable.step)
  moreover have "(ls_waiting ?w1)(1 := None) = ls_waiting ?w" by (auto simp: new_latch_system_def)
  ultimately show ?thesis using sf by (simp add: latched_once_def Let_def)
qed

theorem latch_exclusion_witness: "ls_held latched_once 2 5 \<noteq> Some (Latch_Shared, 0)"
proof
  assume held: "ls_held latched_once 2 5 = Some (Latch_Shared, 0)"
  have "\<exists>s. ls_held latched_once 1 5 = Some (Latch_Exclusive, s)"
    by (simp add: latched_once_def Let_def split: prod.splits)
  then show False using latch_exclusion[OF latched_once_reachable _ held, of 1] by auto
qed

end
