(* ===== verification/DLList.thy ===== *)
theory DLList
  imports Prelude
begin

text \<open>
  The doubly linked list of unpinned pages, after \<open>src/include/containers/DLList.h\<close> and
  \<open>src/src/containers/DLList.cpp\<close>.  Nodes live in an explicit heap, \<open>head\<close> and \<open>tail\<close> are
  the two sentinels, and every operation assigns the same pointers in the same
  order as the code.  The refinement shows that the pointer structure is a
  sequence of (page number, page) pairs with distinct page numbers.
\<close>

section \<open>Data and operations\<close>

record 'p Node =
  node_page :: "'p option"
  node_next :: "nat option"
  node_prev :: "nat option"

record 'p DLList =
  dl_heap :: "nat \<rightharpoonup> 'p Node"
  nodesMap :: "int \<rightharpoonup> nat"
  dl_length :: int
  dl_fresh :: nat

definition dl_head :: nat where "dl_head = 0"
definition dl_tail :: nat where "dl_tail = 1"

definition next_of :: "(nat \<rightharpoonup> 'p Node) \<Rightarrow> nat \<Rightarrow> nat option" where
  "next_of h n = (case h n of None \<Rightarrow> None | Some nd \<Rightarrow> node_next nd)"

definition prev_of :: "(nat \<rightharpoonup> 'p Node) \<Rightarrow> nat \<Rightarrow> nat option" where
  "prev_of h n = (case h n of None \<Rightarrow> None | Some nd \<Rightarrow> node_prev nd)"

definition page_of :: "(nat \<rightharpoonup> 'p Node) \<Rightarrow> nat \<Rightarrow> 'p option" where
  "page_of h n = (case h n of None \<Rightarrow> None | Some nd \<Rightarrow> node_page nd)"

definition set_next :: "nat \<Rightarrow> nat option \<Rightarrow> (nat \<rightharpoonup> 'p Node) \<Rightarrow> (nat \<rightharpoonup> 'p Node)" where
  "set_next n q h = h(n := map_option (\<lambda>nd. nd\<lparr>node_next := q\<rparr>) (h n))"

definition set_prev :: "nat \<Rightarrow> nat option \<Rightarrow> (nat \<rightharpoonup> 'p Node) \<Rightarrow> (nat \<rightharpoonup> 'p Node)" where
  "set_prev n q h = h(n := map_option (\<lambda>nd. nd\<lparr>node_prev := q\<rparr>) (h n))"

definition new_DLList :: "'p DLList" where
  "new_DLList =
     (let h = [dl_head \<mapsto> \<lparr>node_page = None, node_next = None, node_prev = None\<rparr>,
               dl_tail \<mapsto> \<lparr>node_page = None, node_next = None, node_prev = None\<rparr>];
          h = set_next dl_head (Some dl_tail) h;
          h = set_prev dl_tail (Some dl_head) h
      in \<lparr>dl_heap = h, nodesMap = Map.empty, dl_length = 0, dl_fresh = 2\<rparr>)"

text \<open>Taking a node out of its place: its neighbours point at each other.\<close>

definition dl_detach :: "nat \<Rightarrow> (nat \<rightharpoonup> 'p Node) \<Rightarrow> (nat \<rightharpoonup> 'p Node)" where
  "dl_detach n h =
     (let prev_node = the (prev_of h n);
          h = set_next prev_node (next_of h n) h
      in set_prev (the (next_of h n)) (Some prev_node) h)"

definition dl_attach_last :: "nat \<Rightarrow> (nat \<rightharpoonup> 'p Node) \<Rightarrow> (nat \<rightharpoonup> 'p Node)" where
  "dl_attach_last n h =
     (let last_node = the (prev_of h dl_tail);
          h = set_next last_node (Some n) h;
          h = set_prev n (Some last_node) h;
          h = set_next n (Some dl_tail) h
      in set_prev dl_tail (Some n) h)"

definition dl_add :: "'p DLList \<Rightarrow> int \<Rightarrow> 'p \<Rightarrow> 'p DLList" where
  "dl_add d page_num page =
     (case nodesMap d page_num of
        Some n \<Rightarrow> d\<lparr>dl_heap := dl_attach_last n (dl_detach n (dl_heap d))\<rparr>
      | None \<Rightarrow>
          let n = dl_fresh d;
              h = (dl_heap d)(n \<mapsto> \<lparr>node_page = Some page, node_next = None, node_prev = None\<rparr>)
          in d\<lparr>dl_heap := dl_attach_last n h, nodesMap := (nodesMap d)(page_num \<mapsto> n),
               dl_length := dl_length d + 1, dl_fresh := n + 1\<rparr>)"

definition dl_get :: "'p DLList \<Rightarrow> int \<Rightarrow> 'p option" where
  "dl_get d page_num =
     (if page_num < 0 then None
      else case nodesMap d page_num of None \<Rightarrow> None | Some n \<Rightarrow> page_of (dl_heap d) n)"

definition dl_remove :: "'p DLList \<Rightarrow> int \<Rightarrow> 'p option \<times> 'p DLList" where
  "dl_remove d page_num =
     (case nodesMap d page_num of
        None \<Rightarrow> (None, d)
      | Some n \<Rightarrow>
          let page = page_of (dl_heap d) n
          in (page, d\<lparr>dl_heap := (dl_detach n (dl_heap d))(n := None),
                dl_length := dl_length d - 1, nodesMap := (nodesMap d)(page_num := None)\<rparr>))"

definition dl_exists :: "'p DLList \<Rightarrow> int \<Rightarrow> bool" where
  "dl_exists d page_num = (nodesMap d page_num \<noteq> None)"

definition dl_len :: "'p DLList \<Rightarrow> int" where
  "dl_len d = dl_length d"

text \<open>Iterators are node addresses.\<close>

definition dl_begin :: "'p DLList \<Rightarrow> nat" where
  "dl_begin d = the (next_of (dl_heap d) dl_head)"

definition dl_end :: "'p DLList \<Rightarrow> nat" where
  "dl_end d = dl_tail"

definition iter_deref :: "'p DLList \<Rightarrow> nat \<Rightarrow> 'p option" where
  "iter_deref d it = page_of (dl_heap d) it"

definition iter_inc :: "'p DLList \<Rightarrow> nat \<Rightarrow> nat" where
  "iter_inc d it = the (next_of (dl_heap d) it)"

definition iter_dec :: "'p DLList \<Rightarrow> nat \<Rightarrow> nat" where
  "iter_dec d it = the (prev_of (dl_heap d) it)"

section \<open>Chains of nodes\<close>

text \<open>The nodes of the list, in order, are linked both ways.\<close>

fun chain :: "(nat \<rightharpoonup> 'p Node) \<Rightarrow> nat list \<Rightarrow> bool" where
  "chain h (a # b # ns) = (next_of h a = Some b \<and> prev_of h b = Some a \<and> chain h (b # ns))"
| "chain h _ = True"

lemma linked_append:
  "chain h (xs @ a # ys) = (chain h (xs @ [a]) \<and> chain h (a # ys))"
  by (induction h xs rule: chain.induct) auto

lemma chain_cong:
  assumes "\<And>n. n \<in> set (butlast p) \<Longrightarrow> next_of h' n = next_of h n"
    and "\<And>n. n \<in> set (tl p) \<Longrightarrow> prev_of h' n = prev_of h n"
  shows "chain h' p = chain h p"
  using assms
proof (induction h p rule: chain.induct)
  case (1 h a b ns)
  have "chain h' (b # ns) = chain h (b # ns)"
  proof (rule "1.IH")
    show "next_of h' n = next_of h n" if "n \<in> set (butlast (b # ns))" for n
      by (rule "1.prems"(1)) (use that in simp)
    show "prev_of h' n = prev_of h n" if "n \<in> set (tl (b # ns))" for n
      by (rule "1.prems"(2)) (use that in simp)
  qed
  moreover have "next_of h' a = next_of h a" "prev_of h' b = prev_of h b"
    by (rule "1.prems"; simp)+
  ultimately show ?case by simp
qed simp_all

lemma link_simps [simp]:
  "next_of (set_next a q h) n = (if n = a \<and> h a \<noteq> None then q else next_of h n)"
  "prev_of (set_prev a q h) n = (if n = a \<and> h a \<noteq> None then q else prev_of h n)"
  "next_of (set_prev a q h) n = next_of h n"
  "prev_of (set_next a q h) n = prev_of h n"
  "page_of (set_next a q h) n = page_of h n"
  "page_of (set_prev a q h) n = page_of h n"
  "(set_next a q h n = None) = (h n = None)"
  "(set_prev a q h n = None) = (h n = None)"
  by (auto simp: next_of_def prev_of_def page_of_def set_next_def set_prev_def split: option.splits)

lemma in_set_tlD: "m \<in> set (tl p) \<Longrightarrow> m \<in> set p"
  by (cases p) auto

lemma chain_detach:
  assumes "chain h (P @ a # n # b # Q)" "distinct (P @ a # n # b # Q)"
    and "\<And>m. m \<in> set (P @ a # n # b # Q) \<Longrightarrow> h m \<noteq> None"
  shows "chain (dl_detach n h) (P @ a # b # Q)"
proof -
  have c: "chain h (P @ [a])" "next_of h a = Some n" "prev_of h n = Some a" "next_of h n = Some b"
    "prev_of h b = Some n" "chain h (b # Q)"
    using assms(1) linked_append[of h P a "n # b # Q"] by simp_all
  let ?h = "set_prev b (Some a) (set_next a (Some b) h)"
  have d: "dl_detach n h = ?h"
    using c assms(2) by (simp add: dl_detach_def Let_def)
  have "chain ?h (P @ [a]) = chain h (P @ [a])"
    by (rule chain_cong) (use assms(2) in \<open>auto dest: in_set_tlD\<close>)
  moreover have "chain ?h (b # Q) = chain h (b # Q)"
    by (rule chain_cong) (use assms(2) in \<open>auto split: if_splits dest: in_set_butlastD\<close>)
  moreover have "next_of ?h a = Some b" "prev_of ?h b = Some a"
    using assms(2,3) by auto
  ultimately show ?thesis using c linked_append[of ?h P a "b # Q"] by (simp add: d)
qed

lemma page_of_upd:
  "page_of (h(n := v)) m = (if m = n then (case v of None \<Rightarrow> None | Some nd \<Rightarrow> node_page nd) else page_of h m)"
  by (simp add: page_of_def)

lemma detach_frame [simp]:
  "page_of (dl_detach n h) = page_of h" "(dl_detach n h m = None) = (h m = None)"
  by (simp_all add: dl_detach_def Let_def fun_eq_iff)

lemma chain_attach:
  assumes "chain h (P @ [a, dl_tail])" "distinct (P @ [a, dl_tail, n])"
    and "\<And>m. m \<in> set (P @ [a, dl_tail, n]) \<Longrightarrow> h m \<noteq> None"
  shows "chain (dl_attach_last n h) (P @ [a, n, dl_tail])"
proof -
  have c: "chain h (P @ [a])" "prev_of h dl_tail = Some a"
    using assms(1) linked_append[of h P a "[dl_tail]"] by simp_all
  let ?h = "dl_attach_last n h"
  have "next_of ?h m = next_of h m" if "m \<in> set P" for m
    using that assms(2) c by (auto simp: dl_attach_last_def Let_def)
  moreover have "prev_of ?h m = prev_of h m" if "m \<in> set (P @ [a])" for m
    using that assms(2) c by (auto simp: dl_attach_last_def Let_def)
  ultimately have "chain ?h (P @ [a]) = chain h (P @ [a])"
    by (intro chain_cong) (auto dest: in_set_tlD)
  moreover have "next_of ?h a = Some n" "prev_of ?h n = Some a" "next_of ?h n = Some dl_tail"
    "prev_of ?h dl_tail = Some n"
    using assms(2,3) c by (auto simp: dl_attach_last_def Let_def)
  ultimately show ?thesis using c linked_append[of ?h P a "[n, dl_tail]"] by simp
qed

lemma attach_frame [simp]:
  "page_of (dl_attach_last n h) = page_of h" "(dl_attach_last n h m = None) = (h m = None)"
  by (simp_all add: dl_attach_last_def Let_def fun_eq_iff)

section \<open>The list is a sequence\<close>

definition dl_rep :: "'p DLList \<Rightarrow> (int \<times> 'p) list \<Rightarrow> nat list \<Rightarrow> bool" where
  "dl_rep d xs ns = (length ns = length xs \<and> distinct (dl_head # ns @ [dl_tail]) \<and>
     chain (dl_heap d) (dl_head # ns @ [dl_tail]) \<and> distinct (map fst xs) \<and>
     nodesMap d = map_of (zip (map fst xs) ns) \<and> map (page_of (dl_heap d)) ns = map (Some \<circ> snd) xs \<and>
     dl_length d = int (length xs) \<and> (\<forall>n. (dl_heap d n \<noteq> None) = (n \<in> set (dl_head # ns @ [dl_tail]))) \<and>
     (\<forall>n\<in>set ns. n < dl_fresh d) \<and> 2 \<le> dl_fresh d)"

definition dl_holds :: "'p DLList \<Rightarrow> (int \<times> 'p) list \<Rightarrow> bool" where
  "dl_holds d xs = (\<exists>ns. dl_rep d xs ns)"

definition without :: "int \<Rightarrow> (int \<times> 'p) list \<Rightarrow> (int \<times> 'p) list" where
  "without k xs = filter (\<lambda>x. fst x \<noteq> k) xs"

lemma new_DLList_holds: "dl_holds (new_DLList :: 'p DLList) []"
proof -
  have "dl_rep (new_DLList :: 'p DLList) [] []"
    by (auto simp: dl_rep_def new_DLList_def Let_def dl_head_def dl_tail_def set_next_def set_prev_def
        next_of_def prev_of_def)
  then show ?thesis by (auto simp: dl_holds_def)
qed

text \<open>The node of a page number splits the sequence and the chain alike.\<close>

lemma dl_rep_split:
  assumes "dl_rep d xs ns" "nodesMap d k = Some n"
  obtains X p Y A B where "xs = X @ (k, p) # Y" "ns = A @ n # B" "length A = length X" "length B = length Y"
    "page_of (dl_heap d) n = Some p" "without k xs = X @ Y"
proof -
  have len: "length ns = length xs" and dist: "distinct (map fst xs)"
    and pages: "map (page_of (dl_heap d)) ns = map (Some \<circ> snd) xs"
    using assms(1) by (auto simp: dl_rep_def)
  have "(k, n) \<in> set (zip (map fst xs) ns)"
    using assms by (auto simp: dl_rep_def dest: map_of_SomeD)
  then obtain i where i: "i < length xs" "fst (xs ! i) = k" "ns ! i = n"
    using len by (auto simp: set_zip)
  let ?p = "snd (xs ! i)"
  have x: "xs = take i xs @ (k, ?p) # drop (Suc i) xs"
    using id_take_nth_drop[OF i(1)] i(2) by (metis prod.collapse)
  have a: "ns = take i ns @ n # drop (Suc i) ns" using id_take_nth_drop[of i ns] i len by simp
  have "page_of (dl_heap d) n = Some ?p"
    using arg_cong[OF pages, of "\<lambda>l. l ! i"] i len by simp
  moreover have "without k xs = take i xs @ drop (Suc i) xs"
  proof -
    have "distinct (map fst (take i xs @ (k, ?p) # drop (Suc i) xs))" using dist x by metis
    then have "without k (take i xs @ (k, ?p) # drop (Suc i) xs) = take i xs @ drop (Suc i) xs"
      by (auto simp: without_def rev_image_eqI intro!: arg_cong2[where f = append] filter_True)
    then show ?thesis using x by metis
  qed
  ultimately show thesis using that[OF x a] len by simp
qed

lemma dl_rep_path:
  assumes "dl_rep d xs ns" "ns = A @ n # B"
  obtains P a b Q where "dl_head # A = P @ [a]" "B @ [dl_tail] = b # Q"
    "dl_head # ns @ [dl_tail] = P @ a # n # b # Q" "dl_head # (A @ B) @ [dl_tail] = P @ a # b # Q"
proof -
  obtain P a where P: "dl_head # A = P @ [a]" by (metis list.distinct(1) rev_exhaust)
  obtain b Q where Q: "B @ [dl_tail] = b # Q" by (cases B) auto
  have "dl_head # ns @ [dl_tail] = (dl_head # A) @ n # (B @ [dl_tail])"
    "dl_head # (A @ B) @ [dl_tail] = (dl_head # A) @ (B @ [dl_tail])"
    using assms(2) by simp_all
  with that[OF P Q] P Q show thesis by simp
qed

lemma map_add_middle:
  "(M :: 'a \<rightharpoonup> 'b) k = None \<Longrightarrow> N k = None \<Longrightarrow> N ++ M = (N(k \<mapsto> n) ++ M)(k := None)"
  "(M :: 'a \<rightharpoonup> 'b) k = None \<Longrightarrow> (N(k \<mapsto> n) ++ M) k = Some n"
  by (auto simp: fun_eq_iff map_add_def split: option.splits)

lemma zip_middle_map:
  assumes "distinct (map fst xs)" "xs = X @ (k, p) # Y" "length A = length X" "length B = length Y"
  shows "map_of (zip (map fst (X @ Y)) (A @ B)) = (map_of (zip (map fst xs) (A @ n # B)))(k := None)"
    "map_of (zip (map fst xs) (A @ n # B)) k = Some n"
proof -
  let ?M = "map_of (zip (map fst X) A)" and ?N = "map_of (zip (map fst Y) B)"
  have "?M k = None" "?N k = None"
    using assms by (auto simp: map_of_zip_is_None)
  with map_add_middle(1)[of ?M k ?N n] map_add_middle(2)[of ?M k ?N n]
  have "?N ++ ?M = (?N(k \<mapsto> n) ++ ?M)(k := None)" "(?N(k \<mapsto> n) ++ ?M) k = Some n" by simp_all
  then show "map_of (zip (map fst (X @ Y)) (A @ B)) = (map_of (zip (map fst xs) (A @ n # B)))(k := None)"
    "map_of (zip (map fst xs) (A @ n # B)) k = Some n"
    using assms(2-4) by simp_all
qed

text \<open>Moving a node to the end, as \<open>add\<close> does for a page that is already listed.\<close>

lemma dl_rep_detach:
  assumes "dl_rep d xs ns" "xs = X @ (k, p) # Y" "ns = A @ n # B" "length A = length X" "length B = length Y"
  shows "chain (dl_detach n (dl_heap d)) (dl_head # (A @ B) @ [dl_tail])"
    "distinct (dl_head # (A @ B) @ [dl_tail])" "n \<notin> set (dl_head # (A @ B) @ [dl_tail])"
    "map (page_of (dl_heap d)) (A @ B) = map (Some \<circ> snd) (X @ Y)" "page_of (dl_heap d) n = Some p"
    "nodesMap d = map_of (zip (map fst xs) ns)" "nodesMap d k = Some n"
proof -
  have r: "chain (dl_heap d) (dl_head # ns @ [dl_tail])" "distinct (dl_head # ns @ [dl_tail])"
    "\<And>m. (dl_heap d m \<noteq> None) = (m \<in> set (dl_head # ns @ [dl_tail]))"
    "map (page_of (dl_heap d)) ns = map (Some \<circ> snd) xs" "distinct (map fst xs)"
    using assms(1) by (auto simp: dl_rep_def)
  obtain P a b Q where p: "dl_head # ns @ [dl_tail] = P @ a # n # b # Q"
    "dl_head # (A @ B) @ [dl_tail] = P @ a # b # Q"
    by (rule dl_rep_path[OF assms(1,3)]) blast
  show "chain (dl_detach n (dl_heap d)) (dl_head # (A @ B) @ [dl_tail])"
    unfolding p(2) by (rule chain_detach) (use r p in \<open>simp_all only: simp_thms\<close>)
  show "distinct (dl_head # (A @ B) @ [dl_tail])" "n \<notin> set (dl_head # (A @ B) @ [dl_tail])"
    using r(2) unfolding assms(3) by auto
  have "map (page_of (dl_heap d)) A @ page_of (dl_heap d) n # map (page_of (dl_heap d)) B =
    map (Some \<circ> snd) X @ Some p # map (Some \<circ> snd) Y"
    using r(4) assms by simp
  then show "map (page_of (dl_heap d)) (A @ B) = map (Some \<circ> snd) (X @ Y)" "page_of (dl_heap d) n = Some p"
    using assms(4) by (simp_all add: append_eq_append_conv)
  show m: "nodesMap d = map_of (zip (map fst xs) ns)" using assms(1) by (simp add: dl_rep_def)
  show "nodesMap d k = Some n" using zip_middle_map(2)[OF r(5) assms(2,4,5)] by (simp add: m assms(3))
qed

lemma dl_rep_dom:
  "dl_rep d xs ns \<Longrightarrow> (nodesMap d k = None) = (k \<notin> fst ` set xs)"
  by (simp add: dl_rep_def map_of_zip_is_None)

lemma dl_remove_rep:
  assumes "dl_rep d xs ns"
  shows "fst (dl_remove d k) = map_of xs k" "dl_holds (snd (dl_remove d k)) (without k xs)"
proof -
  have "fst (dl_remove d k) = map_of xs k \<and> dl_holds (snd (dl_remove d k)) (without k xs)"
  proof (cases "nodesMap d k")
    case None
    then have "k \<notin> fst ` set xs" using dl_rep_dom[OF assms] by simp
    moreover from this have "without k xs = xs"
      unfolding without_def by (intro filter_True) (auto simp: rev_image_eqI)
    moreover from calculation(1) have "map_of xs k = None" by (simp add: map_of_eq_None_iff)
    ultimately show ?thesis
      using None assms by (auto simp: dl_remove_def dl_holds_def)
  next
    case (Some n)
    obtain X p Y A B where s: "xs = X @ (k, p) # Y" "ns = A @ n # B" "length A = length X" "length B = length Y"
      "without k xs = X @ Y"
      by (rule dl_rep_split[OF assms Some])
    note d = dl_rep_detach[OF assms s(1-4)]
    have dist: "distinct (map fst xs)" and dom: "\<And>m. (dl_heap d m \<noteq> None) = (m \<in> set (dl_head # ns @ [dl_tail]))"
      using assms by (auto simp: dl_rep_def)
    let ?d = "snd (dl_remove d k)" and ?h = "(dl_detach n (dl_heap d))(n := None)"
    have "chain ?h (dl_head # (A @ B) @ [dl_tail]) = chain (dl_detach n (dl_heap d)) (dl_head # (A @ B) @ [dl_tail])"
      by (rule chain_cong) (use d(3) in \<open>auto simp: next_of_def prev_of_def dest: in_set_butlastD in_set_tlD\<close>)
    moreover have "(?h m \<noteq> None) = (m \<in> set (dl_head # (A @ B) @ [dl_tail]))" for m
      using dom[of m] d(3) by (cases "m = n") (auto simp: s(2))
    moreover have "map (page_of ?h) (A @ B) = map (Some \<circ> snd) (X @ Y)"
    proof -
      have "map (page_of ?h) (A @ B) = map (page_of (dl_heap d)) (A @ B)"
        by (rule map_cong[OF refl]) (use d(3) in \<open>auto simp: page_of_upd\<close>)
      with d(4) show ?thesis by simp
    qed
    ultimately have "dl_rep ?d (X @ Y) (A @ B)"
      using assms d(1,2) s(3,4) zip_middle_map(1)[OF dist s(1,3,4), of n] Some
      by (auto simp: dl_rep_def dl_remove_def Let_def s(1,2))
    moreover have "map_of xs k = Some p" by (rule map_of_is_SomeI[OF dist]) (simp add: s(1))
    ultimately show ?thesis
      using Some d(5) by (auto simp: dl_holds_def s(5) dl_remove_def Let_def)
  qed
  then show "fst (dl_remove d k) = map_of xs k" "dl_holds (snd (dl_remove d k)) (without k xs)" by auto
qed

text \<open>\<open>add\<close> keeps the page pointer of a page that is already listed.\<close>

definition add_seq :: "int \<Rightarrow> 'p \<Rightarrow> (int \<times> 'p) list \<Rightarrow> (int \<times> 'p) list" where
  "add_seq k p xs = without k xs @ [(k, case map_of xs k of Some q \<Rightarrow> q | None \<Rightarrow> p)]"

lemma dl_attach_rep:
  assumes "chain h (dl_head # ns @ [dl_tail])" "distinct (dl_head # ns @ [dl_tail])" "n \<notin> set (dl_head # ns @ [dl_tail])"
    and "\<And>m. (h m \<noteq> None) = (m = n \<or> m \<in> set (dl_head # ns @ [dl_tail]))"
  shows "chain (dl_attach_last n h) (dl_head # (ns @ [n]) @ [dl_tail])"
proof -
  obtain P a where P: "dl_head # ns = P @ [a]" by (metis list.distinct(1) rev_exhaust)
  then have e: "dl_head # ns @ [dl_tail] = P @ [a, dl_tail]" "dl_head # (ns @ [n]) @ [dl_tail] = P @ [a, n, dl_tail]"
    by (metis append.assoc append_Cons append_Nil)+
  show ?thesis
    unfolding e(2)
  proof (rule chain_attach)
    show "chain h (P @ [a, dl_tail])" using assms(1) e(1) by simp
    show "distinct (P @ [a, dl_tail, n])" using assms(2,3) unfolding e(1) by auto
    show "h m \<noteq> None" if "m \<in> set (P @ [a, dl_tail, n])" for m
      using assms(4)[of m] that unfolding e(1) by auto
  qed
qed

lemma dl_add_rep:
  assumes "dl_rep d xs ns"
  shows "dl_holds (dl_add d k p) (add_seq k p xs)"
proof -
  have r: "chain (dl_heap d) (dl_head # ns @ [dl_tail])" "distinct (dl_head # ns @ [dl_tail])"
    "\<And>m. (dl_heap d m \<noteq> None) = (m \<in> set (dl_head # ns @ [dl_tail]))" "length ns = length xs"
    "map (page_of (dl_heap d)) ns = map (Some \<circ> snd) xs" "distinct (map fst xs)"
    "nodesMap d = map_of (zip (map fst xs) ns)" "dl_length d = int (length xs)"
    "\<And>m. m \<in> set ns \<Longrightarrow> m < dl_fresh d" "2 \<le> dl_fresh d"
    using assms by (auto simp: dl_rep_def)
  show ?thesis
  proof (cases "nodesMap d k")
    case None
    let ?n = "dl_fresh d"
    let ?h = "(dl_heap d)(?n \<mapsto> \<lparr>node_page = Some p, node_next = None, node_prev = None\<rparr>)"
    have fresh: "?n \<notin> set (dl_head # ns @ [dl_tail])"
      using r(9,10) by (auto simp: dl_head_def dl_tail_def)
    have k: "k \<notin> fst ` set xs" using dl_rep_dom[OF assms] None by simp
    have "chain ?h (dl_head # ns @ [dl_tail]) = chain (dl_heap d) (dl_head # ns @ [dl_tail])"
      by (rule chain_cong) (use fresh in \<open>auto simp: next_of_def prev_of_def dest: in_set_butlastD in_set_tlD\<close>)
    then have "chain (dl_attach_last ?n ?h) (dl_head # (ns @ [?n]) @ [dl_tail])"
      using r(1-3) fresh by (intro dl_attach_rep) auto
    moreover have "map (page_of ?h) (ns @ [?n]) = map (Some \<circ> snd) (xs @ [(k, p)])"
    proof -
      have "map (page_of ?h) ns = map (page_of (dl_heap d)) ns"
        by (rule map_cong[OF refl]) (use fresh in \<open>auto simp: page_of_upd\<close>)
      then show ?thesis using r(5) by (simp add: page_of_def)
    qed
    moreover have "(nodesMap d)(k \<mapsto> ?n) = map_of (zip (map fst (xs @ [(k, p)])) (ns @ [?n]))"
    proof -
      have "map_of (zip (map fst (xs @ [(k, p)])) (ns @ [?n])) = [k \<mapsto> ?n] ++ nodesMap d"
        using r(4) by (simp add: r(7))
      then show ?thesis using None by (auto simp: fun_eq_iff map_add_def split: option.splits)
    qed
    moreover have add: "dl_add d k p = d\<lparr>dl_heap := dl_attach_last ?n ?h, nodesMap := (nodesMap d)(k \<mapsto> ?n),
        dl_length := dl_length d + 1, dl_fresh := ?n + 1\<rparr>"
      using None by (simp add: dl_add_def Let_def)
    ultimately have "dl_rep (dl_add d k p) (xs @ [(k, p)]) (ns @ [?n])"
      unfolding dl_rep_def add using r(2-4,6,8-10) fresh k by (auto simp: less_Suc_eq)
    moreover have "add_seq k p xs = xs @ [(k, p)]"
      using k map_of_eq_None_iff[of xs k] by (auto simp: add_seq_def without_def rev_image_eqI intro!: filter_True)
    ultimately show ?thesis by (auto simp: dl_holds_def)
  next
    case (Some n)
    obtain X q Y A B where s: "xs = X @ (k, q) # Y" "ns = A @ n # B" "length A = length X" "length B = length Y"
      "without k xs = X @ Y"
      by (rule dl_rep_split[OF assms Some])
    note d = dl_rep_detach[OF assms s(1-4)]
    have "chain (dl_attach_last n (dl_detach n (dl_heap d))) (dl_head # ((A @ B) @ [n]) @ [dl_tail])"
      using d(1-3) r(3) by (intro dl_attach_rep) (auto simp: s(2))
    moreover have "nodesMap d = map_of (zip (map fst ((X @ Y) @ [(k, q)])) ((A @ B) @ [n]))"
    proof -
      have "map_of (zip (map fst (X @ Y)) (A @ B)) = (nodesMap d)(k := None)"
        using zip_middle_map(1)[OF r(6) s(1,3,4), of n] by (simp add: r(7) s(2))
      moreover have "zip (map fst ((X @ Y) @ [(k, q)])) ((A @ B) @ [n]) = zip (map fst (X @ Y)) (A @ B) @ [(k, n)]"
        using s(3,4) by simp
      ultimately have "map_of (zip (map fst ((X @ Y) @ [(k, q)])) ((A @ B) @ [n])) = [k \<mapsto> n] ++ (nodesMap d)(k := None)"
        by (simp only: map_of_append) simp
      then show ?thesis using Some by (auto simp: fun_eq_iff map_add_def split: option.splits)
    qed
    moreover have "map (page_of (dl_heap d)) ((A @ B) @ [n]) = map (Some \<circ> snd) ((X @ Y) @ [(k, q)])"
      using d(4,5) by simp
    moreover have add: "dl_add d k p = d\<lparr>dl_heap := dl_attach_last n (dl_detach n (dl_heap d))\<rparr>"
      using Some by (simp add: dl_add_def)
    moreover have "distinct (map fst ((X @ Y) @ [(k, q)]))" using r(6) by (auto simp: s(1))
    ultimately have "dl_rep (dl_add d k p) ((X @ Y) @ [(k, q)]) ((A @ B) @ [n])"
      unfolding dl_rep_def add using r(2,3,8-10) s(3,4) d(2,3) by (auto simp: s(1,2))
    moreover have "map_of xs k = Some q" by (rule map_of_is_SomeI[OF r(6)]) (simp add: s(1))
    ultimately show ?thesis by (auto simp: dl_holds_def add_seq_def s(5))
  qed
qed

section \<open>Walking the list\<close>

lemma chain_nth:
  "chain h p \<Longrightarrow> Suc i < length p \<Longrightarrow> next_of h (p ! i) = Some (p ! Suc i) \<and> prev_of h (p ! Suc i) = Some (p ! i)"
proof (induction h p arbitrary: i rule: chain.induct)
  case (1 h a b ns)
  then show ?case by (cases i) auto
qed auto

lemma walk_forth:
  assumes "dl_rep d xs ns"
  shows "dl_begin d = (ns @ [dl_tail]) ! 0" "i < length ns \<Longrightarrow> iter_inc d (ns ! i) = (ns @ [dl_tail]) ! Suc i"
    "i < length ns \<Longrightarrow> iter_deref d (ns ! i) = Some (snd (xs ! i))"
proof -
  have c: "chain (dl_heap d) (dl_head # ns @ [dl_tail])" using assms by (simp add: dl_rep_def)
  show "dl_begin d = (ns @ [dl_tail]) ! 0" using chain_nth[OF c, of 0] by (simp add: dl_begin_def)
  show "iter_inc d (ns ! i) = (ns @ [dl_tail]) ! Suc i" if "i < length ns"
    using chain_nth[OF c, of "Suc i"] that by (simp add: iter_inc_def nth_append)
  show "iter_deref d (ns ! i) = Some (snd (xs ! i))" if "i < length ns"
  proof -
    have "map (page_of (dl_heap d)) ns ! i = map (Some \<circ> snd) xs ! i" "length ns = length xs"
      using assms by (simp_all add: dl_rep_def)
    then show ?thesis using that by (simp add: iter_deref_def)
  qed
qed

lemma walk_back:
  assumes "dl_rep d xs ns"
  shows "iter_dec d (dl_end d) = (dl_head # ns) ! length ns" "iter_dec d (dl_begin d) = dl_head"
    "i < length ns \<Longrightarrow> iter_dec d (ns ! i) = (dl_head # ns) ! i"
proof -
  have c: "chain (dl_heap d) (dl_head # ns @ [dl_tail])" using assms by (simp add: dl_rep_def)
  have n: "(dl_head # ns @ [dl_tail]) ! i = (dl_head # ns) ! i" if "i \<le> length ns" for i
    using that by (cases i) (auto simp: nth_append)
  show "iter_dec d (dl_end d) = (dl_head # ns) ! length ns"
    using chain_nth[OF c, of "length ns"] n[of "length ns"] by (simp add: iter_dec_def dl_end_def)
  show "iter_dec d (ns ! i) = (dl_head # ns) ! i" if "i < length ns"
    using chain_nth[OF c, of i] n[of i] that by (simp add: iter_dec_def nth_append)
  show "iter_dec d (dl_begin d) = dl_head"
    using chain_nth[OF c, of 0] by (simp add: iter_dec_def dl_begin_def)
qed

section \<open>Properties\<close>

text \<open>The linked list behaves as a sequence of distinct page numbers with their pages:
  a new list is empty; \<open>add\<close> appends a page, or moves a listed page to the end and keeps
  its pointer; \<open>remove\<close> takes a page out and returns it; \<open>get\<close>, \<open>exists\<close> and \<open>len\<close> look the
  sequence up.\<close>

theorem dllist_refines_sequence:
  assumes "dl_holds d xs"
  shows "dl_holds (dl_add d k p) (add_seq k p xs) \<and> fst (dl_remove d k) = map_of xs k \<and>
    dl_holds (snd (dl_remove d k)) (without k xs) \<and> dl_exists d k = (k \<in> fst ` set xs) \<and>
    dl_len d = int (length xs) \<and> dl_get d k = (if k < 0 then None else map_of xs k)"
proof -
  obtain ns where r: "dl_rep d xs ns" using assms by (auto simp: dl_holds_def)
  have "(case nodesMap d k of None \<Rightarrow> None | Some n \<Rightarrow> page_of (dl_heap d) n) = fst (dl_remove d k)"
    by (simp add: dl_remove_def Let_def split: option.splits)
  then show ?thesis
    using dl_add_rep[OF r] dl_remove_rep[OF r] dl_rep_dom[OF r] r
    by (simp add: dl_exists_def dl_len_def dl_get_def dl_rep_def)
qed

theorem dllist_refines_sequence_witness:
  "dl_holds (dl_add (new_DLList :: nat DLList) 7 70) [(7, 70)] \<and>
   dl_get (new_DLList :: nat DLList) 7 = None"
  using dllist_refines_sequence[OF new_DLList_holds, of 7 "70 :: nat"]
  by (simp add: add_seq_def without_def)

end
