(* ===== verification/PageCache.thy ===== *)
theory PageCache
  imports DLList PageCodec
begin

text \<open>
  The page cache, after \<open>src/include/PageV2.h\<close>, \<open>src/include/PCache.h\<close> and
  \<open>src/src/PCache.cpp\<close>.  A frame is a record, the cache maps page numbers to frames, and the
  unpinned frames are listed in a \<open>DLList\<close> whose page pointers are page numbers: a frame is
  identified by its page number while it is cached.  A failed \<open>assert\<close> ends the program and
  is the value \<open>Assert_failed\<close>.  The lemmas show that the list holds exactly the frames without
  references, and what a call of \<open>put\<close> evicts.
\<close>

section \<open>Frames and results\<close>

record PageV2 =
  page_data :: bytes
  frame_page_num :: u32
  refs_num :: u32
  is_dirty :: bool
  wal_pending :: bool
  need_flushing :: bool

datatype PCacheResult = PC_Success | PC_NoVictim | PC_DirtyFlush | PC_WalPending | PC_RemovingPinnedPage

record PCacheEviction =
  ev_happened :: bool
  ev_page_num :: int
  ev_was_dirty :: bool

record PCachePutResult =
  put_status :: PCacheResult
  put_eviction :: PCacheEviction

datatype cache_fault = Assert_failed

record PCache =
  capacity :: int
  pc_length :: int
  cache_map :: "int \<rightharpoonup> PageV2"
  unpinned_pages :: "int DLList"

definition new_PCache :: "int \<Rightarrow> PCache" where
  "new_PCache cap = \<lparr>capacity = cap, pc_length = 0, cache_map = Map.empty, unpinned_pages = new_DLList\<rparr>"

text \<open>\<open>int page_num = page->page_num\<close>: a page number as a signed 32-bit integer.\<close>

definition page_int :: "u32 \<Rightarrow> int" where
  "page_int n = sint n"

definition pc_get :: "PCache \<Rightarrow> int \<Rightarrow> PageV2 option" where
  "pc_get c num = cache_map c num"

section \<open>Removal\<close>

definition pc_remove :: "PCache \<Rightarrow> int \<Rightarrow> cache_fault + (PCacheResult \<times> PCache)" where
  "pc_remove c num =
     (case cache_map c num of
        None \<Rightarrow> Inr (PC_Success, c)
      | Some page \<Rightarrow>
          if refs_num page > 0 then Inr (PC_RemovingPinnedPage, c)
          else if \<not> dl_exists (unpinned_pages c) num then Inl Assert_failed
          else Inr (PC_Success, c\<lparr>unpinned_pages := snd (dl_remove (unpinned_pages c) num),
                 cache_map := (cache_map c)(num := None), pc_length := pc_length c - 1\<rparr>))"

definition force_remove :: "PCache \<Rightarrow> int \<Rightarrow> cache_fault + PCache" where
  "force_remove c num =
     (case cache_map c num of
        None \<Rightarrow> Inr c
      | Some page \<Rightarrow>
          let finish = (\<lambda>l. c\<lparr>unpinned_pages := l, cache_map := (cache_map c)(num := None),
                          pc_length := pc_length c - 1\<rparr>)
          in if refs_num page = 0
             then (if \<not> dl_exists (unpinned_pages c) num then Inl Assert_failed
                   else Inr (finish (snd (dl_remove (unpinned_pages c) num))))
             else (if dl_exists (unpinned_pages c) num then Inl Assert_failed
                   else Inr (finish (unpinned_pages c))))"

section \<open>Choosing a victim\<close>

text \<open>
  The scan of \<open>put\<close> from the most recently unpinned frame backwards: the first clean frame
  ends it, the first dirty frame is kept for the case that there is none, frames whose
  log record is pending are passed over.  \<open>fuel\<close> bounds the number of nodes visited; the list
  has \<open>dl_len\<close> of them.
\<close>

fun find_victim ::
    "PCache \<Rightarrow> nat \<Rightarrow> nat \<Rightarrow> nat \<Rightarrow> PageV2 option \<Rightarrow> bool \<Rightarrow> (PageV2 option \<times> bool) option" where
  "find_victim c fuel it it_head victim_page found_pending_page =
     (if it = it_head then Some (victim_page, found_pending_page)
      else case fuel of
        0 \<Rightarrow> None
      | Suc fuel \<Rightarrow>
          (case iter_deref (unpinned_pages c) it of
             None \<Rightarrow> None
           | Some n \<Rightarrow>
               (case cache_map c n of
                  None \<Rightarrow> None
                | Some candidate_page \<Rightarrow>
                    if wal_pending candidate_page
                    then find_victim c fuel (iter_dec (unpinned_pages c) it) it_head victim_page True
                    else if \<not> is_dirty candidate_page then Some (Some candidate_page, found_pending_page)
                    else find_victim c fuel (iter_dec (unpinned_pages c) it) it_head
                           (if victim_page = None then Some candidate_page else victim_page)
                           found_pending_page)))"

declare find_victim.simps [simp del]

definition choose_victim :: "PCache \<Rightarrow> (PageV2 option \<times> bool) option" where
  "choose_victim c =
     (let it = iter_dec (unpinned_pages c) (dl_end (unpinned_pages c));
          it_head = iter_dec (unpinned_pages c) (dl_begin (unpinned_pages c))
      in find_victim c (nat (dl_len (unpinned_pages c))) it it_head None False)"

definition no_eviction :: PCacheEviction where
  "no_eviction = \<lparr>ev_happened = False, ev_page_num = -1, ev_was_dirty = False\<rparr>"

text \<open>The end of \<open>put\<close>: the frame enters the cache.\<close>

definition put_store :: "PCache \<Rightarrow> PageV2 \<Rightarrow> PCacheEviction \<Rightarrow> cache_fault + (PCachePutResult \<times> PCache)" where
  "put_store c page ev =
     (let num = page_int (frame_page_num page);
          c = c\<lparr>cache_map := (cache_map c)(num \<mapsto> page), pc_length := pc_length c + 1\<rparr>;
          result = \<lparr>put_status = PC_Success, put_eviction = ev\<rparr>
      in if refs_num page = 0
         then (if dl_exists (unpinned_pages c) num then Inl Assert_failed
               else Inr (result, c\<lparr>unpinned_pages := dl_add (unpinned_pages c) num num\<rparr>))
         else Inr (result, c))"

definition pc_put :: "PCache \<Rightarrow> PageV2 \<Rightarrow> cache_fault + (PCachePutResult \<times> PCache)" where
  "pc_put c page =
     (if cache_map c (page_int (frame_page_num page)) \<noteq> None then Inl Assert_failed
      else if pc_length c \<noteq> capacity c then put_store c page no_eviction
      else if dl_len (unpinned_pages c) = 0
        then Inr (\<lparr>put_status = PC_NoVictim, put_eviction = no_eviction\<rparr>, c)
      else case choose_victim c of
        None \<Rightarrow> Inl Assert_failed
      | Some (None, found_pending_page) \<Rightarrow>
          Inr (\<lparr>put_status = (if found_pending_page then PC_WalPending else PC_NoVictim),
                 put_eviction = no_eviction\<rparr>, c)
      | Some (Some victim_page, found_pending_page) \<Rightarrow>
          let num = page_int (frame_page_num victim_page) in
          if is_dirty victim_page \<and> need_flushing victim_page
          then Inr (\<lparr>put_status = PC_DirtyFlush,
                 put_eviction = \<lparr>ev_happened = False, ev_page_num = num, ev_was_dirty = True\<rparr>\<rparr>, c)
          else res_bind (pc_remove c num) (\<lambda>(remove_result, c).
            if remove_result \<noteq> PC_Success then Inl Assert_failed
            else put_store c page
                   \<lparr>ev_happened = True, ev_page_num = num, ev_was_dirty = is_dirty victim_page\<rparr>))"

section \<open>Pinning\<close>

definition pin_page :: "PCache \<Rightarrow> int \<Rightarrow> cache_fault + PCache" where
  "pin_page c num =
     (case cache_map c num of
        None \<Rightarrow> Inl Assert_failed
      | Some page \<Rightarrow>
          if \<not> refs_num page > 0 then Inl Assert_failed
          else if refs_num page = 1 \<and> dl_exists (unpinned_pages c) num
            then Inr (c\<lparr>unpinned_pages := snd (dl_remove (unpinned_pages c) num)\<rparr>)
          else if refs_num page = 1 \<or> \<not> dl_exists (unpinned_pages c) num then Inr c
          else Inl Assert_failed)"

definition unpin_page :: "PCache \<Rightarrow> int \<Rightarrow> cache_fault + PCache" where
  "unpin_page c num =
     (case cache_map c num of
        None \<Rightarrow> Inl Assert_failed
      | Some page \<Rightarrow>
          if refs_num page \<noteq> 0 then Inl Assert_failed
          else if dl_exists (unpinned_pages c) num then Inl Assert_failed
          else Inr (c\<lparr>unpinned_pages := dl_add (unpinned_pages c) num num\<rparr>))"

definition pc_len :: "PCache \<Rightarrow> int" where
  "pc_len c = pc_length c"

definition unpinned_len :: "PCache \<Rightarrow> int" where
  "unpinned_len c = dl_len (unpinned_pages c)"

section \<open>The cache invariant\<close>

definition cache_ok :: "PCache \<Rightarrow> (int \<times> int) list \<Rightarrow> bool" where
  "cache_ok c us = (dl_holds (unpinned_pages c) us \<and> (\<forall>x\<in>set us. snd x = fst x) \<and>
     fst ` set us = {n. \<exists>pg. cache_map c n = Some pg \<and> refs_num pg = 0} \<and>
     (\<forall>n pg. cache_map c n = Some pg \<longrightarrow> page_int (frame_page_num pg) = n) \<and>
     finite (dom (cache_map c)) \<and> pc_length c = int (card (dom (cache_map c))) \<and> pc_length c \<le> capacity c)"

text \<open>The unpinned frames, the most recently unpinned one first.\<close>

definition recent_frames :: "PCache \<Rightarrow> (int \<times> int) list \<Rightarrow> PageV2 list" where
  "recent_frames c us = rev (map (\<lambda>x. the (cache_map c (fst x))) us)"

text \<open>The reference choice: the most recently unpinned clean frame, else the most recently
  unpinned dirty one; frames with a pending log record never.\<close>

definition victim_of :: "PageV2 list \<Rightarrow> PageV2 option" where
  "victim_of fs =
     (let free = filter (\<lambda>f. \<not> wal_pending f) fs
      in case filter (\<lambda>f. \<not> is_dirty f) free of
           f # _ \<Rightarrow> Some f
         | [] \<Rightarrow> (case free of f # _ \<Rightarrow> Some f | [] \<Rightarrow> None))"

fun scan_frames :: "PageV2 list \<Rightarrow> PageV2 option \<Rightarrow> bool \<Rightarrow> PageV2 option \<times> bool" where
  "scan_frames [] v p = (v, p)"
| "scan_frames (f # fs) v p =
     (if wal_pending f then scan_frames fs v True
      else if \<not> is_dirty f then (Some f, p)
      else scan_frames fs (if v = None then Some f else v) p)"

lemma scan_frames_fst:
  "fst (scan_frames fs v p) =
     (case filter (\<lambda>f. \<not> wal_pending f \<and> \<not> is_dirty f) fs of f # _ \<Rightarrow> Some f
      | [] \<Rightarrow> (case v of Some f \<Rightarrow> Some f | None \<Rightarrow> (case filter (\<lambda>f. \<not> wal_pending f) fs of f # _ \<Rightarrow> Some f | [] \<Rightarrow> None)))"
  by (induction fs v p rule: scan_frames.induct) (auto split: list.splits option.splits)

lemma scan_frames_victim: "fst (scan_frames fs None False) = victim_of fs"
  by (simp add: scan_frames_fst victim_of_def Let_def conj_commute split: list.splits)

lemma scan_frames_pending:
  "fst (scan_frames fs None p) = None \<Longrightarrow> snd (scan_frames fs None p) = (p \<or> fs \<noteq> [])"
proof (induction fs arbitrary: p)
  case (Cons f fs)
  then show ?case by (cases "wal_pending f") (auto simp: scan_frames_fst split: list.splits if_splits)
qed simp

lemma find_victim_scan:
  assumes "dl_rep (unpinned_pages c) us ns" "\<forall>x\<in>set us. snd x = fst x \<and> cache_map c (fst x) \<noteq> None"
    and "i \<le> length us" "i \<le> fuel"
  shows "find_victim c fuel ((dl_head # ns) ! i) dl_head v p =
    Some (scan_frames (rev (take i (map (\<lambda>x. the (cache_map c (fst x))) us))) v p)"
  using assms(3,4)
proof (induction i arbitrary: fuel v p)
  case 0
  then show ?case by (simp add: find_victim.simps)
next
  case (Suc i)
  have len: "length ns = length us" and dist: "distinct (dl_head # ns @ [dl_tail])"
    using assms(1) by (auto simp: dl_rep_def)
  obtain fuel' where fuel: "fuel = Suc fuel'" using Suc.prems by (cases fuel) auto
  have i: "i < length ns" "ns ! i \<noteq> dl_head" using Suc.prems len dist by (auto simp: nth_eq_iff_index_eq) (metis Suc_le_lessD nth_mem)
  obtain f where f: "cache_map c (fst (us ! i)) = Some f" "snd (us ! i) = fst (us ! i)"
    using assms(2) Suc.prems by (metis Suc_le_lessD not_None_eq nth_mem)
  have "find_victim c fuel (ns ! i) dl_head v p =
    (if wal_pending f then find_victim c fuel' ((dl_head # ns) ! i) dl_head v True
     else if \<not> is_dirty f then Some (Some f, p)
     else find_victim c fuel' ((dl_head # ns) ! i) dl_head (if v = None then Some f else v) p)"
    using i f walk_forth(3)[OF assms(1) i(1)] walk_back(3)[OF assms(1) i(1)]
    by (subst find_victim.simps) (simp add: fuel)
  moreover have "take (Suc i) (map (\<lambda>x. the (cache_map c (fst x))) us) =
    take i (map (\<lambda>x. the (cache_map c (fst x))) us) @ [f]"
    using i len f by (simp add: take_Suc_conv_app_nth)
  ultimately show ?case using Suc.IH[of fuel'] Suc.prems fuel by simp
qed

lemma choose_victim_eq:
  assumes "cache_ok c us"
  shows "choose_victim c = Some (scan_frames (recent_frames c us) None False)"
proof -
  obtain ns where r: "dl_rep (unpinned_pages c) us ns"
    using assms by (auto simp: cache_ok_def dl_holds_def)
  have l: "dl_len (unpinned_pages c) = int (length us)" "length ns = length us"
    using r by (auto simp: dl_rep_def dl_len_def)
  have "\<forall>x\<in>set us. snd x = fst x \<and> cache_map c (fst x) \<noteq> None"
    using assms by (auto simp: cache_ok_def)
  from find_victim_scan[OF r this, of "length us" "length us"] show ?thesis
    by (simp add: choose_victim_def Let_def walk_back(1,2)[OF r] l recent_frames_def)
qed

lemma without_simps [simp]:
  "fst ` set (without k xs) = fst ` set xs - {k}" "x \<in> set (without k xs) \<Longrightarrow> x \<in> set xs"
  by (auto simp: without_def)

lemma dl_ops:
  assumes "dl_holds d xs"
  shows "dl_holds (snd (dl_remove d k)) (without k xs)" "dl_exists d k = (k \<in> fst ` set xs)"
    "dl_len d = int (length xs)" "k \<notin> fst ` set xs \<Longrightarrow> dl_holds (dl_add d k p) (xs @ [(k, p)])"
proof -
  obtain ns where r: "dl_rep d xs ns" using assms by (auto simp: dl_holds_def)
  show "dl_holds (snd (dl_remove d k)) (without k xs)" by (rule dl_remove_rep(2)[OF r])
  show "dl_exists d k = (k \<in> fst ` set xs)" using dl_rep_dom[OF r, of k] by (auto simp: dl_exists_def)
  show "dl_len d = int (length xs)" using r by (simp add: dl_len_def dl_rep_def)
  show "dl_holds (dl_add d k p) (xs @ [(k, p)])" if k: "k \<notin> fst ` set xs"
  proof -
    have "map_of xs k = None" using k by (simp add: map_of_eq_None_iff)
    moreover have "without k xs = xs" unfolding without_def using k by (intro filter_True) (auto simp: rev_image_eqI)
    ultimately show ?thesis using dl_add_rep[OF r, of k p] by (simp add: add_seq_def)
  qed
qed

lemma cache_okD:
  assumes "cache_ok c us"
  shows "dl_holds (unpinned_pages c) us" "(n \<in> fst ` set us) = (\<exists>pg. cache_map c n = Some pg \<and> refs_num pg = 0)"
    "cache_map c n = Some pg \<Longrightarrow> page_int (frame_page_num pg) = n"
  using assms by (auto simp: cache_ok_def)

lemma pc_remove_ok:
  assumes "cache_ok c us" "cache_map c n = Some pg" "refs_num pg = 0"
  shows "\<exists>c'. pc_remove c n = Inr (PC_Success, c') \<and> cache_ok c' (without n us) \<and>
    cache_map c' = (cache_map c)(n := None) \<and> capacity c' = capacity c \<and> pc_length c' = pc_length c - 1"
proof -
  have n: "n \<in> fst ` set us" using cache_okD(2)[OF assms(1)] assms(2,3) by blast
  let ?c = "c\<lparr>unpinned_pages := snd (dl_remove (unpinned_pages c) n), cache_map := (cache_map c)(n := None),
     pc_length := pc_length c - 1\<rparr>"
  have "pc_remove c n = Inr (PC_Success, ?c)"
    using assms(2,3) n dl_ops(2)[OF cache_okD(1)[OF assms(1)]] by (simp add: pc_remove_def)
  moreover have "cache_ok ?c (without n us)"
  proof -
    have "card (dom (cache_map c) - {n}) = card (dom (cache_map c)) - 1" "0 < card (dom (cache_map c))"
      using assms(1) domI[of "cache_map c", OF assms(2)] card_Diff_singleton[of n "dom (cache_map c)"]
      by (auto simp: cache_ok_def card_gt_0_iff)
    then show ?thesis
      using assms(1) dl_ops(1)[OF cache_okD(1)[OF assms(1)], of n]
      unfolding cache_ok_def by (auto simp: of_nat_diff)
  qed
  ultimately show ?thesis by simp
qed

lemma put_store_ok:
  assumes "cache_ok c us" "cache_map c (page_int (frame_page_num page)) = None" "pc_length c < capacity c"
  shows "\<exists>c' us'. put_store c page ev = Inr (\<lparr>put_status = PC_Success, put_eviction = ev\<rparr>, c') \<and>
    cache_ok c' us' \<and> cache_map c' = (cache_map c)(page_int (frame_page_num page) \<mapsto> page) \<and> capacity c' = capacity c"
proof -
  let ?n = "page_int (frame_page_num page)"
  let ?m = "(cache_map c)(?n \<mapsto> page)"
  have n: "?n \<notin> fst ` set us" using cache_okD(2)[OF assms(1), of ?n] assms(2) by auto
  have f: "finite (dom (cache_map c))" "card (insert ?n (dom (cache_map c))) = Suc (card (dom (cache_map c)))"
    using assms(1,2) by (auto simp: cache_ok_def card_insert_if)
  show ?thesis
  proof (cases "refs_num page = 0")
    case True
    let ?c = "c\<lparr>cache_map := ?m, pc_length := pc_length c + 1, unpinned_pages := dl_add (unpinned_pages c) ?n ?n\<rparr>"
    have "cache_ok ?c (us @ [(?n, ?n)])"
      using assms f True n dl_ops(4)[OF cache_okD(1)[OF assms(1)] n, of ?n]
      unfolding cache_ok_def by (auto simp: image_Un)
    moreover have "put_store c page ev = Inr (\<lparr>put_status = PC_Success, put_eviction = ev\<rparr>, ?c)"
      using True n dl_ops(2)[OF cache_okD(1)[OF assms(1)], of ?n] by (simp add: put_store_def Let_def)
    ultimately show ?thesis by auto
  next
    case False
    let ?c = "c\<lparr>cache_map := ?m, pc_length := pc_length c + 1\<rparr>"
    have "cache_ok ?c us"
      using assms f False n unfolding cache_ok_def by (auto split: if_splits)
    moreover have "put_store c page ev = Inr (\<lparr>put_status = PC_Success, put_eviction = ev\<rparr>, ?c)"
      using False by (simp add: put_store_def Let_def)
    ultimately show ?thesis by auto
  qed
qed

lemma victim_of_member:
  "victim_of fs = Some f \<Longrightarrow> f \<in> set fs \<and> \<not> wal_pending f"
  by (auto simp: victim_of_def Let_def filter_eq_Cons_iff split: list.splits)

lemma recent_frames_unpinned:
  assumes "cache_ok c us" "f \<in> set (recent_frames c us)"
  shows "refs_num f = 0" "cache_map c (page_int (frame_page_num f)) = Some f"
proof -
  obtain x where x: "x \<in> set us" "f = the (cache_map c (fst x))"
    using assms(2) by (auto simp: recent_frames_def)
  then obtain pg where pg: "cache_map c (fst x) = Some pg" "refs_num pg = 0"
    using cache_okD(2)[OF assms(1), of "fst x"] by auto
  with x cache_okD(3)[OF assms(1) pg(1)] show "refs_num f = 0" "cache_map c (page_int (frame_page_num f)) = Some f"
    by auto
qed

text \<open>The frame changes its callers make: other fields than the references, and the
  references together with \<open>pin_page\<close> and \<open>unpin_page\<close>.\<close>

definition set_frame :: "PCache \<Rightarrow> int \<Rightarrow> PageV2 \<Rightarrow> PCache" where
  "set_frame c n pg = c\<lparr>cache_map := (cache_map c)(n \<mapsto> pg)\<rparr>"

lemma set_frame_simps [simp]:
  "cache_map (set_frame c n pg) = (cache_map c)(n \<mapsto> pg)" "unpinned_pages (set_frame c n pg) = unpinned_pages c"
  "capacity (set_frame c n pg) = capacity c" "pc_length (set_frame c n pg) = pc_length c"
  by (simp_all add: set_frame_def)

lemma set_frame_ok:
  assumes "cache_ok c us" "cache_map c n = Some pg" "(refs_num pg' = 0) = (refs_num pg = 0)"
    and "frame_page_num pg' = frame_page_num pg"
  shows "cache_ok (set_frame c n pg') us"
proof -
  have "insert n (dom (cache_map c)) = dom (cache_map c)" using assms(2) by auto
  moreover have "{m. \<exists>p. ((cache_map c)(n \<mapsto> pg')) m = Some p \<and> refs_num p = 0} =
    {m. \<exists>p. cache_map c m = Some p \<and> refs_num p = 0}"
    using assms(2,3) by auto
  ultimately show ?thesis
    using assms(1) cache_okD(3)[OF assms(1,2)] assms(4) unfolding cache_ok_def set_frame_simps dom_fun_upd
    by auto
qed

lemma pin_page_ok:
  assumes "cache_ok c us" "cache_map c n = Some pg" "refs_num pg = 0" "refs_num pg' = 1"
    and "frame_page_num pg' = frame_page_num pg"
  shows "\<exists>c' us'. pin_page (set_frame c n pg') n = Inr c' \<and> cache_ok c' us' \<and>
    cache_map c' = (cache_map c)(n \<mapsto> pg') \<and> capacity c' = capacity c"
proof -
  let ?c = "(set_frame c n pg')\<lparr>unpinned_pages := snd (dl_remove (unpinned_pages c) n)\<rparr>"
  have n: "n \<in> fst ` set us" using cache_okD(2)[OF assms(1)] assms(2,3) by blast
  have "pin_page (set_frame c n pg') n = Inr ?c"
    using assms(4) n dl_ops(2)[OF cache_okD(1)[OF assms(1)]] by (simp add: pin_page_def)
  moreover have "cache_ok ?c (without n us)"
  proof -
    have "insert n (dom (cache_map c)) = dom (cache_map c)" using assms(2) by auto
    moreover have "{m. \<exists>p. ((cache_map c)(n \<mapsto> pg')) m = Some p \<and> refs_num p = 0} =
      {m. \<exists>p. cache_map c m = Some p \<and> refs_num p = 0} - {n}"
      using assms(4) by auto
    ultimately show ?thesis
      using assms(1) dl_ops(1)[OF cache_okD(1)[OF assms(1)], of n] cache_okD(3)[OF assms(1,2)] assms(5)
      unfolding cache_ok_def by (auto simp: set_frame_def)
  qed
  ultimately show ?thesis by auto
qed

lemma unpin_page_ok:
  assumes "cache_ok c us" "cache_map c n = Some pg" "refs_num pg \<noteq> 0" "refs_num pg' = 0"
    and "frame_page_num pg' = frame_page_num pg"
  shows "\<exists>c' us'. unpin_page (set_frame c n pg') n = Inr c' \<and> cache_ok c' us' \<and>
    cache_map c' = (cache_map c)(n \<mapsto> pg') \<and> capacity c' = capacity c"
proof -
  let ?c = "(set_frame c n pg')\<lparr>unpinned_pages := dl_add (unpinned_pages c) n n\<rparr>"
  have n: "n \<notin> fst ` set us" using cache_okD(2)[OF assms(1), of n] assms(2,3) by auto
  have "unpin_page (set_frame c n pg') n = Inr ?c"
    using assms(4) n dl_ops(2)[OF cache_okD(1)[OF assms(1)]] by (simp add: unpin_page_def)
  moreover have "cache_ok ?c (us @ [(n, n)])"
  proof -
    have "insert n (dom (cache_map c)) = dom (cache_map c)" using assms(2) by auto
    moreover have "{m. \<exists>p. ((cache_map c)(n \<mapsto> pg')) m = Some p \<and> refs_num p = 0} =
      insert n {m. \<exists>p. cache_map c m = Some p \<and> refs_num p = 0}"
      using assms(4) by auto
    ultimately show ?thesis
      using assms(1) dl_ops(4)[OF cache_okD(1)[OF assms(1)] n, of n] cache_okD(3)[OF assms(1,2)] assms(5)
      unfolding cache_ok_def by (auto simp: set_frame_def)
  qed
  ultimately show ?thesis by auto
qed

section \<open>Properties\<close>

text \<open>What \<open>put\<close> should do, on the frames in order of recency: status, frame to evict or to
  flush, and the frames cached afterwards.\<close>

definition put_outcome ::
    "PCache \<Rightarrow> (int \<times> int) list \<Rightarrow> PageV2 \<Rightarrow> PCacheResult \<times> PageV2 option \<times> (int \<rightharpoonup> PageV2)" where
  "put_outcome c us page =
     (let m = cache_map c; n = page_int (frame_page_num page) in
      if pc_length c < capacity c then (PC_Success, None, m(n \<mapsto> page))
      else case victim_of (recent_frames c us) of
        None \<Rightarrow> (if us = [] then PC_NoVictim else PC_WalPending, None, m)
      | Some f \<Rightarrow>
          if is_dirty f \<and> need_flushing f then (PC_DirtyFlush, Some f, m)
          else (PC_Success, Some f, (m(page_int (frame_page_num f) := None))(n \<mapsto> page)))"

lemma pc_put_outcome:
  assumes "cache_ok c us" "cache_map c (page_int (frame_page_num page)) = None"
  shows "\<exists>r c' us'. pc_put c page = Inr (r, c') \<and> cache_ok c' us' \<and> capacity c' = capacity c \<and>
    (case put_outcome c us page of (st, victim, m) \<Rightarrow> put_status r = st \<and> cache_map c' = m \<and>
       ev_happened (put_eviction r) = (st = PC_Success \<and> victim \<noteq> None) \<and>
       ev_page_num (put_eviction r) = (case victim of None \<Rightarrow> -1 | Some f \<Rightarrow> page_int (frame_page_num f)) \<and>
       ev_was_dirty (put_eviction r) = (case victim of None \<Rightarrow> False | Some f \<Rightarrow> is_dirty f))"
proof (cases "pc_length c = capacity c")
  case False
  with assms(1) have "pc_length c < capacity c" by (auto simp: cache_ok_def)
  with put_store_ok[OF assms this, of no_eviction] False assms(2) show ?thesis
    by (auto simp: pc_put_def put_outcome_def Let_def no_eviction_def)
next
  case full: True
  have len: "dl_len (unpinned_pages c) = int (length us)" by (rule dl_ops(3)[OF cache_okD(1)[OF assms(1)]])
  obtain v p where vp: "scan_frames (recent_frames c us) None False = (v, p)" by fastforce
  have v: "v = victim_of (recent_frames c us)" using scan_frames_victim[of "recent_frames c us"] vp by simp
  have choose: "choose_victim c = Some (v, p)" using choose_victim_eq[OF assms(1)] vp by simp
  show ?thesis
  proof (cases v)
    case None
    have "p = (us \<noteq> [])"
      using scan_frames_pending[of "recent_frames c us" False] vp None by (simp add: recent_frames_def)
    then have "pc_put c page = Inr (\<lparr>put_status = (if us = [] then PC_NoVictim else PC_WalPending),
        put_eviction = no_eviction\<rparr>, c)"
      using full assms(2) None choose len by (simp add: pc_put_def)
    moreover have "put_outcome c us page = (if us = [] then PC_NoVictim else PC_WalPending, None, cache_map c)"
      using full None v by (simp add: put_outcome_def Let_def)
    ultimately show ?thesis using assms(1) by (auto simp: no_eviction_def)
  next
    case (Some f)
    have f: "refs_num f = 0" "cache_map c (page_int (frame_page_num f)) = Some f" "us \<noteq> []"
      using victim_of_member[of "recent_frames c us" f] v Some recent_frames_unpinned[OF assms(1), of f]
      by (auto simp: recent_frames_def)
    show ?thesis
    proof (cases "is_dirty f \<and> need_flushing f")
      case True
      then show ?thesis
        using full assms f Some v choose len by (auto simp: pc_put_def put_outcome_def Let_def)
    next
      case False
      obtain c1 where c1: "pc_remove c (page_int (frame_page_num f)) = Inr (PC_Success, c1)"
        "cache_ok c1 (without (page_int (frame_page_num f)) us)" "capacity c1 = capacity c" "pc_length c1 = pc_length c - 1"
        "cache_map c1 = (cache_map c)(page_int (frame_page_num f) := None)"
        using pc_remove_ok[OF assms(1) f(2,1)] by blast
      have "cache_map c1 (page_int (frame_page_num page)) = None" "pc_length c1 < capacity c1"
        using c1 assms(2) full by auto
      from put_store_ok[OF c1(2) this, of "\<lparr>ev_happened = True, ev_page_num = page_int (frame_page_num f),
          ev_was_dirty = is_dirty f\<rparr>"] c1 full assms(2) f(3) Some v choose len False show ?thesis
        by (auto simp: pc_put_def put_outcome_def Let_def)
    qed
  qed
qed


definition sample_frame :: "u32 \<Rightarrow> PageV2" where
  "sample_frame n = \<lparr>page_data = page_initialize n BTreeLeaf, frame_page_num = n, refs_num = 0, is_dirty = False,
     wal_pending = False, need_flushing = False\<rparr>"

lemma new_PCache_ok: "0 \<le> cap \<Longrightarrow> cache_ok (new_PCache cap) []"
  using new_DLList_holds by (simp add: cache_ok_def new_PCache_def)


end
