(* ===== verification/Pager.thy ===== *)
theory Pager
  imports PageCache PageLatch WalDurability
begin

text \<open>
  The pager, after \<open>src/include/Pager.h\<close> and \<open>src/src/Pager.cpp\<close>: the database file, the page
  cache in front of it, the header in memory and the freelist.  A page pointer is a page number;
  using a pointer whose frame has left the cache is the crash \<open>Dangling_page\<close>, a failed
  \<open>assert\<close> is \<open>Assert_crash\<close>, an exception that leaves the pager is \<open>Thrown\<close>.  What the system
  calls do is the argument \<open>io\<close>, the latch the latch manager hands out for a page is \<open>grant\<close>, and
  the order in which \<open>std::unordered_set\<close> is walked is an argument of \<open>flush_wal_pages\<close>.  The
  mutex sections of one operation follow each other without another operation in between.
\<close>

section \<open>Types\<close>

datatype PagerResult =
    Pg_Success
  | Pg_DatabaseNotOpen
  | Pg_OpenDbFailed
  | Pg_DbReadFailed
  | Pg_PageCorrupt
  | Pg_InvalidPageKind
  | Pg_PageOutOfRange
  | Pg_DbHeaderCorrupt
  | Pg_NoEvictablePage
  | Pg_CacheSpillFailed
  | Pg_DbWriteFailed
  | Pg_DbFlushFailed
  | Pg_Busy
  | Pg_PageNotCached
  | Pg_EmptyBTree
  | Pg_LogNotAttached

datatype pager_crash = Assert_crash | Dangling_page | Thrown exn

record PagerAllocateResult =
  alloc_status :: PagerResult
  alloc_page_num :: int
  alloc_effects :: "PageEffect list"

record PagerMutationResult =
  mut_status :: PagerResult
  mut_effects :: "PageEffect list"

record PagerGetRootResult =
  root_status :: PagerResult
  root_page_num :: u64

text \<open>\<open>db_file\<close> is the file under the database name, if there is one.\<close>

record Pager =
  wal_dirty_pages :: "u32 set"
  db_file :: "disk_file option"
  pCache :: PCache
  pager_log :: "Log option"
  pager_is_open :: bool
  db_header :: DBHeader

text \<open>What the system calls do: which reads succeed, how many bytes of a page write arrive if it
  fails, and whether the other calls succeed.\<close>

record pager_io =
  io_read :: "int \<Rightarrow> bool"
  io_write :: "u32 \<Rightarrow> nat option"
  io_sync :: bool
  io_stat :: bool
  io_create :: bool
  io_open :: bool
  io_close :: bool

type_synonym latches = "nat held_latches"

definition lift_cache :: "cache_fault + 'a \<Rightarrow> pager_crash + 'a" where
  "lift_cache r = (case r of Inl _ \<Rightarrow> Inl Assert_crash | Inr x \<Rightarrow> Inr x)"

definition lift_exn :: "'a res \<Rightarrow> pager_crash + 'a" where
  "lift_exn r = (case r of Inl e \<Rightarrow> Inl (Thrown e) | Inr x \<Rightarrow> Inr x)"

text \<open>\<open>if (result.status != PagerResult::Success) return result;\<close>\<close>

definition on_success ::
    "pager_crash + (PagerResult \<times> 's) \<Rightarrow> (PagerResult \<Rightarrow> 's \<Rightarrow> 'r) \<Rightarrow> ('s \<Rightarrow> pager_crash + 'r) \<Rightarrow> pager_crash + 'r" where
  "on_success m failed f = res_bind m (\<lambda>(st, s). if st \<noteq> Pg_Success then Inr (failed st s) else f s)"

definition DB_HEADER_PAGE_NUM :: int where "DB_HEADER_PAGE_NUM = 0"
definition FREELIST_NULL_PAGE_NUM :: u32 where "FREELIST_NULL_PAGE_NUM = 0"

definition new_DBHeader :: DBHeader where
  "new_DBHeader = \<lparr>magic_header = DBHeader_magic_string, file_change_counter = 0, db_page_count = 0,
     freelist_head_page_num = 0, freelist_page_count = 0, btree_root_page_num = 0\<rparr>"

definition new_Pager :: Pager where
  "new_Pager = \<lparr>wal_dirty_pages = {}, db_file = None, pCache = new_PCache 64, pager_log = None,
     pager_is_open = False, db_header = new_DBHeader\<rparr>"

definition attach_log :: "Pager \<Rightarrow> Log \<Rightarrow> Pager" where
  "attach_log pg lg = pg\<lparr>pager_log := Some lg\<rparr>"

section \<open>Frames\<close>

definition make_page :: "u32 \<Rightarrow> V2PageKind \<Rightarrow> PageV2" where
  "make_page num kind =
     \<lparr>page_data = page_initialize num kind, frame_page_num = num, refs_num = 0, is_dirty = False,
      wal_pending = False, need_flushing = False\<rparr>"

definition page_effect :: "PageEffectKind \<Rightarrow> PageV2 \<Rightarrow> PageEffect" where
  "page_effect kind page = \<lparr>effect_kind = kind, effect_page_num = frame_page_num page, after_image = page_data page\<rparr>"

definition deref :: "Pager \<Rightarrow> int \<Rightarrow> pager_crash + PageV2" where
  "deref pg num = (case pc_get (pCache pg) num of None \<Rightarrow> Inl Dangling_page | Some page \<Rightarrow> Inr page)"

definition put_frame :: "Pager \<Rightarrow> int \<Rightarrow> PageV2 \<Rightarrow> Pager" where
  "put_frame pg num page = pg\<lparr>pCache := set_frame (pCache pg) num page\<rparr>"

definition read_freelist_links :: "bytes \<Rightarrow> u32 \<times> u32" where
  "read_freelist_links page =
     (get_u32_be page V2_PAGE_HEADER_SIZE, get_u32_be page (V2_PAGE_HEADER_SIZE + 4))"

definition write_freelist_links :: "bytes \<Rightarrow> u32 \<Rightarrow> u32 \<Rightarrow> bytes" where
  "write_freelist_links page next prev =
     (let page = set_page_kind page Freelist;
          page = put_u32_be page V2_PAGE_HEADER_SIZE next
      in put_u32_be page (V2_PAGE_HEADER_SIZE + 4) prev)"

definition sync_db_header_to_cached_header_page :: "Pager \<Rightarrow> pager_crash + Pager" where
  "sync_db_header_to_cached_header_page pg =
     (case pc_get (pCache pg) DB_HEADER_PAGE_NUM of
        None \<Rightarrow> Inl Assert_crash
      | Some page \<Rightarrow>
          Inr (put_frame pg DB_HEADER_PAGE_NUM
            (page\<lparr>page_data := update_checksum (serialize_DBHeader (db_header pg) (page_data page) V2_PAGE_HEADER_SIZE)\<rparr>)))"

section \<open>Reading and flushing pages\<close>

definition read_page_from_disk :: "pager_io \<Rightarrow> Pager \<Rightarrow> int \<Rightarrow> PagerResult + PageV2" where
  "read_page_from_disk io pg num =
     (if num < 0 \<or> num \<ge> page_int (db_page_count (db_header pg)) then Inl Pg_PageOutOfRange
      else case db_file pg of
        None \<Rightarrow> Inl Pg_DbReadFailed
      | Some f \<Rightarrow>
          (case (if io_read io num then read_exact_at f V2_PAGE_SIZE (nat num * V2_PAGE_SIZE) else Inl System_error) of
             Inl _ \<Rightarrow> Inl Pg_DbReadFailed
           | Inr data \<Rightarrow>
               if page_validate data \<noteq> PageSuccess \<or> page_num data \<noteq> word_of_int num then Inl Pg_PageCorrupt
               else if (num = DB_HEADER_PAGE_NUM) \<noteq> (page_kind data = DatabaseMetadata) then Inl Pg_PageCorrupt
               else Inr \<lparr>page_data = data, frame_page_num = word_of_int num, refs_num = 0, is_dirty = False,
                         wal_pending = False, need_flushing = False\<rparr>))"

text \<open>The part of \<open>flush_wal_page\<close> inside its \<open>try\<close> block and behind it.\<close>

definition write_wal_page :: "pager_io \<Rightarrow> Pager \<Rightarrow> u32 \<Rightarrow> PageV2 \<Rightarrow> disk_file \<Rightarrow> Log \<Rightarrow> PagerResult \<times> Pager" where
  "write_wal_page io pg num page f lg =
     (case log_sync_through lg (page_lsn (page_data page)) of
        Inl _ \<Rightarrow> (Pg_DbWriteFailed, pg)
      | Inr lg \<Rightarrow>
          let page = page\<lparr>page_data := update_checksum (page_data page)\<rparr>;
              pg = (put_frame pg (page_int num) page)\<lparr>pager_log := Some lg\<rparr>
          in (case write_exact_at (io_write io num) f (page_data page) (unat num * V2_PAGE_SIZE) of
               (Inl _, f) \<Rightarrow> (Pg_DbWriteFailed, pg\<lparr>db_file := Some f\<rparr>)
             | (Inr _, f) \<Rightarrow>
                 (Pg_Success, (put_frame pg (page_int num) (page\<lparr>is_dirty := False, need_flushing := False\<rparr>))
                    \<lparr>db_file := Some f, wal_dirty_pages := wal_dirty_pages pg - {num}\<rparr>)))"

definition flush_wal_page :: "pager_io \<Rightarrow> Pager \<Rightarrow> u32 \<Rightarrow> PagerResult \<times> Pager" where
  "flush_wal_page io pg num =
     (case pc_get (pCache pg) (page_int num) of
        None \<Rightarrow> (Pg_Success, pg\<lparr>wal_dirty_pages := wal_dirty_pages pg - {num}\<rparr>)
      | Some page \<Rightarrow>
          if wal_pending page then (Pg_CacheSpillFailed, pg)
          else if \<not> is_dirty page
          then (Pg_Success, (put_frame pg (page_int num) (page\<lparr>need_flushing := False\<rparr>))
                  \<lparr>wal_dirty_pages := wal_dirty_pages pg - {num}\<rparr>)
          else (case pager_log pg of
                  None \<Rightarrow> (Pg_CacheSpillFailed, pg)
                | Some lg \<Rightarrow>
                    if page_lsn (page_data page) = 0 then (Pg_CacheSpillFailed, pg)
                    else (case db_file pg of
                            None \<Rightarrow> (Pg_DbWriteFailed, pg)
                          | Some f \<Rightarrow> write_wal_page io pg num page f lg)))"

definition handle_cache_eviction :: "Pager \<Rightarrow> PCacheEviction \<Rightarrow> Pager" where
  "handle_cache_eviction pg ev =
     (if \<not> ev_happened ev \<or> \<not> ev_was_dirty ev then pg
      else pg\<lparr>wal_dirty_pages := wal_dirty_pages pg - {word_of_int (ev_page_num ev)}\<rparr>)"

definition put_failure :: "PCacheResult \<Rightarrow> PagerResult" where
  "put_failure st = (if st = PC_NoVictim \<or> st = PC_WalPending then Pg_NoEvictablePage else Pg_CacheSpillFailed)"

definition cache_put :: "pager_io \<Rightarrow> Pager \<Rightarrow> PageV2 \<Rightarrow> pager_crash + (PagerResult \<times> Pager)" where
  "cache_put io pg page =
     res_bind (lift_cache (pc_put (pCache pg) page)) (\<lambda>(r, c).
       let pg = pg\<lparr>pCache := c\<rparr> in
       if put_status r = PC_Success then Inr (Pg_Success, handle_cache_eviction pg (put_eviction r))
       else if put_status r = PC_DirtyFlush then
         (case flush_wal_page io pg (word_of_int (ev_page_num (put_eviction r))) of (flush_result, pg) \<Rightarrow>
            if flush_result \<noteq> Pg_Success then Inr (flush_result, pg)
            else res_bind (lift_cache (pc_put (pCache pg) page)) (\<lambda>(r, c).
              let pg = pg\<lparr>pCache := c\<rparr> in
              if put_status r = PC_Success then Inr (Pg_Success, handle_cache_eviction pg (put_eviction r))
              else Inr (put_failure (put_status r), pg)))
       else Inr (put_failure (put_status r), pg))"

definition get_or_load_page :: "pager_io \<Rightarrow> Pager \<Rightarrow> int \<Rightarrow> pager_crash + (PagerResult \<times> Pager)" where
  "get_or_load_page io pg num =
     (if pc_get (pCache pg) num \<noteq> None then Inr (Pg_Success, pg)
      else case read_page_from_disk io pg num of
        Inl st \<Rightarrow> Inr (st, pg)
      | Inr page \<Rightarrow> cache_put io pg page)"

definition ensure_header_page_loaded :: "pager_io \<Rightarrow> Pager \<Rightarrow> pager_crash + (PagerResult \<times> Pager)" where
  "ensure_header_page_loaded io pg = get_or_load_page io pg DB_HEADER_PAGE_NUM"

definition mark_loaded_page_wal_pending :: "latches \<Rightarrow> Pager \<Rightarrow> int \<Rightarrow> pager_crash + (PagerResult \<times> Pager)" where
  "mark_loaded_page_wal_pending held pg num =
     res_bind (deref pg num) (\<lambda>page.
       if latch_mode held (frame_page_num page) \<noteq> Some Latch_Exclusive then Inr (Pg_Busy, pg)
       else Inr (Pg_Success, (put_frame pg num (page\<lparr>is_dirty := True, wal_pending := True, need_flushing := True\<rparr>))
              \<lparr>wal_dirty_pages := insert (frame_page_num page) (wal_dirty_pages pg)\<rparr>))"

section \<open>Public operations\<close>

definition pin_ref :: "Pager \<Rightarrow> int \<Rightarrow> PageV2 \<Rightarrow> pager_crash + Pager" where
  "pin_ref pg num page =
     (let pg = put_frame pg num (page\<lparr>refs_num := refs_num page + 1\<rparr>)
      in if refs_num page + 1 = 1
         then res_bind (lift_cache (pin_page (pCache pg) num)) (\<lambda>c. Inr (pg\<lparr>pCache := c\<rparr>))
         else Inr pg)"

definition pager_get :: "pager_io \<Rightarrow> Pager \<Rightarrow> int \<Rightarrow> pager_crash + (PagerResult \<times> Pager)" where
  "pager_get io pg num =
     (if \<not> pager_is_open pg then Inr (Pg_DatabaseNotOpen, pg)
      else if \<not> num > DB_HEADER_PAGE_NUM then Inl Assert_crash
      else if num \<ge> page_int (db_page_count (db_header pg)) then Inr (Pg_PageOutOfRange, pg)
      else on_success (get_or_load_page io pg num) Pair (\<lambda>pg.
        res_bind (deref pg num) (\<lambda>page.
        res_bind (pin_ref pg num page) (\<lambda>pg. Inr (Pg_Success, pg)))))"

definition begin_wal_write :: "pager_io \<Rightarrow> latches \<Rightarrow> Pager \<Rightarrow> u32 \<Rightarrow> pager_crash + (PagerResult \<times> Pager)" where
  "begin_wal_write io held pg num =
     (if \<not> pager_is_open pg then Inr (Pg_DatabaseNotOpen, pg)
      else on_success (get_or_load_page io pg (page_int num)) Pair (\<lambda>pg.
        mark_loaded_page_wal_pending held pg (page_int num)))"

definition ref_page :: "Pager \<Rightarrow> int \<Rightarrow> pager_crash + (PagerResult \<times> Pager)" where
  "ref_page pg num =
     (if \<not> pager_is_open pg then Inr (Pg_DatabaseNotOpen, pg)
      else if \<not> num > DB_HEADER_PAGE_NUM then Inl Assert_crash
      else case pc_get (pCache pg) num of
        None \<Rightarrow> Inr (Pg_PageNotCached, pg)
      | Some page \<Rightarrow> res_bind (pin_ref pg num page) (\<lambda>pg. Inr (Pg_Success, pg)))"

definition unref_page :: "Pager \<Rightarrow> int \<Rightarrow> pager_crash + (PagerResult \<times> Pager)" where
  "unref_page pg num =
     (if \<not> pager_is_open pg then Inr (Pg_DatabaseNotOpen, pg)
      else case pc_get (pCache pg) num of
        None \<Rightarrow> Inl Assert_crash
      | Some page \<Rightarrow>
          let pg = put_frame pg num (page\<lparr>refs_num := refs_num page - 1\<rparr>)
          in if refs_num page - 1 = 0
             then res_bind (lift_cache (unpin_page (pCache pg) num)) (\<lambda>c. Inr (Pg_Success, pg\<lparr>pCache := c\<rparr>))
             else Inr (Pg_Success, pg))"

definition get_btree_root :: "pager_io \<Rightarrow> Pager \<Rightarrow> pager_crash + (PagerGetRootResult \<times> Pager)" where
  "get_btree_root io pg =
     (if \<not> pager_is_open pg then Inr (\<lparr>root_status = Pg_DatabaseNotOpen, root_page_num = 0\<rparr>, pg)
      else if btree_root_page_num (db_header pg) = 0
      then Inr (\<lparr>root_status = Pg_EmptyBTree, root_page_num = 0\<rparr>, pg)
      else res_bind (pager_get io pg (page_int (btree_root_page_num (db_header pg)))) (\<lambda>(st, pg).
        Inr (\<lparr>root_status = st, root_page_num = ucast (btree_root_page_num (db_header pg))\<rparr>, pg)))"

definition install_page_lsn :: "latches \<Rightarrow> Pager \<Rightarrow> u32 \<Rightarrow> Lsn \<Rightarrow> PagerResult \<times> Pager" where
  "install_page_lsn held pg num lsn =
     (if \<not> pager_is_open pg then (Pg_DatabaseNotOpen, pg)
      else if lsn = 0 then (Pg_PageCorrupt, pg)
      else if latch_mode held num \<noteq> Some Latch_Exclusive then (Pg_Busy, pg)
      else case pc_get (pCache pg) (page_int num) of
        None \<Rightarrow> (Pg_PageNotCached, pg)
      | Some page \<Rightarrow>
          if \<not> wal_pending page then (Pg_CacheSpillFailed, pg)
          else (Pg_Success, put_frame pg (page_int num)
                 (page\<lparr>page_data := update_checksum (set_page_lsn (page_data page) lsn),
                       is_dirty := True, wal_pending := False\<rparr>)))"

fun flush_loop :: "pager_io \<Rightarrow> Pager \<Rightarrow> u32 list \<Rightarrow> PagerResult \<times> Pager" where
  "flush_loop io pg [] = (Pg_Success, pg)"
| "flush_loop io pg (num # pages) =
     (case flush_wal_page io pg num of (st, pg) \<Rightarrow>
        if st \<noteq> Pg_Success then (st, pg) else flush_loop io pg pages)"

definition flush_wal_pages :: "(u32 set \<Rightarrow> u32 list) \<Rightarrow> pager_io \<Rightarrow> Pager \<Rightarrow> PagerResult \<times> Pager" where
  "flush_wal_pages order io pg =
     (if \<not> pager_is_open pg then (Pg_DatabaseNotOpen, pg)
      else case flush_loop io pg (order (wal_dirty_pages pg)) of (st, pg) \<Rightarrow>
        if st \<noteq> Pg_Success then (st, pg)
        else if \<not> io_sync io then (Pg_DbFlushFailed, pg)
        else (Pg_Success, pg\<lparr>db_file := map_option sync_file_to_disk_fd (db_file pg)\<rparr>))"

section \<open>Allocation and the freelist\<close>

definition alloc_failed :: "PagerResult \<Rightarrow> PagerAllocateResult" where
  "alloc_failed st = \<lparr>alloc_status = st, alloc_page_num = -1, alloc_effects = []\<rparr>"

definition mut_failed :: "PagerResult \<Rightarrow> PagerMutationResult" where
  "mut_failed st = \<lparr>mut_status = st, mut_effects = []\<rparr>"

text \<open>\<open>operation.lock_exclusive\<close>\<close>

definition latch_exclusive :: "(u32 \<Rightarrow> nat) \<Rightarrow> latches \<Rightarrow> u32 \<Rightarrow> pager_crash + latches" where
  "latch_exclusive grant held num = lift_exn (op_lock_exclusive held num (grant num))"

text \<open>The second and third mutex section of \<open>allocate_page\<close> when there is a free page.  The
  pages are loaded and marked first; from there on the operation cannot fail.\<close>

definition detach_next_free :: "Pager \<Rightarrow> latches \<Rightarrow> u32 \<Rightarrow> pager_crash + (PagerResult \<times> Pager)" where
  "detach_next_free pg held next =
     (if next = FREELIST_NULL_PAGE_NUM then Inr (Pg_Success, pg)
      else on_success (mark_loaded_page_wal_pending held pg (page_int next)) Pair (\<lambda>pg.
        res_bind (deref pg (page_int next)) (\<lambda>page.
          let (next_next, _) = read_freelist_links (page_data page)
          in Inr (Pg_Success, put_frame pg (page_int next)
               (page\<lparr>page_data := write_freelist_links (page_data page) next_next FREELIST_NULL_PAGE_NUM\<rparr>)))))"

definition take_free_page :: "Pager \<Rightarrow> u32 \<Rightarrow> u32 \<Rightarrow> V2PageKind \<Rightarrow> pager_crash + (PagerAllocateResult \<times> Pager)" where
  "take_free_page pg head next kind =
     (let pg = pg\<lparr>db_header := (db_header pg)\<lparr>freelist_head_page_num := next,
                     freelist_page_count := freelist_page_count (db_header pg) - 1\<rparr>\<rparr>
      in res_bind (sync_db_header_to_cached_header_page pg) (\<lambda>pg.
         res_bind (deref pg (page_int head)) (\<lambda>page.
           if refs_num page \<noteq> 0 then Inl Assert_crash
           else let page = page\<lparr>page_data := page_initialize head kind, refs_num := 1\<rparr>;
                    pg = put_frame pg (page_int head) page
                in res_bind (lift_cache (pin_page (pCache pg) (page_int head))) (\<lambda>c.
                     let pg = pg\<lparr>pCache := c\<rparr>
                     in res_bind (deref pg DB_HEADER_PAGE_NUM) (\<lambda>header.
                        res_bind (if next = FREELIST_NULL_PAGE_NUM then Inr []
                                  else res_bind (deref pg (page_int next)) (\<lambda>n. Inr [page_effect EffectWrite n])) (\<lambda>next_effect.
                          Inr (\<lparr>alloc_status = Pg_Success, alloc_page_num = page_int head,
                                 alloc_effects = page_effect EffectWrite header # next_effect @ [page_effect EffectAllocate page]\<rparr>,
                               pg)))))))"

definition allocate_free_page ::
    "pager_io \<Rightarrow> (u32 \<Rightarrow> nat) \<Rightarrow> latches \<Rightarrow> Pager \<Rightarrow> u32 \<Rightarrow> V2PageKind \<Rightarrow>
     pager_crash + (PagerAllocateResult \<times> latches \<times> Pager)" where
  "allocate_free_page io grant held pg head kind =
     res_bind (latch_exclusive grant held head) (\<lambda>held.
     on_success (get_or_load_page io pg (page_int head)) (\<lambda>st pg. (alloc_failed st, held, pg)) (\<lambda>pg.
     res_bind (deref pg (page_int head)) (\<lambda>page.
       let (next, _) = read_freelist_links (page_data page)
       in res_bind (if next \<noteq> FREELIST_NULL_PAGE_NUM then latch_exclusive grant held next else Inr held) (\<lambda>held.
          let failed = (\<lambda>st pg. (alloc_failed st, held, pg)) in
          on_success (ensure_header_page_loaded io pg) failed (\<lambda>pg.
          on_success (get_or_load_page io pg (page_int head)) failed (\<lambda>pg.
          on_success (if next \<noteq> FREELIST_NULL_PAGE_NUM then get_or_load_page io pg (page_int next) else Inr (Pg_Success, pg)) failed (\<lambda>pg.
          on_success (mark_loaded_page_wal_pending held pg DB_HEADER_PAGE_NUM) failed (\<lambda>pg.
          on_success (mark_loaded_page_wal_pending held pg (page_int head)) failed (\<lambda>pg.
          on_success (detach_next_free pg held next) failed (\<lambda>pg.
            res_bind (take_free_page pg head next kind) (\<lambda>(r, pg). Inr (r, held, pg)))))))))))) "

definition allocate_new_page ::
    "pager_io \<Rightarrow> (u32 \<Rightarrow> nat) \<Rightarrow> latches \<Rightarrow> Pager \<Rightarrow> V2PageKind \<Rightarrow>
     pager_crash + (PagerAllocateResult \<times> latches \<times> Pager)" where
  "allocate_new_page io grant held pg kind =
     (let num = db_page_count (db_header pg) in
      res_bind (latch_exclusive grant held num) (\<lambda>held.
      on_success (ensure_header_page_loaded io pg) (\<lambda>st pg. (alloc_failed st, held, pg)) (\<lambda>pg.
        let page = (make_page num kind)\<lparr>refs_num := 1, is_dirty := True, wal_pending := True, need_flushing := True\<rparr>;
            pg = pg\<lparr>wal_dirty_pages := insert num (wal_dirty_pages pg)\<rparr>
        in on_success (cache_put io pg page)
             (\<lambda>st pg. (alloc_failed st, held, pg\<lparr>wal_dirty_pages := wal_dirty_pages pg - {num}\<rparr>)) (\<lambda>pg.
           res_bind (mark_loaded_page_wal_pending held pg DB_HEADER_PAGE_NUM) (\<lambda>(st, pg).
             if st \<noteq> Pg_Success
             then res_bind (lift_cache (force_remove (pCache pg) (page_int num))) (\<lambda>c.
                    Inr (alloc_failed st, held, pg\<lparr>wal_dirty_pages := wal_dirty_pages pg - {num}, pCache := c\<rparr>))
             else res_bind (sync_db_header_to_cached_header_page
                      (pg\<lparr>db_header := (db_header pg)\<lparr>db_page_count := db_page_count (db_header pg) + 1\<rparr>\<rparr>)) (\<lambda>pg.
                  res_bind (deref pg DB_HEADER_PAGE_NUM) (\<lambda>header.
                  res_bind (deref pg (page_int num)) (\<lambda>page.
                    Inr (\<lparr>alloc_status = Pg_Success, alloc_page_num = page_int num,
                           alloc_effects = [page_effect EffectWrite header, page_effect EffectAllocate page]\<rparr>,
                         held, pg)))))))))"

definition allocate_page ::
    "pager_io \<Rightarrow> (u32 \<Rightarrow> nat) \<Rightarrow> latches \<Rightarrow> Pager \<Rightarrow> V2PageKind \<Rightarrow>
     pager_crash + (PagerAllocateResult \<times> latches \<times> Pager)" where
  "allocate_page io grant held pg kind =
     (if kind \<noteq> BTreeLeaf \<and> kind \<noteq> BTreeInternal then Inr (alloc_failed Pg_InvalidPageKind, held, pg)
      else res_bind (latch_exclusive grant held 0) (\<lambda>held.
        if \<not> pager_is_open pg then Inr (alloc_failed Pg_DatabaseNotOpen, held, pg)
        else let head = (if freelist_page_count (db_header pg) > 0 then freelist_head_page_num (db_header pg)
                         else FREELIST_NULL_PAGE_NUM)
             in if head \<noteq> FREELIST_NULL_PAGE_NUM then allocate_free_page io grant held pg head kind
                else allocate_new_page io grant held pg kind))"

text \<open>\<open>free_page\<close>: marking and relinking the old head of the freelist, then the new head.\<close>

definition relink_old_head :: "Pager \<Rightarrow> latches \<Rightarrow> u32 \<Rightarrow> u32 \<Rightarrow> pager_crash + (PagerResult \<times> Pager)" where
  "relink_old_head pg held old_head num =
     (if old_head = FREELIST_NULL_PAGE_NUM then Inr (Pg_Success, pg)
      else on_success (mark_loaded_page_wal_pending held pg (page_int old_head)) Pair (\<lambda>pg.
        res_bind (deref pg (page_int old_head)) (\<lambda>page.
          let (old_next, _) = read_freelist_links (page_data page)
          in Inr (Pg_Success, put_frame pg (page_int old_head)
               (page\<lparr>page_data := write_freelist_links (page_data page) old_next num\<rparr>)))))"

definition push_free_page :: "Pager \<Rightarrow> u32 \<Rightarrow> u32 \<Rightarrow> pager_crash + (PagerMutationResult \<times> Pager)" where
  "push_free_page pg num old_head =
     res_bind (deref pg (page_int num)) (\<lambda>freed.
       let pg = put_frame pg (page_int num)
                  (freed\<lparr>page_data := write_freelist_links (page_data freed) old_head FREELIST_NULL_PAGE_NUM\<rparr>);
           pg = pg\<lparr>db_header := (db_header pg)\<lparr>freelist_head_page_num := num,
                     freelist_page_count := freelist_page_count (db_header pg) + 1\<rparr>\<rparr>
       in res_bind (sync_db_header_to_cached_header_page pg) (\<lambda>pg.
          res_bind (deref pg DB_HEADER_PAGE_NUM) (\<lambda>header.
          res_bind (if old_head = FREELIST_NULL_PAGE_NUM then Inr []
                    else res_bind (deref pg (page_int old_head)) (\<lambda>o1. Inr [page_effect EffectWrite o1])) (\<lambda>old_effect.
          res_bind (deref pg (page_int num)) (\<lambda>freed.
            Inr (\<lparr>mut_status = Pg_Success,
                   mut_effects = page_effect EffectWrite header # old_effect @ [page_effect EffectFree freed]\<rparr>, pg))))))"

definition free_page ::
    "pager_io \<Rightarrow> (u32 \<Rightarrow> nat) \<Rightarrow> latches \<Rightarrow> Pager \<Rightarrow> u32 \<Rightarrow> pager_crash + (PagerMutationResult \<times> latches \<times> Pager)" where
  "free_page io grant held pg num =
     res_bind (latch_exclusive grant held 0) (\<lambda>held.
     res_bind (latch_exclusive grant held num) (\<lambda>held.
       if \<not> pager_is_open pg then Inr (mut_failed Pg_DatabaseNotOpen, held, pg)
       else if num = 0 \<or> num \<ge> db_page_count (db_header pg) then Inr (mut_failed Pg_PageOutOfRange, held, pg)
       else let old_head = freelist_head_page_num (db_header pg)
         in res_bind (if old_head \<noteq> FREELIST_NULL_PAGE_NUM then latch_exclusive grant held old_head else Inr held) (\<lambda>held.
            let failed = (\<lambda>st pg. (mut_failed st, held, pg)) in
            on_success (ensure_header_page_loaded io pg) failed (\<lambda>pg.
            on_success (get_or_load_page io pg (page_int num)) failed (\<lambda>pg.
            on_success (if old_head \<noteq> FREELIST_NULL_PAGE_NUM then get_or_load_page io pg (page_int old_head) else Inr (Pg_Success, pg)) failed (\<lambda>pg.
            on_success (mark_loaded_page_wal_pending held pg DB_HEADER_PAGE_NUM) failed (\<lambda>pg.
            on_success (mark_loaded_page_wal_pending held pg (page_int num)) failed (\<lambda>pg.
            on_success (relink_old_head pg held old_head num) failed (\<lambda>pg.
              res_bind (push_free_page pg num old_head) (\<lambda>(r, pg). Inr (r, held, pg)))))))))))"

definition set_btree_root ::
    "pager_io \<Rightarrow> (u32 \<Rightarrow> nat) \<Rightarrow> latches \<Rightarrow> Pager \<Rightarrow> u32 \<Rightarrow> pager_crash + (PagerMutationResult \<times> latches \<times> Pager)" where
  "set_btree_root io grant held pg root =
     res_bind (latch_exclusive grant held 0) (\<lambda>held.
     res_bind (if root \<noteq> 0 then latch_exclusive grant held root else Inr held) (\<lambda>held.
       let failed = (\<lambda>st pg. (mut_failed st, held, pg)) in
       if \<not> pager_is_open pg then Inr (failed Pg_DatabaseNotOpen pg)
       else if root \<ge> db_page_count (db_header pg) \<and> root \<noteq> 0 then Inr (failed Pg_PageOutOfRange pg)
       else on_success (ensure_header_page_loaded io pg) failed (\<lambda>pg.
            on_success (mark_loaded_page_wal_pending held pg DB_HEADER_PAGE_NUM) failed (\<lambda>pg.
            res_bind (sync_db_header_to_cached_header_page
                (pg\<lparr>db_header := (db_header pg)\<lparr>btree_root_page_num := root\<rparr>\<rparr>)) (\<lambda>pg.
            res_bind (deref pg DB_HEADER_PAGE_NUM) (\<lambda>header.
              Inr (\<lparr>mut_status = Pg_Success, mut_effects = [page_effect EffectWrite header]\<rparr>, held, pg)))))))"

section \<open>Opening\<close>

definition purge_cache :: "Pager \<Rightarrow> pager_crash + (PagerResult \<times> Pager)" where
  "purge_cache pg =
     (if pc_len (pCache pg) \<noteq> unpinned_len (pCache pg) then Inl Assert_crash
      else Inr (Pg_Success, pg\<lparr>pCache := new_PCache 64\<rparr>))"

definition create_new_database_file :: "pager_io \<Rightarrow> Pager \<Rightarrow> PagerResult \<times> Pager" where
  "create_new_database_file io pg =
     (let initial_header = new_DBHeader\<lparr>db_page_count := 1\<rparr>;
          header_page = page_initialize 0 DatabaseMetadata;
          header_page = update_checksum (serialize_DBHeader initial_header header_page V2_PAGE_HEADER_SIZE)
      in if \<not> io_create io then (Pg_OpenDbFailed, pg)
         else case write_exact_at (io_write io 0) empty_file header_page 0 of
           (Inl _, f) \<Rightarrow> (Pg_OpenDbFailed, pg\<lparr>db_file := Some f\<rparr>)
         | (Inr _, f) \<Rightarrow>
             if \<not> io_sync io then (Pg_OpenDbFailed, pg\<lparr>db_file := Some f\<rparr>)
             else let pg = pg\<lparr>db_file := Some (sync_file_to_disk_fd f)\<rparr>
                  in if \<not> io_close io then (Pg_OpenDbFailed, pg)
                     else (Pg_Success, pg\<lparr>db_header := initial_header\<rparr>))"

text \<open>The cached copy of page zero follows the header just loaded.\<close>

definition refresh_cached_header :: "Pager \<Rightarrow> bytes \<Rightarrow> Pager" where
  "refresh_cached_header pg data =
     (case pc_get (pCache pg) DB_HEADER_PAGE_NUM of
        None \<Rightarrow> pg
      | Some page \<Rightarrow> put_frame pg DB_HEADER_PAGE_NUM (page\<lparr>page_data := data, is_dirty := False, need_flushing := False\<rparr>))"

definition load_db_header_from_disk :: "pager_io \<Rightarrow> Pager \<Rightarrow> pager_crash + (PagerResult \<times> Pager)" where
  "load_db_header_from_disk io pg =
     (case db_file pg of
        None \<Rightarrow> Inr (Pg_DbReadFailed, pg)
      | Some f \<Rightarrow>
          (case (if io_read io 0 then read_exact_at f V2_PAGE_SIZE 0 else Inl System_error) of
             Inl _ \<Rightarrow> Inr (Pg_DbReadFailed, pg)
           | Inr data \<Rightarrow>
               if page_validate data \<noteq> PageSuccess \<or> page_num data \<noteq> 0 \<or> page_kind data \<noteq> DatabaseMetadata
               then Inr (Pg_DbHeaderCorrupt, pg)
               else let loaded = deserialize_DBHeader data V2_PAGE_HEADER_SIZE in
                 if \<not> validate_DBHeader loaded then Inr (Pg_DbHeaderCorrupt, pg)
                 else if db_page_count loaded = 0 then Inr (Pg_DbHeaderCorrupt, pg)
                 else if \<not> io_stat io then Inr (Pg_DbReadFailed, pg)
                 else if file_size f mod V2_PAGE_SIZE \<noteq> 0 then Inr (Pg_DbHeaderCorrupt, pg)
                 else if unat (db_page_count loaded) > file_size f div V2_PAGE_SIZE then Inr (Pg_DbHeaderCorrupt, pg)
                 else on_success
                        (if db_page_count (db_header pg) \<noteq> 0 \<and>
                            file_change_counter (db_header pg) < file_change_counter loaded
                         then purge_cache pg else Inr (Pg_Success, pg)) Pair (\<lambda>pg.
                      Inr (Pg_Success, refresh_cached_header (pg\<lparr>db_header := loaded\<rparr>) data))))"

text \<open>\<open>open\<close> behind the checks of the file: open it and load the header.\<close>

definition open_database_file :: "pager_io \<Rightarrow> Pager \<Rightarrow> pager_crash + (PagerResult \<times> Pager)" where
  "open_database_file io pg =
     (if \<not> io_open io then Inr (Pg_OpenDbFailed, pg)
      else on_success (load_db_header_from_disk io (pg\<lparr>pager_is_open := True\<rparr>))
             (\<lambda>st pg. (st, pg\<lparr>pager_is_open := False\<rparr>)) (\<lambda>pg. Inr (Pg_Success, pg)))"

definition pager_open :: "pager_io \<Rightarrow> Pager \<Rightarrow> pager_crash + (PagerResult \<times> Pager)" where
  "pager_open io pg =
     (if pager_is_open pg then Inl Assert_crash
      else if pager_log pg = None then Inr (Pg_LogNotAttached, pg)
      else if \<not> io_stat io then Inr (Pg_OpenDbFailed, pg)
      else case db_file pg of
        None \<Rightarrow>
          (case create_new_database_file io pg of (st, pg) \<Rightarrow>
             if st \<noteq> Pg_Success then Inr (st, pg) else open_database_file io pg)
      | Some f \<Rightarrow>
          if file_size f < V2_PAGE_SIZE \<or> file_size f mod V2_PAGE_SIZE \<noteq> 0 then Inr (Pg_DbHeaderCorrupt, pg)
          else open_database_file io pg)"

end
