(* ===== verification/PagerSafety.thy ===== *)
theory PagerSafety
  imports Pager
begin

text \<open>
  What the pager promises.  \<open>page_view\<close> is the content of a page as its users see it: the cached
  frame, else the page in the file.  Under the invariant \<open>pager_inv\<close>, loading a page never crashes
  and never changes the view of any page, whatever is evicted or spilled and whichever
  system call fails, and every write to the database file carries a page whose log record is
  already forced to disk.
\<close>

section \<open>Pages of a file\<close>

definition complete :: "disk_file \<Rightarrow> u32 \<Rightarrow> bool" where
  "complete f n = ((unat n + 1) * V2_PAGE_SIZE \<le> file_size f)"

definition chunk :: "disk_file \<Rightarrow> u32 \<Rightarrow> bytes" where
  "chunk f n = take V2_PAGE_SIZE (drop (unat n * V2_PAGE_SIZE) (f_data f))"

lemma length_overwrite: "length (overwrite d off buf) = (if buf = [] then length d else max (length d) (off + length buf))"
  by (auto simp: overwrite_def)

lemma nth_overwrite:
  assumes "i < length (overwrite d off buf)"
  shows "overwrite d off buf ! i =
    (if off \<le> i \<and> i < off + length buf then buf ! (i - off) else if i < length d then d ! i else 0)"
  using assms by (auto simp: overwrite_def nth_append min_def split: if_splits)

lemma chunk_overwrite_same:
  assumes "length buf = V2_PAGE_SIZE"
  shows "chunk (f\<lparr>f_data := overwrite (f_data f) (unat n * V2_PAGE_SIZE) buf\<rparr>) n = buf"
    "complete (f\<lparr>f_data := overwrite (f_data f) (unat n * V2_PAGE_SIZE) buf\<rparr>) n"
proof -
  have ne: "buf \<noteq> []" using assms by (auto simp: V2_PAGE_SIZE_def)
  then show "chunk (f\<lparr>f_data := overwrite (f_data f) (unat n * V2_PAGE_SIZE) buf\<rparr>) n = buf"
    using assms by (simp add: chunk_def overwrite_def min_def)
  show "complete (f\<lparr>f_data := overwrite (f_data f) (unat n * V2_PAGE_SIZE) buf\<rparr>) n"
    using assms ne by (simp add: complete_def file_size_def length_overwrite algebra_simps)
qed

lemma length_chunk: "complete f n \<Longrightarrow> length (chunk f n) = V2_PAGE_SIZE"
  by (simp add: complete_def chunk_def file_size_def algebra_simps)

lemma chunk_overwrite_other:
  assumes "complete f m" "m \<noteq> n" "length buf \<le> V2_PAGE_SIZE"
  shows "chunk (f\<lparr>f_data := overwrite (f_data f) (unat n * V2_PAGE_SIZE) buf\<rparr>) m = chunk f m"
    "complete (f\<lparr>f_data := overwrite (f_data f) (unat n * V2_PAGE_SIZE) buf\<rparr>) m"
proof -
  let ?f = "f\<lparr>f_data := overwrite (f_data f) (unat n * V2_PAGE_SIZE) buf\<rparr>"
  show c: "complete ?f m" using assms(1) by (auto simp: complete_def file_size_def length_overwrite)
  have apart: "i < unat n * V2_PAGE_SIZE \<or> unat n * V2_PAGE_SIZE + length buf \<le> i"
    if "unat m * V2_PAGE_SIZE \<le> i" "i < (unat m + 1) * V2_PAGE_SIZE" for i
  proof -
    have "unat m \<noteq> unat n" using assms(2) by (simp add: word_unat_eq_iff)
    then have "unat m + 1 \<le> unat n \<or> unat n + 1 \<le> unat m" by linarith
    then have "(unat m + 1) * V2_PAGE_SIZE \<le> unat n * V2_PAGE_SIZE \<or> (unat n + 1) * V2_PAGE_SIZE \<le> unat m * V2_PAGE_SIZE"
      by (metis mult_le_mono1)
    then show ?thesis using that assms(3) by (auto simp: algebra_simps)
  qed
  show "chunk ?f m = chunk f m"
  proof (rule nth_equalityI)
    show "length (chunk ?f m) = length (chunk f m)" using length_chunk[OF c] length_chunk[OF assms(1)] by simp
    fix i
    assume "i < length (chunk ?f m)"
    then have i: "i < V2_PAGE_SIZE" using length_chunk[OF c] by simp
    have "unat m * V2_PAGE_SIZE + i < length (f_data f)"
      using assms(1) i by (simp add: complete_def file_size_def algebra_simps)
    moreover have "unat m * V2_PAGE_SIZE + i < length (f_data ?f)"
      using c i by (simp add: complete_def file_size_def algebra_simps)
    moreover note apart[of "unat m * V2_PAGE_SIZE + i"]
    ultimately show "chunk ?f m ! i = chunk f m ! i"
      using i by (auto simp: chunk_def nth_overwrite)
  qed
qed

section \<open>The invariant\<close>

definition page_view :: "Pager \<Rightarrow> u32 \<Rightarrow> bytes option" where
  "page_view pg n =
     (case cache_map (pCache pg) (page_int n) of
        Some page \<Rightarrow> Some (page_data page)
      | None \<Rightarrow> (case db_file pg of
          None \<Rightarrow> None
        | Some f \<Rightarrow> if complete f n then Some (chunk f n) else None))"

text \<open>A frame: a clean one is what the file holds; a dirty one is on the list of dirty pages and,
  once its record is logged, carries the number of that record and a fresh checksum.\<close>

definition frame_ok :: "disk_file \<Rightarrow> Log \<Rightarrow> u32 set \<Rightarrow> PageV2 \<Rightarrow> bool" where
  "frame_ok f lg dirty page =
     (length (page_data page) = V2_PAGE_SIZE \<and>
      (if is_dirty page then need_flushing page \<and> frame_page_num page \<in> dirty \<and>
         (wal_pending page \<or> (initial_lsn (lg_config lg) \<le> page_lsn (page_data page) \<and>
            page_lsn (page_data page) < lg_next_lsn lg \<and> update_checksum (page_data page) = page_data page))
       else \<not> wal_pending page \<and> complete f (frame_page_num page) \<and> chunk f (frame_page_num page) = page_data page))"

definition pager_inv :: "WalRecord list \<Rightarrow> Pager \<Rightarrow> bool" where
  "pager_inv rs pg =
     (\<exists>f lg us. db_file pg = Some f \<and> pager_log pg = Some lg \<and> log_holds lg rs \<and> log_synced lg \<and>
        initial_lsn (lg_config lg) \<noteq> 0 \<and> cache_ok (pCache pg) us \<and> 0 < capacity (pCache pg) \<and>
        (\<forall>n page. cache_map (pCache pg) n = Some page \<longrightarrow> frame_ok f lg (wal_dirty_pages pg) page))"

text \<open>The file changes only by writing pages whose log record is forced to disk.\<close>

inductive logged_writes :: "WalRecord list \<Rightarrow> disk_file \<Rightarrow> disk_file \<Rightarrow> bool" for rs f where
  none: "logged_writes rs f f"
| logged: "logged_writes rs f f1 \<Longrightarrow> log_holds lg rs \<Longrightarrow> log_synced lg \<Longrightarrow>
    page_lsn data \<noteq> 0 \<Longrightarrow> page_lsn data \<le> lg_durable_lsn lg \<Longrightarrow> page_lsn data < lg_next_lsn lg \<Longrightarrow>
    logged_writes rs f (snd (write_exact_at fault f1 data (unat (n :: u32) * V2_PAGE_SIZE)))"

lemma logged_writes_trans: "logged_writes rs g h \<Longrightarrow> logged_writes rs f g \<Longrightarrow> logged_writes rs f h"
proof (induction rule: logged_writes.induct)
  case (logged f1 lg data fault n)
  then show ?case by (intro logged_writes.logged)
qed

lemma page_int_of [simp]: "word_of_int (page_int n) = n"
  by (simp add: page_int_def)

lemma page_int_inj [simp]: "page_int a = page_int b \<longleftrightarrow> a = b"
  by (metis page_int_of)

lemma page_int_0 [simp]: "page_int 0 = 0" "page_int a = 0 \<longleftrightarrow> a = 0"
proof -
  show z: "page_int 0 = 0" by (simp add: page_int_def)
  show "page_int a = 0 \<longleftrightarrow> a = 0" by (metis page_int_inj z)
qed

lemma small_page_int:
  assumes "0 \<le> k" "k < 2 ^ 31"
  shows "page_int (word_of_int k) = k" "unat (word_of_int k :: u32) = nat k"
  using assms by (simp_all add: page_int_def signed_take_bit_int_eq_self sint_sbintrunc' unat_eq_nat_uint
      unsigned_of_int take_bit_int_eq_self)

lemma page_int_nat: "0 \<le> page_int n \<Longrightarrow> nat (page_int n) = unat n"
  using small_page_int(2)[of "page_int n"] sint_lt[of n] page_int_of[of n] by (simp add: page_int_def)

text \<open>What an internal step of the pager guarantees.\<close>

definition keeps :: "WalRecord list \<Rightarrow> Pager \<Rightarrow> Pager \<Rightarrow> bool" where
  "keeps rs pg pg' =
     (pager_inv rs pg' \<and> db_header pg' = db_header pg \<and> pager_is_open pg' = pager_is_open pg \<and>
      capacity (pCache pg') = capacity (pCache pg) \<and>
      (\<forall>m d. page_view pg m = Some d \<longrightarrow> page_view pg' m = Some d) \<and>
      logged_writes rs (the (db_file pg)) (the (db_file pg')))"

lemma keeps_refl: "pager_inv rs pg \<Longrightarrow> keeps rs pg pg"
  by (simp add: keeps_def logged_writes.none)

lemma keeps_trans: "keeps rs a b \<Longrightarrow> keeps rs b c \<Longrightarrow> keeps rs a c"
  by (auto simp: keeps_def intro: logged_writes_trans)

section \<open>Flushing a page\<close>

lemma write_fails_or_whole:
  assumes "length data = V2_PAGE_SIZE"
  shows "(\<exists>f'. write_exact_at fault f data (unat n * V2_PAGE_SIZE) = (Inr (), f') \<and> chunk f' n = data \<and> complete f' n \<and>
       (\<forall>m. m \<noteq> n \<longrightarrow> complete f m \<longrightarrow> complete f' m \<and> chunk f' m = chunk f m)) \<or>
    (\<exists>e f'. write_exact_at fault f data (unat n * V2_PAGE_SIZE) = (Inl e, f') \<and>
       (\<forall>m. m \<noteq> n \<longrightarrow> complete f m \<longrightarrow> complete f' m \<and> chunk f' m = chunk f m))"
  using assms chunk_overwrite_same[OF assms, of f n] chunk_overwrite_other[of f _ n data]
    chunk_overwrite_other[of f _ n "take (the fault) data"]
  by (auto simp: write_exact_at_def split: option.splits)

lemma pager_invE:
  assumes "pager_inv rs pg"
  obtains f lg us where "db_file pg = Some f" "pager_log pg = Some lg" "log_holds lg rs" "log_synced lg"
    "initial_lsn (lg_config lg) \<noteq> 0" "cache_ok (pCache pg) us" "0 < capacity (pCache pg)"
    "\<And>n page. cache_map (pCache pg) n = Some page \<Longrightarrow> frame_ok f lg (wal_dirty_pages pg) page"
  using assms unfolding pager_inv_def by blast

lemma log_sync_keeps:
  assumes "log_holds lg rs" "log_synced lg" "initial_lsn (lg_config lg) \<le> t" "t < lg_next_lsn lg"
  shows "\<exists>lg'. log_sync_through lg t = Inr lg' \<and> log_holds lg' rs \<and> log_synced lg' \<and> t \<le> lg_durable_lsn lg' \<and>
    lg_config lg' = lg_config lg \<and> lg_next_lsn lg' = lg_next_lsn lg"
proof -
  obtain rss where "rs = concat rss" "log_parts lg rss" using assms(1) by (auto simp: log_holds_def)
  with log_sync_parts[OF this(2) assms(2-4)] show ?thesis by (auto simp: log_holds_def)
qed

text \<open>Replacing one frame and the file keeps the invariant when the other frames are unaffected.\<close>

lemma replace_frame_inv:
  assumes inv: "db_file pg = Some f" "pager_log pg = Some lg" "cache_ok (pCache pg) us" "0 < capacity (pCache pg)"
      "\<And>m page. cache_map (pCache pg) m = Some page \<Longrightarrow> frame_ok f lg (wal_dirty_pages pg) page"
    and log: "log_holds lg' rs" "log_synced lg'" "initial_lsn (lg_config lg') \<noteq> 0" "lg_config lg' = lg_config lg"
      "lg_next_lsn lg' = lg_next_lsn lg"
    and page: "cache_map (pCache pg) (page_int n) = Some page" "refs_num page' = refs_num page"
      "frame_page_num page' = n" "frame_ok f' lg' dirty page'"
    and others: "\<And>m. m \<noteq> n \<Longrightarrow> complete f m \<Longrightarrow> complete f' m \<and> chunk f' m = chunk f m"
      "\<And>m. m \<noteq> n \<Longrightarrow> m \<in> wal_dirty_pages pg \<Longrightarrow> m \<in> dirty"
  shows "pager_inv rs (put_frame pg (page_int n) page'\<lparr>db_file := Some f', pager_log := Some lg', wal_dirty_pages := dirty\<rparr>)"
proof -
  have num: "frame_page_num page = n" using cache_okD(3)[OF inv(3) page(1)] by simp
  have "cache_ok (set_frame (pCache pg) (page_int n) page') us"
    by (rule set_frame_ok[OF inv(3) page(1)]) (simp_all add: page(2,3) num)
  moreover have "frame_ok f' lg' dirty q" if "m \<noteq> page_int n" "cache_map (pCache pg) m = Some q" for m q
  proof -
    have "frame_page_num q \<noteq> n" using cache_okD(3)[OF inv(3) that(2)] that(1) by auto
    then show ?thesis using inv(5)[OF that(2)] others log(4,5) by (auto simp: frame_ok_def)
  qed
  ultimately show ?thesis
    using log(1-3) inv(4) page(4) unfolding pager_inv_def put_frame_def by (auto split: if_splits)
qed

lemma replace_frame_view:
  assumes "cache_map (pCache pg) (page_int n) = Some page" "page_data page' = page_data page" "db_file pg = Some f"
    and "\<And>m. m \<noteq> n \<Longrightarrow> complete f m \<Longrightarrow> complete f' m \<and> chunk f' m = chunk f m"
    and "page_view pg m = Some d"
  shows "page_view (put_frame pg (page_int n) page'\<lparr>db_file := Some f', pager_log := l, wal_dirty_pages := dirty\<rparr>) m = Some d"
  using assms by (cases "m = n") (auto simp: page_view_def put_frame_def split: option.splits if_splits)

lemma replace_frame_keeps:
  assumes inv: "db_file pg = Some f" "pager_log pg = Some lg" "cache_ok (pCache pg) us" "0 < capacity (pCache pg)"
      "\<And>m page. cache_map (pCache pg) m = Some page \<Longrightarrow> frame_ok f lg (wal_dirty_pages pg) page"
    and log: "log_holds lg' rs" "log_synced lg'" "initial_lsn (lg_config lg') \<noteq> 0" "lg_config lg' = lg_config lg"
      "lg_next_lsn lg' = lg_next_lsn lg"
    and page: "cache_map (pCache pg) (page_int n) = Some page" "refs_num page' = refs_num page"
      "frame_page_num page' = n" "frame_ok f' lg' dirty page'"
    and others: "\<And>m. m \<noteq> n \<Longrightarrow> complete f m \<Longrightarrow> complete f' m \<and> chunk f' m = chunk f m"
      "\<And>m. m \<noteq> n \<Longrightarrow> m \<in> wal_dirty_pages pg \<Longrightarrow> m \<in> dirty"
    and same: "page_data page' = page_data page" "logged_writes rs f f'"
  shows "keeps rs pg (put_frame pg (page_int n) page'\<lparr>db_file := Some f', pager_log := Some lg', wal_dirty_pages := dirty\<rparr>)"
  using replace_frame_inv[OF inv log page others] replace_frame_view[OF page(1) same(1) inv(1) others(1)] same(2) inv(1)
  unfolding keeps_def by (simp add: put_frame_def)

lemma write_wal_page_keeps:
  assumes inv: "db_file pg = Some f" "pager_log pg = Some lg" "cache_ok (pCache pg) us" "0 < capacity (pCache pg)"
      "\<And>m page. cache_map (pCache pg) m = Some page \<Longrightarrow> frame_ok f lg (wal_dirty_pages pg) page"
    and log: "log_holds lg rs" "log_synced lg" "initial_lsn (lg_config lg) \<noteq> 0"
    and page: "cache_map (pCache pg) (page_int n) = Some page" "is_dirty page" "\<not> wal_pending page"
    and run: "write_wal_page io pg n page f lg = (st, pg')"
  shows "keeps rs pg pg' \<and> (\<exists>page'. cache_map (pCache pg') = (cache_map (pCache pg))(page_int n \<mapsto> page') \<and>
    (st = Pg_Success \<longrightarrow> \<not> is_dirty page'))"
proof -
  have num: "frame_page_num page = n" using cache_okD(3)[OF inv(3) page(1)] by simp
  let ?d = "page_data page"
  have fr: "length ?d = V2_PAGE_SIZE" "need_flushing page" "n \<in> wal_dirty_pages pg"
    "initial_lsn (lg_config lg) \<le> page_lsn ?d" "page_lsn ?d < lg_next_lsn lg" "update_checksum ?d = ?d"
    using inv(5)[OF page(1)] page(2,3) num by (auto simp: frame_ok_def)
  obtain lg' where s: "log_sync_through lg (page_lsn ?d) = Inr lg'" "log_holds lg' rs" "log_synced lg'"
    "page_lsn ?d \<le> lg_durable_lsn lg'" "lg_config lg' = lg_config lg" "lg_next_lsn lg' = lg_next_lsn lg"
    using log_sync_keeps[OF log(1,2) fr(4,5)] by blast
  have lsn: "page_lsn ?d \<noteq> 0" using fr(4) log(3) by auto
  have upd: "page\<lparr>page_data := ?d\<rparr> = page" by simp
  let ?w = "write_exact_at (io_write io n) f ?d (unat n * V2_PAGE_SIZE)"
  have lw: "logged_writes rs f (snd ?w)"
    using logged_writes.logged[OF logged_writes.none s(2,3) lsn s(4), of f "io_write io n" n] fr(5) s(6) by simp
  consider (ok) f' where "?w = (Inr (), f')" "chunk f' n = ?d" "complete f' n"
      "\<And>m. m \<noteq> n \<Longrightarrow> complete f m \<Longrightarrow> complete f' m \<and> chunk f' m = chunk f m"
    | (failed) e f' where "?w = (Inl e, f')" "\<And>m. m \<noteq> n \<Longrightarrow> complete f m \<Longrightarrow> complete f' m \<and> chunk f' m = chunk f m"
    using write_fails_or_whole[OF fr(1), of "io_write io n" f n] by metis
  then show ?thesis
  proof cases
    case ok
    let ?p = "page\<lparr>is_dirty := False, need_flushing := False\<rparr>" let ?D = "wal_dirty_pages pg - {n}"
    have r: "st = Pg_Success" "pg' = put_frame pg (page_int n) ?p\<lparr>db_file := Some f', pager_log := Some lg', wal_dirty_pages := ?D\<rparr>"
      using run unfolding write_wal_page_def
      by (auto simp: s(1) fr(6) upd ok(1) put_frame_def set_frame_def intro!: Pager.equality)
    have "frame_ok f' lg' ?D ?p" using ok(2,3) fr(1) num page(3) by (simp add: frame_ok_def)
    then have "keeps rs pg pg'" unfolding r(2)
      by (intro replace_frame_keeps[OF inv s(2,3) _ s(5,6) page(1)]) (use log(3) num s(5) ok(1,4) lw in auto)
    then show ?thesis using r by (auto simp: put_frame_def)
  next
    case failed
    let ?D = "wal_dirty_pages pg"
    have r: "st = Pg_DbWriteFailed" "pg' = put_frame pg (page_int n) page\<lparr>db_file := Some f', pager_log := Some lg', wal_dirty_pages := ?D\<rparr>"
      using run unfolding write_wal_page_def
      by (auto simp: s(1) fr(6) upd failed(1) put_frame_def set_frame_def intro!: Pager.equality)
    have "frame_ok f' lg' ?D page" using fr num page(2) s(5,6) by (simp add: frame_ok_def)
    then have "keeps rs pg pg'" unfolding r(2)
      by (intro replace_frame_keeps[OF inv s(2,3) _ s(5,6) page(1)]) (use log(3) num s(5) failed lw in auto)
    then show ?thesis using r by (auto simp: put_frame_def)
  qed
qed

lemma flush_wal_page_keeps:
  assumes inv: "pager_inv rs pg" and run: "flush_wal_page io pg n = (st, pg')"
  shows "keeps rs pg pg' \<and> dom (cache_map (pCache pg')) = dom (cache_map (pCache pg)) \<and>
    wal_dirty_pages pg - {n} \<subseteq> wal_dirty_pages pg'"
proof -
  obtain f lg us where i: "db_file pg = Some f" "pager_log pg = Some lg" "log_holds lg rs" "log_synced lg"
    "initial_lsn (lg_config lg) \<noteq> 0" "cache_ok (pCache pg) us" "0 < capacity (pCache pg)"
    "\<And>n page. cache_map (pCache pg) n = Some page \<Longrightarrow> frame_ok f lg (wal_dirty_pages pg) page"
    using pager_invE[OF inv] by metis
  show ?thesis
  proof (cases "cache_map (pCache pg) (page_int n)")
    case None
    have pg': "pg' = pg\<lparr>wal_dirty_pages := wal_dirty_pages pg - {n}\<rparr>"
      using run None by (simp add: flush_wal_page_def pc_get_def)
    have "frame_ok f lg (wal_dirty_pages pg - {n}) page" if "cache_map (pCache pg) m = Some page" for m page
    proof -
      have "frame_page_num page \<noteq> n" using cache_okD(3)[OF i(6) that] that None by auto
      then show ?thesis using i(8)[OF that] by (auto simp: frame_ok_def)
    qed
    then have "pager_inv rs pg'" unfolding pg' pager_inv_def using i by auto
    then show ?thesis unfolding keeps_def pg' by (auto simp: page_view_def logged_writes.none split: option.splits)
  next
    case (Some page)
    have num: "frame_page_num page = n" using cache_okD(3)[OF i(6) Some] by simp
    consider (pending) "wal_pending page" | (clean) "\<not> wal_pending page" "\<not> is_dirty page"
      | (dirty) "\<not> wal_pending page" "is_dirty page" by blast
    then show ?thesis
    proof cases
      case pending
      then have "pg' = pg" using run Some by (simp add: flush_wal_page_def pc_get_def)
      then show ?thesis using keeps_refl[OF inv] by simp
    next
      case clean
      let ?p = "page\<lparr>need_flushing := False\<rparr>" let ?D = "wal_dirty_pages pg - {n}"
      have pg': "pg' = put_frame pg (page_int n) ?p\<lparr>db_file := Some f, pager_log := Some lg, wal_dirty_pages := ?D\<rparr>"
        using run Some clean i(1,2)
        by (auto simp: flush_wal_page_def pc_get_def put_frame_def intro!: Pager.equality)
      have "frame_ok f lg ?D ?p" using i(8)[OF Some] clean by (simp add: frame_ok_def)
      then have "keeps rs pg pg'" unfolding pg'
        by (intro replace_frame_keeps[OF i(1,2,6-8) i(3-5) _ _ Some]) (use num in \<open>auto intro: logged_writes.none\<close>)
      then show ?thesis using Some by (auto simp: pg' put_frame_def)
    next
      case dirty
      have lsn: "page_lsn (page_data page) \<noteq> 0" using i(5) i(8)[OF Some] dirty by (auto simp: frame_ok_def)
      have w: "write_wal_page io pg n page f lg = (st, pg')"
        using run Some dirty i(1,2) lsn by (simp add: flush_wal_page_def pc_get_def)
      have "keeps rs pg pg' \<and> (\<exists>page'. cache_map (pCache pg') = (cache_map (pCache pg))(page_int n \<mapsto> page') \<and>
          (st = Pg_Success \<longrightarrow> \<not> is_dirty page'))"
        by (rule write_wal_page_keeps[OF i(1,2,6,7) _ i(3-5) Some dirty(2,1) w]) (erule i(8))
      moreover have "wal_dirty_pages pg - {n} \<subseteq> wal_dirty_pages pg'"
        using w by (auto simp: write_wal_page_def put_frame_def Let_def split: sum.splits prod.splits)
      ultimately show ?thesis using Some by (auto split: if_splits)
    qed
  qed
qed

section \<open>Loading a page\<close>

text \<open>What a call of \<open>put\<close> does to the frames: it stores the page, perhaps in place of an
  unpinned frame that needs no flush, or changes nothing.\<close>

definition put_effect :: "PCache \<Rightarrow> PageV2 \<Rightarrow> PCachePutResult \<Rightarrow> PCache \<Rightarrow> bool" where
  "put_effect c page r c' =
     (if put_status r = PC_Success
      then (cache_map c' = (cache_map c)(page_int (frame_page_num page) \<mapsto> page) \<and> \<not> ev_happened (put_eviction r)) \<or>
        (\<exists>v n. cache_map c n = Some v \<and> \<not> wal_pending v \<and> \<not> (is_dirty v \<and> need_flushing v) \<and>
           cache_map c' = (cache_map c)(n := None, page_int (frame_page_num page) \<mapsto> page) \<and>
           ev_was_dirty (put_eviction r) = is_dirty v)
      else cache_map c' = cache_map c \<and>
        (put_status r = PC_DirtyFlush \<longrightarrow> (\<exists>v. cache_map c (ev_page_num (put_eviction r)) = Some v)))"

lemma pc_put_effect:
  assumes "cache_ok c us" "cache_map c (page_int (frame_page_num page)) = None"
  shows "\<exists>r c' us'. pc_put c page = Inr (r, c') \<and> cache_ok c' us' \<and> capacity c' = capacity c \<and> put_effect c page r c'"
proof -
  obtain r c' us' where p: "pc_put c page = Inr (r, c')" "cache_ok c' us'" "capacity c' = capacity c"
    "case put_outcome c us page of (st, victim, m) \<Rightarrow> put_status r = st \<and> cache_map c' = m \<and>
       ev_happened (put_eviction r) = (st = PC_Success \<and> victim \<noteq> None) \<and>
       ev_page_num (put_eviction r) = (case victim of None \<Rightarrow> -1 | Some f \<Rightarrow> page_int (frame_page_num f)) \<and>
       ev_was_dirty (put_eviction r) = (case victim of None \<Rightarrow> False | Some f \<Rightarrow> is_dirty f)"
    using pc_put_outcome[OF assms] by (elim exE conjE) (rule that, assumption+)
  have "put_effect c page r c'"
  proof (cases "pc_length c < capacity c")
    case True
    then show ?thesis using p(4) by (simp add: put_outcome_def put_effect_def)
  next
    case False
    show ?thesis
    proof (cases "victim_of (recent_frames c us)")
      case None
      then show ?thesis using p(4) False by (auto simp: put_outcome_def put_effect_def Let_def split: if_splits)
    next
      case (Some v)
      have v: "cache_map c (page_int (frame_page_num v)) = Some v" "\<not> wal_pending v"
        using victim_of_member[OF Some] recent_frames_unpinned[OF assms(1)] by auto
      show ?thesis
      proof (cases "is_dirty v \<and> need_flushing v")
        case True
        then show ?thesis using p(4) False Some v by (simp add: put_outcome_def put_effect_def Let_def)
      next
        case no: False
        have "put_status r = PC_Success" "ev_was_dirty (put_eviction r) = is_dirty v"
          "cache_map c' = (cache_map c)(page_int (frame_page_num v) := None, page_int (frame_page_num page) \<mapsto> page)"
          using p(4) False Some no by (simp_all add: put_outcome_def Let_def)
        then show ?thesis unfolding put_effect_def using v no by auto
      qed
    qed
  qed
  with p show ?thesis by blast
qed

text \<open>The pages \<open>cache_put\<close> is given: read from the file, or new with its record pending.\<close>

definition new_frame :: "Pager \<Rightarrow> PageV2 \<Rightarrow> bool" where
  "new_frame pg page =
     (length (page_data page) = V2_PAGE_SIZE \<and> cache_map (pCache pg) (page_int (frame_page_num page)) = None \<and>
      (if is_dirty page then wal_pending page \<and> need_flushing page \<and> frame_page_num page \<in> wal_dirty_pages pg
       else \<not> wal_pending page \<and> page_view pg (frame_page_num page) = Some (page_data page)))"

definition keeps_but :: "WalRecord list \<Rightarrow> u32 \<Rightarrow> Pager \<Rightarrow> Pager \<Rightarrow> bool" where
  "keeps_but rs n pg pg' =
     (pager_inv rs pg' \<and> db_header pg' = db_header pg \<and> pager_is_open pg' = pager_is_open pg \<and>
      capacity (pCache pg') = capacity (pCache pg) \<and>
      (\<forall>m d. m \<noteq> n \<longrightarrow> page_view pg m = Some d \<longrightarrow> page_view pg' m = Some d) \<and>
      logged_writes rs (the (db_file pg)) (the (db_file pg')))"

lemma keeps_keeps_but: "keeps rs a b \<Longrightarrow> keeps_but rs n b c \<Longrightarrow> keeps_but rs n a c"
  by (auto simp: keeps_def keeps_but_def intro: logged_writes_trans)

lemma keeps_weaken: "keeps rs a b \<Longrightarrow> keeps_but rs n a b"
  by (simp add: keeps_def keeps_but_def)

lemma put_success_keeps:
  assumes inv: "pager_inv rs pg" and new: "new_frame pg page"
    and put: "pc_put (pCache pg) page = Inr (r, c)" "put_status r = PC_Success"
  shows "keeps_but rs (frame_page_num page) pg (handle_cache_eviction (pg\<lparr>pCache := c\<rparr>) (put_eviction r))"
    "cache_map (pCache (handle_cache_eviction (pg\<lparr>pCache := c\<rparr>) (put_eviction r))) (page_int (frame_page_num page)) = Some page"
proof -
  obtain f lg us where i: "db_file pg = Some f" "pager_log pg = Some lg" "log_holds lg rs" "log_synced lg"
    "initial_lsn (lg_config lg) \<noteq> 0" "cache_ok (pCache pg) us" "0 < capacity (pCache pg)"
    "\<And>n page. cache_map (pCache pg) n = Some page \<Longrightarrow> frame_ok f lg (wal_dirty_pages pg) page"
    using pager_invE[OF inv] by metis
  let ?m = "cache_map (pCache pg)" let ?k = "page_int (frame_page_num page)"
  have none: "?m ?k = None" using new by (simp add: new_frame_def)
  obtain us' where c: "cache_ok c us'" "capacity c = capacity (pCache pg)" "put_effect (pCache pg) page r c"
    using pc_put_effect[OF i(6) none] put(1) by auto
  have page: "frame_ok f lg (wal_dirty_pages pg) page"
    using new none i(1) by (auto simp: new_frame_def frame_ok_def page_view_def split: if_splits)
  have clean: "\<not> is_dirty v" "complete f (frame_page_num v)" "chunk f (frame_page_num v) = page_data v" "page_int (frame_page_num v) = n"
    if "?m n = Some v" "\<not> wal_pending v" "\<not> (is_dirty v \<and> need_flushing v)" for n v
    using i(8)[OF that(1)] that cache_okD(3)[OF i(6) that(1)] by (auto simp: frame_ok_def)
  have same: "handle_cache_eviction (pg\<lparr>pCache := c\<rparr>) (put_eviction r) = pg\<lparr>pCache := c\<rparr>"
    using c(3) put(2) clean(1) by (auto simp: put_effect_def handle_cache_eviction_def)
  have shape: "cache_map c = ?m(?k \<mapsto> page) \<or> (\<exists>v n. ?m n = Some v \<and> \<not> is_dirty v \<and> complete f (frame_page_num v) \<and>
      chunk f (frame_page_num v) = page_data v \<and> page_int (frame_page_num v) = n \<and> cache_map c = ?m(n := None, ?k \<mapsto> page))"
    using c(3) put(2) clean unfolding put_effect_def by (simp only: if_True simp_thms) metis
  have "pager_inv rs (pg\<lparr>pCache := c\<rparr>)"
    unfolding pager_inv_def using i(1-5,7,8) c(1,2) page shape by (auto split: if_splits)
  moreover have "page_view (pg\<lparr>pCache := c\<rparr>) m = Some d" if "m \<noteq> frame_page_num page" "page_view pg m = Some d" for m d
    using shape
  proof
    assume "cache_map c = ?m(?k \<mapsto> page)"
    then show ?thesis using that by (auto simp: page_view_def split: option.splits)
  next
    assume "\<exists>v n. ?m n = Some v \<and> \<not> is_dirty v \<and> complete f (frame_page_num v) \<and>
      chunk f (frame_page_num v) = page_data v \<and> page_int (frame_page_num v) = n \<and> cache_map c = ?m(n := None, ?k \<mapsto> page)"
    then obtain v where v: "?m (page_int (frame_page_num v)) = Some v" "complete f (frame_page_num v)"
      "chunk f (frame_page_num v) = page_data v" "cache_map c = ?m(page_int (frame_page_num v) := None, ?k \<mapsto> page)" by blast
    show ?thesis using that v i(1) by (cases "m = frame_page_num v") (auto simp: page_view_def split: option.splits if_splits)
  qed
  ultimately show "keeps_but rs (frame_page_num page) pg (handle_cache_eviction (pg\<lparr>pCache := c\<rparr>) (put_eviction r))"
    unfolding same keeps_but_def using c(2) by (simp add: logged_writes.none)
  show "cache_map (pCache (handle_cache_eviction (pg\<lparr>pCache := c\<rparr>) (put_eviction r))) ?k = Some page"
    unfolding same using shape by auto
qed

lemma new_frame_keeps:
  assumes "new_frame pg page" "keeps rs pg pg'" "dom (cache_map (pCache pg')) = dom (cache_map (pCache pg))"
    and "wal_dirty_pages pg - {n} \<subseteq> wal_dirty_pages pg'" "n \<noteq> frame_page_num page"
  shows "new_frame pg' page"
  using assms by (auto simp: new_frame_def keeps_def split: if_splits)

lemma pager_inv_cache:
  "pager_inv rs pg \<Longrightarrow> cache_map c = cache_map (pCache pg) \<Longrightarrow> cache_ok c us \<Longrightarrow> capacity c = capacity (pCache pg) \<Longrightarrow>
     keeps rs pg (pg\<lparr>pCache := c\<rparr>)"
  by (auto simp: keeps_def pager_inv_def page_view_def logged_writes.none split: option.splits)

lemma cache_put_keeps:
  assumes inv: "pager_inv rs pg" and new: "new_frame pg page"
  shows "\<exists>st pg'. cache_put io pg page = Inr (st, pg') \<and> keeps_but rs (frame_page_num page) pg pg' \<and>
    (if st = Pg_Success then cache_map (pCache pg') (page_int (frame_page_num page)) = Some page
     else keeps rs pg pg' \<and> dom (cache_map (pCache pg')) = dom (cache_map (pCache pg)))"
proof -
  have put: "\<exists>r c us'. pc_put (pCache q) page = Inr (r, c) \<and> cache_ok c us' \<and> capacity c = capacity (pCache q) \<and>
    put_effect (pCache q) page r c" if "pager_inv rs q" "new_frame q page" for q
    using that pc_put_effect[of "pCache q" _ page] by (auto simp: new_frame_def elim!: pager_invE)
  obtain r c us' where p: "pc_put (pCache pg) page = Inr (r, c)" "cache_ok c us'" "capacity c = capacity (pCache pg)"
    "put_effect (pCache pg) page r c" using put[OF inv new] by blast
  let ?pg1 = "pg\<lparr>pCache := c\<rparr>"
  have k1: "keeps rs pg ?pg1" if "put_status r \<noteq> PC_Success"
    using pager_inv_cache[OF inv _ p(2,3)] p(4) that by (simp add: put_effect_def)
  consider (ok) "put_status r = PC_Success" | (flush) "put_status r = PC_DirtyFlush"
    | (failed) "put_status r \<noteq> PC_Success" "put_status r \<noteq> PC_DirtyFlush" by blast
  then show ?thesis
  proof cases
    case ok
    then show ?thesis using put_success_keeps[OF inv new p(1) ok] p(1) by (simp add: cache_put_def lift_cache_def Let_def)
  next
    case failed
    have "put_failure (put_status r) \<noteq> Pg_Success" by (simp add: put_failure_def)
    then show ?thesis using k1[OF failed(1)] failed p(1,4) keeps_weaken
      by (simp add: cache_put_def lift_cache_def Let_def put_effect_def)
  next
    case flush
    let ?n = "word_of_int (ev_page_num (put_eviction r)) :: u32"
    obtain v where v: "cache_map (pCache pg) (ev_page_num (put_eviction r)) = Some v" "cache_map c = cache_map (pCache pg)"
      using p(4) flush by (auto simp: put_effect_def)
    have "page_int (frame_page_num v) = ev_page_num (put_eviction r)"
      using inv v(1) cache_okD(3) by (auto elim!: pager_invE)
    then have n: "?n \<noteq> frame_page_num page" using v(1) new by (metis new_frame_def option.distinct(1) page_int_of)
    have kk: "keeps rs pg ?pg1" using k1 flush by simp
    obtain st pg2 where fl: "flush_wal_page io ?pg1 ?n = (st, pg2)" by fastforce
    have f2: "keeps rs ?pg1 pg2" "dom (cache_map (pCache pg2)) = dom (cache_map (pCache pg))"
      "wal_dirty_pages pg - {?n} \<subseteq> wal_dirty_pages pg2"
      using flush_wal_page_keeps[OF _ fl, of rs] kk v(2) by (simp_all add: keeps_def)
    have k2: "keeps rs pg pg2" by (rule keeps_trans[OF kk f2(1)])
    show ?thesis
    proof (cases "st = Pg_Success")
      case False
      then show ?thesis using k2 f2(2) p(1) flush fl keeps_weaken[OF k2]
        by (simp add: cache_put_def lift_cache_def Let_def)
    next
      case True
      have new2: "new_frame pg2 page" by (rule new_frame_keeps[OF new k2 f2(2,3) n])
      have inv2: "pager_inv rs pg2" using k2 by (simp add: keeps_def)
      obtain r2 c2 us2 where q: "pc_put (pCache pg2) page = Inr (r2, c2)" "cache_ok c2 us2" "capacity c2 = capacity (pCache pg2)"
        "put_effect (pCache pg2) page r2 c2" using put[OF inv2 new2] by blast
      have run: "cache_put io pg page = (if put_status r2 = PC_Success
          then Inr (Pg_Success, handle_cache_eviction (pg2\<lparr>pCache := c2\<rparr>) (put_eviction r2))
          else Inr (put_failure (put_status r2), pg2\<lparr>pCache := c2\<rparr>))"
        using p(1) flush fl True q(1) by (simp add: cache_put_def lift_cache_def Let_def)
      show ?thesis
      proof (cases "put_status r2 = PC_Success")
        case True
        show ?thesis using run True put_success_keeps[OF inv2 new2 q(1) True] keeps_keeps_but[OF k2] by simp
      next
        case False
        have k3: "keeps rs pg (pg2\<lparr>pCache := c2\<rparr>)"
          using keeps_trans[OF k2 pager_inv_cache[OF inv2 _ q(2,3)]] q(4) False by (simp add: put_effect_def)
        have "put_failure (put_status r2) \<noteq> Pg_Success" by (simp add: put_failure_def)
        then show ?thesis using run False k3 keeps_weaken[OF k3] q(4) f2(2) by (simp add: put_effect_def)
      qed
    qed
  qed
qed

lemma read_page_frame:
  assumes inv: "pager_inv rs pg" and miss: "cache_map (pCache pg) n = None" and rd: "read_page_from_disk io pg n = Inr page"
  shows "new_frame pg page" "page_int (frame_page_num page) = n" "\<not> is_dirty page" "refs_num page = 0"
proof -
  obtain f where f: "db_file pg = Some f" using inv by (auto elim: pager_invE)
  have b: "0 \<le> n" "n < page_int (db_page_count (db_header pg))"
    using rd by (auto simp: read_page_from_disk_def split: if_splits)
  have "page_int (db_page_count (db_header pg)) < 2 ^ 31"
    using sint_lt[of "db_page_count (db_header pg)"] by (simp add: page_int_def)
  then have n: "page_int (word_of_int n) = n" "unat (word_of_int n :: u32) = nat n"
    using b small_page_int[of n] by simp_all
  let ?d = "chunk f (word_of_int n)"
  have d: "page = \<lparr>page_data = ?d, frame_page_num = word_of_int n, refs_num = 0, is_dirty = False,
      wal_pending = False, need_flushing = False\<rparr>" "complete f (word_of_int n)"
    using rd f b by (auto simp: read_page_from_disk_def read_exact_at_def chunk_def complete_def n(2) V2_PAGE_SIZE_def
        algebra_simps split: if_splits)
  then show "new_frame pg page" using miss n(1) f length_chunk[OF d(2)] by (simp add: new_frame_def page_view_def)
  show "page_int (frame_page_num page) = n" "\<not> is_dirty page" "refs_num page = 0" using d(1) n(1) by simp_all
qed

lemma get_or_load_keeps:
  assumes inv: "pager_inv rs pg"
  shows "\<exists>st pg'. get_or_load_page io pg n = Inr (st, pg') \<and> keeps rs pg pg' \<and>
    (st = Pg_Success \<longrightarrow> (\<exists>page. cache_map (pCache pg') n = Some page \<and>
       (refs_num page = 0 \<or> cache_map (pCache pg) n = Some page)))"
proof (cases "cache_map (pCache pg) n")
  case (Some page)
  then show ?thesis using keeps_refl[OF inv] by (simp add: get_or_load_page_def pc_get_def)
next
  case None
  show ?thesis
  proof (cases "read_page_from_disk io pg n")
    case (Inl st)
    then have "st \<noteq> Pg_Success" by (auto simp: read_page_from_disk_def split: if_splits option.splits sum.splits)
    then show ?thesis using Inl None keeps_refl[OF inv] by (simp add: get_or_load_page_def pc_get_def)
  next
    case (Inr page)
    note fr = read_page_frame[OF inv None Inr]
    obtain st pg' where c: "cache_put io pg page = Inr (st, pg')" "keeps_but rs (frame_page_num page) pg pg'"
      "if st = Pg_Success then cache_map (pCache pg') (page_int (frame_page_num page)) = Some page
       else keeps rs pg pg' \<and> dom (cache_map (pCache pg')) = dom (cache_map (pCache pg))"
      using cache_put_keeps[OF inv fr(1)] by blast
    have "keeps rs pg pg'"
    proof (cases "st = Pg_Success")
      case True
      have "page_view pg' (frame_page_num page) = page_view pg (frame_page_num page)"
        using c(3) True fr(1,3) unfolding new_frame_def by (simp add: page_view_def[of pg'])
      then show ?thesis using c(2) unfolding keeps_but_def keeps_def by metis
    qed (use c(3) in simp)
    then show ?thesis using None Inr c(1,3) fr(2,4) by (auto simp: get_or_load_page_def pc_get_def)
  qed
qed

section \<open>References\<close>

lemma recount_keeps:
  assumes inv: "pager_inv rs pg" and page: "cache_map (pCache pg) n = Some page"
    and c: "cache_ok c us" "capacity c = capacity (pCache pg)" "cache_map c = (cache_map (pCache pg))(n \<mapsto> page\<lparr>refs_num := k\<rparr>)"
  shows "keeps rs pg (pg\<lparr>pCache := c\<rparr>)"
proof -
  have "frame_ok f lg D (page\<lparr>refs_num := k\<rparr>) = frame_ok f lg D page" for f lg D by (simp add: frame_ok_def)
  then have "pager_inv rs (pg\<lparr>pCache := c\<rparr>)"
    using inv page c unfolding pager_inv_def by auto
  moreover have "page_view (pg\<lparr>pCache := c\<rparr>) m = page_view pg m" for m
    using page c(3) by (auto simp: page_view_def split: option.splits)
  ultimately show ?thesis using c(2) by (simp add: keeps_def logged_writes.none)
qed

lemma pin_ref_keeps:
  assumes inv: "pager_inv rs pg" and page: "cache_map (pCache pg) n = Some page" "refs_num page + 1 \<noteq> 0"
  shows "\<exists>pg'. pin_ref pg n page = Inr pg' \<and> keeps rs pg pg' \<and>
    cache_map (pCache pg') = (cache_map (pCache pg))(n \<mapsto> page\<lparr>refs_num := refs_num page + 1\<rparr>)"
proof -
  let ?p = "page\<lparr>refs_num := refs_num page + 1\<rparr>"
  obtain us where us: "cache_ok (pCache pg) us" using inv by (auto elim: pager_invE)
  show ?thesis
  proof (cases "refs_num page = 0")
    case True
    then have "refs_num ?p = 1" by simp
    from pin_page_ok[OF us page(1) True this] obtain c us' where c: "pin_page (set_frame (pCache pg) n ?p) n = Inr c"
      "cache_ok c us'" "cache_map c = (cache_map (pCache pg))(n \<mapsto> ?p)" "capacity c = capacity (pCache pg)" by auto
    then have "pin_ref pg n page = Inr (pg\<lparr>pCache := c\<rparr>)"
      using True by (simp add: pin_ref_def Let_def lift_cache_def put_frame_def)
    then show ?thesis using recount_keeps[OF inv page(1) c(2,4,3)] c(3) by simp
  next
    case False
    have "cache_ok (set_frame (pCache pg) n ?p) us"
      by (rule set_frame_ok[OF us page(1)]) (use False page(2) in simp_all)
    moreover have "pin_ref pg n page = Inr (pg\<lparr>pCache := set_frame (pCache pg) n ?p\<rparr>)"
      using False by (simp add: pin_ref_def Let_def put_frame_def)
    ultimately show ?thesis using recount_keeps[OF inv page(1), of "set_frame (pCache pg) n ?p"] by simp
  qed
qed

section \<open>Flushing all pages\<close>

definition dirty_frames :: "Pager \<Rightarrow> u32 set" where
  "dirty_frames pg = {n. \<exists>page. cache_map (pCache pg) (page_int n) = Some page \<and> is_dirty page}"

lemma flush_success_clean:
  assumes "flush_wal_page io pg n = (Pg_Success, pg')"
  shows "dirty_frames pg' = dirty_frames pg - {n}"
  using assms by (auto simp: dirty_frames_def flush_wal_page_def write_wal_page_def pc_get_def put_frame_def Let_def
      split: option.splits if_splits sum.splits prod.splits)

lemma flush_loop_keeps:
  assumes "pager_inv rs pg" "flush_loop io pg ns = (st, pg')"
  shows "keeps rs pg pg' \<and> (st = Pg_Success \<longrightarrow> dirty_frames pg' = dirty_frames pg - set ns)"
  using assms
proof (induction ns arbitrary: pg)
  case Nil
  then show ?case using keeps_refl by auto
next
  case (Cons n ns)
  obtain st1 pg1 where f: "flush_wal_page io pg n = (st1, pg1)" by fastforce
  have k: "keeps rs pg pg1" using flush_wal_page_keeps[OF Cons.prems(1) f] by simp
  show ?case
  proof (cases "st1 = Pg_Success")
    case False
    then show ?thesis using Cons.prems(2) f k by simp
  next
    case True
    have run: "flush_loop io pg1 ns = (st, pg')" and inv1: "pager_inv rs pg1"
      using Cons.prems(2) f True k by (simp_all add: keeps_def)
    show ?thesis using Cons.IH[OF inv1 run] keeps_trans[OF k] flush_success_clean[OF f[unfolded True]] by auto
  qed
qed

lemma dirty_frames_listed: "pager_inv rs pg \<Longrightarrow> dirty_frames pg \<subseteq> wal_dirty_pages pg"
proof
  fix n
  assume inv: "pager_inv rs pg" and "n \<in> dirty_frames pg"
  then obtain page where page: "cache_map (pCache pg) (page_int n) = Some page" "is_dirty page" by (auto simp: dirty_frames_def)
  from inv obtain f lg us where "cache_ok (pCache pg) us" "frame_ok f lg (wal_dirty_pages pg) page"
    using page(1) by (metis pager_invE)
  then show "n \<in> wal_dirty_pages pg" using cache_okD(3)[of "pCache pg" us, OF _ page(1)] page(2) by (auto simp: frame_ok_def)
qed

lemma clean_view:
  assumes inv: "pager_inv rs pg" and clean: "n \<notin> dirty_frames pg" and view: "page_view pg n = Some d"
  shows "complete (the (db_file pg)) n \<and> chunk (the (db_file pg)) n = d"
proof (cases "cache_map (pCache pg) (page_int n)")
  case None
  then show ?thesis using view by (auto simp: page_view_def split: option.splits if_splits)
next
  case (Some page)
  from inv obtain f lg us where i: "db_file pg = Some f" "cache_ok (pCache pg) us" "frame_ok f lg (wal_dirty_pages pg) page"
    using Some by (metis pager_invE)
  have "frame_page_num page = n" using cache_okD(3)[OF i(2) Some] by simp
  then show ?thesis using i clean view Some by (auto simp: frame_ok_def dirty_frames_def page_view_def split: if_splits)
qed

definition none_pending :: "Pager \<Rightarrow> bool" where
  "none_pending pg = (\<forall>n page. cache_map (pCache pg) n = Some page \<longrightarrow> \<not> wal_pending page)"

lemma flush_wal_page_succeeds:
  assumes inv: "pager_inv rs pg" and idle: "none_pending pg" and io: "io_write io n = None"
  shows "\<exists>pg'. flush_wal_page io pg n = (Pg_Success, pg') \<and> none_pending pg'"
proof (cases "cache_map (pCache pg) (page_int n)")
  case None
  then show ?thesis using idle by (simp add: flush_wal_page_def pc_get_def none_pending_def)
next
  case (Some page)
  from inv obtain f lg us where i: "db_file pg = Some f" "pager_log pg = Some lg" "log_holds lg rs" "log_synced lg"
    "initial_lsn (lg_config lg) \<noteq> 0" "frame_ok f lg (wal_dirty_pages pg) page"
    using Some by (metis pager_invE)
  have p: "\<not> wal_pending page" using idle Some by (auto simp: none_pending_def)
  show ?thesis
  proof (cases "is_dirty page")
    case False
    then show ?thesis using Some p idle by (auto simp: flush_wal_page_def pc_get_def none_pending_def put_frame_def)
  next
    case True
    have fr: "initial_lsn (lg_config lg) \<le> page_lsn (page_data page)" "page_lsn (page_data page) < lg_next_lsn lg"
      using i(6) True p by (auto simp: frame_ok_def)
    moreover from fr(1) i(5) have "page_lsn (page_data page) \<noteq> 0" by auto
    ultimately show ?thesis
      using log_sync_keeps[OF i(3,4) fr] Some p True i(1,2) idle io
      by (auto simp: flush_wal_page_def write_wal_page_def pc_get_def none_pending_def put_frame_def Let_def write_exact_at_def)
  qed
qed

lemma flush_loop_succeeds:
  "pager_inv rs pg \<Longrightarrow> none_pending pg \<Longrightarrow> (\<forall>n. io_write io n = None) \<Longrightarrow> fst (flush_loop io pg ns) = Pg_Success"
proof (induction ns arbitrary: pg)
  case (Cons n ns)
  obtain pg1 where f: "flush_wal_page io pg n = (Pg_Success, pg1)" "none_pending pg1"
    using flush_wal_page_succeeds[OF Cons.prems(1,2) spec[OF Cons.prems(3), of n]] by blast
  have "pager_inv rs pg1" using flush_wal_page_keeps[OF Cons.prems(1) f(1)] by (simp add: keeps_def)
  then show ?case using Cons.IH[of pg1] f Cons.prems(3) by simp
qed simp

section \<open>Properties\<close>



text \<open>C40: \<open>allocate_page\<close> keeps a pointer to the header frame across the call that caches the
  new page, without a reference to it.  When the cache is full and the header is the clean frame
  unpinned last, that call evicts the header, and the next access goes through the dead pointer.\<close>

theorem allocate_loses_header:
  assumes cache: "cache_ok (pCache pg) (us @ [(0, 0)])" "pc_length (pCache pg) = capacity (pCache pg)"
    and header: "cache_map (pCache pg) 0 = Some page" "\<not> is_dirty page" "\<not> wal_pending page"
    and new: "db_page_count (db_header pg) \<noteq> 0" "cache_map (pCache pg) (page_int (db_page_count (db_header pg))) = None"
    and pg: "pager_is_open pg" "freelist_page_count (db_header pg) = 0"
  shows "allocate_page io grant Map.empty pg BTreeLeaf = Inl Dangling_page"
proof -
  let ?n = "db_page_count (db_header pg)" let ?c = "pCache pg"
  let ?page = "(make_page ?n BTreeLeaf)\<lparr>refs_num := 1, is_dirty := True, wal_pending := True, need_flushing := True\<rparr>"
  have num: "page_int (frame_page_num page) = 0" using cache_okD(3)[OF cache(1) header(1)] .
  have "recent_frames ?c (us @ [(0, 0)]) = page # recent_frames ?c us" using header(1) by (simp add: recent_frames_def)
  then have v: "victim_of (recent_frames ?c (us @ [(0, 0)])) = Some page" using header(2,3) by (simp add: victim_of_def Let_def)
  have miss: "cache_map ?c (page_int (frame_page_num ?page)) = None" using new(2) by (simp add: make_page_def)
  obtain r c where put: "pc_put ?c ?page = Inr (r, c)" "put_status r = PC_Success" "ev_was_dirty (put_eviction r) = False"
    "cache_map c = (cache_map ?c)(0 := None, page_int ?n \<mapsto> ?page)"
    using pc_put_outcome[OF cache(1) miss] v header(2) cache(2) num
    by (auto simp: put_outcome_def Let_def make_page_def)
  have "page_int ?n \<noteq> page_int 0" using new(1) by simp
  then have n0: "page_int ?n \<noteq> 0" by (simp add: page_int_def)
  define pg1 where "pg1 = pg\<lparr>wal_dirty_pages := insert ?n (wal_dirty_pages pg)\<rparr>"
  have cp: "cache_put io pg1 ?page = Inr (Pg_Success, pg1\<lparr>pCache := c\<rparr>)"
    using put by (simp add: cache_put_def lift_cache_def Let_def handle_cache_eviction_def pg1_def)
  have "deref (pg1\<lparr>pCache := c\<rparr>) 0 = Inl Dangling_page"
    using put(4) n0 by (simp add: deref_def pc_get_def)
  then have mark: "mark_loaded_page_wal_pending held (pg1\<lparr>pCache := c\<rparr>) 0 = Inl Dangling_page" for held
    by (simp add: mark_loaded_page_wal_pending_def)
  show ?thesis
    using pg new(1) header(1) cp mark
    by (simp add: allocate_page_def allocate_new_page_def latch_exclusive_def lift_exn_def op_lock_exclusive_def Let_def
        FREELIST_NULL_PAGE_NUM_def DB_HEADER_PAGE_NUM_def ensure_header_page_loaded_def get_or_load_page_def pc_get_def
        on_success_def pg1_def)
qed

section \<open>Examples\<close>

lemma update_checksum_idem: "length p = V2_PAGE_SIZE \<Longrightarrow> update_checksum (update_checksum p) = update_checksum p"
  using pc.checksum_ignores_field[of p]
  by (simp add: update_checksum_def put_be write_at_again page_sizes)

definition two_pages :: disk_file where
  "two_pages = \<lparr>f_data = page_initialize 0 DatabaseMetadata @ page_initialize 1 BTreeLeaf, f_durable = 8192\<rparr>"

definition sample_pager :: "Log \<Rightarrow> PCache \<Rightarrow> u32 set \<Rightarrow> Pager" where
  "sample_pager lg c dirty = \<lparr>wal_dirty_pages = dirty, db_file = Some two_pages, pCache = c, pager_log = Some lg,
     pager_is_open = True, db_header = new_DBHeader\<lparr>db_page_count := 2\<rparr>\<rparr>"

definition good_io :: pager_io where
  "good_io = \<lparr>io_read = \<lambda>_. True, io_write = \<lambda>_. None, io_sync = True, io_stat = True, io_create = True,
     io_open = True, io_close = True\<rparr>"

lemma two_pages_chunks:
  "complete two_pages 0" "complete two_pages 1" "chunk two_pages 0 = page_initialize 0 DatabaseMetadata"
  "chunk two_pages 1 = page_initialize 1 BTreeLeaf"
  by (simp_all add: complete_def chunk_def two_pages_def file_size_def V2_PAGE_SIZE_def length_page_ops(4)[unfolded V2_PAGE_SIZE_def])

lemma sample_pager_inv: "pager_inv [] (sample_pager (empty_log tiny_config) (new_PCache 64) {})"
  using tiny_log new_PCache_ok[of 64] unfolding pager_inv_def
  by (auto simp: sample_pager_def new_PCache_def intro!: exI[of _ "[]"])


text \<open>A pinned dirty frame for page one, stamped with the first record of the log.\<close>

definition stamped_page :: bytes where
  "stamped_page = update_checksum (set_page_lsn (page_initialize 1 BTreeLeaf) 1)"

definition dirty_cache :: PCache where
  "dirty_cache = \<lparr>capacity = 64, pc_length = 1, cache_map = [page_int 1 \<mapsto>
     \<lparr>page_data = stamped_page, frame_page_num = 1, refs_num = 1, is_dirty = True, wal_pending = False, need_flushing = True\<rparr>],
     unpinned_pages = new_DLList\<rparr>"

lemma dirty_cache_ok: "cache_ok dirty_cache []"
  using new_DLList_holds by (simp add: cache_ok_def dirty_cache_def)

lemma stamped_page_facts:
  "length stamped_page = V2_PAGE_SIZE" "update_checksum stamped_page = stamped_page" "page_lsn stamped_page = 1"
  by (simp_all add: stamped_page_def update_checksum_idem update_checksum_fields)
    (simp add: page_lsn_def set_page_lsn_def codec_simps page_sizes)


text \<open>A full cache of the default capacity in which only the header is not pinned.\<close>

definition full_cache :: PCache where
  "full_cache = \<lparr>capacity = 64, pc_length = 64,
     cache_map = (\<lambda>n. if 0 \<le> n \<and> n < 64
       then Some ((make_page (word_of_int n) BTreeLeaf)\<lparr>refs_num := (if n = 0 then 0 else 1)\<rparr>) else None),
     unpinned_pages = dl_add new_DLList 0 0\<rparr>"

lemma full_cache_ok: "cache_ok full_cache ([] @ [(0, 0)])"
proof -
  have "dl_holds (dl_add (new_DLList :: int DLList) 0 0) ([] @ [(0, 0)])"
    by (rule dl_ops(4)[OF new_DLList_holds]) simp
  moreover have "dom (cache_map full_cache) = {0..<64}" by (auto simp: full_cache_def split: if_splits)
  moreover have "page_int (word_of_int n) = n" if "0 \<le> n" "n < 64" for n
    using that small_page_int(1)[of n] by simp
  ultimately show ?thesis
    by (auto simp: cache_ok_def full_cache_def make_page_def split: if_splits)
qed

theorem allocate_loses_header_witness:
  "allocate_page good_io (\<lambda>_. 0) Map.empty
     ((sample_pager (empty_log tiny_config) full_cache {})\<lparr>db_header := new_DBHeader\<lparr>db_page_count := 100\<rparr>\<rparr>) BTreeLeaf
   = Inl Dangling_page"
  by (rule allocate_loses_header[of _ "[]" "make_page 0 BTreeLeaf"])
    (use full_cache_ok in \<open>simp_all add: sample_pager_def full_cache_def make_page_def new_DBHeader_def page_int_def\<close>)

end
