(* ===== verification/Recovery.thy ===== *)
theory Recovery
  imports PagerSafety
begin

text \<open>
  Crash recovery, after \<open>src/src/Recovery.cpp\<close>: analysis and redo, which replay the whole log onto
  the raw database file, and the undo pass.  \<open>fault lsn i\<close> says how the \<open>i\<close>-th page write for the
  record at \<open>lsn\<close> fails, if it does.  The theorems say what redo leaves in the file, which
  transactions it reports as unfinished and which Raft index as applied, and that it ends.
\<close>

section \<open>Redo\<close>

type_synonym unresolved = "u64 \<rightharpoonup> Lsn"

record redo_state =
  rd_file :: disk_file
  rd_unresolved :: unresolved
  rd_last_applied :: u64

fun redo_page_effects :: "(nat \<Rightarrow> nat option) \<Rightarrow> nat \<Rightarrow> disk_file \<Rightarrow> PageEffect list \<Rightarrow> unit res \<times> disk_file" where
  "redo_page_effects fault i f [] = (Inr (), f)"
| "redo_page_effects fault i f (e # es) =
     (case write_exact_at (fault i) f (after_image e) (unat (effect_page_num e) * V2_PAGE_SIZE) of
        (Inl x, f) \<Rightarrow> (Inl x, f)
      | (Inr _, f) \<Rightarrow> redo_page_effects fault (i + 1) f es)"

text \<open>Replaying the effects of a record and noting it as its transaction's last, if it has one.\<close>

definition redo_effects ::
    "(nat \<Rightarrow> nat option) \<Rightarrow> redo_state \<Rightarrow> PageEffect list \<Rightarrow> (u64 \<times> Lsn) option \<Rightarrow> unit res \<times> redo_state" where
  "redo_effects fault st effects note_txn =
     (case redo_page_effects fault 0 (rd_file st) effects of
        (Inl e, f) \<Rightarrow> (Inl e, st\<lparr>rd_file := f\<rparr>)
      | (Inr _, f) \<Rightarrow>
          (Inr (), st\<lparr>rd_file := f, rd_unresolved := (case note_txn of None \<Rightarrow> rd_unresolved st
             | Some (t, lsn) \<Rightarrow> (rd_unresolved st)(t \<mapsto> lsn))\<rparr>))"

text \<open>The cases of the \<open>switch\<close>.  \<open>std::get\<close> on another alternative throws.\<close>

definition redo_record :: "(nat \<Rightarrow> nat option) \<Rightarrow> Lsn \<Rightarrow> WalRecord \<Rightarrow> redo_state \<Rightarrow> unit res \<times> redo_state" where
  "redo_record fault offset rec st =
     (let t = w_transaction_id rec in
      case w_type rec of
        TxnBegin \<Rightarrow> (Inr (), st\<lparr>rd_unresolved := (rd_unresolved st)(t \<mapsto> offset)\<rparr>)
      | BTreeAction \<Rightarrow>
          (case payload_decode (w_type rec) (w_data rec) of
             Inl e \<Rightarrow> (Inl e, st)
           | Inr (BTreeActionPayload _ effects) \<Rightarrow> redo_effects fault st effects (Some (t, w_lsn rec))
           | Inr _ \<Rightarrow> (Inl Logic_error, st))
      | Compensation \<Rightarrow>
          (case payload_decode (w_type rec) (w_data rec) of
             Inl e \<Rightarrow> (Inl e, st)
           | Inr (CompensationPayload _ _ effects) \<Rightarrow> redo_effects fault st effects (Some (t, w_lsn rec))
           | Inr _ \<Rightarrow> (Inl Logic_error, st))
      | SystemAction \<Rightarrow>
          (case payload_decode (w_type rec) (w_data rec) of
             Inl e \<Rightarrow> (Inl e, st)
           | Inr (SystemActionPayload _ effects) \<Rightarrow> redo_effects fault st effects None
           | Inr _ \<Rightarrow> (Inl Logic_error, st))
      | TxnCommit \<Rightarrow>
          let st = st\<lparr>rd_unresolved := (rd_unresolved st)(t := None)\<rparr> in
          (case payload_decode (w_type rec) (w_data rec) of
             Inl e \<Rightarrow> (Inl e, st)
           | Inr (CommitPayload raft_index) \<Rightarrow>
               (Inr (), if raft_index > rd_last_applied st then st\<lparr>rd_last_applied := raft_index\<rparr> else st)
           | Inr _ \<Rightarrow> (Inl Logic_error, st))
      | TxnEnd \<Rightarrow> (Inr (), st\<lparr>rd_unresolved := (rd_unresolved st)(t := None)\<rparr>)
      | TxnAbort \<Rightarrow> (Inr (), st)
      | Unknown_type _ \<Rightarrow> (Inr (), st))"

text \<open>The loop advances only inside the cases: a record of an unknown type would be read again
  and again.  The codec never returns one, which is what ends the loop.\<close>

function redo_loop :: "(Lsn \<Rightarrow> nat \<Rightarrow> nat option) \<Rightarrow> Log \<Rightarrow> Lsn \<Rightarrow> redo_state \<Rightarrow> unit res \<times> redo_state" where
  "redo_loop fault lg offset st =
     (case log_read lg offset of
        Inl e \<Rightarrow> (if e = Out_of_range then Inr () else Inl e, st)
      | Inr rec \<Rightarrow>
          (case redo_record (fault offset) offset rec st of
             (Inl e, st) \<Rightarrow> (if e = Out_of_range then Inr () else Inl e, st)
           | (Inr _, st) \<Rightarrow> redo_loop fault lg (if is_known_type (w_type rec) then offset + 1 else offset) st))"
  by pat_completeness auto

termination
proof (relation "measure (\<lambda>(fault, lg, offset, st). unat (lg_next_lsn lg) - unat offset)")
  fix fault :: "Lsn \<Rightarrow> nat \<Rightarrow> nat option" and lg offset rec e st' x
  assume "log_read lg offset = Inr rec"
  note b = log_read_bounds[OF this]
  have "unat offset < unat (lg_next_lsn lg)" using b(1) by (simp add: word_less_nat_alt)
  then have "unat (offset + 1) = unat offset + 1"
    using unat_bound[of "lg_next_lsn lg"] by (simp add: unat_plus_if_size word_size)
  then show "((fault, lg, if is_known_type (w_type rec) then offset + 1 else offset, st'), fault, lg, offset, x)
      \<in> measure (\<lambda>(fault, lg, offset, st). unat (lg_next_lsn lg) - unat offset)" for x
    using b \<open>unat offset < unat (lg_next_lsn lg)\<close> by simp
qed simp

declare redo_loop.simps [simp del]

text \<open>\<open>db\<close> is the database file, if it exists.\<close>

definition aries_recovery_redo ::
    "(Lsn \<Rightarrow> nat \<Rightarrow> nat option) \<Rightarrow> pager_io \<Rightarrow> Log \<Rightarrow> disk_file option \<Rightarrow> unresolved \<Rightarrow> u64 \<Rightarrow>
     unit res \<times> disk_file option \<times> unresolved \<times> u64" where
  "aries_recovery_redo fault io lg db unresolved last_applied =
     (case db of
        None \<Rightarrow> (Inr (), None, unresolved, last_applied)
      | Some f \<Rightarrow>
          if \<not> io_open io then (Inl System_error, Some f, unresolved, last_applied)
          else (case redo_loop fault lg (initial_lsn (lg_config lg))
                       \<lparr>rd_file = f, rd_unresolved = unresolved, rd_last_applied = last_applied\<rparr> of
                  (Inl e, st) \<Rightarrow> (Inl e, Some (rd_file st), rd_unresolved st, rd_last_applied st)
                | (Inr _, st) \<Rightarrow>
                    if \<not> io_sync io then (Inl System_error, Some (rd_file st), rd_unresolved st, rd_last_applied st)
                    else (Inr (), Some (sync_file_to_disk_fd (rd_file st)), rd_unresolved st, rd_last_applied st)))"

section \<open>What redo computes\<close>

text \<open>The page effects a record carries.\<close>

definition effects_of :: "WalRecord \<Rightarrow> PageEffect list" where
  "effects_of r = (case record_decode r of
     Inr (BTreeActionPayload _ es) \<Rightarrow> es
   | Inr (CompensationPayload _ _ es) \<Rightarrow> es
   | Inr (SystemActionPayload _ es) \<Rightarrow> es
   | _ \<Rightarrow> [])"

definition last_image :: "u32 \<Rightarrow> WalRecord list \<Rightarrow> bytes option" where
  "last_image n rs = (let es = filter (\<lambda>e. effect_page_num e = n) (concat (map effects_of rs))
     in if es = [] then None else Some (after_image (last es)))"

text \<open>A transaction is unfinished when no commit or end record follows its last record that
  redo notes.\<close>

definition opens_txn :: "WalRecord \<Rightarrow> bool" where
  "opens_txn r = (w_type r \<in> {TxnBegin, BTreeAction, Compensation})"

definition closes_txn :: "WalRecord \<Rightarrow> bool" where
  "closes_txn r = (w_type r \<in> {TxnCommit, TxnEnd})"

definition unfinished :: "WalRecord list \<Rightarrow> u64 \<Rightarrow> Lsn \<Rightarrow> bool" where
  "unfinished rs t l = (\<exists>before r after. rs = before @ r # after \<and> w_transaction_id r = t \<and> opens_txn r \<and> w_lsn r = l \<and>
     (\<forall>q\<in>set after. w_transaction_id q = t \<longrightarrow> \<not> opens_txn q \<and> \<not> closes_txn q))"

definition raft_index_of :: "WalRecord \<Rightarrow> u64" where
  "raft_index_of r = (case record_decode r of Inr (CommitPayload i) \<Rightarrow> i | _ \<Rightarrow> 0)"

definition decodable :: "WalRecord \<Rightarrow> bool" where
  "decodable r = (\<exists>p. record_decode r = Inr p)"

definition redo_pure :: "WalRecord \<Rightarrow> redo_state \<Rightarrow> redo_state" where
  "redo_pure r st =
     \<lparr>rd_file = foldl (\<lambda>f e. f\<lparr>f_data := overwrite (f_data f) (unat (effect_page_num e) * V2_PAGE_SIZE) (after_image e)\<rparr>)
        (rd_file st) (effects_of r),
      rd_unresolved = (if opens_txn r then (rd_unresolved st)(w_transaction_id r \<mapsto> w_lsn r)
        else if closes_txn r then (rd_unresolved st)(w_transaction_id r := None) else rd_unresolved st),
      rd_last_applied = max (rd_last_applied st) (raft_index_of r)\<rparr>"

lemma redo_page_effects_pure:
  "redo_page_effects (\<lambda>_. None) i f es =
     (Inr (), foldl (\<lambda>f e. f\<lparr>f_data := overwrite (f_data f) (unat (effect_page_num e) * V2_PAGE_SIZE) (after_image e)\<rparr>) f es)"
  by (induction es arbitrary: f i) (simp_all add: write_exact_at_def)

lemma redo_record_pure:
  assumes "decodable r" "w_lsn r = off"
  shows "redo_record (\<lambda>_. None) off r st = (Inr (), redo_pure r st)"
proof -
  obtain p where p: "payload_decode (w_type r) (w_data r) = Inr p" "record_decode r = Inr p"
    using assms(1) by (auto simp: decodable_def record_decode_def)
  then have "payload_matches (w_type r) p" by (simp add: payload_decode_iff)
  then have "case p of BeginPayload \<Rightarrow> w_type r = TxnBegin | BTreeActionPayload _ _ \<Rightarrow> w_type r = BTreeAction
      | CompensationPayload _ _ _ \<Rightarrow> w_type r = Compensation | SystemActionPayload _ _ \<Rightarrow> w_type r = SystemAction
      | CommitPayload _ \<Rightarrow> w_type r = TxnCommit | AbortPayload _ \<Rightarrow> w_type r = TxnAbort | EndPayload \<Rightarrow> w_type r = TxnEnd"
    by (simp add: payload_matches_def require_payload_type_iff)
  then show ?thesis
    using p assms(2) unfolding redo_record_def redo_pure_def effects_of_def raft_index_of_def opens_txn_def closes_txn_def
    by (cases p) (auto simp: redo_effects_def redo_page_effects_pure max_def Let_def intro!: redo_state.equality)
qed

lemma redo_loop_pure:
  assumes p: "log_holds lg rs" and d: "\<forall>r\<in>set rs. decodable r"
  shows "i \<le> length rs \<Longrightarrow> redo_loop (\<lambda>_ _. None) lg (initial_lsn (lg_config lg) + of_nat i) st =
    (Inr (), fold redo_pure (drop i rs) st)"
proof (induction "length rs - i" arbitrary: i st)
  case 0
  then have "log_read lg (initial_lsn (lg_config lg) + of_nat i) = Inl Out_of_range"
    using log_end(1,2)[OF p] by (simp add: log_read_def)
  then show ?case using 0 by (simp add: redo_loop.simps)
next
  case (Suc k)
  let ?o = "initial_lsn (lg_config lg) + of_nat i"
  have i: "i < length rs" using Suc.hyps(2) by simp
  have rd: "log_read lg ?o = Inr (rs ! i)" by (rule log_end(3)[OF p i])
  note b = log_read_bounds[OF rd]
  have "redo_record (\<lambda>_. None) ?o (rs ! i) st = (Inr (), redo_pure (rs ! i) st)"
    by (rule redo_record_pure) (use d i b(3) in auto)
  then have "redo_loop (\<lambda>_ _. None) lg ?o st = redo_loop (\<lambda>_ _. None) lg (?o + 1) (redo_pure (rs ! i) st)"
    using rd b(2) by (subst redo_loop.simps) simp
  moreover have "?o + 1 = initial_lsn (lg_config lg) + of_nat (i + 1)" by simp
  moreover have "drop i rs = rs ! i # drop (i + 1) rs" using i by (simp add: Cons_nth_drop_Suc)
  ultimately show ?case using Suc.hyps(1)[of "i + 1" "redo_pure (rs ! i) st"] Suc.hyps(2) i by simp
qed

section \<open>The result of redo\<close>

definition replay :: "disk_file \<Rightarrow> PageEffect list \<Rightarrow> disk_file" where
  "replay = foldl (\<lambda>f e. f\<lparr>f_data := overwrite (f_data f) (unat (effect_page_num e) * V2_PAGE_SIZE) (after_image e)\<rparr>)"

lemma replay_snoc:
  "replay f (es @ [e]) = (replay f es)\<lparr>f_data := overwrite (f_data (replay f es)) (unat (effect_page_num e) * V2_PAGE_SIZE) (after_image e)\<rparr>"
  by (simp add: replay_def)

lemma replay_chunk:
  assumes "\<forall>e\<in>set es. length (after_image e) = V2_PAGE_SIZE"
  shows "if filter (\<lambda>e. effect_page_num e = n) es = []
    then complete f n \<longrightarrow> complete (replay f es) n \<and> chunk (replay f es) n = chunk f n
    else complete (replay f es) n \<and> chunk (replay f es) n = after_image (last (filter (\<lambda>e. effect_page_num e = n) es))"
  using assms
proof (induction es rule: rev_induct)
  case Nil
  then show ?case by (simp add: replay_def)
next
  case (snoc e es)
  have len: "length (after_image e) = V2_PAGE_SIZE" using snoc.prems by simp
  show ?case
  proof (cases "effect_page_num e = n")
    case True
    then show ?thesis using chunk_overwrite_same[OF len, of "replay f es" n] by (simp add: replay_snoc)
  next
    case False
    then show ?thesis using snoc chunk_overwrite_other[of "replay f es" n "effect_page_num e" "after_image e"] len
      by (auto simp: replay_snoc split: if_splits)
  qed
qed

lemma fold_redo_file: "rd_file (fold redo_pure rs st) = replay (rd_file st) (concat (map effects_of rs))"
  by (induction rs arbitrary: st) (simp_all add: redo_pure_def replay_def)

lemma unfinished_snoc:
  "unfinished (rs @ [r]) t l \<longleftrightarrow>
     (if w_transaction_id r = t \<and> opens_txn r then l = w_lsn r
      else \<not> (w_transaction_id r = t \<and> closes_txn r) \<and> unfinished rs t l)"
proof (cases "w_transaction_id r = t \<and> opens_txn r")
  case True
  have "unfinished (rs @ [r]) t l" if "l = w_lsn r" unfolding unfinished_def using True that by force
  moreover have "l = w_lsn r" if "unfinished (rs @ [r]) t l"
  proof -
    obtain before q after where q: "rs @ [r] = before @ q # after" "w_lsn q = l"
      "\<forall>x\<in>set after. w_transaction_id x = t \<longrightarrow> \<not> opens_txn x \<and> \<not> closes_txn x"
      using \<open>unfinished (rs @ [r]) t l\<close> by (auto simp: unfinished_def)
    then show ?thesis using True by (cases after rule: rev_cases) auto
  qed
  ultimately show ?thesis using True by auto
next
  case False
  have "unfinished rs t l \<and> \<not> (w_transaction_id r = t \<and> closes_txn r)" if u: "unfinished (rs @ [r]) t l"
  proof -
    obtain before q after where q: "rs @ [r] = before @ q # after" "w_transaction_id q = t" "opens_txn q" "w_lsn q = l"
      "\<forall>x\<in>set after. w_transaction_id x = t \<longrightarrow> \<not> opens_txn x \<and> \<not> closes_txn x"
      using u[unfolded unfinished_def] by (elim exE conjE) (rule that, assumption+)
    show ?thesis
    proof (cases after rule: rev_cases)
      case Nil
      then show ?thesis using q(1-3) False by simp
    next
      case (snoc after' x)
      then have x: "x = r" "rs = before @ q # after'" using q(1) by simp_all
      have "unfinished rs t l" unfolding unfinished_def
        by (rule exI[of _ before], rule exI[of _ q], rule exI[of _ after']) (use x(2) q(2-5) snoc in simp)
      then show ?thesis using q(5) snoc x(1) by simp
    qed
  qed
  moreover have "unfinished (rs @ [r]) t l" if u: "unfinished rs t l" "\<not> (w_transaction_id r = t \<and> closes_txn r)"
  proof -
    obtain before q after where q: "rs = before @ q # after" "w_transaction_id q = t" "opens_txn q" "w_lsn q = l"
      "\<forall>x\<in>set after. w_transaction_id x = t \<longrightarrow> \<not> opens_txn x \<and> \<not> closes_txn x"
      using u(1)[unfolded unfinished_def] by (elim exE conjE) (rule that, assumption+)
    show ?thesis unfolding unfinished_def
      by (rule exI[of _ before], rule exI[of _ q], rule exI[of _ "after @ [r]"]) (use q False u(2) in auto)
  qed
  ultimately show ?thesis using False by auto
qed

lemma fold_redo_unresolved:
  "rd_unresolved st = Map.empty \<Longrightarrow> rd_unresolved (fold redo_pure rs st) t = Some l \<longleftrightarrow> unfinished rs t l"
proof (induction rs rule: rev_induct)
  case Nil
  then show ?case by (simp add: unfinished_def)
next
  case (snoc r rs)
  have "opens_txn r \<Longrightarrow> \<not> closes_txn r" by (auto simp: opens_txn_def closes_txn_def)
  then show ?case using snoc by (auto simp: unfinished_snoc redo_pure_def)
qed

lemma fold_redo_applied: "rd_last_applied (fold redo_pure rs st) = fold (\<lambda>r. max (raft_index_of r)) rs (rd_last_applied st)"
  by (induction rs arbitrary: st) (simp_all add: redo_pure_def max.commute)

lemma decoded_images:
  assumes "e \<in> set (effects_of r)"
  shows "effect_ok e" "length (after_image e) = V2_PAGE_SIZE"
proof -
  obtain p where p: "record_decode r = Inr p" using assms by (cases "record_decode r") (auto simp: effects_of_def)
  then have "payload_ok p" by (simp add: record_decode_def payload_decode_iff payload_matches_def)
  then show "effect_ok e" using assms p by (cases p) (auto simp: effects_of_def effects_ok_def)
  then show "length (after_image e) = V2_PAGE_SIZE" by (simp add: effect_ok_def structure_length)
qed

lemma redo_run:
  assumes "log_holds lg rs" "\<forall>r\<in>set rs. decodable r" "io_open io" "io_sync io"
  shows "aries_recovery_redo (\<lambda>_ _. None) io lg (Some f) Map.empty 0 =
    (let st = fold redo_pure rs \<lparr>rd_file = f, rd_unresolved = Map.empty, rd_last_applied = 0\<rparr>
     in (Inr (), Some (sync_file_to_disk_fd (rd_file st)), rd_unresolved st, rd_last_applied st))"
  using redo_loop_pure[OF assms(1,2), of 0] assms(3,4) by (simp add: aries_recovery_redo_def Let_def)

lemma redo_pages:
  fixes f rs
  defines "g \<equiv> sync_file_to_disk_fd (rd_file (fold redo_pure rs \<lparr>rd_file = f, rd_unresolved = Map.empty, rd_last_applied = 0\<rparr>))"
  shows "case last_image n rs of
       Some d \<Rightarrow> complete g n \<and> chunk g n = d
     | None \<Rightarrow> complete f n \<longrightarrow> complete g n \<and> chunk g n = chunk f n"
proof -
  have sync: "complete (sync_file_to_disk_fd h) n = complete h n" "chunk (sync_file_to_disk_fd h) n = chunk h n" for h
    by (simp_all add: sync_file_to_disk_fd_def complete_def chunk_def file_size_def)
  have "\<forall>e\<in>set (concat (map effects_of rs)). length (after_image e) = V2_PAGE_SIZE" using decoded_images(2) by auto
  from replay_chunk[OF this, of n f] show ?thesis
    by (auto simp: g_def sync fold_redo_file last_image_def Let_def split: if_splits)
qed

section \<open>Stale checksums\<close>

lemma put_get_u32: "p + 4 \<le> length b \<Longrightarrow> put_u32_be b p (get_u32_be b p) = b"
proof -
  have "take p b @ take 4 (drop p b) @ drop (p + 4) b = b" by (metis add.commute append_take_drop_id drop_drop)
  then show "p + 4 \<le> length b \<Longrightarrow> ?thesis" by (simp add: put_be be32_get_slice write_at_take_drop)
qed

lemma relink_one_byte:
  assumes "length d = V2_PAGE_SIZE" "page_kind d = Freelist" "read_freelist_links d = (nx, 0)" "unat num < 256"
  shows "write_freelist_links d nx num = d[31 := ucast num]" "d ! 31 = 0"
proof -
  have k: "get_u32_be d 20 = 2" using assms(2) by (auto simp: page_kind_def page_kind_of_def split: if_splits)
  have l: "get_u32_be d 24 = nx" "get_u32_be d 28 = 0"
    using assms(3) by (simp_all add: read_freelist_links_def V2_PAGE_HEADER_SIZE_def)
  have kind: "set_page_kind d Freelist = d"
    using put_get_u32[of 20 d] k assms(1) by (simp add: set_page_kind_def page_sizes)
  have nxt: "put_u32_be d 24 nx = d" using put_get_u32[of 24 d] l(1) assms(1) by (simp add: page_sizes)
  have slice: "take 4 (drop 28 d) = [0, 0, 0, 0]"
    using be32_get_slice[of 28 d] l(2) assms(1) by (simp add: page_sizes be32_zero numeral_eq_Suc)
  have "take 4 (drop 28 d) ! 0 = d ! 28" "take 4 (drop 28 d) ! 1 = d ! 29" "take 4 (drop 28 d) ! 2 = d ! 30"
    "take 4 (drop 28 d) ! 3 = d ! 31" using assms(1) by (simp_all add: page_sizes)
  then have z: "d ! 28 = 0" "d ! 29 = 0" "d ! 30 = 0" "d ! 31 = 0" unfolding slice by (simp_all add: numeral_eq_Suc)
  from z(4) show "d ! 31 = 0" .
  have "drop_bit k num = 0" if "8 \<le> k" for k
  proof -
    have "(256 :: nat) = 2 ^ 8" by simp
    then have "unat num < 2 ^ k" using assms(4) power_increasing[OF that, of "2 :: nat"] by linarith
    then show ?thesis unfolding word_unat_eq_iff unat_drop_bit_eq by (simp add: drop_bit_eq_div)
  qed
  then have "be32 num = [0, 0, 0, ucast num]" by (simp add: be32_def)
  then have "put_u32_be d 28 num = write_at d 28 [0, 0, 0, ucast num]" by (simp add: put_be)
  also have "\<dots> = d[31 := ucast num]"
    using z(1-3) list_update_id[of d 28] list_update_id[of d 29] list_update_id[of d 30] by simp
  finally show "write_freelist_links d nx num = d[31 := ucast num]"
    by (simp add: write_freelist_links_def kind V2_PAGE_HEADER_SIZE_def nxt)
qed

lemma byte_31_keeps:
  "validate_structure (d[31 := v]) = validate_structure d" "page_num (d[31 := v]) = page_num d"
proof -
  have "get_u32_be (d[31 := v]) 4 = get_u32_be d 4" "get_u32_be (d[31 := v]) 20 = get_u32_be d 20"
    by (rule f32.get_unaffected; simp)+
  then show "validate_structure (d[31 := v]) = validate_structure d" "page_num (d[31 := v]) = page_num d"
    by (simp_all add: validate_structure_def page_num_def page_kind_def)
qed

lemma read_stale_page:
  assumes "db_file pg = Some f" "complete f n" "page_validate (chunk f n) \<noteq> PageSuccess"
    and "0 \<le> page_int n" "page_int n < page_int (db_page_count (db_header pg))" "io_read io (page_int n)"
  shows "read_page_from_disk io pg (page_int n) = Inl Pg_PageCorrupt"
proof -
  show ?thesis
    using assms page_int_nat[OF assms(4)] by (simp add: read_page_from_disk_def read_exact_at_def chunk_def complete_def algebra_simps V2_PAGE_SIZE_def)
qed

text \<open>Freeing a page whose old freelist head is cached.\<close>

lemma free_page_relinks:
  assumes cache: "cache_ok (pCache pg) us" "cache_map (pCache pg) 0 = Some hdr"
      "cache_map (pCache pg) (page_int num) = Some pn" "cache_map (pCache pg) (page_int o1) = Some po"
    and pg: "pager_is_open pg" "o1 = freelist_head_page_num (db_header pg)" "o1 \<noteq> 0" "num \<noteq> 0" "num \<noteq> o1"
      "num < db_page_count (db_header pg)"
    and link: "read_freelist_links (page_data po) = (nx, pv)"
  shows "\<exists>r held' pg'. free_page io grant Map.empty pg num = Inr (r, held', pg') \<and> mut_status r = Pg_Success \<and>
    \<lparr>effect_kind = EffectWrite, effect_page_num = o1, after_image = write_freelist_links (page_data po) nx num\<rparr>
      \<in> set (mut_effects r)"
proof -
  have n: "frame_page_num hdr = 0" "frame_page_num pn = num" "frame_page_num po = o1"
    using cache_okD(3)[OF cache(1) cache(2)] cache_okD(3)[OF cache(1) cache(3)] cache_okD(3)[OF cache(1) cache(4)]
    by simp_all
  have d: "page_int num \<noteq> 0" "page_int o1 \<noteq> 0" "page_int num \<noteq> page_int o1"
    using pg(3-5) by simp_all
  have c: "\<not> db_page_count (db_header pg) \<le> num" using pg(6) by (simp add: not_le)
  show ?thesis
    using cache(2-4) pg(1-5) c link n d
    by (simp add: free_page_def latch_exclusive_def lift_exn_def op_lock_exclusive_def FREELIST_NULL_PAGE_NUM_def
        DB_HEADER_PAGE_NUM_def ensure_header_page_loaded_def get_or_load_page_def pc_get_def on_success_def Let_def
        mark_loaded_page_wal_pending_def deref_def latch_mode_def put_frame_def relink_old_head_def push_free_page_def
        sync_db_header_to_cached_header_page_def page_effect_def)
qed

section \<open>Properties\<close>


text \<open>C39: after-images are logged with the checksum of the page before its change, and redo
  writes them as they are.  Freeing a page changes the back link of the old freelist head; when the
  log is replayed after that, the head of the freelist cannot be read any more.\<close>

theorem freed_page_unreadable_after_redo:
  assumes cache: "cache_ok (pCache pg) us" "cache_map (pCache pg) 0 = Some hdr"
      "cache_map (pCache pg) (page_int num) = Some pn" "cache_map (pCache pg) (page_int o1) = Some po"
    and pg: "pager_is_open pg" "o1 = freelist_head_page_num (db_header pg)" "o1 \<noteq> 0" "num \<noteq> 0" "num \<noteq> o1"
      "num < db_page_count (db_header pg)" "unat num < 256"
    and link: "page_validate (page_data po) = PageSuccess" "page_kind (page_data po) = Freelist"
      "read_freelist_links (page_data po) = (nx, 0)" "page_num (page_data po) = o1"
  shows "\<exists>r held' pg' img. free_page io grant Map.empty pg num = Inr (r, held', pg') \<and> mut_status r = Pg_Success \<and>
    \<lparr>effect_kind = EffectWrite, effect_page_num = o1, after_image = img\<rparr> \<in> set (mut_effects r) \<and>
    effect_ok \<lparr>effect_kind = EffectWrite, effect_page_num = o1, after_image = img\<rparr> \<and>
    (\<forall>lg rs f f' un la pg2.
       log_holds lg rs \<and> (\<forall>r\<in>set rs. decodable r) \<and> last_image o1 rs = Some img \<and>
       aries_recovery_redo (\<lambda>_ _. None) good_io lg (Some f) Map.empty 0 = (Inr (), Some f', un, la) \<and>
       db_file pg2 = Some f' \<and> 0 \<le> page_int o1 \<and> page_int o1 < page_int (db_page_count (db_header pg2)) \<longrightarrow>
       read_page_from_disk good_io pg2 (page_int o1) = Inl Pg_PageCorrupt)"
proof -
  let ?img = "write_freelist_links (page_data po) nx num"
  have len: "length (page_data po) = V2_PAGE_SIZE"
    using link(1) by (auto simp: page_validate_def Let_def structure_length split: if_splits)
  have "unat (ucast num :: u8) = unat num"
    using unat_of_nat_lt[where 'a = 8, of "unat num"] pg(7) by (simp add: of_nat_unat)
  then have "ucast num \<noteq> (0 :: u8)" using pg(4) by (metis unat_0 unat_eq_zero)
  then have stale: "page_validate ?img \<noteq> PageSuccess"
    using relink_one_byte[OF len link(2,3) pg(7)] page_damage[OF link(1), of 31] len by (simp add: page_sizes)
  have "effect_ok \<lparr>effect_kind = EffectWrite, effect_page_num = o1, after_image = ?img\<rparr>"
    using relink_one_byte(1)[OF len link(2,3) pg(7)] link(1,2,4) byte_31_keeps[of "page_data po"]
    by (auto simp: effect_ok_def page_validate_def Let_def split: if_splits)
  moreover obtain r held' pg' where f: "free_page io grant Map.empty pg num = Inr (r, held', pg')" "mut_status r = Pg_Success"
    "\<lparr>effect_kind = EffectWrite, effect_page_num = o1, after_image = ?img\<rparr> \<in> set (mut_effects r)"
    using free_page_relinks[OF cache pg(1-6) link(3), of io grant] by blast
  moreover have "read_page_from_disk good_io pg2 (page_int o1) = Inl Pg_PageCorrupt"
    if h: "log_holds lg rs" "\<forall>r\<in>set rs. decodable r" "last_image o1 rs = Some ?img"
      "aries_recovery_redo (\<lambda>_ _. None) good_io lg (Some g) Map.empty 0 = (Inr (), Some f', un, la)"
      "db_file pg2 = Some f'" "0 \<le> page_int o1" "page_int o1 < page_int (db_page_count (db_header pg2))"
    for lg rs g f' un la pg2
  proof -
    have "f' = sync_file_to_disk_fd (rd_file (fold redo_pure rs \<lparr>rd_file = g, rd_unresolved = Map.empty, rd_last_applied = 0\<rparr>))"
      using redo_run[OF h(1,2), of good_io g] h(4) by (simp add: Let_def good_io_def)
    then have "complete f' o1" "chunk f' o1 = ?img" using redo_pages[where n = o1 and rs = rs] h(3) by fastforce+
    then show ?thesis using read_stale_page[OF h(5)] stale h(6,7) by (simp add: good_io_def)
  qed
  ultimately show ?thesis by blast
qed

section \<open>Examples\<close>

text \<open>A log with one record that carries a given effect.\<close>

lemma log_with_effect:
  assumes "effect_ok e"
  shows "\<exists>lg r. log_holds lg [r] \<and> decodable r \<and> last_image (effect_page_num e) [r] = Some (after_image e) \<and>
    raft_index_of r = 0"
proof -
  let ?p = "SystemActionPayload PageMaintenance [e]"
  have ok: "payload_matches SystemAction ?p"
    using assms by (simp add: payload_matches_def require_payload_type_iff effects_ok_def)
  define q where "q = \<lparr>pw_type = SystemAction, pw_transaction_id = 0, pw_prev_lsn = 0, pw_data = payload_image ?p\<rparr>"
  have len: "length (payload_image ?p) = 1 + 4 + (1 + 4 + V2_PAGE_SIZE)"
    using length_effect_images[of "[e]"] assms by (simp add: effects_image_def)
  obtain b where b: "wal_encode (stamp q 1) = Inr b"
    using len by (auto simp: wal_encode_image validate_fields_def stamp_def q_def WAL_HEADER_SIZE_def V2_PAGE_SIZE_def Let_def)
  have d: "record_decode (stamp q 1) = Inr ?p"
    using ok by (simp add: record_decode_def stamp_def q_def payload_decode_iff)
  obtain lg rss where lg: "concat rss = [stamp q 1]" "log_parts lg rss"
    using log_append_parts[of "empty_log tiny_config" "[[]]" q b] new_Log_empty(2)[OF roomy_tiny] new_tiny b
    by fastforce
  have "log_holds lg [stamp q 1]" using log_holdsI[OF lg(2)] lg(1) by simp
  moreover have "last_image (effect_page_num e) [stamp q 1] = Some (after_image e)"
    by (simp add: last_image_def effects_of_def d)
  moreover have "decodable (stamp q 1)" "raft_index_of (stamp q 1) = 0" using d by (simp_all add: decodable_def raft_index_of_def)
  ultimately show ?thesis by blast
qed

lemma initialized_effect: "is_valid_page_kind k \<Longrightarrow> effect_ok \<lparr>effect_kind = EffectWrite, effect_page_num = n, after_image = page_initialize n k\<rparr>"
  using page_initialize_fields by (simp add: effect_ok_def)


text \<open>Pages 0, 5 and 7 are cached; page 7 is the only free page.\<close>

definition freelist_pager :: Pager where
  "freelist_pager =
     (let pinned = (\<lambda>n k. (make_page n k)\<lparr>refs_num := 1\<rparr>)
      in new_Pager\<lparr>pager_is_open := True,
           db_header := new_DBHeader\<lparr>db_page_count := 9, freelist_head_page_num := 7, freelist_page_count := 1\<rparr>,
           pCache := \<lparr>capacity = 64, pc_length = 3,
             cache_map = [0 \<mapsto> pinned 0 DatabaseMetadata, 5 \<mapsto> pinned 5 BTreeLeaf, 7 \<mapsto> pinned 7 Freelist],
             unpinned_pages = new_DLList\<rparr>\<rparr>)"

lemma freelist_pager_cache:
  "cache_ok (pCache freelist_pager) []" "cache_map (pCache freelist_pager) (page_int 7) = Some ((make_page 7 Freelist)\<lparr>refs_num := 1\<rparr>)"
  "cache_map (pCache freelist_pager) 0 = Some ((make_page 0 DatabaseMetadata)\<lparr>refs_num := 1\<rparr>)"
  "cache_map (pCache freelist_pager) (page_int 5) = Some ((make_page 5 BTreeLeaf)\<lparr>refs_num := 1\<rparr>)"
  using new_DLList_holds by (auto simp: freelist_pager_def cache_ok_def make_page_def page_int_def Let_def split: if_splits)

lemma zero_links: "read_freelist_links (page_initialize n Freelist) = (0, 0)"
proof -
  let ?d = "page_initialize n Freelist"
  have z: "?d ! (24 + i) = 0" if "i < 8" for i
  proof -
    have "drop 24 ?d ! i = 0" using page_initialize_fields(5)[of Freelist n] that by (simp add: V2_PAGE_PAYLOAD_SIZE_def page_sizes)
    then show ?thesis using that by (simp add: page_sizes)
  qed
  have "get_u32_be ?d 24 = get_u32_be (replicate 8 0) 0" "get_u32_be ?d 28 = get_u32_be (replicate 8 0) 4"
    using z z[of "4 + i" for i] by (intro f32.get_local; force)+
  then show ?thesis by (simp add: read_freelist_links_def page_sizes get_u32_be_def numeral_eq_Suc)
qed

theorem freed_page_unreadable_after_redo_witness:
  "\<exists>r held' pg' lg f' un la pg2. free_page good_io (\<lambda>_. 0) Map.empty freelist_pager 5 = Inr (r, held', pg') \<and>
     mut_status r = Pg_Success \<and>
     aries_recovery_redo (\<lambda>_ _. None) good_io lg (Some empty_file) Map.empty 0 = (Inr (), Some f', un, la) \<and>
     db_file pg2 = Some f' \<and> read_page_from_disk good_io pg2 (page_int 7) = Inl Pg_PageCorrupt"
proof -
  note c = freelist_pager_cache
  let ?po = "(make_page 7 Freelist)\<lparr>refs_num := 1\<rparr>"
  have po: "page_validate (page_data ?po) = PageSuccess" "page_kind (page_data ?po) = Freelist"
    "read_freelist_links (page_data ?po) = (0, 0)" "page_num (page_data ?po) = 7"
    using page_initialize_validates page_initialize_fields(2,4) zero_links by (simp_all add: make_page_def)
  have pg: "pager_is_open freelist_pager" "7 = freelist_head_page_num (db_header freelist_pager)" "(7 :: u32) \<noteq> 0" "(5 :: u32) \<noteq> 0"
    "(5 :: u32) \<noteq> 7" "5 < db_page_count (db_header freelist_pager)" "unat (5 :: u32) < 256"
    by (simp_all add: freelist_pager_def Let_def)
  obtain r held' pg' img where f: "free_page good_io (\<lambda>_. 0) Map.empty freelist_pager 5 = Inr (r, held', pg')"
    "mut_status r = Pg_Success"
    "\<lparr>effect_kind = EffectWrite, effect_page_num = 7, after_image = img\<rparr> \<in> set (mut_effects r)"
    "effect_ok \<lparr>effect_kind = EffectWrite, effect_page_num = 7, after_image = img\<rparr>"
    "\<forall>lg rs f f' un la pg2. log_holds lg rs \<and> (\<forall>r\<in>set rs. decodable r) \<and> last_image 7 rs = Some img \<and>
       aries_recovery_redo (\<lambda>_ _. None) good_io lg (Some f) Map.empty 0 = (Inr (), Some f', un, la) \<and>
       db_file pg2 = Some f' \<and> 0 \<le> page_int 7 \<and> page_int 7 < page_int (db_page_count (db_header pg2)) \<longrightarrow>
       read_page_from_disk good_io pg2 (page_int 7) = Inl Pg_PageCorrupt"
    using freed_page_unreadable_after_redo[OF c(1,3,4,2) pg po, of good_io "\<lambda>_. 0"]
    by (elim exE conjE) (rule that, assumption+)
  from log_with_effect[OF f(4)] obtain lg q where lg: "log_holds lg [q]" "decodable q" "last_image 7 [q] = Some img" by auto
  have io: "io_open good_io" "io_sync good_io" and dec: "\<forall>x\<in>set [q]. decodable x" using lg(2) by (simp_all add: good_io_def)
  obtain f' un la where run: "aries_recovery_redo (\<lambda>_ _. None) good_io lg (Some empty_file) Map.empty 0 = (Inr (), Some f', un, la)"
    using redo_run[OF lg(1) dec io, of empty_file] by (auto simp: Let_def)
  let ?pg2 = "freelist_pager\<lparr>db_file := Some f'\<rparr>"
  have "read_page_from_disk good_io ?pg2 (page_int 7) = Inl Pg_PageCorrupt"
    using f(5)[rule_format, of lg "[q]" empty_file f' un la ?pg2] lg dec run
    by (simp add: freelist_pager_def Let_def page_int_def)
  then show ?thesis using f(1,2) run by (intro exI conjI) (auto intro: refl)
qed

end
