(* ===== verification/Spec2Isabelle.thy ===== *)
theory Spec2Isabelle
  imports TxnLifecycle NetCodec PageCodec RaftReplication BTreePage PageLatch Recovery
begin

text \<open>
  A verification library for StoneleafDB, a key-value store with a write-ahead log, strict two-phase
  locking, a page cache over one database file, and Raft replication.  Source files are named
  relative to the directory \<open>src/src\<close> of the repository.

  \<^bold>\<open>Parts and how they interact.\<close>  A client sends commands over a socket.  A transaction takes
  key locks from the lock manager, logs its actions in the write-ahead log and changes B-tree
  pages in the page cache under page latches.  The pager writes a page to the database file only
  behind its log record.  Recovery replays the log after a crash.  Raft nodes elect a leader and
  replicate a log of mutations, kept in files of the same format.

  \<^bold>\<open>Conventions.\<close>  A byte string is a list of 8-bit words; integers keep their width and wrap.
  An exception is the left value of a sum; \<open>assert\<close>, \<open>abort\<close> and accesses outside a buffer are
  values of fault types of their own.  A file is its bytes together with how many of them are
  forced to disk.  Failing system calls, clocks, random draws, and the order of unordered
  containers are arguments, so the theorems hold for every behaviour of them.  What runs under
  one mutex is one step; interleavings are sequences of such steps.

  \<^bold>\<open>Theories.\<close>
  \<^item> \<open>Prelude\<close>: results, bytes, shared lemmas.  \<open>Endian\<close>, \<open>Crc32c\<close>: \<open>encoding/Endian.cpp\<close> and
    \<open>encoding/Crc32c.cpp\<close>.
  \<^item> \<open>KeyCodec\<close>, \<open>ValueCodec\<close>, \<open>NetCodec\<close>: keys, values and client packets.  Round trips, the total
    order of keys, and that a packet decodes exactly when it is an encoding.
  \<^item> \<open>WaitForGraph\<close>, \<open>Transactions\<close>, \<open>LockManager\<close>, \<open>LockProtocol\<close>: \<open>TransactionManager/\<close> and
    \<open>LockManager/\<close>.  The graph stays acyclic, owners and records of locks agree, no reachable
    state is a deadlock, releasing never fails.
  \<^item> \<open>TxnLifecycle\<close>: begin, actions, commit and abort of \<open>TransactionManager.cpp\<close>.  A commit is durable
    before locks are released, an abort ends and compensates each action once, ids are fresh.
  \<^item> \<open>WalRecord\<close>, \<open>WalPayload\<close>: the record and payload codecs and \<open>PendingBTreeAction.cpp\<close>.
    Bijections, and detection of damage.
  \<^item> \<open>LogStore\<close>, \<open>Segment\<close>, \<open>SegmentDir\<close>, \<open>WalLog\<close>, \<open>WalDurability\<close>: \<open>Log/\<close> and \<open>storage/Index.cpp\<close>.
    The log is a sequence, what is forced survives a crash, a failed append is recoverable.
    \<open>Segment\<close> is generic in the record codec and serves both logs.
  \<^item> \<open>PageCodec\<close>, \<open>BTreePage\<close>: page images and decoded B-tree pages.  A leaf is a finite map, the
    binary search is a linear search, pages that fit are read back as written.
  \<^item> \<open>DLList\<close>, \<open>PageCache\<close>, \<open>PageLatch\<close>, \<open>Pager\<close>, \<open>PagerSafety\<close>: \<open>containers/DLList.cpp\<close>, \<open>PCache.cpp\<close>,
    \<open>PageLatchManager.cpp\<close> and \<open>Pager.cpp\<close>.  Eviction follows the recency rule, latches exclude,
    loading a page changes no page as its users see it, pages are written behind their record.
  \<^item> \<open>Recovery\<close>: analysis and redo of \<open>Recovery.cpp\<close>.  Redo ends and leaves the last logged image of
    every page.
  \<^item> \<open>RaftEntry\<close>, \<open>RaftLog\<close>, \<open>NodeAddress\<close>, \<open>RaftHardState\<close>, \<open>RaftState\<close>, \<open>RaftProto\<close>, \<open>RaftNode\<close>,
    \<open>RaftCluster\<close>, \<open>RaftReplication\<close>: \<open>Raft/\<close>.  The log refines a list, at most one leader per term
    across crashes and failing writes, an accepted request replicates the leader's entries.

  Several theorems state what the code does where it differs from what it means to do: a crash
  at a segment rollover or inside a truncation, records taken for durable at reopening, a vote
  given twice after a restart, a suffix lost to a rejected request, a pair larger than a page,
  a header frame evicted during allocation, and a freed page unreadable after redo.

  \<^bold>\<open>Bounds and loops.\<close>  Loops are structural, or \<open>function\<close>s with a termination proof.  One model uses
  fuel: the victim scan of the page cache visits at most as many nodes as its list has, and
  \<open>find_victim_scan\<close> proves that this is enough on a consistent cache.  The backward walk of an abort may not end on a damaged log, so it is a partial function
  into \<open>option\<close>; the theorem on abort proves that it returns.  LSNs have 64 bits, and theorems
  that append assume that they do not run out.

  \<^bold>\<open>Assumptions to know.\<close>  The undo executor of an abort is an argument with a stated contract: it
  appends one compensation per action and changes the log in no other way.  The pager's
  operations run one after the other.  The bytes of a protobuf message are not modelled.

  \<^bold>\<open>Not modelled.\<close>  The B-tree algorithm over the pager (\<open>containers/BTree.cpp\<close>), its cursor, and what
  is defined through it: the key store, the Raft applier, the command server and the undo pass of
  recovery.  These have behaviour worth modelling and are the next step; nothing here speaks
  about them.  File locks between processes (\<open>LockMgr.cpp\<close>), which no other source calls.  Of the
  server start-up, the log configuration and the deletion of old segments.  Sockets, threads,
  signals and gRPC channels, which are calls into libraries.
\<close>

end
